(* ===== verification/Prelude.thy ===== *)
theory Prelude
  imports Main "HOL-Library.Word" "HOL-Library.Log_Nat"
begin

unbundle bit_operations_syntax

text \<open>
  Prelude: the JavaScript machine the rest of the library is written against.

  \<^item> numbers that go through a bitwise operator are \<open>32 word\<close> values (\<open>ToUint32\<close>,
    the source's \<open>x >>> 0\<close>); numbers that are stored in a typed array are \<open>8 word\<close> values;
    UTF-16 code units are \<open>16 word\<close> values;
  \<^item> a \<open>Uint8Array\<close> is a list of bytes: an assignment out of range is ignored (which is
    what \<open>xs[i := v]\<close> does), a read out of range is \<open>undefined\<close> (\<open>None\<close>), whose
    bitwise value is 0 and which compares as neither smaller nor greater than a number;
  \<^item> \<open>throw\<close> is the left side of a sum.

  The lemmas are about writing a block of bytes into an array (\<open>blit\<close>) and about reading
  bit groups as numbers; the component theories rest on them.
\<close>

named_theorems blit_simps "facts about blocks of bytes written to a typed array"
named_theorems word_arith "facts that read bit groups of words as numbers"

type_synonym byte = "8 word"
type_synonym u16 = "16 word"
type_synonym u32 = "32 word"
type_synonym u64 = "64 word"

text \<open>A JavaScript string is a sequence of UTF-16 code units.\<close>

type_synonym js_string = "u16 list"

datatype js_error =
    RangeError nat nat nat   \<comment> \<open>index out of range: pos + writeLength > len\<close>
  | Error string
  | TypeError string
  | ProtocolError string

definition to_uint32 :: "int \<Rightarrow> u32" where
  "to_uint32 v = word_of_int v"

text \<open>
  A JavaScript number is a binary64 value: an integer result is rounded to 53 significant
  bits, ties to even. Sums and products below \<open>2 ^ 53\<close> are exact.
\<close>

definition to_double :: "int \<Rightarrow> int" where
  "to_double v =
     (let a = nat \<bar>v\<bar>; s = floorlog 2 a - 53; q = a div 2 ^ s; r = a mod 2 ^ s;
          q' = (if 2 * r > 2 ^ s \<or> (2 * r = 2 ^ s \<and> odd q) then q + 1 else q)
      in sgn v * int (q' * 2 ^ s))"

text \<open>Names are made of ASCII characters, strings in values of UTF-16 units.\<close>

definition js_text :: "string \<Rightarrow> js_string" where
  "js_text s = map (\<lambda>c. word_of_nat (of_char c)) s"

definition of_text :: "js_string \<Rightarrow> string" where
  "of_text s = map (\<lambda>u. char_of (unat u)) s"

lemma unat_of_char: "unat (word_of_nat (of_char c) :: u16) = of_char c"
proof -
  have lt: "(of_char c :: nat) < 256" by simp
  have "(of_char c :: nat) mod 65536 = of_char c" by (rule mod_less) (rule less_trans[OF lt], simp)
  then show ?thesis by (simp add: unat_of_nat take_bit_eq_mod)
qed

lemma of_text [simp]: "of_text (js_text s) = s"
  by (simp add: of_text_def js_text_def comp_def unat_of_char)

lemma js_text_eq [simp]: "js_text s = js_text t \<longleftrightarrow> s = t"
  by (metis of_text)

text \<open>\<open>\w\<close> of a regular expression.\<close>

definition word_char :: "char \<Rightarrow> bool" where
  "word_char c \<longleftrightarrow>
     (let n = (of_char c :: nat)
      in 48 \<le> n \<and> n \<le> 57 \<or> 65 \<le> n \<and> n \<le> 90 \<or> n = 95 \<or> 97 \<le> n \<and> n \<le> 122)"

definition js_get :: "'a list \<Rightarrow> nat \<Rightarrow> 'a option" where
  "js_get xs i = (if i < length xs then Some (xs ! i) else None)"

primrec bits_of :: "byte option \<Rightarrow> u32" where
  "bits_of None = 0"
| "bits_of (Some b) = ucast b"

primrec lt128 :: "byte option \<Rightarrow> bool" where
  "lt128 None = False"
| "lt128 (Some b) = (b < 128)"

fun blit :: "'a list \<Rightarrow> nat \<Rightarrow> 'a list \<Rightarrow> 'a list" where
  "blit buf pos [] = buf"
| "blit buf pos (x # xs) = blit (buf[pos := x]) (Suc pos) xs"


section \<open>Exact numbers\<close>

lemma to_double_exact:
  assumes "\<bar>v\<bar> < 2 ^ 53"
  shows "to_double v = v"
proof -
  have "floorlog 2 (nat \<bar>v\<bar>) \<le> 53"
    using assms by (intro floorlog_leI) (auto simp: nat_less_iff)
  then show ?thesis
    by (simp add: to_double_def sgn_mult_abs)
qed

section \<open>Blocks of bytes in a typed array\<close>

lemma length_blit [simp, blit_simps]: "length (blit buf pos xs) = length buf"
  by (induction buf pos xs rule: blit.induct) auto

lemma blit_append [blit_simps]:
  "blit buf pos (xs @ ys) = blit (blit buf pos xs) (pos + length xs) ys"
  by (induction buf pos xs rule: blit.induct) auto

lemma blit_split:
  "pos + length xs \<le> length buf \<Longrightarrow>
   blit buf pos xs = take pos buf @ xs @ drop (pos + length xs) buf"
proof (induction buf pos xs rule: blit.induct)
  case (1 buf pos)
  then show ?case by simp
next
  case (2 buf pos x xs)
  then have "blit buf pos (x # xs) =
      take (Suc pos) (buf[pos := x]) @ xs @ drop (Suc pos + length xs) (buf[pos := x])"
    by simp
  also have "take (Suc pos) (buf[pos := x]) = take pos buf @ [x]"
    using 2(2) by (simp add: take_Suc_conv_app_nth)
  also have "drop (Suc pos + length xs) (buf[pos := x]) = drop (Suc pos + length xs) buf"
    by simp
  finally show ?case by simp
qed

text \<open>A write that starts after a prefix leaves the prefix alone.\<close>

lemma blit_prefix:
  "length pre = pos \<Longrightarrow> length xs \<le> length rest \<Longrightarrow>
   blit (pre @ rest) pos xs = pre @ xs @ drop (length xs) rest"
  by (subst blit_split) auto

lemma js_get_in [simp]: "i < length xs \<Longrightarrow> js_get xs i = Some (xs ! i)"
  by (simp add: js_get_def)

lemma js_get_out [simp]: "length xs \<le> i \<Longrightarrow> js_get xs i = None"
  by (simp add: js_get_def)

lemma js_get_append [simp]:
  "js_get (xs @ ys) i = (if i < length xs then js_get xs i else js_get ys (i - length xs))"
  by (auto simp: js_get_def nth_append)

section \<open>Bit groups as numbers\<close>

lemma unat_and_mask:
  fixes w :: "'a::len word"
  shows "n \<le> LENGTH('a) \<Longrightarrow> unat (w AND mask n) = unat w mod 2 ^ n"
  by (simp flip: take_bit_eq_mask take_bit_eq_mod add: unsigned_take_bit_eq)

lemma and_127 [word_arith]: "unat (w AND 127 :: u32) = unat w mod 128"
  using unat_and_mask[of 7 w] by (simp add: mask_eq_exp_minus_1)

lemma and_15 [word_arith]: "unat (w AND 15 :: u32) = unat w mod 16"
  using unat_and_mask[of 4 w] by (simp add: mask_eq_exp_minus_1)

lemma unat_drop_bit: "unat (drop_bit n w) = unat w div 2 ^ n"
  for w :: "'a::len word"
  by (simp only: unsigned_drop_bit_eq) (simp add: drop_bit_eq_div take_bit_eq_mod)

lemma unat_push_bit:
  fixes w :: "'a::len word"
  assumes "unat w * 2 ^ n < 2 ^ LENGTH('a)"
  shows "unat (push_bit n w) = unat w * 2 ^ n"
  using assms by (simp only: unsigned_push_bit_eq) (simp add: push_bit_eq_mult take_bit_eq_mod)

text \<open>Setting bits above those of a number adds.\<close>

lemma or_push_bit_add:
  fixes v w :: "'a::len word"
  assumes "unat v < 2 ^ k"
  shows "v OR push_bit k w = v + push_bit k w"
proof -
  have "\<not> bit v n \<or> \<not> bit (push_bit k w) n" for n
  proof (cases "n < k")
    case True
    then show ?thesis by (simp add: bit_push_bit_iff)
  next
    case False
    have "take_bit k (unat v) = unat v"
      using assms by (simp add: take_bit_nat_eq_self)
    then have "\<not> bit (unat v) n"
      using False by (metis bit_take_bit_iff)
    then show ?thesis by (simp add: bit_unsigned_iff possible_bit_def bit_imp_le_length)
  qed
  then show ?thesis by (simp add: disjunctive_add)
qed

lemma unat_or_push_bit:
  fixes v w :: "'a::len word"
  assumes "unat v < 2 ^ k" and "unat v + unat w * 2 ^ k < 2 ^ LENGTH('a)"
  shows "unat (v OR push_bit k w) = unat v + unat w * 2 ^ k"
proof -
  have p: "unat (push_bit k w) = unat w * 2 ^ k"
    using assms(2) by (intro unat_push_bit) simp
  have "unat (v OR push_bit k w) = unat (v + push_bit k w)"
    by (simp add: or_push_bit_add[OF assms(1)])
  also have "\<dots> = unat v + unat w * 2 ^ k"
    using assms(2) p by (simp add: unat_word_ariths)
  finally show ?thesis .
qed

lemma uint_push_bit:
  fixes w :: "'a::len word"
  assumes "k \<le> LENGTH('a)"
  shows "uint (push_bit k w) = (uint w mod 2 ^ (LENGTH('a) - k)) * 2 ^ k"
proof -
  have "uint (push_bit k w) = (uint w * 2 ^ k) mod 2 ^ LENGTH('a)"
    by (simp only: unsigned_push_bit_eq) (simp add: push_bit_eq_mult take_bit_eq_mod)
  also have "(2::int) ^ LENGTH('a) = 2 ^ (LENGTH('a) - k) * 2 ^ k"
    using assms by (simp flip: power_add)
  finally show ?thesis by (simp only: mod_mult_mult2)
qed

lemma uint_drop_bit: "uint (drop_bit k w) = uint w div 2 ^ k"
  for w :: "'a::len word"
  by (simp only: unsigned_drop_bit_eq) (simp add: drop_bit_eq_div take_bit_eq_mod)

lemma uint_or_push_bit:
  fixes v w :: "'a::len word"
  assumes "uint v < 2 ^ k" and "k \<le> LENGTH('a)"
  shows "uint (v OR push_bit k w) = uint v + (uint w mod 2 ^ (LENGTH('a) - k)) * 2 ^ k"
proof -
  let ?m = "uint w mod 2 ^ (LENGTH('a) - k)"
  have "int (unat v) < int (2 ^ k)" using assms(1) by simp
  then have v: "unat v < 2 ^ k" by (simp only: of_nat_less_iff)
  have "uint (v OR push_bit k w) = uint (v + push_bit k w)"
    by (simp only: or_push_bit_add[OF v])
  also have "\<dots> = (uint v + ?m * 2 ^ k) mod 2 ^ LENGTH('a)"
    unfolding uint_word_ariths(1) uint_push_bit[OF assms(2)] ..
  also have "\<dots> = uint v + ?m * 2 ^ k"
  proof (rule mod_pos_pos_trivial)
    have "?m + 1 \<le> 2 ^ (LENGTH('a) - k)" by (simp add: add1_zle_eq)
    then have "(?m + 1) * 2 ^ k \<le> 2 ^ (LENGTH('a) - k) * 2 ^ k" by (rule mult_right_mono) simp
    also have "\<dots> = (2::int) ^ LENGTH('a)" using assms(2) by (simp flip: power_add)
    finally show "uint v + ?m * 2 ^ k < 2 ^ LENGTH('a)"
      using assms(1) by (simp only: distrib_right mult_1)
  qed simp
  finally show ?thesis .
qed

lemma and_255 [word_arith]: "unat (w AND 255 :: u32) = unat w mod 256"
  using unat_and_mask[of 8 w] by (simp add: mask_eq_exp_minus_1)

section \<open>Widening and narrowing\<close>

lemma unat_u16_lt: "unat (c :: u16) < 65536"
proof -
  have "unat c < 2 ^ LENGTH(16)" by (rule unsigned_less)
  then show ?thesis by simp
qed

lemma unat_u8_lt: "unat (b :: byte) < 256"
proof -
  have "unat b < 2 ^ LENGTH(8)" by (rule unsigned_less)
  then show ?thesis by simp
qed

lemma unat_char [word_arith]: "unat (ucast (c :: u16) :: u32) = unat c"
  using unat_u16_lt[of c] by (simp add: unsigned_ucast_eq take_bit_eq_mod)

lemma unat_byte [word_arith]: "unat (ucast (w :: u32) :: byte) = unat w mod 256"
  by (simp add: unsigned_ucast_eq take_bit_eq_mod)

lemma unat_byte_up [word_arith]: "unat (ucast (b :: byte) :: u32) = unat b"
  using unat_u8_lt[of b] by (simp add: unsigned_ucast_eq take_bit_eq_mod)

lemma unat_char_down [word_arith]: "unat (ucast (w :: u32) :: u16) = unat w mod 65536"
  by (simp add: unsigned_ucast_eq take_bit_eq_mod)

lemma char_eqI: "unat (w :: u32) = unat (c :: u16) \<Longrightarrow> ucast w = c"
  using unat_u16_lt[of c] by (intro word_unat_eq_iff[THEN iffD2]) (simp add: unat_char_down)

lemma and_63 [word_arith]: "unat (w AND 63 :: u32) = unat w mod 64"
  using unat_and_mask[of 6 w] by (simp add: mask_eq_exp_minus_1)

lemma and_31 [word_arith]: "unat (w AND 31 :: u32) = unat w mod 32"
  using unat_and_mask[of 5 w] by (simp add: mask_eq_exp_minus_1)

lemma and_7 [word_arith]: "unat (w AND 7 :: u32) = unat w mod 8"
  using unat_and_mask[of 3 w] by (simp add: mask_eq_exp_minus_1)

lemma and_1023 [word_arith]: "unat (w AND 1023 :: u32) = unat w mod 1024"
  using unat_and_mask[of 10 w] by (simp add: mask_eq_exp_minus_1)

lemma bit31: "bit (w :: u32) 31 \<longleftrightarrow> \<not> uint w < 2147483648"
proof -
  have lt: "uint w < 4294967296" using uint_lt2p[of w] by simp
  have "bit w 31 \<longleftrightarrow> odd (uint w div 2147483648)"
    using bit_uint_iff[of w 31] by (simp add: bit_iff_odd)
  moreover have "uint w div 2147483648 = (if uint w < 2147483648 then 0 else 1)"
    using lt by (auto intro: int_div_pos_eq[where r = "uint w - 2147483648"] simp: div_pos_pos_trivial)
  ultimately show ?thesis by auto
qed

lemma signed_drop_bit_small:
  assumes "unat (w :: u32) < 2147483648"
  shows "signed_drop_bit k w = drop_bit k w"
proof (rule bit_word_eqI)
  fix n assume n: "n < LENGTH(32)"
  have "int (unat w) < int 2147483648" using assms by (simp only: of_nat_less_iff)
  then have "\<not> bit w 31" by (simp add: bit31)
  then have "\<not> bit w m" if "31 \<le> m" for m
    using that bit_imp_le_length[of w m] by (cases "m = 31") auto
  then show "bit (signed_drop_bit k w) n = bit (drop_bit k w) n"
    using n by (auto simp: bit_signed_drop_bit_iff bit_drop_bit_eq)
qed

end
