(* ===== verification/Varint.thy ===== *)
theory Varint
  imports Prelude
begin

unbundle bit_operations_syntax

text \<open>
  The abstract specification of a varint: the little-endian base 128 digits of a number,
  every byte but the last with its top bit set. The writer's loops and the reader's unrolled
  code are both proved against it.
\<close>

fun varint :: "nat \<Rightarrow> byte list" where
  "varint n =
     (if n < 128 then [word_of_nat n]
      else word_of_nat (n mod 128 + 128) # varint (n div 128))"

declare varint.simps [simp del]

fun varint_size :: "nat \<Rightarrow> nat" where
  "varint_size n = (if n < 128 then 1 else Suc (varint_size (n div 128)))"

declare varint_size.simps [simp del]

lemma length_varint: "length (varint n) = varint_size n"
proof (induction n rule: varint.induct)
  case (1 n)
  then show ?case by (subst varint.simps, subst varint_size.simps) auto
qed

lemma varint_small: "n < 128 \<Longrightarrow> varint n = [word_of_nat n]"
  by (subst varint.simps) simp

lemma varint_big:
  "128 \<le> n \<Longrightarrow> varint n = word_of_nat (n mod 128 + 128) # varint (n div 128)"
  by (subst varint.simps) simp

lemma varint_size_pos: "0 < varint_size n"
  by (subst varint_size.simps) simp

lemma varint_nonempty: "varint n \<noteq> []"
  by (subst varint.simps) simp

lemma varint_size_le: "n < 128 ^ Suc k \<Longrightarrow> varint_size n \<le> Suc k"
proof (induction k arbitrary: n)
  case 0
  then show ?case by (subst varint_size.simps) simp
next
  case (Suc k)
  then have "varint_size (n div 128) \<le> Suc k" if "128 \<le> n"
    using that by (intro Suc.IH) (simp add: less_mult_imp_div_less mult.commute)
  then show ?case by (subst varint_size.simps) auto
qed

lemma varint_size_gt: "128 ^ k \<le> n \<Longrightarrow> k < varint_size n"
proof (induction k arbitrary: n)
  case 0
  then show ?case by (simp add: varint_size_pos)
next
  case (Suc k)
  have "(128::nat) \<le> 128 * 128 ^ k" by simp
  then have "128 \<le> n" using Suc.prems by (metis le_trans power_Suc)
  moreover have "128 ^ k \<le> n div 128"
    using Suc.prems by (simp add: less_eq_div_iff_mult_less_eq mult.commute)
  ultimately show ?case
    by (subst varint_size.simps) (use Suc.IH in auto)
qed

lemma varint_size_eq: "128 ^ k \<le> n \<Longrightarrow> n < 128 ^ Suc k \<Longrightarrow> varint_size n = Suc k"
  using varint_size_gt[of k n] varint_size_le[of n k] by simp

lemma varint_size_1: "n < 128 \<Longrightarrow> varint_size n = 1"
  by (subst varint_size.simps) simp

text \<open>The first byte tells whether the varint goes on, and its low bits.\<close>

lemma word_lt128: "n < 128 \<Longrightarrow> (word_of_nat n :: byte) < 128"
  by (simp add: word_less_nat_alt unat_of_nat)

lemma unat_low7: "n < 128 \<Longrightarrow> unat (word_of_nat n :: byte) = n"
  by (simp add: unat_of_nat)

lemma unat_low7_cont: "n < 128 \<Longrightarrow> unat (word_of_nat n + 128 :: byte) = n + 128"
  by (simp add: unat_word_ariths unat_of_nat)

lemma word_ge128: "n < 128 \<Longrightarrow> \<not> (word_of_nat n + 128 :: byte) < 128"
  by (simp add: word_less_nat_alt unat_low7_cont)

text \<open>Parsing the specification's varints back, for the round trip of the specification.\<close>

fun parse_varint :: "byte list \<Rightarrow> (nat \<times> byte list) option" where
  "parse_varint [] = None"
| "parse_varint (b # bs) =
     (if b < 128 then Some (unat b, bs)
      else map_option (\<lambda>(n, rest). (unat b - 128 + 128 * n, rest)) (parse_varint bs))"

lemma parse_varint_varint: "parse_varint (varint n @ rest) = Some (n, rest)"
proof (induction n rule: varint.induct)
  case (1 n)
  show ?case
  proof (cases "n < 128")
    case True
    then show ?thesis by (simp add: varint_small word_lt128 unat_low7)
  next
    case False
    with 1 have "parse_varint (varint (n div 128) @ rest) = Some (n div 128, rest)" by blast
    moreover have "n mod 128 < 128" by simp
    ultimately show ?thesis
      using False by (simp add: varint_big word_ge128 unat_low7_cont)
  qed
qed

lemma parse_varint_shorter: "parse_varint bs = Some (n, rest) \<Longrightarrow> length rest < length bs"
  by (induction bs arbitrary: n rest) (fastforce split: if_splits)+

end
