(* ===== verification/Utf8.thy ===== *)
theory Utf8
  imports Varint
begin

unbundle bit_operations_syntax

text \<open>
  \<open>util.utf8\<close> of protobuf.js: the byte length of a string, reading a byte range as a string
  and writing a string into a buffer. Strings are UTF-16 code units, so lone surrogates are
  ordinary values here and take three bytes.
  \<open>utf8_enc\<close> and \<open>utf8_dec\<close> are the specification: the bytes of a string and the string of
  some bytes, without buffers, offsets or chunks.
\<close>

text \<open>The bitwise value of an array element: \<open>undefined\<close> counts as 0.\<close>

definition low6 :: "byte list \<Rightarrow> nat \<Rightarrow> u32" where
  "low6 buf i = bits_of (js_get buf i) AND 63"

definition is_high :: "u16 \<Rightarrow> bool" where
  "is_high c \<longleftrightarrow> (ucast c :: u32) AND 0xFC00 = 0xD800"

definition is_low :: "u16 option \<Rightarrow> bool" where
  "is_low c \<longleftrightarrow> (case c of None \<Rightarrow> False | Some d \<Rightarrow> (ucast d :: u32) AND 0xFC00 = 0xDC00)"

fun utf8_length :: "js_string \<Rightarrow> nat" where
  "utf8_length [] = 0"
| "utf8_length (c # cs) =
     (if c < 128 then 1 + utf8_length cs
      else if c < 2048 then 2 + utf8_length cs
      else if is_high c \<and> is_low (js_get cs 0) then 4 + utf8_length (drop 1 cs)
      else 3 + utf8_length cs)"

definition code_point :: "u16 \<Rightarrow> u16 \<Rightarrow> u32" where
  "code_point c1 c2 =
     0x10000 + push_bit 10 (ucast c1 AND 0x03FF) + (ucast c2 AND 0x03FF)"

text \<open>The bytes \<open>write\<close> assigns, in order, for one character.\<close>

definition utf8_bytes1 :: "u16 \<Rightarrow> byte list" where
  "utf8_bytes1 c = [ucast c]"

definition utf8_bytes2 :: "u16 \<Rightarrow> byte list" where
  "utf8_bytes2 c = (let c1 = ucast c :: u32 in
     [ucast (drop_bit 6 c1 OR 192), ucast ((c1 AND 63) OR 128)])"

definition utf8_bytes3 :: "u16 \<Rightarrow> byte list" where
  "utf8_bytes3 c = (let c1 = ucast c :: u32 in
     [ucast (drop_bit 12 c1 OR 224), ucast ((drop_bit 6 c1 AND 63) OR 128),
      ucast ((c1 AND 63) OR 128)])"

definition utf8_bytes4 :: "u16 \<Rightarrow> u16 \<Rightarrow> byte list" where
  "utf8_bytes4 c d = (let c1 = code_point c d in
     [ucast (drop_bit 18 c1 OR 240), ucast ((drop_bit 12 c1 AND 63) OR 128),
      ucast ((drop_bit 6 c1 AND 63) OR 128), ucast ((c1 AND 63) OR 128)])"

text \<open>The result is the buffer and the offset after the last byte.\<close>

fun utf8_write :: "js_string \<Rightarrow> byte list \<Rightarrow> nat \<Rightarrow> byte list \<times> nat" where
  "utf8_write [] buf off = (buf, off)"
| "utf8_write (c # cs) buf off =
     (if c < 128 then utf8_write cs (blit buf off (utf8_bytes1 c)) (off + 1)
      else if c < 2048 then utf8_write cs (blit buf off (utf8_bytes2 c)) (off + 2)
      else if is_high c \<and> is_low (js_get cs 0) then
        utf8_write (drop 1 cs) (blit buf off (utf8_bytes4 c (hd cs))) (off + 4)
      else utf8_write cs (blit buf off (utf8_bytes3 c)) (off + 3))"

text \<open>\<open>chunk[i++] = v\<close> on an array of at least \<open>i\<close> elements.\<close>

definition js_set :: "'a list \<Rightarrow> nat \<Rightarrow> 'a \<Rightarrow> 'a list" where
  "js_set xs i v = (if i < length xs then xs[i := v] else xs @ [v])"

definition utf8_char2 :: "u32 \<Rightarrow> u32 \<Rightarrow> u16" where
  "utf8_char2 t b = ucast (push_bit 6 (t AND 31) OR b)"

definition utf8_char3 :: "u32 \<Rightarrow> u32 \<Rightarrow> u32 \<Rightarrow> u16" where
  "utf8_char3 t b1 b2 = ucast (push_bit 12 (t AND 15) OR push_bit 6 b1 OR b2)"

definition utf8_char4 :: "u32 \<Rightarrow> u32 \<Rightarrow> u32 \<Rightarrow> u32 \<Rightarrow> u16 \<times> u16" where
  "utf8_char4 t b1 b2 b3 =
     (let t' = (push_bit 18 (t AND 7) OR push_bit 12 b1 OR push_bit 6 b2 OR b3) - 0x10000
      in (ucast (0xD800 + signed_drop_bit 10 t'), ucast (0xDC00 + (t' AND 1023))))"

text \<open>One turn of the loop: the new chunk, its fill index and the new start.\<close>

definition utf8_read_step ::
    "byte list \<Rightarrow> nat \<Rightarrow> js_string \<Rightarrow> nat \<Rightarrow> js_string \<times> nat \<times> nat" where
  "utf8_read_step buf start chunk i =
     (let t = bits_of (js_get buf start)
      in if t < 128 then (js_set chunk i (ucast t), i + 1, start + 1)
         else if t > 191 \<and> t < 224 then
           (js_set chunk i (utf8_char2 t (low6 buf (start + 1))), i + 1, start + 2)
         else if t > 239 \<and> t < 365 then
           (case utf8_char4 t (low6 buf (start + 1)) (low6 buf (start + 2)) (low6 buf (start + 3)) of
              (c, d) \<Rightarrow> (js_set (js_set chunk i c) (i + 1) d, i + 2, start + 4))
         else (js_set chunk i (utf8_char3 t (low6 buf (start + 1)) (low6 buf (start + 2))),
               i + 1, start + 3))"

function utf8_read_loop ::
    "byte list \<Rightarrow> nat \<Rightarrow> nat \<Rightarrow> js_string list option \<Rightarrow> js_string \<Rightarrow> nat \<Rightarrow> js_string" where
  "utf8_read_loop buf start end parts chunk i =
     (if start < end then
        (case utf8_read_step buf start chunk i of (chunk', i', start') \<Rightarrow>
           if i' > 8191
           then utf8_read_loop buf start' end
                  (Some ((case parts of None \<Rightarrow> [] | Some ps \<Rightarrow> ps) @ [chunk'])) chunk' 0
           else utf8_read_loop buf start' end parts chunk' i')
      else case parts of
             Some ps \<Rightarrow> concat (if i \<noteq> 0 then ps @ [take i chunk] else ps)
           | None \<Rightarrow> take i chunk)"
  by pat_completeness auto
termination
  by (relation "measure (\<lambda>(buf, start, end, parts, chunk, i). end - start)")
    (auto simp: utf8_read_step_def Let_def split: if_splits prod.splits)

declare utf8_read_loop.simps [simp del]

definition utf8_read :: "byte list \<Rightarrow> nat \<Rightarrow> nat \<Rightarrow> js_string" where
  "utf8_read buf start end =
     (if end < start + 1 then [] else utf8_read_loop buf start end None [] 0)"

section \<open>The specification\<close>

fun utf8_enc :: "js_string \<Rightarrow> byte list" where
  "utf8_enc [] = []"
| "utf8_enc (c # cs) =
     (if c < 128 then utf8_bytes1 c @ utf8_enc cs
      else if c < 2048 then utf8_bytes2 c @ utf8_enc cs
      else if is_high c \<and> is_low (js_get cs 0) then utf8_bytes4 c (hd cs) @ utf8_enc (drop 1 cs)
      else utf8_bytes3 c @ utf8_enc cs)"

fun utf8_dec :: "byte list \<Rightarrow> js_string" where
  "utf8_dec [] = []"
| "utf8_dec (b # bs) =
     (let t = ucast b
      in if t < 128 then ucast t # utf8_dec bs
         else if t > 191 \<and> t < 224 then utf8_char2 t (low6 bs 0) # utf8_dec (drop 1 bs)
         else if t > 239 \<and> t < 365 then
           (case utf8_char4 t (low6 bs 0) (low6 bs 1) (low6 bs 2) of
              (c, d) \<Rightarrow> c # d # utf8_dec (drop 3 bs))
         else utf8_char3 t (low6 bs 0) (low6 bs 1) # utf8_dec (drop 2 bs))"

lemma utf8_bytes_length [simp]:
  "length (utf8_bytes1 c) = 1" "length (utf8_bytes2 c) = 2" "length (utf8_bytes3 c) = 3"
  "length (utf8_bytes4 c d) = 4"
  by (simp_all add: utf8_bytes1_def utf8_bytes2_def utf8_bytes3_def utf8_bytes4_def Let_def)

text \<open>\<open>length\<close> is the number of bytes, and \<open>write\<close> puts exactly those bytes at the offset.\<close>

lemma utf8_length_enc: "utf8_length s = length (utf8_enc s)"
  by (induction s rule: utf8_length.induct) auto

lemma utf8_write_enc: "utf8_write s buf off = (blit buf off (utf8_enc s), off + length (utf8_enc s))"
  by (induction s buf off rule: utf8_write.induct) (auto simp: blit_append)

section \<open>Round trip of one character\<close>

text \<open>The tag bits of a byte are added.\<close>

lemma or_tag:
  assumes "unat (w :: u32) < 64"
  shows "unat (w OR 128) = unat w + 128" "unat (w OR 192) = unat w + 192"
proof -
  have "unat (w OR push_bit 6 2) = unat w + unat (2 :: u32) * 2 ^ 6"
    using assms by (intro unat_or_push_bit) auto
  then show "unat (w OR 128) = unat w + 128" by simp
  have "unat (w OR push_bit 6 3) = unat w + unat (3 :: u32) * 2 ^ 6"
    using assms by (intro unat_or_push_bit) auto
  then show "unat (w OR 192) = unat w + 192" by simp
qed

lemma or_tag3: "unat (w :: u32) < 32 \<Longrightarrow> unat (w OR 224) = unat w + 224"
  using unat_or_push_bit[of w 5 7] by simp

lemma or_tag4: "unat (w :: u32) < 16 \<Longrightarrow> unat (w OR 240) = unat w + 240"
  using unat_or_push_bit[of w 4 15] by simp

text \<open>Masking removes the tag again.\<close>

lemma mod_tag:
  "k < 64 \<Longrightarrow> (k + 128) mod 64 = k" "k < 32 \<Longrightarrow> (k + 192) mod 32 = k"
  "k < 16 \<Longrightarrow> (k + 224) mod 16 = k" "k < 8 \<Longrightarrow> (k + 240) mod 8 = k" for k :: nat
  using mod_mult_self1[of k 2 64] mod_mult_self1[of k 6 32] mod_mult_self1[of k 14 16]
    mod_mult_self1[of k 30 8] by simp_all

lemma low6_tagged:
  assumes "unat (w :: u32) < 64"
  shows "unat (ucast (ucast (w OR 128) :: byte) AND 63 :: u32) = unat w"
  using assms by (simp add: word_arith or_tag mod_tag)

lemma low6_Cons [simp]:
  "low6 (b # bs) 0 = ucast b AND 63" "low6 (b # bs) (Suc i) = low6 bs i"
  by (simp_all add: low6_def js_get_def)


lemma char2_roundtrip:
  assumes "128 \<le> unat c" and "unat (c :: u16) < 2048"
  shows "\<exists>b1 b2. utf8_bytes2 c = [b1, b2] \<and> 191 < unat b1 \<and> unat b1 < 224
    \<and> utf8_char2 (ucast b1) (ucast b2 AND 63) = c"
proof -
  let ?x = "ucast c :: u32"
  let ?b1 = "ucast (drop_bit 6 ?x OR 192) :: byte" and ?b2 = "ucast ((?x AND 63) OR 128) :: byte"
  have q: "unat (drop_bit 6 ?x) = unat c div 64" by (simp add: unat_drop_bit word_arith)
  have qlt: "unat c div 64 < 32" using assms by simp
  have b1: "unat ?b1 = unat c div 64 + 192"
    using qlt q or_tag(2)[of "drop_bit 6 ?x"] by (simp add: word_arith)
  have b2: "unat (ucast ?b2 AND 63 :: u32) = unat c mod 64"
    using low6_tagged[of "?x AND 63"] by (simp add: word_arith)
  have t: "unat (ucast ?b1 AND 31 :: u32) = unat c div 64"
    unfolding and_31 unat_byte_up b1 using qlt by (rule mod_tag)
  have "unat (push_bit 6 (ucast ?b1 AND 31) OR (ucast ?b2 AND 63) :: u32)
      = unat c mod 64 + unat c div 64 * 2 ^ 6"
    unfolding or.commute[of "push_bit 6 _"] using qlt b2 t
    by (subst unat_or_push_bit) auto
  then have "utf8_char2 (ucast ?b1) (ucast ?b2 AND 63) = c"
    unfolding utf8_char2_def by (intro char_eqI) simp
  then show ?thesis using b1 qlt assms by (auto simp: utf8_bytes2_def Let_def)
qed


lemma char3_roundtrip:
  fixes c :: u16
  shows "\<exists>b1 b2 b3. utf8_bytes3 c = [b1, b2, b3] \<and> 224 \<le> unat b1 \<and> unat b1 < 240
    \<and> utf8_char3 (ucast b1) (ucast b2 AND 63) (ucast b3 AND 63) = c"
proof -
  let ?x = "ucast c :: u32"
  let ?b1 = "ucast (drop_bit 12 ?x OR 224) :: byte"
    and ?b2 = "ucast ((drop_bit 6 ?x AND 63) OR 128) :: byte"
    and ?b3 = "ucast ((?x AND 63) OR 128) :: byte"
  have q: "unat (drop_bit 12 ?x) = unat c div 4096" by (simp add: unat_drop_bit word_arith)
  have qlt: "unat c div 4096 < 16" using unat_u16_lt[of c] by simp
  have b1: "unat ?b1 = unat c div 4096 + 224"
    using qlt q or_tag3[of "drop_bit 12 ?x"] by (simp add: word_arith)
  have b2: "unat (ucast ?b2 AND 63 :: u32) = unat c div 64 mod 64"
    using low6_tagged[of "drop_bit 6 ?x AND 63"] by (simp add: word_arith unat_drop_bit)
  have b3: "unat (ucast ?b3 AND 63 :: u32) = unat c mod 64"
    using low6_tagged[of "?x AND 63"] by (simp add: word_arith)
  have t: "unat (ucast ?b1 AND 15 :: u32) = unat c div 4096"
    unfolding and_15 unat_byte_up b1 using qlt by (rule mod_tag)
  have "unat ((ucast ?b3 AND 63) OR push_bit 6 (ucast ?b2 AND 63) :: u32)
      = unat c mod 64 + (unat c div 64 mod 64) * 2 ^ 6"
    using b2 b3 by (subst unat_or_push_bit) (auto simp: mod_less_divisor less_le_trans)
  moreover have low: "unat c mod 64 + (unat c div 64 mod 64) * 2 ^ 6 = unat c mod 4096"
    using mod_mult2_eq[of "unat c" 64 64] by simp
  ultimately have "unat (((ucast ?b3 AND 63) OR push_bit 6 (ucast ?b2 AND 63))
      OR push_bit 12 (ucast ?b1 AND 15) :: u32) = unat c mod 4096 + unat c div 4096 * 2 ^ 12"
    using qlt t by (subst unat_or_push_bit) auto
  then have "utf8_char3 (ucast ?b1) (ucast ?b2 AND 63) (ucast ?b3 AND 63) = c"
    unfolding utf8_char3_def by (intro char_eqI) (simp add: or.commute or.left_commute or.assoc)
  then show ?thesis using b1 qlt by (auto simp: utf8_bytes3_def Let_def)
qed

lemma surrogate_div:
  assumes "(ucast c :: u32) AND 0xFC00 = T"
  shows "unat (c :: u16) div 1024 = unat T div 1024"
proof -
  let ?x = "ucast c :: u32"
  have "drop_bit 10 (0xFC00 :: u32) = 63" by simp
  then have "drop_bit 10 (?x AND 0xFC00) = drop_bit 10 ?x AND 63" by (simp only: drop_bit_and)
  then have "unat (drop_bit 10 T) = unat (drop_bit 10 ?x AND 63)" using assms by simp
  then have "unat T div 2 ^ 10 = unat c div 1024 mod 64"
    unfolding and_63 unat_drop_bit by (simp add: unat_char)
  moreover have "unat c div 1024 < 64" using unat_u16_lt[of c] by simp
  ultimately show ?thesis by simp
qed

lemma is_high_unat: "is_high c \<Longrightarrow> unat c = 0xD800 + unat c mod 1024"
  using surrogate_div[of c "0xD800"] div_mult_mod_eq[of "unat c" 1024]
  by (simp add: is_high_def del: div_mult_mod_eq)

lemma is_low_unat: "is_low (Some d) \<Longrightarrow> unat d = 0xDC00 + unat d mod 1024"
  using surrogate_div[of d "0xDC00"] div_mult_mod_eq[of "unat d" 1024]
  by (simp add: is_low_def del: div_mult_mod_eq)

lemma unat_code_point:
  "unat (code_point c d) = 65536 + unat c mod 1024 * 1024 + unat d mod 1024"
proof -
  let ?p = "push_bit 10 (ucast c AND 1023 :: u32)"
  have a: "unat (ucast c AND 1023 :: u32) = unat c mod 1024"
    and b: "unat (ucast d AND 1023 :: u32) = unat d mod 1024" by (simp_all add: word_arith)
  have p: "unat ?p = unat c mod 1024 * 1024"
    using unat_push_bit[of "ucast c AND 1023 :: u32" 10] a mod_less_divisor[of 1024 "unat c"] by simp
  have "unat (0x10000 + ?p) = 65536 + unat c mod 1024 * 1024"
    using p mod_less_divisor[of 1024 "unat c"] by (simp add: unat_word_ariths del: mod_less_divisor)
  then show ?thesis
    unfolding code_point_def
    using b mod_less_divisor[of 1024 "unat c"] mod_less_divisor[of 1024 "unat d"]
    by (simp add: unat_word_ariths(1) del: mod_less_divisor)
qed


text \<open>The four bytes of a number below \<open>2 ^ 21\<close> carry all its bits.\<close>

lemma bytes4_value:
  fixes x :: u32 and u :: nat
  assumes u: "unat x = u" and ult: "u < 2097152"
  defines "b1 \<equiv> ucast (drop_bit 18 x OR 240) :: byte"
    and "b2 \<equiv> ucast ((drop_bit 12 x AND 63) OR 128) :: byte"
    and "b3 \<equiv> ucast ((drop_bit 6 x AND 63) OR 128) :: byte"
    and "b4 \<equiv> ucast ((x AND 63) OR 128) :: byte"
  shows "240 \<le> unat b1"
    and "push_bit 18 (ucast b1 AND 7) OR push_bit 12 (ucast b2 AND 63)
      OR push_bit 6 (ucast b3 AND 63) OR (ucast b4 AND 63) = x"
proof -
  have q: "unat (drop_bit 18 x) = u div 262144" by (simp add: unat_drop_bit u)
  have qlt: "u div 262144 < 8" using ult by simp
  have b1: "unat b1 = u div 262144 + 240"
    unfolding b1_def unat_byte using qlt q or_tag4[of "drop_bit 18 x"] by simp
  then show "240 \<le> unat b1" by simp
  have b2: "unat (ucast b2 AND 63 :: u32) = u div 4096 mod 64"
    unfolding b2_def using low6_tagged[of "drop_bit 12 x AND 63"]
    by (simp add: and_63 unat_drop_bit u)
  have b3: "unat (ucast b3 AND 63 :: u32) = u div 64 mod 64"
    unfolding b3_def using low6_tagged[of "drop_bit 6 x AND 63"]
    by (simp add: and_63 unat_drop_bit u)
  have b4: "unat (ucast b4 AND 63 :: u32) = u mod 64"
    unfolding b4_def using low6_tagged[of "x AND 63"] by (simp add: and_63 u)
  have t: "unat (ucast b1 AND 7 :: u32) = u div 262144"
    unfolding and_7 unat_byte_up b1 using qlt by (rule mod_tag)
  have e: "u mod 64 + (u div 64 mod 64) * 2 ^ 6 = u mod 4096"
    "u mod 4096 + (u div 4096 mod 64) * 2 ^ 12 = u mod 262144"
    using mod_mult2_eq[of u 64 64] mod_mult2_eq[of u 4096 64] by simp_all
  have e3: "u mod 262144 + u div 262144 * 2 ^ 18 = u" by simp
  have m: "u mod 64 < 64" "u mod 4096 < 4096" "u mod 262144 < 262144" by simp_all
  have s1: "unat ((ucast b4 AND 63) OR push_bit 6 (ucast b3 AND 63) :: u32) = u mod 4096"
    using unat_or_push_bit[of "ucast b4 AND 63 :: u32" 6 "ucast b3 AND 63"] b3 b4 m e(1) by simp
  have s2: "unat (((ucast b4 AND 63) OR push_bit 6 (ucast b3 AND 63))
      OR push_bit 12 (ucast b2 AND 63) :: u32) = u mod 262144"
    using unat_or_push_bit[of "(ucast b4 AND 63) OR push_bit 6 (ucast b3 AND 63) :: u32" 12
        "ucast b2 AND 63"] s1 b2 m e(2) by simp
  have "unat ((((ucast b4 AND 63) OR push_bit 6 (ucast b3 AND 63))
      OR push_bit 12 (ucast b2 AND 63)) OR push_bit 18 (ucast b1 AND 7) :: u32) = unat x"
    using unat_or_push_bit[of "((ucast b4 AND 63) OR push_bit 6 (ucast b3 AND 63))
        OR push_bit 12 (ucast b2 AND 63) :: u32" 18 "ucast b1 AND 7"] s2 t m e3 ult u by simp
  then have "(((ucast b4 AND 63) OR push_bit 6 (ucast b3 AND 63))
      OR push_bit 12 (ucast b2 AND 63)) OR push_bit 18 (ucast b1 AND 7) = x"
    by (simp only: word_unat_eq_iff)
  then show "push_bit 18 (ucast b1 AND 7) OR push_bit 12 (ucast b2 AND 63)
      OR push_bit 6 (ucast b3 AND 63) OR (ucast b4 AND 63) = x"
    by (simp only: or.commute or.left_commute or.assoc)
qed

lemma char4_roundtrip:
  assumes "is_high c" and "is_low (Some d)"
  shows "\<exists>b1 b2 b3 b4. utf8_bytes4 c d = [b1, b2, b3, b4] \<and> 240 \<le> unat b1
    \<and> utf8_char4 (ucast b1) (ucast b2 AND 63) (ucast b3 AND 63) (ucast b4 AND 63) = (c, d)"
proof -
  let ?x = "code_point c d"
  let ?w = "unat c mod 1024 * 1024 + unat d mod 1024"
  have u: "unat ?x = 65536 + ?w" unfolding unat_code_point by simp
  have a: "unat c mod 1024 < 1024" and b: "unat d mod 1024 < 1024" by simp_all
  then have wlt: "?w < 1048576" by linarith
  then have ult: "65536 + ?w < 2097152" by simp
  have t: "unat (?x - 0x10000) = ?w"
    using u by (subst unat_sub) (auto simp: word_le_nat_alt)
  then have "unat (?x - 0x10000) < 2147483648" using wlt by linarith
  then have s: "unat (signed_drop_bit 10 (?x - 0x10000)) = unat c mod 1024"
    using t b by (simp add: signed_drop_bit_small unat_drop_bit)
  have h: "unat (0xD800 + signed_drop_bit 10 (?x - 0x10000)) = unat c"
    unfolding unat_word_ariths(1) s using is_high_unat[OF assms(1)] a by simp
  have l: "unat (0xDC00 + ((?x - 0x10000) AND 1023)) = unat d"
    unfolding unat_word_ariths(1) and_1023 t using is_low_unat[OF assms(2)] b by simp
  show ?thesis
    using bytes4_value[OF u ult] char_eqI[OF h] char_eqI[OF l]
    by (simp add: utf8_bytes4_def utf8_char4_def Let_def)
qed


section \<open>Round trip of a string\<close>

lemma lt128_up: "(ucast b :: u32) < 128 \<longleftrightarrow> unat (b :: byte) < 128"
  "(ucast b :: u32) > 191 \<longleftrightarrow> unat b > 191" "(ucast b :: u32) < 224 \<longleftrightarrow> unat b < 224"
  "(ucast b :: u32) > 239 \<longleftrightarrow> unat b > 239" "(ucast b :: u32) < 365"
  using unat_u8_lt[of b] by (simp_all add: word_less_nat_alt unat_byte_up)

lemma utf8_dec_1: "unat c < 128 \<Longrightarrow> utf8_dec (utf8_bytes1 c @ bs) = c # utf8_dec bs"
proof -
  assume c: "unat c < 128"
  have "unat (ucast c :: byte) = unat c"
    using c by (simp add: unsigned_ucast_eq take_bit_eq_mod)
  moreover have "(ucast (ucast (ucast c :: byte) :: u32) :: u16) = c"
    using c calculation by (intro char_eqI) (simp add: unat_byte_up)
  ultimately show ?thesis
    using c by (simp add: utf8_bytes1_def lt128_up Let_def)
qed

lemma utf8_dec_2:
  "128 \<le> unat c \<Longrightarrow> unat c < 2048 \<Longrightarrow> utf8_dec (utf8_bytes2 c @ bs) = c # utf8_dec bs"
  using char2_roundtrip[of c] by (auto simp: lt128_up Let_def)

lemma utf8_dec_3: "utf8_dec (utf8_bytes3 c @ bs) = c # utf8_dec bs"
  using char3_roundtrip[of c] by (auto simp: lt128_up Let_def eval_nat_numeral)

lemma utf8_dec_4:
  "is_high c \<Longrightarrow> is_low (Some d) \<Longrightarrow> utf8_dec (utf8_bytes4 c d @ bs) = c # d # utf8_dec bs"
  using char4_roundtrip[of c d] by (auto simp: lt128_up Let_def eval_nat_numeral)

lemma utf8_dec_enc: "utf8_dec (utf8_enc s) = s"
proof (induction s rule: utf8_enc.induct)
  case 1
  then show ?case by simp
next
  case (2 c cs)
  have c: "c < 128 \<longleftrightarrow> unat c < 128" "c < 2048 \<longleftrightarrow> unat c < 2048"
    by (simp_all add: word_less_nat_alt)
  have pair: "is_low (js_get cs 0) \<Longrightarrow> \<exists>d ds. cs = d # ds \<and> is_low (Some d)"
    by (cases cs) (auto simp: is_low_def js_get_def)
  show ?case
    using 2 pair by (auto simp: c utf8_dec_1 utf8_dec_2 utf8_dec_3 utf8_dec_4 not_less
        simp del: utf8_dec.simps)
qed

section \<open>The chunked loop\<close>

text \<open>
  \<open>read\<close> collects code units in an array and turns it into a string each time more than
  8191 units are in it, without emptying the array. \<open>read_turn\<close> relates one turn to the
  specification; \<open>cs\<close> is the character read.
\<close>

definition read_turn :: "byte list \<Rightarrow> nat \<Rightarrow> js_string \<Rightarrow> nat \<Rightarrow> js_string \<Rightarrow> js_string \<Rightarrow> nat \<Rightarrow> nat \<Rightarrow> bool" where
  "read_turn buf start chunk i cs chunk' i' start' \<longleftrightarrow>
     take i' chunk' = take i chunk @ cs \<and> i' = i + length cs \<and> i' \<le> length chunk' \<and>
     (length chunk = i \<longrightarrow> length chunk' = i') \<and> start < start' \<and>
     utf8_dec (drop start buf) = cs @ utf8_dec (drop start' buf) \<and> 1 \<le> length cs \<and> length cs \<le> 2"

lemma take_js_set: "i \<le> length xs \<Longrightarrow> take (Suc i) (js_set xs i v) = take i xs @ [v]"
  by (auto simp: js_set_def take_Suc_conv_app_nth)

lemma length_js_set:
  "i \<le> length xs \<Longrightarrow> Suc i \<le> length (js_set xs i v)"
  "length xs = i \<Longrightarrow> length (js_set xs i v) = Suc i"
  by (auto simp: js_set_def)

lemma low6_drop: "low6 (drop k buf) i = low6 buf (k + i)"
proof -
  have "js_get (drop k buf) i = js_get buf (k + i)"
    by (cases "k + i < length buf") (auto simp: js_get_def)
  then show ?thesis by (simp add: low6_def)
qed

lemma utf8_dec_drop:
  assumes "start < length buf"
  shows "utf8_dec (drop start buf) =
    (let t = bits_of (js_get buf start)
     in if t < 128 then ucast t # utf8_dec (drop (start + 1) buf)
        else if t > 191 \<and> t < 224 then
          utf8_char2 t (low6 buf (start + 1)) # utf8_dec (drop (start + 2) buf)
        else if t > 239 \<and> t < 365 then
          (case utf8_char4 t (low6 buf (start + 1)) (low6 buf (start + 2)) (low6 buf (start + 3)) of
             (c, d) \<Rightarrow> c # d # utf8_dec (drop (start + 4) buf))
        else utf8_char3 t (low6 buf (start + 1)) (low6 buf (start + 2))
               # utf8_dec (drop (start + 3) buf))"
proof -
  have "drop start buf = buf ! start # drop (Suc start) buf"
    using assms by (simp add: Cons_nth_drop_Suc)
  moreover have "drop k (drop (Suc start) buf) = drop (start + Suc k) buf" for k
    by (simp add: add.commute)
  ultimately show ?thesis
    using assms by (simp add: low6_drop Let_def add.commute eval_nat_numeral split: prod.split)
qed

lemma utf8_read_step_turn:
  assumes "start < length buf" and "i \<le> length chunk"
    and "utf8_read_step buf start chunk i = (chunk', i', start')"
  shows "\<exists>cs. read_turn buf start chunk i cs chunk' i' start'"
proof -
  let ?t = "bits_of (js_get buf start)"
  obtain c d where p: "utf8_char4 ?t (low6 buf (start + 1)) (low6 buf (start + 2))
      (low6 buf (start + 3)) = (c, d)" by fastforce
  define cs where "cs =
     (if ?t < 128 then [ucast ?t]
      else if ?t > 191 \<and> ?t < 224 then [utf8_char2 ?t (low6 buf (start + 1))]
      else if ?t > 239 \<and> ?t < 365 then [c, d]
      else [utf8_char3 ?t (low6 buf (start + 1)) (low6 buf (start + 2))])"
  have l1: "Suc i \<le> length (js_set chunk i v)" for v
    using assms(2) by (rule length_js_set)
  have "read_turn buf start chunk i cs chunk' i' start'"
    using assms(3) unfolding read_turn_def utf8_dec_drop[OF assms(1)] p
    by (auto simp: utf8_read_step_def Let_def p[simplified] cs_def take_js_set[OF assms(2)]
        take_js_set[OF l1] length_js_set(1)[OF assms(2)] length_js_set(1)[OF l1]
        length_js_set(2) split: if_splits)
  then show ?thesis ..
qed


lemma loop_step:
  assumes "start < length buf" and "utf8_read_step buf start chunk i = (chunk', i', start')"
  shows "utf8_read_loop buf start (length buf) parts chunk i =
    (if i' > 8191
     then utf8_read_loop buf start' (length buf)
            (Some ((case parts of None \<Rightarrow> [] | Some ps \<Rightarrow> ps) @ [chunk'])) chunk' 0
     else utf8_read_loop buf start' (length buf) parts chunk' i')"
  using assms by (subst utf8_read_loop.simps) simp

lemma loop_done:
  "\<not> start < length buf \<Longrightarrow> utf8_read_loop buf start (length buf) parts chunk i =
    (case parts of Some ps \<Rightarrow> concat (if i \<noteq> 0 then ps @ [take i chunk] else ps)
     | None \<Rightarrow> take i chunk)"
  by (subst utf8_read_loop.simps) simp

text \<open>While no flush happens, the loop adds the decoded string to what it has.\<close>

lemma loop_no_flush:
  assumes "i \<le> length chunk" and "i + length (utf8_dec (drop start buf)) \<le> 8191"
  shows "utf8_read_loop buf start (length buf) parts chunk i =
    concat (case parts of None \<Rightarrow> [] | Some ps \<Rightarrow> ps) @ take i chunk @ utf8_dec (drop start buf)"
  using assms
proof (induction "length buf - start" arbitrary: start chunk i rule: less_induct)
  case less
  show ?case
  proof (cases "start < length buf")
    case False
    then show ?thesis by (auto simp: loop_done split: option.splits)
  next
    case True
    obtain chunk' i' start' where st: "utf8_read_step buf start chunk i = (chunk', i', start')"
      by (cases "utf8_read_step buf start chunk i")
    obtain cs where t: "read_turn buf start chunk i cs chunk' i' start'"
      using utf8_read_step_turn[OF True less.prems(1) st] by blast
    then have "i' + length (utf8_dec (drop start' buf)) \<le> 8191" "i' \<le> length chunk'"
      "start < start'"
      using less.prems(2) by (auto simp: read_turn_def)
    then have "utf8_read_loop buf start' (length buf) parts chunk' i' =
      concat (case parts of None \<Rightarrow> [] | Some ps \<Rightarrow> ps) @ take i' chunk' @ utf8_dec (drop start' buf)"
      using True by (intro less.hyps) auto
    then show ?thesis
      using t \<open>i' + _ \<le> 8191\<close> by (auto simp: loop_step[OF True st] read_turn_def)
  qed
qed

text \<open>One flush is harmless: the chunk is exactly full, and a second one does not follow.\<close>

lemma loop_first_flush:
  assumes "length chunk = i" and "i \<le> 8191" and "i + length (utf8_dec (drop start buf)) < 16384"
  shows "utf8_read_loop buf start (length buf) None chunk i = chunk @ utf8_dec (drop start buf)"
  using assms
proof (induction "length buf - start" arbitrary: start chunk i rule: less_induct)
  case less
  show ?case
  proof (cases "start < length buf")
    case False
    then show ?thesis using less.prems by (simp add: loop_done)
  next
    case True
    obtain chunk' i' start' where st: "utf8_read_step buf start chunk i = (chunk', i', start')"
      by (cases "utf8_read_step buf start chunk i")
    obtain cs where t: "read_turn buf start chunk i cs chunk' i' start'"
      using utf8_read_step_turn[OF True _ st] less.prems(1) by auto
    then have full: "length chunk' = i'" "chunk' = chunk @ cs" "start < start'"
      "utf8_dec (drop start buf) = cs @ utf8_dec (drop start' buf)" "i' = i + length cs"
      using less.prems(1) by (auto simp: read_turn_def)
    show ?thesis
    proof (cases "i' > 8191")
      case True
      then have "0 + length (utf8_dec (drop start' buf)) \<le> 8191"
        using full less.prems(3) by simp
      then show ?thesis
        using True full loop_step[OF \<open>start < length buf\<close> st, of None]
          loop_no_flush[of 0 chunk' start' buf "Some [chunk']"] by simp
    next
      case False
      then have "utf8_read_loop buf start' (length buf) None chunk' i' = chunk' @ utf8_dec (drop start' buf)"
        using full less.prems True by (intro less.hyps) auto
      then show ?thesis using False full by (simp add: loop_step[OF True st])
    qed
  qed
qed

lemma utf8_read_dec:
  assumes "length (utf8_dec buf) < 16384"
  shows "utf8_read buf 0 (length buf) = utf8_dec buf"
  using loop_first_flush[of "[]" 0 0 buf] assms by (auto simp: utf8_read_def)

text \<open>C38 UTF-8 round trip: for every UTF-16 string of fewer than 16384 code units (paired, lone
  or reversed surrogates included), \<open>write\<close> puts exactly \<open>length\<close> bytes at the offset and
  \<open>read\<close> of those bytes is the string, although it collects units in chunks of 8192.\<close>

theorem utf8_roundtrip:
  assumes "length s < 16384" and "off + utf8_length s \<le> length buf"
  shows "snd (utf8_write s buf off) = off + utf8_length s \<and>
    utf8_read (take (utf8_length s) (drop off (fst (utf8_write s buf off)))) 0 (utf8_length s) = s"
proof -
  have "take (utf8_length s) (drop off (blit buf off (utf8_enc s))) = utf8_enc s"
    using assms(2) by (simp add: blit_split utf8_length_enc)
  then show ?thesis
    using utf8_read_dec[of "utf8_enc s"] assms(1)
    by (simp add: utf8_write_enc utf8_length_enc utf8_dec_enc)
qed

theorem utf8_roundtrip_witness:
  "utf8_read (take 4 (drop 1 (fst (utf8_write [0xD83D, 0xDE00] (replicate 6 0) 1)))) 0 4 = [0xD83D, 0xDE00]"
  using utf8_roundtrip[of "[0xD83D, 0xDE00]" 1 "replicate 6 0"]
  by (simp add: is_high_def is_low_def js_get_def)

section \<open>The stale unit\<close>

text \<open>
  A surrogate pair that crosses the flush limit makes the chunk 8193 units long; the next
  flush, at 8192 units, still turns all 8193 elements into a string. The string below is
  read back with one unit too many.
\<close>

definition long_string :: js_string where
  "long_string = replicate 8191 97 @ [0xD83D, 0xDE00] @ replicate 8192 97"

lemma enc_ascii: "utf8_enc (replicate k 97 @ s) = replicate k 97 @ utf8_enc s"
  by (induction k) (simp_all add: utf8_bytes1_def)

lemma enc_pair: "utf8_enc (0xD83D # 0xDE00 # s) = utf8_bytes4 0xD83D 0xDE00 @ utf8_enc s"
  by (simp add: is_high_def is_low_def)

text \<open>Reading ASCII bytes overwrites the front of the chunk and keeps its tail.\<close>

lemma loop_ascii:
  assumes "drop start buf = replicate k 97 @ rest" and "i \<le> length chunk" and "i + k \<le> 8191"
  shows "utf8_read_loop buf start (length buf) parts chunk i =
    utf8_read_loop buf (start + k) (length buf) parts
      (take i chunk @ replicate k 97 @ drop (i + k) chunk) (i + k)"
  using assms
proof (induction k arbitrary: start i chunk)
  case 0
  then show ?case by simp
next
  case (Suc k)
  have lt: "start < length buf" using Suc.prems(1) by (metis drop_eq_Nil2 length_0_conv
    append_is_Nil_conv linorder_not_le nat.distinct(1) length_replicate)
  have dr: "buf ! start = 97" "drop (Suc start) buf = replicate k 97 @ rest"
    using Suc.prems(1) Cons_nth_drop_Suc[OF lt] by auto
  have st: "utf8_read_step buf start chunk i = (js_set chunk i 97, i + 1, start + 1)"
    using lt dr by (simp add: utf8_read_step_def)
  have c: "take (Suc i) (js_set chunk i 97) = take i chunk @ [97]"
    "drop (Suc i + k) (js_set chunk i 97) = drop (i + Suc k) chunk"
    using Suc.prems(2) by (auto simp: take_js_set) (auto simp: js_set_def)
  have "utf8_read_loop buf start (length buf) parts chunk i =
      utf8_read_loop buf (Suc start) (length buf) parts (js_set chunk i 97) (Suc i)"
    using Suc.prems(3) by (simp add: loop_step[OF lt st])
  also have "\<dots> = utf8_read_loop buf (Suc start + k) (length buf) parts
      (take (Suc i) (js_set chunk i 97) @ replicate k 97 @ drop (Suc i + k) (js_set chunk i 97))
      (Suc i + k)"
    using Suc.prems dr(2) length_js_set(1)[of i chunk 97] by (intro Suc.IH) auto
  finally show ?case by (simp add: c[simplified] del: drop_append)
qed

lemma loop_flush_ascii:
  assumes "drop start buf = replicate 8192 97" and "8192 \<le> length chunk"
  shows "utf8_read_loop buf start (length buf) (Some ps) chunk 0 =
    concat ps @ replicate 8192 97 @ drop 8192 chunk"
proof -
  have r: "(8192::nat) = 8191 + 1" by simp
  have d: "drop start buf = replicate 8191 97 @ [97]"
    using assms(1) unfolding r replicate_add by simp
  let ?chunk = "take 0 chunk @ replicate 8191 97 @ drop (0 + 8191) chunk"
  have "length (drop start buf) = 8192" using assms(1) by simp
  then have lb: "length buf = start + 8192" by simp
  have "buf ! (start + 8191) = 97"
    using assms(1) lb by (metis nth_drop nth_replicate less_add_same_cancel1 add_leE
        order_refl le_add1 numeral_less_iff semiring_norm(76,77,78,79,80,81))
  then have st: "utf8_read_step buf (start + 8191) ?chunk (0 + 8191)
      = (js_set ?chunk 8191 97, 8192, start + 8192)"
    using lb by (simp add: utf8_read_step_def)
  have "8191 < length ?chunk" using assms(2) by simp
  moreover have "drop 8191 chunk = chunk ! 8191 # drop 8192 chunk"
    using assms(2) Cons_nth_drop_Suc[of 8191 chunk] by simp
  ultimately have js: "js_set ?chunk 8191 97 = replicate 8192 97 @ drop 8192 chunk"
    unfolding js_set_def r replicate_add by (simp add: list_update_append)
  have lt: "start + 8191 < length buf" using lb by simp
  have "utf8_read_loop buf start (length buf) (Some ps) chunk 0 =
      utf8_read_loop buf (start + 8191) (length buf) (Some ps) ?chunk (0 + 8191)"
    by (rule loop_ascii[OF d]) simp_all
  also have "\<dots> = utf8_read_loop buf (start + 8192) (length buf)
      (Some (ps @ [js_set ?chunk 8191 97])) (js_set ?chunk 8191 97) 0"
    unfolding loop_step[OF lt st] by simp
  also have "\<dots> = concat (ps @ [js_set ?chunk 8191 97])"
    using lb by (subst loop_done) auto
  also have "\<dots> = concat ps @ replicate 8192 97 @ drop 8192 chunk"
    unfolding js by simp
  finally show ?thesis .
qed

text \<open>The chunk buffer of \<open>utf8.read\<close> is not cut at its fill index when it is flushed: a
  string whose 8192nd and 8193rd units are a surrogate pair and which fills one more chunk is
  read back with a stale unit, the pair's low surrogate, at its end.\<close>

theorem utf8_read_stale:
  "utf8_read (utf8_enc long_string) 0 (length (utf8_enc long_string)) = long_string @ [0xDE00]"
proof -
  define buf where "buf = utf8_enc long_string"
  have tail: "utf8_enc (replicate 8192 97) = replicate 8192 97"
    using enc_ascii[of 8192 "[]"] by simp
  have buf: "buf = replicate 8191 97 @ utf8_bytes4 0xD83D 0xDE00 @ replicate 8192 97"
    unfolding buf_def long_string_def enc_ascii append_Cons append_Nil enc_pair tail ..
  have "drop 0 buf = replicate 8191 97 @ utf8_bytes4 0xD83D 0xDE00 @ replicate 8192 97"
    by (simp only: drop_0 buf)
  from loop_ascii[OF this, of 0 "[]" None]
  have run: "utf8_read_loop buf 0 (length buf) None [] 0 =
      utf8_read_loop buf 8191 (length buf) None (replicate 8191 97) 8191" by simp
  have lt: "8191 < length buf" by (simp add: buf)
  obtain b1 b2 b3 b4 where b: "utf8_bytes4 0xD83D 0xDE00 = [b1, b2, b3, b4]" "240 \<le> unat b1"
      "utf8_char4 (ucast b1) (ucast b2 AND 63) (ucast b3 AND 63) (ucast b4 AND 63) = (0xD83D, 0xDE00)"
    using char4_roundtrip[of "0xD83D" "0xDE00"] by (auto simp: is_high_def is_low_def)
  have get: "js_get buf (8191 + j) = js_get ([b1, b2, b3, b4] @ replicate 8192 97) j" for j
    unfolding buf b by (simp add: js_get_def nth_append)
  have st: "utf8_read_step buf 8191 (replicate 8191 97) 8191 =
      (replicate 8191 97 @ [0xD83D, 0xDE00], 8193, 8195)"
    using get[of 0] get[of 1] get[of 2] get[of 3] b(2,3)
    by (simp add: utf8_read_step_def Let_def low6_def lt128_up js_set_def js_get_def numeral_2_eq_2
        numeral_3_eq_3)
  have rest: "drop 8195 buf = replicate 8192 97"
    unfolding buf b by simp
  have "utf8_read buf 0 (length buf) =
      utf8_read_loop buf 8195 (length buf) (Some [replicate 8191 97 @ [0xD83D, 0xDE00]])
        (replicate 8191 97 @ [0xD83D, 0xDE00]) 0"
    using lt run by (cases "buf = []") (simp_all add: utf8_read_def loop_step[OF lt st])
  also have "\<dots> = (replicate 8191 97 @ [0xD83D, 0xDE00]) @ replicate 8192 97 @ [0xDE00]"
    using loop_flush_ascii[OF rest, of "replicate 8191 97 @ [0xD83D, 0xDE00]"
        "[replicate 8191 97 @ [0xD83D, 0xDE00]]"] by simp
  finally show ?thesis by (simp add: buf_def long_string_def)
qed

end
