(* ===== verification/Base64.thy ===== *)
theory Base64
  imports Utf8
begin

unbundle bit_operations_syntax

text \<open>
  \<open>util.base64\<close> of protobuf.js: the byte length of an encoded string, encoding a byte range,
  decoding into a buffer and the plausibility test. \<open>b64_enc\<close> is the specification: the
  characters of a byte list, three bytes at a time, without chunks.
\<close>

definition b64 :: "nat \<Rightarrow> u16" where
  "b64 i = word_of_nat
     (if i < 26 then i + 65 else if i < 52 then i + 71 else if i < 62 then i - 4
      else (i - 59) OR 43)"

text \<open>The decoding table, filled by the loop that fills \<open>b64\<close>.\<close>

definition s64 :: "u16 \<Rightarrow> nat option" where
  "s64 = fold (\<lambda>i m. m(b64 i \<mapsto> i)) [0..<64] Map.empty"

text \<open>
  The number of trailing padding characters, counted from the end; the result of \<open>length\<close>
  is a number with a fraction, because the source rounds \<open>3 * length\<close> and not its quarter.
\<close>

fun base64_pad :: "js_string \<Rightarrow> nat \<Rightarrow> nat \<Rightarrow> nat" where
  "base64_pad s p n =
     (if 1 < (p - 1) mod 4 \<and> js_get s (p - 1) = Some 61 then base64_pad s (p - 1) (n + 1) else n)"

declare base64_pad.simps [simp del]

definition base64_length :: "js_string \<Rightarrow> rat" where
  "base64_length s =
     (if length s = 0 then 0
      else of_int \<lceil>of_nat (length s * 3) :: rat\<rceil> / 4 - of_nat (base64_pad s (length s) 0))"

definition base64_encode_step ::
    "u32 \<Rightarrow> js_string \<Rightarrow> nat \<Rightarrow> nat \<Rightarrow> u32 \<Rightarrow> js_string \<times> nat \<times> nat \<times> u32" where
  "base64_encode_step b chunk i j t =
     (if j = 0 then (js_set chunk i (b64 (unat (drop_bit 2 b))), i + 1, 1, push_bit 4 (b AND 3))
      else if j = 1 then
        (js_set chunk i (b64 (unat (t OR drop_bit 4 b))), i + 1, 2, push_bit 2 (b AND 15))
      else (js_set (js_set chunk i (b64 (unat (t OR drop_bit 6 b)))) (i + 1) (b64 (unat (b AND 63))),
            i + 2, 0, t))"

definition base64_finish :: "js_string \<Rightarrow> nat \<Rightarrow> nat \<Rightarrow> u32 \<Rightarrow> js_string \<times> nat" where
  "base64_finish chunk i j t =
     (if j \<noteq> 0 then
        let c1 = js_set (js_set chunk i (b64 (unat t))) (i + 1) 61
        in if j = 1 then (js_set c1 (i + 2) 61, i + 3) else (c1, i + 2)
      else (chunk, i))"

function base64_encode_loop ::
    "byte list \<Rightarrow> nat \<Rightarrow> nat \<Rightarrow> js_string list option \<Rightarrow> js_string \<Rightarrow> nat \<Rightarrow> nat \<Rightarrow> u32 \<Rightarrow> js_string" where
  "base64_encode_loop buf start end parts chunk i j t =
     (if start < end then
        (case base64_encode_step (bits_of (js_get buf start)) chunk i j t of
           (chunk', i', j', t') \<Rightarrow>
             if i' > 8191
             then base64_encode_loop buf (start + 1) end
                    (Some ((case parts of None \<Rightarrow> [] | Some ps \<Rightarrow> ps) @ [chunk'])) chunk' 0 j' t'
             else base64_encode_loop buf (start + 1) end parts chunk' i' j' t')
      else
        (case base64_finish chunk i j t of
           (chunk', i') \<Rightarrow>
             (case parts of
                Some ps \<Rightarrow> concat (if i' \<noteq> 0 then ps @ [take i' chunk'] else ps)
              | None \<Rightarrow> take i' chunk')))"
  by pat_completeness auto
termination
  by (relation "measure (\<lambda>(buf, start, end, parts, chunk, i, j, t). end - start)") auto

declare base64_encode_loop.simps [simp del]

definition base64_encode :: "byte list \<Rightarrow> nat \<Rightarrow> nat \<Rightarrow> js_string" where
  "base64_encode buf start end = base64_encode_loop buf start end None [] 0 0 0"

text \<open>
  \<open>decode\<close>: the loop over the characters; the state is the buffer, the offset, the position
  in the group of four and the previous six bits. The first component is the error or the
  final offset and group position.
\<close>

definition dec_byte1 :: "u32 \<Rightarrow> u32 \<Rightarrow> byte" where
  "dec_byte1 t c = ucast (push_bit 2 t OR drop_bit 4 (c AND 48))"

definition dec_byte2 :: "u32 \<Rightarrow> u32 \<Rightarrow> byte" where
  "dec_byte2 t c = ucast (push_bit 4 (t AND 15) OR drop_bit 2 (c AND 60))"

definition dec_byte3 :: "u32 \<Rightarrow> u32 \<Rightarrow> byte" where
  "dec_byte3 t c = ucast (push_bit 6 (t AND 3) OR c)"

fun base64_decode_loop ::
    "js_string \<Rightarrow> byte list \<Rightarrow> nat \<Rightarrow> nat \<Rightarrow> u32 \<Rightarrow> (js_error + nat \<times> nat) \<times> byte list" where
  "base64_decode_loop [] buf off j t = (Inr (off, j), buf)"
| "base64_decode_loop (c # cs) buf off j t =
     (if c = 61 \<and> j > 1 then (Inr (off, j), buf)
      else case s64 c of
        None \<Rightarrow> (Inl (Error ''invalid encoding''), buf)
      | Some n \<Rightarrow>
          let v = word_of_nat n :: u32
          in if j = 0 then base64_decode_loop cs buf off 1 v
             else if j = 1 then
               base64_decode_loop cs (buf[off := dec_byte1 t v]) (off + 1) 2 v
             else if j = 2 then
               base64_decode_loop cs (buf[off := dec_byte2 t v]) (off + 1) 3 v
             else base64_decode_loop cs (buf[off := dec_byte3 t v]) (off + 1) 0 t)"

definition base64_decode :: "js_string \<Rightarrow> byte list \<Rightarrow> nat \<Rightarrow> (js_error + nat) \<times> byte list" where
  "base64_decode s buf off =
     (case base64_decode_loop s buf off 0 0 of
        (Inl e, buf') \<Rightarrow> (Inl e, buf')
      | (Inr (off', j), buf') \<Rightarrow>
          if j = 1 then (Inl (Error ''invalid encoding''), buf') else (Inr (off' - off), buf'))"

text \<open>The character class \<open>[A-Za-z0-9+/]\<close> and the regular expression of \<open>test\<close>.\<close>

definition b64_char :: "u16 \<Rightarrow> bool" where
  "b64_char c \<longleftrightarrow> (65 \<le> c \<and> c \<le> 90) \<or> (97 \<le> c \<and> c \<le> 122) \<or> (48 \<le> c \<and> c \<le> 57) \<or> c = 43 \<or> c = 47"

fun base64_test :: "js_string \<Rightarrow> bool" where
  "base64_test [] = True"
| "base64_test (a # b # c # d # rest) =
     ((b64_char a \<and> b64_char b \<and> b64_char c \<and> b64_char d \<and> base64_test rest)
      \<or> (rest = [] \<and> b64_char a \<and> b64_char b \<and> c = 61 \<and> d = 61)
      \<or> (rest = [] \<and> b64_char a \<and> b64_char b \<and> b64_char c \<and> d = 61))"
| "base64_test _ = False"

section \<open>The specification\<close>

fun b64_enc :: "byte list \<Rightarrow> js_string" where
  "b64_enc [] = []"
| "b64_enc [a] = [b64 (unat a div 4), b64 (unat a mod 4 * 16), 61, 61]"
| "b64_enc [a, b] =
     [b64 (unat a div 4), b64 (unat a mod 4 * 16 + unat b div 16), b64 (unat b mod 16 * 4), 61]"
| "b64_enc (a # b # c # rest) =
     b64 (unat a div 4) # b64 (unat a mod 4 * 16 + unat b div 16)
       # b64 (unat b mod 16 * 4 + unat c div 64) # b64 (unat c mod 64) # b64_enc rest"

text \<open>The same characters, from the middle of a group.\<close>

fun b64_from :: "nat \<Rightarrow> nat \<Rightarrow> byte list \<Rightarrow> js_string" where
  "b64_from j t [] =
     (if j = 0 then [] else if j = 1 then [b64 t, 61, 61] else [b64 t, 61])"
| "b64_from j t (b # bs) =
     (if j = 0 then b64 (unat b div 4) # b64_from 1 (unat b mod 4 * 16) bs
      else if j = 1 then b64 (t + unat b div 16) # b64_from 2 (unat b mod 16 * 4) bs
      else b64 (t + unat b div 64) # b64 (unat b mod 64) # b64_from 0 0 bs)"

lemma b64_from_enc: "b64_from 0 0 bs = b64_enc bs"
  by (induction bs rule: b64_enc.induct) (simp_all add: numeral_2_eq_2)

section \<open>The tables are inverse\<close>

lemma s64_table: "\<forall>i \<in> set [0..<64]. s64 (b64 i) = Some i"
  by code_simp

lemma s64_b64 [simp]: "i < 64 \<Longrightarrow> s64 (b64 i) = Some i"
  using s64_table by simp

lemma b64_table: "\<forall>i \<in> set [0..<64]. b64_char (b64 i) \<and> b64 i \<noteq> 61"
  by code_simp

lemma b64_char_b64 [simp]: "i < 64 \<Longrightarrow> b64_char (b64 i)" "i < 64 \<Longrightarrow> b64 i \<noteq> 61"
  using b64_table by simp_all

section \<open>Encoding\<close>

lemma and_3 [word_arith]: "unat (w AND 3 :: u32) = unat w mod 4"
  using unat_and_mask[of 2 w] by (simp add: mask_eq_exp_minus_1)

lemma or_low:
  assumes "unat (w :: u32) < 2 ^ k" and "unat w + unat x * 2 ^ k < 2 ^ 32"
  shows "unat (push_bit k x OR w) = unat x * 2 ^ k + unat w"
  using unat_or_push_bit[of w k x] assms by (simp add: or.commute)

definition enc_inv :: "nat \<Rightarrow> u32 \<Rightarrow> bool" where
  "enc_inv j t \<longleftrightarrow> j = 0 \<or> (j = 1 \<and> (\<exists>x. t = push_bit 4 x \<and> unat x < 4))
     \<or> (j = 2 \<and> (\<exists>x. t = push_bit 2 x \<and> unat x < 16))"

lemma b64_from_0: "b64_from 0 t bs = b64_from 0 0 bs"
  by (cases bs) simp_all

lemma enc_or1: "enc_inv 1 t \<Longrightarrow> unat (t OR drop_bit 4 (ucast b)) = unat t + unat (b :: byte) div 16"
  using unat_u8_lt[of b]
  by (auto simp: enc_inv_def unat_drop_bit unat_byte_up unat_push_bit or_low simp del: push_bit_numeral)

lemma enc_or2: "enc_inv 2 t \<Longrightarrow> unat (t OR drop_bit 6 (ucast b)) = unat t + unat (b :: byte) div 64"
  using unat_u8_lt[of b]
  by (auto simp: enc_inv_def unat_drop_bit unat_byte_up unat_push_bit or_low)

lemma enc_inv_next:
  "enc_inv 0 t" "enc_inv 1 (push_bit 4 (w AND 3))" "enc_inv 2 (push_bit 2 (w AND 15))"
  unfolding enc_inv_def
  by (simp, rule disjI2, rule disjI1, simp only: simp_thms, rule exI[of _ "w AND 3"],
      simp add: word_arith del: push_bit_and,
      rule disjI2, rule disjI2, simp only: simp_thms, rule exI[of _ "w AND 15"],
      simp add: word_arith del: push_bit_and)

lemma unat_next:
  "unat (push_bit 4 (ucast (b :: byte) AND 3) :: u32) = unat b mod 4 * 16"
  "unat (push_bit 2 (ucast b AND 15) :: u32) = unat b mod 16 * 4"
proof -
  have m: "unat b mod 4 < 4" "unat b mod 16 < 16" by simp_all
  have "unat (push_bit 4 (ucast b AND 3) :: u32) = unat (ucast b AND 3 :: u32) * 2 ^ 4"
    using m by (intro unat_push_bit) (simp add: word_arith)
  then show "unat (push_bit 4 (ucast b AND 3) :: u32) = unat b mod 4 * 16" by (simp add: word_arith)
  have "unat (push_bit 2 (ucast b AND 15) :: u32) = unat (ucast b AND 15 :: u32) * 2 ^ 2"
    using m by (intro unat_push_bit) (simp add: word_arith)
  then show "unat (push_bit 2 (ucast b AND 15) :: u32) = unat b mod 16 * 4" by (simp add: word_arith)
qed

text \<open>One turn of the encoder against the specification.\<close>

definition enc_turn where
  "enc_turn b chunk i j t cs chunk' i' j' t' \<longleftrightarrow>
     take i' chunk' = take i chunk @ cs \<and> i' = i + length cs \<and> i' mod 4 = j' \<and>
     length chunk' = max i' (length chunk) \<and> enc_inv j' t' \<and> (j < 2 \<longrightarrow> length cs = 1) \<and>
     length cs \<le> 2 \<and> (\<forall>bs. b64_from j (unat t) (b # bs) = cs @ b64_from j' (unat t') bs)"

lemma length_js_set_max: "i \<le> length xs \<Longrightarrow> length (js_set xs i v) = max (Suc i) (length xs)"
  by (auto simp: js_set_def)

lemma base64_encode_step_turn:
  assumes "i \<le> length chunk" and "i mod 4 = j" and "enc_inv j t"
    and st: "base64_encode_step (ucast (b :: byte)) chunk i j t = (chunk', i', j', t')"
  shows "\<exists>cs. enc_turn b chunk i j t cs chunk' i' j' t'"
proof -
  have l1: "Suc i \<le> length (js_set chunk i v)" for v
    using assms(1) by (rule length_js_set)
  consider "j = 0" | "j = 1" | "j = 2" using assms(3) by (auto simp: enc_inv_def)
  then show ?thesis
  proof cases
    case 1
    then have "enc_turn b chunk i j t [b64 (unat b div 4)] chunk' i' j' t'"
      using st assms(1,2)
      by (auto simp: base64_encode_step_def enc_turn_def take_js_set length_js_set_max
          enc_inv_next enc_inv_next(2)[unfolded One_nat_def] unat_next unat_drop_bit unat_byte_up mod_Suc simp del: push_bit_and)
    then show ?thesis ..
  next
    case 2
    then have "enc_turn b chunk i j t [b64 (unat t + unat b div 16)] chunk' i' j' t'"
      using st assms(1,2) enc_or1[of t b] assms(3)
      by (auto simp: base64_encode_step_def enc_turn_def take_js_set length_js_set_max
          enc_inv_next enc_inv_next(2)[unfolded One_nat_def] unat_next mod_Suc simp del: push_bit_and)
    then show ?thesis ..
  next
    case 3
    then have "enc_turn b chunk i j t [b64 (unat t + unat b div 64), b64 (unat b mod 64)] chunk' i' j' t'"
      using st assms(1,2) enc_or2[of t b] assms(3) l1 b64_from_0[of "unat t"]
      by (auto simp: base64_encode_step_def enc_turn_def take_js_set length_js_set_max
          enc_inv_next word_arith mod_Suc)
    then show ?thesis ..
  qed
qed

text \<open>The loop, from any point at which the chunk is not full.\<close>

definition enc_parts :: "js_string list option \<Rightarrow> js_string" where
  "enc_parts parts = (case parts of None \<Rightarrow> [] | Some ps \<Rightarrow> concat ps)"

lemma base64_finish_from:
  assumes "i \<le> length chunk" and "enc_inv j t" and "base64_finish chunk i j t = (chunk', i')"
  shows "take i' chunk' = take i chunk @ b64_from j (unat t) []"
proof -
  have l1: "Suc i \<le> length (js_set chunk i v)" for v
    using assms(1) by (rule length_js_set)
  have l2: "Suc (Suc i) \<le> length (js_set (js_set chunk i v) (Suc i) w)" for v w
    using l1 by (rule length_js_set)
  consider "j = 0" | "j = 1" | "j = 2" using assms(2) by (auto simp: enc_inv_def)
  then show ?thesis
    using assms(1,3) l1 l2
    by cases (auto simp: base64_finish_def Let_def take_js_set eval_nat_numeral)
qed

lemma base64_encode_loop_from:
  assumes "i \<le> length chunk" and "i < 8192" and "i mod 4 = j" and "enc_inv j t"
    and "length chunk = i \<or> length chunk = 8192" and "end = length buf" and "start \<le> end"
  shows "base64_encode_loop buf start end parts chunk i j t =
         enc_parts parts @ take i chunk @ b64_from j (unat t) (drop start buf)"
  using assms
proof (induction "end - start" arbitrary: start parts chunk i j t)
  case 0
  obtain chunk' i' where f: "base64_finish chunk i j t = (chunk', i')" by force
  have "take i' chunk' = take i chunk @ b64_from j (unat t) []"
    using 0(2,5) f by (rule base64_finish_from)
  moreover have "\<not> start < end" "drop start buf = []" using 0 by simp_all
  ultimately show ?case
    using f by (subst base64_encode_loop.simps) (auto simp: enc_parts_def split: option.splits if_splits)
next
  case (Suc d)
  then have lt: "start < length buf" by simp
  obtain chunk' i' j' t' where
    st: "base64_encode_step (bits_of (js_get buf start)) chunk i j t = (chunk', i', j', t')"
    by (metis prod_cases4)
  with lt Suc.prems(1,3,4) obtain cs where
    "enc_turn (buf ! start) chunk i j t cs chunk' i' j' t'"
    using base64_encode_step_turn[of i chunk j t "buf ! start"] by auto
  then have turn: "take i' chunk' = take i chunk @ cs" "i' = i + length cs" "i' mod 4 = j'"
      "length chunk' = max i' (length chunk)" "enc_inv j' t'" "j < 2 \<longrightarrow> length cs = 1"
      "length cs \<le> 2" "\<And>bs. b64_from j (unat t) (buf ! start # bs) = cs @ b64_from j' (unat t') bs"
    by (auto simp: enc_turn_def)
  have j3: "j = 0 \<or> j = 1 \<or> j = 2" using Suc.prems(4) by (auto simp: enc_inv_def)
  have le: "i' \<le> 8192"
    using turn(2,6,7) Suc.prems(2,3) j3 by presburger
  have dr: "drop start buf = buf ! start # drop (Suc start) buf"
    using lt by (simp add: Cons_nth_drop_Suc)
  show ?case
  proof (cases "i' > 8191")
    case True
    then have full: "i' = 8192" using le by simp
    then have "j' = 0" using turn(3) by simp
    note full = full this
    then have "take i' chunk' = chunk'" using turn(4) Suc.prems(2,5) full by auto
    moreover have "base64_encode_loop buf (Suc start) end
        (Some ((case parts of None \<Rightarrow> [] | Some ps \<Rightarrow> ps) @ [chunk'])) chunk' 0 j' t' =
      enc_parts (Some ((case parts of None \<Rightarrow> [] | Some ps \<Rightarrow> ps) @ [chunk'])) @
        take 0 chunk' @ b64_from j' (unat t') (drop (Suc start) buf)"
      using Suc.hyps(2) Suc.prems turn full by (intro Suc.hyps(1)) auto
    ultimately show ?thesis
      using True st lt turn(1,8) Suc.prems(6) dr
      by (subst base64_encode_loop.simps) (auto simp: enc_parts_def split: option.splits)
  next
    case False
    have "base64_encode_loop buf (Suc start) end parts chunk' i' j' t' =
        enc_parts parts @ take i' chunk' @ b64_from j' (unat t') (drop (Suc start) buf)"
      using Suc.hyps(2) Suc.prems turn False by (intro Suc.hyps(1)) auto
    then show ?thesis
      using False st lt turn(1,8) Suc.prems(6) dr
      by (subst base64_encode_loop.simps) auto
  qed
qed

lemma base64_encode_enc: "base64_encode buf 0 (length buf) = b64_enc buf"
  unfolding base64_encode_def
  by (subst base64_encode_loop_from) (auto simp: enc_inv_def enc_parts_def b64_from_enc)

section \<open>Decoding\<close>

lemma unat_six: "n < 64 \<Longrightarrow> unat (word_of_nat n :: u32) = n"
  by (simp add: unat_of_nat)

lemma byte_eqI: "unat (w :: u32) mod 256 = unat (b :: byte) \<Longrightarrow> ucast w = b"
  by (intro word_unat_eq_iff[THEN iffD2]) (simp add: unat_byte)

lemma decode_byte:
  assumes "unat (w :: u32) < 2 ^ k" and "unat x * 2 ^ k + unat w = unat (b :: byte)"
  shows "ucast (push_bit k x OR w) = b"
proof (rule byte_eqI)
  have "unat (push_bit k x OR w) = unat b"
    using assms unat_u8_lt[of b] by (subst or_low) (simp_all add: add.commute)
  then show "unat (push_bit k x OR w) mod 256 = unat b"
    using unat_u8_lt[of b] by simp
qed

lemma drop_and_48: "drop_bit 4 (w AND 48 :: u32) = drop_bit 4 w AND 3"
  by (simp add: drop_bit_and)

lemma drop_and_60: "drop_bit 2 (w AND 60 :: u32) = drop_bit 2 w AND 15"
  by (simp add: drop_bit_and)

lemma decode_byte0:
  assumes "n < 64" and "m < 64" and "n * 4 + m div 16 = unat (b :: byte)"
  shows "dec_byte1 (word_of_nat n) (word_of_nat m) = b"
unfolding dec_byte1_def
proof (rule decode_byte)
  have "m div 16 < 4" using assms(2) by (simp add: less_mult_imp_div_less)
  then have "unat (drop_bit 4 (word_of_nat m AND 48 :: u32)) = m div 16"
    unfolding drop_and_48 and_3 unat_drop_bit unat_six[OF assms(2)] by simp
  with \<open>m div 16 < 4\<close> assms(3)
  show "unat (drop_bit 4 (word_of_nat m AND 48 :: u32)) < 2 ^ 2"
    and "unat (word_of_nat n :: u32) * 2 ^ 2 + unat (drop_bit 4 (word_of_nat m AND 48 :: u32)) = unat b"
    unfolding unat_six[OF assms(1)] by simp_all
qed

lemma decode_byte1:
  assumes "n < 64" and "m < 64" and "n mod 16 * 16 + m div 4 = unat (b :: byte)"
  shows "dec_byte2 (word_of_nat n) (word_of_nat m) = b"
unfolding dec_byte2_def
proof (rule decode_byte)
  have "m div 4 < 16" using assms(2) by (simp add: less_mult_imp_div_less)
  then have "unat (drop_bit 2 (word_of_nat m AND 60 :: u32)) = m div 4"
    unfolding drop_and_60 and_15 unat_drop_bit unat_six[OF assms(2)] by simp
  with \<open>m div 4 < 16\<close> assms(3)
  show "unat (drop_bit 2 (word_of_nat m AND 60 :: u32)) < 2 ^ 4"
    and "unat (word_of_nat n AND 15 :: u32) * 2 ^ 4 +
      unat (drop_bit 2 (word_of_nat m AND 60 :: u32)) = unat b"
    unfolding and_15 unat_six[OF assms(1)] by simp_all
qed

lemma decode_byte2:
  assumes "n < 64" and "m < 64" and "n mod 4 * 64 + m = unat (b :: byte)"
  shows "dec_byte3 (word_of_nat n) (word_of_nat m) = b"
  unfolding dec_byte3_def using assms(2,3)
  by (intro decode_byte) (simp_all only: and_3 unat_six[OF assms(1)] unat_six[OF assms(2)], simp_all)

lemma six_bounds:
  "unat (a :: byte) div 4 < 64" "unat a mod 4 * 16 < 64" "unat a mod 4 * 16 + unat (b :: byte) div 16 < 64"
  "unat b mod 16 * 4 < 64" "unat b mod 16 * 4 + unat (c :: byte) div 64 < 64" "unat c mod 64 < 64"
  using unat_u8_lt[of a] unat_u8_lt[of b] unat_u8_lt[of c]
    mod_less_divisor[of 4 "unat a"] mod_less_divisor[of 16 "unat b"]
  by (linarith | simp add: less_mult_imp_div_less)+

lemma div_mod_regroup:
  "(n :: nat) div 4 * 4 + (n mod 4 * 16) div 16 = n" "(x :: nat) < 16 \<Longrightarrow> (m * 16 + x) div 16 = m"
  "x < 16 \<Longrightarrow> (m * 16 + x) mod 16 = x"
  "x < 4 \<Longrightarrow> (m * 4 + x) div 4 = m" "x < 4 \<Longrightarrow> (m * 4 + x) mod 4 = x"
  by simp_all

lemma small_quot: "unat (b :: byte) div 16 < 16" "unat (c :: byte) div 64 < 4"
  using unat_u8_lt[of b] unat_u8_lt[of c] by (simp_all add: less_mult_imp_div_less)

text \<open>Each group of the encoding, decoded.\<close>

lemma group_bytes:
  "dec_byte1 (word_of_nat (unat (a :: byte) div 4)) (word_of_nat (unat a mod 4 * 16)) = a"
  "dec_byte1 (word_of_nat (unat a div 4)) (word_of_nat (unat a mod 4 * 16 + unat (b :: byte) div 16)) = a"
  "dec_byte2 (word_of_nat (unat a mod 4 * 16 + unat b div 16)) (word_of_nat (unat b mod 16 * 4)) = b"
  "dec_byte2 (word_of_nat (unat a mod 4 * 16 + unat b div 16))
     (word_of_nat (unat b mod 16 * 4 + unat (c :: byte) div 64)) = b"
  "dec_byte3 (word_of_nat (unat b mod 16 * 4 + unat c div 64)) (word_of_nat (unat c mod 64)) = c"
  by (rule decode_byte0 decode_byte1 decode_byte2;
      (rule six_bounds | simp add: div_mod_regroup small_quot))+

lemma base64_decode_loop_enc:
  "off + length bs \<le> length buf \<Longrightarrow>
   \<exists>j. base64_decode_loop (b64_enc bs) buf off 0 t = (Inr (off + length bs, j), blit buf off bs) \<and> j \<noteq> 1"
proof (induction bs arbitrary: buf off t rule: b64_enc.induct)
  case 1
  then show ?case by simp
next
  case (2 a)
  then show ?case
    by (simp add: Let_def six_bounds group_bytes del: of_nat_add of_nat_mult)
next
  case (3 a b)
  then show ?case
    by (simp add: Let_def six_bounds group_bytes del: of_nat_add of_nat_mult)
next
  case (4 a b c rest)
  have "Suc (Suc (Suc off)) + length rest
      \<le> length (buf[off := a, Suc off := b, Suc (Suc off) := c])"
    using 4(2) by simp
  from 4(1)[OF this, of "word_of_nat (unat b mod 16 * 4 + unat c div 64)"]
  show ?case
    by (simp add: Let_def six_bounds group_bytes del: of_nat_add of_nat_mult)
qed

lemma base64_decode_enc:
  "off + length bs \<le> length buf \<Longrightarrow>
   base64_decode (b64_enc bs) buf off = (Inr (length bs), blit buf off bs)"
  using base64_decode_loop_enc[of off bs buf 0] by (auto simp: base64_decode_def)

section \<open>Length and test\<close>

lemma base64_test_enc: "base64_test (b64_enc bs)"
  by (induction bs rule: b64_enc.induct) (simp_all add: six_bounds)

lemma length_b64_enc: "length (b64_enc bs) mod 4 = 0"
  by (induction bs rule: b64_enc.induct) simp_all

lemma base64_pad_end:
  assumes "length s mod 4 = 0" and "s \<noteq> []"
  shows "base64_pad s (length s) 0 =
    (if s ! (length s - 1) \<noteq> 61 then 0 else if s ! (length s - 2) \<noteq> 61 then 1 else 2)"
proof -
  obtain k where "length s = 4 * k" using assms(1) by (metis dvd_def mod_eq_0_iff_dvd)
  moreover from this have "k \<noteq> 0" using assms(2) by (intro notI) simp
  ultimately obtain m where m: "length s = 4 * m + 4" by (metis mult_Suc_right add.commute not0_implies_Suc)
  then have "(4 * m + 3) mod 4 = 3" "(4 * m + 2) mod 4 = 2" "(4 * m + 1) mod 4 = 1" by presburger+
  then show ?thesis
    unfolding m
    by (subst base64_pad.simps, subst base64_pad.simps, subst base64_pad.simps) (simp add: m)
qed

lemma base64_pad_enc:
  "bs \<noteq> [] \<Longrightarrow> 4 * base64_pad (b64_enc bs) (length (b64_enc bs)) 0 + 4 * length bs =
     3 * length (b64_enc bs)"
proof (induction bs rule: b64_enc.induct)
  case 1
  then show ?case by simp
next
  case (2 a)
  then show ?case by (subst base64_pad_end) simp_all
next
  case (3 a b)
  then show ?case by (subst base64_pad_end) (simp_all add: six_bounds)
next
  case (4 a b c rest)
  let ?s = "b64_enc rest"
  show ?case
  proof (cases "rest = []")
    case True
    then show ?thesis by (subst base64_pad_end) (simp_all add: six_bounds)
  next
    case False
    then obtain k where k: "length ?s = Suc (Suc k)" 
      by (cases rest rule: b64_enc.cases) auto
    then have ne: "?s \<noteq> []" by auto
    have "base64_pad (b64_enc (a # b # c # rest)) (length (b64_enc (a # b # c # rest))) 0 =
        base64_pad ?s (length ?s) 0"
      using length_b64_enc[of rest] length_b64_enc[of "a # b # c # rest"] ne k
      by (subst (1 2) base64_pad_end) simp_all
    then show ?thesis using 4 False by simp
  qed
qed

lemma base64_length_enc: "base64_length (b64_enc bs) = of_nat (length bs)"
proof (cases "bs = []")
  case True
  then show ?thesis by (simp add: base64_length_def)
next
  case False
  let ?s = "b64_enc bs"
  have "?s \<noteq> []" using False by (cases bs rule: b64_enc.cases) auto
  moreover have "(of_nat (4 * base64_pad ?s (length ?s) 0 + 4 * length bs) :: rat) = of_nat (3 * length ?s)"
    using base64_pad_enc[OF False] by simp
  ultimately show ?thesis
    by (simp add: base64_length_def mult.commute)
qed

text \<open>An unpadded string has a fractional length: rounding happens before the division.\<close>

theorem base64_length_unpadded: "base64_length [97, 97] = 3 / 2"
  by (subst base64_length_def, subst base64_pad.simps) (simp add: js_get_def)

text \<open>C39 Base 64 round trip: for every byte array, encoding all of it and decoding the
  string at the front of a large enough buffer writes exactly those bytes and returns their
  number; \<open>length\<close> predicts that number and \<open>test\<close> accepts the string. The chunked output
  (8192 characters at a time) does not show.\<close>

theorem base64_roundtrip:
  assumes "length bs \<le> length buf"
  shows "base64_decode (base64_encode bs 0 (length bs)) buf 0 = (Inr (length bs), blit buf 0 bs) \<and>
    base64_length (base64_encode bs 0 (length bs)) = of_nat (length bs) \<and>
    base64_test (base64_encode bs 0 (length bs))"
  using base64_decode_enc[of 0 bs buf] assms
  by (simp add: base64_encode_enc base64_length_enc base64_test_enc)

theorem base64_roundtrip_witness:
  "base64_decode (base64_encode [1, 2] 0 2) [0, 0, 7] 0 = (Inr 2, [1, 2, 7])"
  using base64_roundtrip[of "[1, 2]" "[0, 0, 7]"] by (simp add: numeral_2_eq_2)

end
