(* ===== verification/LongBits.thy ===== *)
theory LongBits
  imports Varint
begin

unbundle bit_operations_syntax

text \<open>
  \<open>LongBits\<close> of protobuf.js: a 64-bit value as two unsigned 32-bit halves, with the
  conversions from and to numbers, Long objects and hashes, the zig-zag transformation and
  the varint length. The specification of a pair of halves is the number \<open>lb_nat\<close>.
  A number of the source is an \<open>int\<close>; \<open>to_double\<close> rounds where the source's
  arithmetic does.
\<close>

record long_bits =
  lo :: u32
  hi :: u32

record js_long =
  low :: "int"
  high :: "int"
  unsigned :: bool

definition LongBits :: "u32 \<Rightarrow> u32 \<Rightarrow> long_bits" where
  "LongBits l h = \<lparr>lo = l, hi = h\<rparr>"

definition zero :: long_bits where
  "zero = LongBits 0 0"

definition zeroHash :: js_string where
  "zeroHash = replicate 8 0"

definition fromNumber :: "int \<Rightarrow> long_bits" where
  "fromNumber value =
     (if value = 0 then zero
      else
        let sign = value < 0;
            v = (if sign then - value else value);
            l = to_uint32 v;
            h = to_uint32 ((v - uint l) div 4294967296)
        in if sign then
             let h1 = NOT h; l1 = NOT l
             in if uint l1 + 1 > 4294967295
                then (if uint h1 + 1 > 4294967295 then LongBits 0 0 else LongBits 0 (h1 + 1))
                else LongBits (l1 + 1) h1
           else LongBits l h)"

text \<open>
  \<open>LongBits.from\<close> takes a number, a string or an object with \<open>low\<close> and \<open>high\<close>.
  Strings go through the Long library, which is not part of the repository: the parameter
  \<open>fromString\<close> stands for \<open>util.Long.fromString\<close>, and \<open>parseInt\<close> for
  the language's own when there is no Long library.
\<close>

datatype long_arg = LNum int | LStr js_string | LObj js_long

primrec longbits_from ::
  "(js_string \<Rightarrow> js_long) option \<Rightarrow> (js_string \<Rightarrow> int) \<Rightarrow> long_arg \<Rightarrow> long_bits" where
  "longbits_from Long parseInt (LNum n) = fromNumber n"
| "longbits_from Long parseInt (LStr s) =
     (case Long of
        Some fromString \<Rightarrow>
          (let v = fromString s
           in if low v \<noteq> 0 \<or> high v \<noteq> 0
              then LongBits (to_uint32 (low v)) (to_uint32 (high v)) else zero)
      | None \<Rightarrow> fromNumber (parseInt s))"
| "longbits_from Long parseInt (LObj v) =
     (if low v \<noteq> 0 \<or> high v \<noteq> 0
      then LongBits (to_uint32 (low v)) (to_uint32 (high v)) else zero)"

definition toNumber :: "bool \<Rightarrow> long_bits \<Rightarrow> int" where
  "toNumber uns b =
     (if \<not> uns \<and> drop_bit 31 (hi b) \<noteq> 0 then
        let l = NOT (lo b) + 1;
            h = NOT (hi b);
            h' = (if l = 0 then h + 1 else h)
        in - to_double (uint l + uint h' * 4294967296)
      else to_double (uint (lo b) + uint (hi b) * 4294967296))"

definition toLong :: "bool \<Rightarrow> long_bits \<Rightarrow> js_long" where
  "toLong uns b = \<lparr>low = sint (lo b), high = sint (hi b), unsigned = uns\<rparr>"

definition char_bits :: "js_string \<Rightarrow> nat \<Rightarrow> u32" where
  "char_bits s i = (case js_get s i of None \<Rightarrow> 0 | Some c \<Rightarrow> ucast c)"

definition fromHash :: "js_string \<Rightarrow> long_bits" where
  "fromHash hash =
     (if hash = zeroHash then zero
      else LongBits
        (char_bits hash 0 OR push_bit 8 (char_bits hash 1)
           OR push_bit 16 (char_bits hash 2) OR push_bit 24 (char_bits hash 3))
        (char_bits hash 4 OR push_bit 8 (char_bits hash 5)
           OR push_bit 16 (char_bits hash 6) OR push_bit 24 (char_bits hash 7)))"

definition toHash :: "long_bits \<Rightarrow> js_string" where
  "toHash b =
     [ucast (lo b AND 255), ucast (drop_bit 8 (lo b) AND 255),
      ucast (drop_bit 16 (lo b) AND 255), ucast (drop_bit 24 (lo b)),
      ucast (hi b AND 255), ucast (drop_bit 8 (hi b) AND 255),
      ucast (drop_bit 16 (hi b) AND 255), ucast (drop_bit 24 (hi b))]"

definition zzEncode :: "long_bits \<Rightarrow> long_bits" where
  "zzEncode b =
     (let mask = signed_drop_bit 31 (hi b)
      in b\<lparr>hi := (push_bit 1 (hi b) OR drop_bit 31 (lo b)) XOR mask,
           lo := push_bit 1 (lo b) XOR mask\<rparr>)"

definition zzDecode :: "long_bits \<Rightarrow> long_bits" where
  "zzDecode b =
     (let mask = - (lo b AND 1)
      in b\<lparr>lo := (drop_bit 1 (lo b) OR push_bit 31 (hi b)) XOR mask,
           hi := drop_bit 1 (hi b) XOR mask\<rparr>)"

definition longbits_length :: "long_bits \<Rightarrow> nat" where
  "longbits_length b =
     (let part0 = lo b;
          part1 = drop_bit 28 (lo b) OR push_bit 4 (hi b);
          part2 = drop_bit 24 (hi b)
      in if part2 = 0
         then if part1 = 0
              then if part0 < 16384
                   then if part0 < 128 then 1 else 2
                   else if part0 < 2097152 then 3 else 4
              else if part1 < 16384
                   then if part1 < 128 then 5 else 6
                   else if part1 < 2097152 then 7 else 8
         else if part2 < 128 then 9 else 10)"

section \<open>The number a pair of halves stands for\<close>

definition lb_nat :: "long_bits \<Rightarrow> nat" where
  "lb_nat b = unat (hi b) * 2 ^ 32 + unat (lo b)"

definition lb_int :: "long_bits \<Rightarrow> int" where
  "lb_int b = (if lb_nat b < 2 ^ 63 then int (lb_nat b) else int (lb_nat b) - 2 ^ 64)"

lemma LongBits_sel [simp]: "lo (LongBits l h) = l" "hi (LongBits l h) = h"
  by (simp_all add: LongBits_def)

lemma lb_nat_LongBits: "lb_nat (LongBits l h) = unat h * 2 ^ 32 + unat l"
  by (simp add: lb_nat_def)

lemma unat_u32_lt: "unat (w :: u32) < 4294967296"
  using unsigned_less[of w] by simp

lemma lb_nat_lt: "lb_nat b < 2 ^ 64"
proof -
  have "unat (hi b) < 4294967296" "unat (lo b) < 4294967296" by (rule unat_u32_lt)+
  then show ?thesis by (simp add: lb_nat_def)
qed

lemma lb_nat_hi: "lb_nat b div 2 ^ 32 = unat (hi b)"
  by (simp add: lb_nat_def unat_u32_lt)

lemma lb_nat_lo: "lb_nat b mod 2 ^ 32 = unat (lo b)"
  by (simp add: lb_nat_def unat_u32_lt)

lemma lb_nat_inject: "lb_nat a = lb_nat b \<Longrightarrow> a = (b :: long_bits)"
  using lb_nat_hi[of a] lb_nat_hi[of b] lb_nat_lo[of a] lb_nat_lo[of b]
  by (cases a; cases b) (simp add: word_unat_eq_iff)

section \<open>From and to numbers\<close>

lemma int_lb_nat: "int (lb_nat b) = uint (hi b) * 4294967296 + uint (lo b)"
  by (simp add: lb_nat_def)

lemma uint_to_uint32: "uint (to_uint32 v) = v mod 4294967296"
  by (simp add: to_uint32_def uint_word_of_int)

lemma uint_u32_bounds: "0 \<le> uint (w :: u32)" "uint (w :: u32) < 4294967296"
  using uint_lt2p[of w] by simp_all

lemma uint_not_u32: "uint (NOT (w :: u32)) = 4294967295 - uint w"
  using uint_u32_bounds[of w]
  by (simp add: unsigned_not_eq take_bit_not_eq_mask_diff mask_eq_exp_minus_1 take_bit_int_eq_self)

lemma uint_neg_lo: "uint (NOT (w :: u32) + 1) = (if uint w = 0 then 0 else 4294967296 - uint w)"
  using uint_u32_bounds[of w]
  by (simp add: uint_word_ariths uint_not_u32 zmod_zminus1_eq_if mod_pos_pos_trivial)

lemma to_uint32_high:
  "uint (to_uint32 ((v - uint (to_uint32 v)) div 4294967296)) = (v div 4294967296) mod 4294967296"
  by (simp add: uint_to_uint32 minus_mod_eq_mult_div)

text \<open>The halves of a number are its value modulo \<open>2 ^ 64\<close>, negative numbers included.\<close>

lemma int_lb_nat_fromNumber: "int (lb_nat (fromNumber v)) = v mod 2 ^ 64"
proof -
  have split64: "(u div 4294967296) mod 4294967296 * 4294967296 + u mod 4294967296
      = u mod 18446744073709551616" for u :: int
    using zmod_zmult2_eq[of 4294967296 u 4294967296] by simp
  define l where "l = to_uint32 (- v)"
  define h where "h = to_uint32 ((- v - uint l) div 4294967296)"
  have lu: "uint l = - v mod 4294967296" by (simp add: l_def uint_to_uint32)
  have hu: "uint h = (- v div 4294967296) mod 4294967296"
    unfolding h_def l_def by (rule to_uint32_high)
  have pos: ?thesis if "0 < v"
  proof -
    have "fromNumber v = LongBits (to_uint32 v) (to_uint32 ((v - uint (to_uint32 v)) div 4294967296))"
      using that by (simp add: fromNumber_def Let_def)
    then have "int (lb_nat (fromNumber v)) = (v div 4294967296) mod 4294967296 * 4294967296
        + v mod 4294967296"
      by (simp only: int_lb_nat LongBits_sel to_uint32_high) (simp only: uint_to_uint32)
    with split64[of v] show ?thesis by simp
  qed
  have neg: ?thesis if "v < 0"
  proof -
    have sum: "uint h * 4294967296 + uint l = (- v) mod 18446744073709551616"
      using split64[of "- v"] lu hu by simp
    have step: "fromNumber v = (if uint (NOT l) + 1 > 4294967295
        then (if uint (NOT h) + 1 > 4294967295 then LongBits 0 0 else LongBits 0 (NOT h + 1))
        else LongBits (NOT l + 1) (NOT h))"
      using that by (simp add: fromNumber_def Let_def l_def h_def)
    define x where "x = uint h * 4294967296 + uint l"
    have x: "0 \<le> x" "x < 18446744073709551616"
      unfolding x_def using uint_u32_bounds[of l] uint_u32_bounds[of h] by linarith+
    have "uint h = 0 \<and> uint l = 0" if "x = 0"
      using that unfolding x_def using uint_u32_bounds[of l] uint_u32_bounds[of h] by linarith
    moreover have lt1: "uint l < 1 \<longleftrightarrow> uint l = 0" "uint h < 1 \<longleftrightarrow> uint h = 0"
      using uint_u32_bounds[of l] uint_u32_bounds[of h] by linarith+
    ultimately have x0: "x = 0 \<longleftrightarrow> uint h = 0 \<and> uint l = 0" by (auto simp: x_def)
    have "int (lb_nat (fromNumber v)) = (if x = 0 then 0 else 18446744073709551616 - x)"
      unfolding step x0 using uint_u32_bounds[of l] uint_u32_bounds[of h]
      by (auto simp: int_lb_nat uint_not_u32 uint_neg_lo x_def lt1)
    also have "\<dots> = (18446744073709551616 - x) mod 18446744073709551616"
      using x by (simp add: mod_pos_pos_trivial zmod_zminus1_eq_if)
    also have "\<dots> = v mod 18446744073709551616"
      unfolding x_def sum by (simp add: mod_minus_eq mod_diff_right_eq)
    finally show ?thesis by simp
  qed
  consider "v < 0" | "v = 0" | "0 < v" by linarith
  then show ?thesis
    using pos neg by cases (auto simp: fromNumber_def zero_def lb_nat_LongBits)
qed

lemma uint_drop31: "drop_bit 31 (w :: u32) \<noteq> 0 \<longleftrightarrow> 2147483648 \<le> uint w"
proof -
  have "uint (drop_bit 31 w) = uint w div 2147483648"
    by (simp only: unsigned_drop_bit_eq) (simp add: drop_bit_eq_div take_bit_int_eq_self uint_u32_bounds)
  moreover have "drop_bit 31 w = 0 \<longleftrightarrow> uint (drop_bit 31 w) = 0"
    by (simp only: word_uint_eq_iff) simp
  ultimately show ?thesis
    using uint_u32_bounds[of w] by (auto simp: zdiv_eq_0_iff not_less)
qed

lemma lb_int_hi: "lb_nat b < 2 ^ 63 \<longleftrightarrow> uint (hi b) < 2147483648"
proof -
  have "lb_nat b < 2 ^ 63 \<longleftrightarrow> int (lb_nat b) < 9223372036854775808" by simp
  then show ?thesis
    unfolding int_lb_nat using uint_u32_bounds[of "lo b"] uint_u32_bounds[of "hi b"] by linarith
qed

text \<open>\<open>toNumber\<close> is the two's complement (or unsigned) value, rounded to a double.\<close>

lemma toNumber_unsigned: "toNumber True b = to_double (int (lb_nat b))"
  by (simp add: toNumber_def int_lb_nat add.commute)

lemma to_double_minus: "to_double (- v) = - to_double v"
  by (simp add: to_double_def Let_def)

lemma toNumber_signed: "toNumber False b = to_double (lb_int b)"
proof (cases "uint (hi b) < 2147483648")
  case True
  then show ?thesis
    using lb_int_hi[of b] uint_drop31[of "hi b"]
    by (simp add: toNumber_def lb_int_def int_lb_nat add.commute)
next
  case False
  let ?l = "lo b" and ?h = "hi b"
  have h': "uint (if NOT ?l + 1 = 0 then NOT ?h + 1 else NOT ?h)
      = 4294967295 - uint ?h + (if uint ?l = 0 then 1 else 0)"
  proof (cases "uint ?l = 0")
    case True
    then have "uint (NOT ?l + 1) = 0" by (simp add: uint_neg_lo)
    then have "NOT ?l + 1 = 0" by (simp only: uint_0_iff)
    with True False show ?thesis
      using uint_u32_bounds[of ?h] by (simp add: uint_neg_lo)
  next
    case False
    then have "uint (NOT ?l + 1) \<noteq> 0" using uint_u32_bounds[of ?l] by (simp add: uint_neg_lo)
    then have "NOT ?l + 1 \<noteq> 0" by (metis uint_0_iff)
    with False show ?thesis by (simp add: uint_not_u32)
  qed
  have "toNumber False b = - to_double (uint (NOT ?l + 1)
      + uint (if NOT ?l + 1 = 0 then NOT ?h + 1 else NOT ?h) * 4294967296)"
    using False uint_drop31[of ?h] by (simp add: toNumber_def Let_def)
  also have "uint (NOT ?l + 1) + uint (if NOT ?l + 1 = 0 then NOT ?h + 1 else NOT ?h) * 4294967296
      = 18446744073709551616 - int (lb_nat b)"
    unfolding h' uint_neg_lo int_lb_nat by simp
  finally have "toNumber False b = - to_double (18446744073709551616 - int (lb_nat b))" .
  then show ?thesis
    using False lb_int_hi[of b] to_double_minus[of "18446744073709551616 - int (lb_nat b)"]
    by (simp add: lb_int_def)
qed

section \<open>Zig-zag encoding\<close>

lemma xor_ones: "w XOR - 1 = NOT (w :: u32)"
  by (simp add: bit.xor_one_right)

lemma sign_mask: "signed_drop_bit 31 (w :: u32) = (if uint w < 2147483648 then 0 else - 1)"
proof -
  have "signed_drop_bit 31 w = (if bit w 31 then - 1 else 0)"
    by (rule bit_word_eqI) (auto simp: bit_signed_drop_bit_iff not_le less_Suc_eq_le)
  then show ?thesis by (simp add: bit31)
qed

lemma shl64_lo: "uint (push_bit 1 (w :: u32)) = (uint w mod 2147483648) * 2"
  using uint_push_bit[of 1 w] by simp

lemma shl64_hi:
  "uint (push_bit 1 h OR drop_bit 31 l :: u32) = (uint h mod 2147483648) * 2 + uint l div 2147483648"
proof -
  have "uint (drop_bit 31 l) < 2"
    using uint_u32_bounds[of l] uint_drop_bit[of 31 l] by simp
  then show ?thesis
    using uint_or_push_bit[of "drop_bit 31 l" 1 h] uint_drop_bit[of 31 l]
    by (simp add: or.commute)
qed

lemma shr64_lo:
  "uint (drop_bit 1 l OR push_bit 31 h :: u32) = uint l div 2 + (uint h mod 2) * 2147483648"
  using uint_or_push_bit[of "drop_bit 1 l" 31 h] uint_u32_bounds[of l] uint_drop_bit[of 1 l] by simp

lemma mod_u32_high:
  "\<not> uint (w :: u32) < 2147483648 \<Longrightarrow> uint w mod 2147483648 = uint w - 2147483648"
  using uint_u32_bounds[of w] by (intro int_mod_pos_eq[where q = 1]) auto

lemma zzEncode_pos:
  "uint (hi b) < 2147483648 \<Longrightarrow>
   zzEncode b = LongBits (push_bit 1 (lo b)) (push_bit 1 (hi b) OR drop_bit 31 (lo b))"
  by (simp add: zzEncode_def Let_def sign_mask LongBits_def)

lemma zzEncode_neg:
  "\<not> uint (hi b) < 2147483648 \<Longrightarrow>
   zzEncode b = LongBits (NOT (push_bit 1 (lo b))) (NOT (push_bit 1 (hi b) OR drop_bit 31 (lo b)))"
  by (simp add: zzEncode_def Let_def sign_mask LongBits_def xor_ones)

lemma shl_arith:
  "hm = h \<Longrightarrow> q * 2147483648 + r = l \<Longrightarrow>
   (hm * 2 + q) * 4294967296 + r * 2 = 2 * (h * 4294967296 + l)" for h l q r :: int
  by simp

lemma shl_arith_neg:
  "q * 2147483648 + r = l \<Longrightarrow>
   (4294967295 - ((h - 2147483648) * 2 + q)) * 4294967296 + (4294967295 - r * 2)
     = 36893488147419103231 - 2 * (h * 4294967296 + l)" for h l q r :: int
  by simp

text \<open>\<open>zzEncode\<close> and \<open>zzDecode\<close> are the zig-zag numbering of the signed value.\<close>

lemma lb_nat_zzEncode:
  "int (lb_nat (zzEncode b)) = (if 0 \<le> lb_int b then 2 * lb_int b else - 2 * lb_int b - 1)"
proof (cases "uint (hi b) < 2147483648")
  case True
  have "int (lb_nat (zzEncode b)) = 2 * int (lb_nat b)"
    unfolding zzEncode_pos[OF True] int_lb_nat LongBits_sel shl64_lo shl64_hi
    by (rule shl_arith[OF mod_pos_pos_trivial[OF uint_u32_bounds(1) True] div_mult_mod_eq])
  then show ?thesis using True lb_int_hi[of b] by (simp add: lb_int_def)
next
  case False
  have "int (lb_nat (zzEncode b)) = 36893488147419103231 - 2 * int (lb_nat b)"
    unfolding zzEncode_neg[OF False] int_lb_nat LongBits_sel uint_not_u32 shl64_lo shl64_hi
      mod_u32_high[OF False]
    by (rule shl_arith_neg[OF div_mult_mod_eq])
  then show ?thesis using False lb_int_hi[of b] lb_nat_lt[of b] by (simp add: lb_int_def)
qed

lemma odd_mask: "- (w AND 1 :: u32) = (if even (uint w) then 0 else - 1)"
proof -
  have "w AND 1 = (if bit w 0 then 1 else 0)"
    by (rule bit_word_eqI) (auto simp: bit_and_iff bit_1_iff intro: gr0I)
  moreover have "bit w 0 \<longleftrightarrow> odd (uint w)"
    using bit_uint_iff[of w 0] by (simp add: bit_0)
  ultimately show ?thesis by simp
qed

lemma even_lb_nat: "even (lb_nat b) \<longleftrightarrow> even (uint (lo b))"
proof -
  have "even (lb_nat b) \<longleftrightarrow> even (int (lb_nat b))" by simp
  then show ?thesis unfolding int_lb_nat by simp
qed

lemma zzDecode_even:
  "even (uint (lo b)) \<Longrightarrow>
   zzDecode b = LongBits (drop_bit 1 (lo b) OR push_bit 31 (hi b)) (drop_bit 1 (hi b))"
  by (simp add: zzDecode_def Let_def odd_mask LongBits_def)

lemma zzDecode_odd:
  "odd (uint (lo b)) \<Longrightarrow>
   zzDecode b = LongBits (NOT (drop_bit 1 (lo b) OR push_bit 31 (hi b))) (NOT (drop_bit 1 (hi b)))"
  by (simp add: zzDecode_def Let_def odd_mask LongBits_def xor_ones)

lemma lb_int_zzDecode:
  "lb_int (zzDecode b) =
     (if even (lb_nat b) then int (lb_nat b) div 2 else - (int (lb_nat b) div 2) - 1)"
proof -
  have half: "int (lb_nat b) div 2 = uint (hi b) div 2 * 4294967296
      + (uint (lo b) div 2 + (uint (hi b) mod 2) * 2147483648)"
  proof -
    have "(uint (hi b) * 4294967296 + uint (lo b)) div 2 = uint (hi b) * 2147483648 + uint (lo b) div 2"
      by simp
    then show ?thesis
      unfolding int_lb_nat using div_mult_mod_eq[of "uint (hi b)" 2] by linarith
  qed
  have lt: "int (lb_nat b) div 2 < 9223372036854775808"
    using lb_nat_lt[of b] by simp
  show ?thesis
  proof (cases "even (uint (lo b))")
    case True
    have "int (lb_nat (zzDecode b)) = int (lb_nat b) div 2"
      unfolding zzDecode_even[OF True] half
      unfolding int_lb_nat LongBits_sel shr64_lo by (simp add: uint_drop_bit)
    then show ?thesis using True lt by (simp add: even_lb_nat lb_int_def)
  next
    case False
    have "int (lb_nat (zzDecode b)) = 18446744073709551615 - int (lb_nat b) div 2"
      unfolding zzDecode_odd[OF False] half
      unfolding int_lb_nat LongBits_sel shr64_lo uint_not_u32 by (simp add: uint_drop_bit)
    then show ?thesis using False lt by (simp add: even_lb_nat lb_int_def)
  qed
qed

lemma lb_int_inject: "lb_int a = lb_int b \<Longrightarrow> a = b"
  using lb_nat_lt[of a] lb_nat_lt[of b] lb_nat_inject[of a b]
  by (auto simp: lb_int_def split: if_splits)

lemma zzDecode_zzEncode: "zzDecode (zzEncode b) = b"
proof (rule lb_int_inject)
  show "lb_int (zzDecode (zzEncode b)) = lb_int b"
  proof (cases "0 \<le> lb_int b")
    case True
    then have n: "lb_nat (zzEncode b) = 2 * nat (lb_int b)" using lb_nat_zzEncode[of b] by simp
    show ?thesis unfolding lb_int_zzDecode n using True by simp
  next
    case False
    then have n: "lb_nat (zzEncode b) = 2 * nat (- lb_int b - 1) + 1"
      using lb_nat_zzEncode[of b] by simp
    show ?thesis unfolding lb_int_zzDecode n using False by simp
  qed
qed
lemma zzEncode_zzDecode: "zzEncode (zzDecode b) = b"
proof (rule lb_nat_inject)
  have "int (lb_nat (zzEncode (zzDecode b))) = int (lb_nat b)"
  proof (cases "even (lb_nat b)")
    case True
    then show ?thesis unfolding lb_nat_zzEncode lb_int_zzDecode by simp
  next
    case False
    then obtain k where "lb_nat b = 2 * k + 1" by (elim oddE)
    with False show ?thesis unfolding lb_nat_zzEncode lb_int_zzDecode by simp
  qed
  then show "lb_nat (zzEncode (zzDecode b)) = lb_nat b" by simp
qed

lemma lb_int_fromNumber:
  assumes "- (2 ^ 63) \<le> v" and "v < 2 ^ 63"
  shows "lb_int (fromNumber v) = v"
proof -
  have e: "int (lb_nat (fromNumber v)) = v mod 2 ^ 64" by (rule int_lb_nat_fromNumber)
  show ?thesis
  proof (cases "0 \<le> v")
    case True
    then have "v mod 2 ^ 64 = v" using assms by (intro mod_pos_pos_trivial) auto
    then show ?thesis using e True assms by (simp add: lb_int_def)
  next
    case False
    then have "v mod 2 ^ 64 = v + 2 ^ 64"
      using assms by (intro int_mod_pos_eq[where q = "- 1"]) auto
    then show ?thesis using e False assms by (simp add: lb_int_def)
  qed
qed

lemma toNumber_fromNumber: "\<bar>v\<bar> < 2 ^ 53 \<Longrightarrow> toNumber False (fromNumber v) = v"
  by (simp add: toNumber_signed lb_int_fromNumber to_double_exact)

section \<open>Hashes\<close>

definition hash_bits :: "js_string \<Rightarrow> nat \<Rightarrow> u32" where
  "hash_bits s i = char_bits s i OR push_bit 8 (char_bits s (i + 1))
     OR push_bit 16 (char_bits s (i + 2)) OR push_bit 24 (char_bits s (i + 3))"

lemma fromHash_bits: "fromHash s = LongBits (hash_bits s 0) (hash_bits s 4)"
  by (simp add: fromHash_def hash_bits_def zeroHash_def char_bits_def zero_def numeral_2_eq_2)

lemma bytes_or: "w = (w AND 255) OR push_bit 8 (drop_bit 8 w AND 255)
    OR push_bit 16 (drop_bit 16 w AND 255) OR push_bit 24 (drop_bit 24 w)" for w :: u32
proof (rule bit_word_eqI)
  fix n assume "n < LENGTH(32)"
  have m: "(255 :: u32) = mask 8" by (simp add: mask_eq_exp_minus_1)
  show "bit w n = bit ((w AND 255) OR push_bit 8 (drop_bit 8 w AND 255)
    OR push_bit 16 (drop_bit 16 w AND 255) OR push_bit 24 (drop_bit 24 w)) n"
  proof -
    consider "n < 8" | "8 \<le> n" "n < 16" | "16 \<le> n" "n < 24" | "24 \<le> n" by linarith
    then show ?thesis
      unfolding m using \<open>n < LENGTH(32)\<close>
      by cases (auto simp: bit_or_iff bit_and_iff bit_push_bit_iff bit_drop_bit_eq bit_mask_iff)
  qed
qed

lemma ucast16_and255: "(ucast (ucast (w AND 255 :: u32) :: u16) :: u32) = w AND 255"
proof (rule bit_word_eqI)
  fix n assume "n < LENGTH(32)"
  have m: "(255 :: u32) = mask 8" by (simp add: mask_eq_exp_minus_1)
  show "bit (ucast (ucast (w AND 255 :: u32) :: u16) :: u32) n = bit (w AND 255) n"
    unfolding m using \<open>n < LENGTH(32)\<close>
    by (auto simp: bit_ucast_iff bit_and_iff bit_mask_iff)
qed

lemma ucast16_drop24: "(ucast (ucast (drop_bit 24 w :: u32) :: u16) :: u32) = drop_bit 24 w"
proof (rule bit_word_eqI)
  fix n assume "n < LENGTH(32)"
  then show "bit (ucast (ucast (drop_bit 24 w :: u32) :: u16) :: u32) n = bit (drop_bit 24 w) n"
    by (auto simp: bit_ucast_iff bit_drop_bit_eq dest: bit_imp_le_length)
qed

lemma char_bits_toHash:
  "char_bits (toHash b) 0 = lo b AND 255" "char_bits (toHash b) 1 = drop_bit 8 (lo b) AND 255"
  "char_bits (toHash b) 2 = drop_bit 16 (lo b) AND 255" "char_bits (toHash b) 3 = drop_bit 24 (lo b)"
  "char_bits (toHash b) 4 = hi b AND 255" "char_bits (toHash b) 5 = drop_bit 8 (hi b) AND 255"
  "char_bits (toHash b) 6 = drop_bit 16 (hi b) AND 255" "char_bits (toHash b) 7 = drop_bit 24 (hi b)"
  by (simp_all add: char_bits_def toHash_def ucast16_and255 ucast16_drop24 nth_Cons')

lemma fromHash_toHash: "fromHash (toHash b) = b"
proof -
  have i: "(0::nat) + 1 = 1" "(0::nat) + 2 = 2" "(0::nat) + 3 = 3"
    "(4::nat) + 1 = 5" "(4::nat) + 2 = 6" "(4::nat) + 3 = 7" by simp_all
  have "hash_bits (toHash b) 0 = lo b" "hash_bits (toHash b) 4 = hi b"
    by (simp_all only: hash_bits_def i char_bits_toHash bytes_or[symmetric])
  then show ?thesis by (simp add: fromHash_bits LongBits_def)
qed

section \<open>The varint length\<close>

lemma varint_size_table:
  "n < 2 ^ 64 \<Longrightarrow> varint_size n =
     (if n < 2 ^ 56
      then if n < 2 ^ 28
           then if n < 16384 then if n < 128 then 1 else 2
                else if n < 2097152 then 3 else 4
           else if n < 2 ^ 28 * 16384 then if n < 2 ^ 28 * 128 then 5 else 6
                else if n < 2 ^ 28 * 2097152 then 7 else 8
      else if n < 2 ^ 56 * 128 then 9 else 10)"
  using varint_size_1[of n] varint_size_eq[of 1 n] varint_size_eq[of 2 n] varint_size_eq[of 3 n]
    varint_size_eq[of 4 n] varint_size_eq[of 5 n] varint_size_eq[of 6 n] varint_size_eq[of 7 n]
    varint_size_eq[of 8 n] varint_size_eq[of 9 n]
  by simp

lemma u32_eq_0: "w = 0 \<longleftrightarrow> uint w = 0" for w :: u32
  by (simp only: word_uint_eq_iff) simp

lemma u32_less: "w < v \<longleftrightarrow> uint w < uint v" for w v :: u32
  by (rule word_less_def)

lemma div_shift: "h * 4294967296 + l = n \<Longrightarrow> 0 \<le> l \<Longrightarrow> l < 4294967296 \<Longrightarrow>
  n div 268435456 = l div 268435456 + h * 16" for h l n :: int
  by auto

text \<open>\<open>length\<close> counts the bytes of the varint of the number, for every 64-bit value.\<close>

lemma longbits_length_eq: "longbits_length b = varint_size (lb_nat b)"
proof -
  let ?n = "int (lb_nat b)"
  let ?p1 = "drop_bit 28 (lo b) OR push_bit 4 (hi b)"
  have n: "uint (hi b) * 4294967296 + uint (lo b) = ?n" by (simp only: int_lb_nat)
  have p2: "uint (drop_bit 24 (hi b)) = ?n div 72057594037927936"
    unfolding uint_drop_bit n[symmetric]
    using uint_u32_bounds[of "lo b"]
      zdiv_zmult2_eq[of 16777216 "uint (hi b) * 4294967296 + uint (lo b)" 4294967296] by simp
  have "uint (drop_bit 28 (lo b)) < 2 ^ 4"
    unfolding uint_drop_bit using uint_u32_bounds[of "lo b"] by simp
  then have "uint ?p1 = uint (lo b) div 268435456 + (uint (hi b) mod 268435456) * 16"
    using uint_or_push_bit[of "drop_bit 28 (lo b)" 4 "hi b"] by (simp add: uint_drop_bit)
  moreover have "uint (hi b) mod 268435456 = uint (hi b)" if "?n < 72057594037927936"
    using that n uint_u32_bounds[of "hi b"] uint_u32_bounds[of "lo b"]
    by (intro mod_pos_pos_trivial) linarith+
  ultimately have p1: "uint ?p1 = ?n div 268435456" if "?n < 72057594037927936"
    using that div_shift[OF n uint_u32_bounds] by simp
  have p0: "uint (lo b) = ?n" if "?n < 268435456"
  proof -
    have "uint (hi b) < 1" using that n uint_u32_bounds[of "lo b"] by linarith
    then have "uint (hi b) = 0" using uint_u32_bounds[of "hi b"] by linarith
    with n show ?thesis by simp
  qed
  show ?thesis
    unfolding varint_size_table[OF lb_nat_lt] longbits_length_def Let_def u32_eq_0 u32_less p2
    using p1 p0 by auto
qed

text \<open>The zig-zag transformation of 64-bit halves is the numbering 0, -1, 1, -2, ... of the
  signed value: \<open>zzEncode\<close> gives its index, \<open>zzDecode\<close> the value of an index, and the
  two are inverse for all \<open>2 ^ 64\<close> values, both ways round.\<close>

theorem zigzag64:
  "int (lb_nat (zzEncode b)) = (if 0 \<le> lb_int b then 2 * lb_int b else - 2 * lb_int b - 1) \<and>
   zzDecode (zzEncode b) = b \<and> zzEncode (zzDecode b) = b"
  using lb_nat_zzEncode zzDecode_zzEncode zzEncode_zzDecode by blast

text \<open>Numbers and halves: \<open>fromNumber\<close> keeps the value modulo \<open>2 ^ 64\<close>, negative
  numbers in two's complement; \<open>toNumber\<close> gives back the signed value rounded to a double,
  which is the number itself below \<open>2 ^ 53\<close>.\<close>

theorem number_roundtrip:
  assumes "\<bar>u\<bar> < 2 ^ 53"
  shows "int (lb_nat (fromNumber v)) = v mod 2 ^ 64 \<and>
    toNumber False b = to_double (lb_int b) \<and> toNumber True b = to_double (int (lb_nat b)) \<and>
    toNumber False (fromNumber u) = u"
  using int_lb_nat_fromNumber[of v] toNumber_signed[of b] toNumber_unsigned[of b]
    toNumber_fromNumber[OF assms] by simp

theorem number_roundtrip_witness:
  "toNumber False (fromNumber (- 9007199254740991)) = - 9007199254740991"
  using number_roundtrip[of "- 9007199254740991" 0 zero] by simp

text \<open>\<open>LongBits.length\<close> is the number of bytes of the value's varint for every 64-bit
  value, although the source finds it from three overlapping parts of the halves.\<close>

theorem longbits_length_varint:
  "longbits_length b = length (varint (lb_nat b)) \<and> 1 \<le> longbits_length b \<and> longbits_length b \<le> 10"
  using longbits_length_eq[of b] lb_nat_lt[of b] varint_size_le[of "lb_nat b" 9]
    varint_size_pos[of "lb_nat b"] by (simp add: length_varint)

end
