(* ===== verification/Writer.thy ===== *)
theory Writer
  imports LongBits Utf8 Base64
begin

unbundle bit_operations_syntax

text \<open>
  \<open>Writer\<close> of protobuf.js. A writer is a queue of scheduled operations, the sum of their
  lengths and a stack of forked states; \<open>finish\<close> allocates a buffer of exactly that many
  bytes and runs the queue over it. The queue is the source's linked list without its leading
  no-op; an operation is the function to call with its value and the length reserved for it.

  \<open>w_bytes\<close> is the specification: the bytes the queue stands for. \<open>wf_writer\<close>
  says that every operation reserves what it writes.
\<close>

text \<open>
  The function of an operation with its value. A binary32 or binary64 value is given by its bit
  pattern, which is what the source stores through the shared typed arrays of \<open>util.float\<close>.
\<close>

datatype op_fn =
    WriteByte u32
  | WriteVarint32 u32
  | WriteVarint64 long_bits
  | WriteFixed32 u32
  | WriteFloatLE u32
  | WriteDoubleLE u64
  | WriteBytes "byte list"
  | WriteUtf8 js_string

record wop =
  op_fn :: op_fn
  op_len :: nat

record writer_state =
  s_ops :: "wop list"
  s_len :: nat

record writer =
  w_ops :: "wop list"
  w_len :: nat
  w_states :: "writer_state list"

definition Op :: "op_fn \<Rightarrow> nat \<Rightarrow> wop" where
  "Op fn len = \<lparr>op_fn = fn, op_len = len\<rparr>"

definition State :: "writer \<Rightarrow> writer_state" where
  "State w = \<lparr>s_ops = w_ops w, s_len = w_len w\<rparr>"

definition Writer :: writer where
  "Writer = \<lparr>w_ops = [], w_len = 0, w_states = []\<rparr>"

definition writer_create :: writer where
  "writer_create = Writer"

definition writer_alloc :: "nat \<Rightarrow> byte list" where
  "writer_alloc sz = replicate sz 0"

section \<open>The functions of the operations\<close>

definition writeByte :: "u32 \<Rightarrow> byte list \<Rightarrow> nat \<Rightarrow> byte list" where
  "writeByte val buf pos = buf[pos := ucast (val AND 255)]"

function writeVarint32 :: "u32 \<Rightarrow> byte list \<Rightarrow> nat \<Rightarrow> byte list" where
  "writeVarint32 val buf pos =
     (if val > 127
      then writeVarint32 (drop_bit 7 val) (buf[pos := ucast (val AND 127 OR 128)]) (pos + 1)
      else buf[pos := ucast val])"
  by pat_completeness auto

text \<open>The two loops of \<open>writeVarint64\<close>; the halves are changed in place, so they are a result.\<close>

function varint64_hi :: "long_bits \<Rightarrow> byte list \<Rightarrow> nat \<Rightarrow> long_bits \<times> byte list \<times> nat" where
  "varint64_hi val buf pos =
     (if hi val \<noteq> 0
      then varint64_hi
             (val\<lparr>lo := drop_bit 7 (lo val) OR push_bit 25 (hi val), hi := drop_bit 7 (hi val)\<rparr>)
             (buf[pos := ucast (lo val AND 127 OR 128)]) (pos + 1)
      else (val, buf, pos))"
  by pat_completeness auto

function varint64_lo :: "long_bits \<Rightarrow> byte list \<Rightarrow> nat \<Rightarrow> long_bits \<times> byte list \<times> nat" where
  "varint64_lo val buf pos =
     (if lo val > 127
      then varint64_lo (val\<lparr>lo := drop_bit 7 (lo val)\<rparr>)
             (buf[pos := ucast (lo val AND 127 OR 128)]) (pos + 1)
      else (val, buf, pos))"
  by pat_completeness auto

lemma drop7_less: "(w :: u32) \<noteq> 0 \<Longrightarrow> unat (drop_bit 7 w) < unat w"
  by (simp add: unat_drop_bit unat_gt_0)

termination writeVarint32
  by (relation "measure (\<lambda>(val, buf, pos). unat val)") (auto intro!: drop7_less)

termination varint64_hi
  by (relation "measure (\<lambda>(val, buf, pos). unat (hi val))") (auto intro!: drop7_less)

termination varint64_lo
  by (relation "measure (\<lambda>(val, buf, pos). unat (lo val))") (auto intro!: drop7_less)

declare writeVarint32.simps [simp del] varint64_hi.simps [simp del] varint64_lo.simps [simp del]

definition writeVarint64 :: "long_bits \<Rightarrow> byte list \<Rightarrow> nat \<Rightarrow> long_bits \<times> byte list" where
  "writeVarint64 val buf pos =
     (case varint64_hi val buf pos of
        (val1, buf1, pos1) \<Rightarrow>
          (case varint64_lo val1 buf1 pos1 of
             (val2, buf2, pos2) \<Rightarrow> (val2, buf2[pos2 := ucast (lo val2)])))"

definition fixed32_bytes :: "u32 \<Rightarrow> byte list" where
  "fixed32_bytes val =
     [ucast (val AND 255), ucast (drop_bit 8 val AND 255), ucast (drop_bit 16 val AND 255),
      ucast (drop_bit 24 val)]"

definition writeFixed32 :: "u32 \<Rightarrow> byte list \<Rightarrow> nat \<Rightarrow> byte list" where
  "writeFixed32 val buf pos =
     (let b = fixed32_bytes val
      in buf[pos := b ! 0, pos + 1 := b ! 1, pos + 2 := b ! 2, pos + 3 := b ! 3])"

text \<open>\<open>util.float\<close> copies the bytes of its shared array, on a little-endian machine in order.\<close>

definition f32_le :: "u32 \<Rightarrow> byte list" where
  "f32_le v = map (\<lambda>i. ucast (drop_bit (8 * i) v)) [0..<4]"

definition f64_le :: "u64 \<Rightarrow> byte list" where
  "f64_le v = map (\<lambda>i. ucast (drop_bit (8 * i) v)) [0..<8]"

definition writeFloatLE :: "u32 \<Rightarrow> byte list \<Rightarrow> nat \<Rightarrow> byte list" where
  "writeFloatLE v buf pos =
     (let f8b = f32_le v
      in buf[pos := f8b ! 0, pos + 1 := f8b ! 1, pos + 2 := f8b ! 2, pos + 3 := f8b ! 3])"

definition writeDoubleLE :: "u64 \<Rightarrow> byte list \<Rightarrow> nat \<Rightarrow> byte list" where
  "writeDoubleLE v buf pos =
     (let f8b = f64_le v
      in buf[pos := f8b ! 0, pos + 1 := f8b ! 1, pos + 2 := f8b ! 2, pos + 3 := f8b ! 3,
             pos + 4 := f8b ! 4, pos + 5 := f8b ! 5, pos + 6 := f8b ! 6, pos + 7 := f8b ! 7])"

definition writeBytes :: "byte list \<Rightarrow> byte list \<Rightarrow> nat \<Rightarrow> byte list" where
  "writeBytes val buf pos = blit buf pos val"

text \<open>\<open>head.fn(head.val, buf, pos)\<close>: the new buffer and the operation with its changed value.\<close>

definition run_op :: "wop \<Rightarrow> byte list \<Rightarrow> nat \<Rightarrow> wop \<times> byte list" where
  "run_op op buf pos =
     (case op_fn op of
        WriteByte v \<Rightarrow> (op, writeByte v buf pos)
      | WriteVarint32 v \<Rightarrow> (op, writeVarint32 v buf pos)
      | WriteVarint64 b \<Rightarrow>
          (case writeVarint64 b buf pos of
             (b', buf') \<Rightarrow> (op\<lparr>op_fn := WriteVarint64 b'\<rparr>, buf'))
      | WriteFixed32 v \<Rightarrow> (op, writeFixed32 v buf pos)
      | WriteFloatLE v \<Rightarrow> (op, writeFloatLE v buf pos)
      | WriteDoubleLE v \<Rightarrow> (op, writeDoubleLE v buf pos)
      | WriteBytes bs \<Rightarrow> (op, writeBytes bs buf pos)
      | WriteUtf8 s \<Rightarrow> (op, fst (utf8_write s buf pos)))"

section \<open>The operations of the writer\<close>

definition push :: "op_fn \<Rightarrow> nat \<Rightarrow> writer \<Rightarrow> writer" where
  "push fn len w = w\<lparr>w_ops := w_ops w @ [Op fn len], w_len := w_len w + len\<rparr>"

definition write_uint32 :: "int \<Rightarrow> writer \<Rightarrow> writer" where
  "write_uint32 value w =
     (let v = to_uint32 value;
          len = (if v < 128 then 1 else if v < 16384 then 2 else if v < 2097152 then 3
                 else if v < 268435456 then 4 else 5)
      in w\<lparr>w_ops := w_ops w @ [Op (WriteVarint32 v) len], w_len := w_len w + len\<rparr>)"

definition write_int32 :: "int \<Rightarrow> writer \<Rightarrow> writer" where
  "write_int32 value w =
     (if value < 0 then push (WriteVarint64 (fromNumber value)) 10 w else write_uint32 value w)"

definition write_sint32 :: "int \<Rightarrow> writer \<Rightarrow> writer" where
  "write_sint32 value w =
     (let v = to_uint32 value
      in write_uint32 (uint (push_bit 1 v XOR signed_drop_bit 31 v)) w)"

text \<open>The 64-bit writers take the halves \<open>LongBits.from\<close> made of their argument.\<close>

definition write_uint64 :: "long_bits \<Rightarrow> writer \<Rightarrow> writer" where
  "write_uint64 bits w = push (WriteVarint64 bits) (longbits_length bits) w"

definition write_int64 :: "long_bits \<Rightarrow> writer \<Rightarrow> writer" where
  "write_int64 = write_uint64"

definition write_sint64 :: "long_bits \<Rightarrow> writer \<Rightarrow> writer" where
  "write_sint64 b w =
     (let bits = zzEncode b in push (WriteVarint64 bits) (longbits_length bits) w)"

definition write_bool :: "bool \<Rightarrow> writer \<Rightarrow> writer" where
  "write_bool value w = push (WriteByte (if value then 1 else 0)) 1 w"

definition write_fixed32 :: "int \<Rightarrow> writer \<Rightarrow> writer" where
  "write_fixed32 value w = push (WriteFixed32 (to_uint32 value)) 4 w"

definition write_sfixed32 :: "int \<Rightarrow> writer \<Rightarrow> writer" where
  "write_sfixed32 = write_fixed32"

definition write_fixed64 :: "long_bits \<Rightarrow> writer \<Rightarrow> writer" where
  "write_fixed64 bits w = push (WriteFixed32 (hi bits)) 4 (push (WriteFixed32 (lo bits)) 4 w)"

definition write_sfixed64 :: "long_bits \<Rightarrow> writer \<Rightarrow> writer" where
  "write_sfixed64 = write_fixed64"

definition write_float :: "u32 \<Rightarrow> writer \<Rightarrow> writer" where
  "write_float value w = push (WriteFloatLE value) 4 w"

definition write_double :: "u64 \<Rightarrow> writer \<Rightarrow> writer" where
  "write_double value w = push (WriteDoubleLE value) 8 w"

definition write_bytes :: "byte list \<Rightarrow> writer \<Rightarrow> writer" where
  "write_bytes value w =
     (let len = unat (to_uint32 (int (length value)))
      in if len = 0 then push (WriteByte 0) 1 w
         else push (WriteBytes value) len (write_uint32 (int len) w))"

text \<open>
  \<open>bytes\<close> of a base 64 string. \<open>base64.length\<close> need not be an integer (for an
  unpadded string), and the writer then counts in fractions: that case is outside the model
  (\<open>None\<close>).
\<close>

definition write_bytes_base64 :: "js_string \<Rightarrow> writer \<Rightarrow> (js_error + writer) option" where
  "write_bytes_base64 value w =
     (if length value = 0 then Some (Inr (push (WriteByte 0) 1 w))
      else
        let len = base64_length value
        in if of_int \<lfloor>len\<rfloor> \<noteq> len then None
           else case base64_decode value (writer_alloc (nat \<lfloor>len\<rfloor>)) 0 of
               (Inl e, buf) \<Rightarrow> Some (Inl e)
             | (Inr n, buf) \<Rightarrow>
                 Some (Inr (push (WriteBytes buf) (nat \<lfloor>len\<rfloor>) (write_uint32 \<lfloor>len\<rfloor> w))))"

definition write_string :: "js_string \<Rightarrow> writer \<Rightarrow> writer" where
  "write_string value w =
     (let len = utf8_length value
      in if len \<noteq> 0 then push (WriteUtf8 value) len (write_uint32 (int len) w)
         else push (WriteByte 0) 1 w)"

definition fork :: "writer \<Rightarrow> writer" where
  "fork w = \<lparr>w_ops = [], w_len = 0, w_states = State w # w_states w\<rparr>"

definition reset :: "writer \<Rightarrow> writer" where
  "reset w =
     (case w_states w of
        s # ss \<Rightarrow> \<lparr>w_ops = s_ops s, w_len = s_len s, w_states = ss\<rparr>
      | [] \<Rightarrow> \<lparr>w_ops = [], w_len = 0, w_states = []\<rparr>)"

definition ldelim :: "writer \<Rightarrow> writer" where
  "ldelim w =
     (let w1 = write_uint32 (int (w_len w)) (reset w)
      in if w_len w \<noteq> 0
         then w1\<lparr>w_ops := w_ops w1 @ w_ops w, w_len := w_len w1 + w_len w\<rparr>
         else w1)"

fun run_ops :: "wop list \<Rightarrow> byte list \<Rightarrow> nat \<Rightarrow> wop list \<times> byte list" where
  "run_ops [] buf pos = ([], buf)"
| "run_ops (op # ops) buf pos =
     (case run_op op buf pos of
        (op', buf1) \<Rightarrow>
          (case run_ops ops buf1 (pos + op_len op) of (ops', buf') \<Rightarrow> (op' # ops', buf')))"

text \<open>\<open>finish\<close> returns the buffer; the queue it leaves behind is a result too.\<close>

definition finish :: "writer \<Rightarrow> byte list \<times> writer" where
  "finish w =
     (case run_ops (w_ops w) (writer_alloc (w_len w)) 0 of
        (ops', buf) \<Rightarrow> (buf, w\<lparr>w_ops := ops'\<rparr>))"

section \<open>What the operations write\<close>

primrec fn_bytes :: "op_fn \<Rightarrow> byte list" where
  "fn_bytes (WriteByte v) = [ucast (v AND 255)]"
| "fn_bytes (WriteVarint32 v) = varint (unat v)"
| "fn_bytes (WriteVarint64 b) = varint (lb_nat b)"
| "fn_bytes (WriteFixed32 v) = fixed32_bytes v"
| "fn_bytes (WriteFloatLE v) = f32_le v"
| "fn_bytes (WriteDoubleLE v) = f64_le v"
| "fn_bytes (WriteBytes bs) = bs"
| "fn_bytes (WriteUtf8 s) = utf8_enc s"

definition wf_op :: "wop \<Rightarrow> bool" where
  "wf_op op \<longleftrightarrow> op_len op = length (fn_bytes (op_fn op))"

definition ops_bytes :: "wop list \<Rightarrow> byte list" where
  "ops_bytes ops = concat (map (fn_bytes \<circ> op_fn) ops)"

definition w_bytes :: "writer \<Rightarrow> byte list" where
  "w_bytes w = ops_bytes (w_ops w)"

definition wf_queue :: "wop list \<Rightarrow> nat \<Rightarrow> bool" where
  "wf_queue ops len \<longleftrightarrow> list_all wf_op ops \<and> len = sum_list (map op_len ops)"

definition wf_writer :: "writer \<Rightarrow> bool" where
  "wf_writer w \<longleftrightarrow> wf_queue (w_ops w) (w_len w) \<and>
     list_all (\<lambda>s. wf_queue (s_ops s) (s_len s)) (w_states w)"

lemma wf_queue_length: "wf_queue ops len \<Longrightarrow> length (ops_bytes ops) = len"
  by (induction ops arbitrary: len) (auto simp: wf_queue_def wf_op_def ops_bytes_def)

lemma word_of_unat_byte: "(ucast (w :: u32) :: byte) = word_of_nat (unat w)"
  by simp

lemma u32_le_127: "w > 127 \<longleftrightarrow> \<not> unat w < 128" for w :: u32
  by (simp add: word_less_nat_alt) linarith

lemma cont_byte: "(ucast (w AND 127 OR 128 :: u32) :: byte) = word_of_nat (unat w mod 128 + 128)"
proof (rule byte_eqI)
  have "unat (w AND 127 OR push_bit 7 1 :: u32) = unat w mod 128 + 128"
    using unat_or_push_bit[of "w AND 127" 7 1] by (simp add: and_127)
  then have "unat (w AND 127 OR 128 :: u32) = unat w mod 128 + 128" by simp
  moreover have "unat w mod 128 + 128 < 256" using mod_less_divisor[of 128 "unat w"] by linarith
  ultimately show "unat (w AND 127 OR 128 :: u32) mod 256 = unat (word_of_nat (unat w mod 128 + 128) :: byte)"
    by (simp add: unat_of_nat del: of_nat_add)
qed

lemma writeVarint32_bytes: "writeVarint32 val buf pos = blit buf pos (varint (unat val))"
proof (induction val buf pos rule: writeVarint32.induct)
  case (1 val buf pos)
  show ?case
  proof (cases "unat val < 128")
    case True
    then show ?thesis
      by (subst writeVarint32.simps) (simp add: u32_le_127 varint_small)
  next
    case False
    then have "writeVarint32 (drop_bit 7 val) (buf[pos := ucast (val AND 127 OR 128)]) (pos + 1) =
        blit (buf[pos := ucast (val AND 127 OR 128)]) (pos + 1) (varint (unat (drop_bit 7 val)))"
      using 1 by (simp add: u32_le_127)
    then show ?thesis
      using False
      by (subst writeVarint32.simps)
         (simp add: u32_le_127 varint_big unat_drop_bit cont_byte del: of_nat_add)
  qed
qed

text \<open>A turn of the first loop divides the value by 128.\<close>

lemma shift7_arith:
  "h * 4294967296 + l = n \<Longrightarrow> (h div 128) * 4294967296 + (l div 128 + (h mod 128) * 33554432) = n div 128"
  for h l n :: int
proof -
  assume n: "h * 4294967296 + l = n"
  define q r where "q = h div 128" and "r = h mod 128"
  then have "h = 128 * q + r" by simp
  with n have "n = 128 * (q * 4294967296 + r * 33554432) + l" by (simp add: algebra_simps)
  then show ?thesis by (simp add: q_def r_def)
qed

lemma lb_nat_shift7:
  "lb_nat (b\<lparr>lo := drop_bit 7 (lo b) OR push_bit 25 (hi b), hi := drop_bit 7 (hi b)\<rparr>) = lb_nat b div 128"
proof -
  have "uint (drop_bit 7 (lo b)) < 2 ^ 25"
    using uint_u32_bounds[of "lo b"] by (simp add: uint_drop_bit)
  then have "uint (drop_bit 7 (lo b) OR push_bit 25 (hi b)) =
      uint (lo b) div 128 + (uint (hi b) mod 128) * 33554432"
    by (subst uint_or_push_bit) (simp_all add: uint_drop_bit)
  then have "int (lb_nat (b\<lparr>lo := drop_bit 7 (lo b) OR push_bit 25 (hi b), hi := drop_bit 7 (hi b)\<rparr>)) =
      (uint (hi b) div 128) * 4294967296 + (uint (lo b) div 128 + (uint (hi b) mod 128) * 33554432)"
    by (simp only: int_lb_nat long_bits.simps) (simp add: uint_drop_bit)
  also have "\<dots> = int (lb_nat b) div 128"
    by (rule shift7_arith) (simp only: int_lb_nat)
  finally have "int (lb_nat (b\<lparr>lo := drop_bit 7 (lo b) OR push_bit 25 (hi b), hi := drop_bit 7 (hi b)\<rparr>)) =
      int (lb_nat b div 128)" by (simp add: zdiv_int)
  then show ?thesis by (simp only: of_nat_eq_iff)
qed

lemma lb_nat_mod128: "lb_nat b mod 128 = unat (lo b) mod 128"
proof -
  have "lb_nat b = unat (lo b) + 128 * (33554432 * unat (hi b))" by (simp add: lb_nat_def)
  then show ?thesis by (metis mod_mult_self2)
qed

lemma hi_nonzero: "hi b \<noteq> 0 \<Longrightarrow> 4294967296 \<le> lb_nat b"
proof -
  assume "hi b \<noteq> 0"
  then have "0 < unat (hi b)" by (simp add: unat_gt_0)
  then show ?thesis by (simp add: lb_nat_def)
qed

lemma varint64_hi_bytes:
  "varint64_hi b buf pos = (b', buf', pos') \<Longrightarrow>
   hi b' = 0 \<and> blit buf pos (varint (lb_nat b)) = blit buf' pos' (varint (lb_nat b'))"
proof (induction b buf pos rule: varint64_hi.induct)
  case (1 val buf pos)
  show ?case
  proof (cases "hi val = 0")
    case True
    then show ?thesis using "1.prems" by (subst (asm) varint64_hi.simps) simp
  next
    case False
    let ?v = "val\<lparr>lo := drop_bit 7 (lo val) OR push_bit 25 (hi val), hi := drop_bit 7 (hi val)\<rparr>"
    let ?buf = "buf[pos := ucast (lo val AND 127 OR 128)]"
    have "varint64_hi ?v ?buf (pos + 1) = (b', buf', pos')"
      using "1.prems" False by (subst (asm) varint64_hi.simps) simp
    with False have "hi b' = 0 \<and>
        blit ?buf (pos + 1) (varint (lb_nat ?v)) = blit buf' pos' (varint (lb_nat b'))"
      by (intro "1.IH") auto
    then show ?thesis
      using hi_nonzero[OF False]
      by (simp add: varint_big lb_nat_shift7 lb_nat_mod128 cont_byte del: of_nat_add)
  qed
qed

lemma varint64_lo_bytes:
  "varint64_lo b buf pos = (b', buf', pos') \<Longrightarrow> hi b = 0 \<Longrightarrow>
   hi b' = 0 \<and> unat (lo b') < 128 \<and>
   blit buf pos (varint (unat (lo b))) = buf'[pos' := ucast (lo b')]"
proof (induction b buf pos rule: varint64_lo.induct)
  case (1 val buf pos)
  show ?case
  proof (cases "unat (lo val) < 128")
    case True
    then show ?thesis
      using "1.prems" by (subst (asm) varint64_lo.simps) (auto simp: u32_le_127 varint_small)
  next
    case False
    let ?v = "val\<lparr>lo := drop_bit 7 (lo val)\<rparr>"
    let ?buf = "buf[pos := ucast (lo val AND 127 OR 128)]"
    have "varint64_lo ?v ?buf (pos + 1) = (b', buf', pos')"
      using "1.prems"(1) False by (subst (asm) varint64_lo.simps) (simp add: u32_le_127)
    then have "hi b' = 0 \<and> unat (lo b') < 128 \<and>
        blit ?buf (pos + 1) (varint (unat (lo ?v))) = buf'[pos' := ucast (lo b')]"
      using False "1.prems"(2) by (intro "1.IH") (auto simp: u32_le_127)
    then show ?thesis
      using False by (simp add: varint_big unat_drop_bit cont_byte del: of_nat_add)
  qed
qed

lemma writeVarint64_bytes:
  assumes "writeVarint64 b buf pos = (b', buf')"
  shows "buf' = blit buf pos (varint (lb_nat b))" and "hi b' = 0" and "unat (lo b') < 128"
proof -
  obtain b1 buf1 pos1 where s1: "varint64_hi b buf pos = (b1, buf1, pos1)" by (metis prod_cases3)
  obtain b2 buf2 pos2 where s2: "varint64_lo b1 buf1 pos1 = (b2, buf2, pos2)" by (metis prod_cases3)
  have r: "b' = b2" "buf' = buf2[pos2 := ucast (lo b2)]"
    using assms s1 s2 by (auto simp: writeVarint64_def)
  note h = varint64_hi_bytes[OF s1]
  note l = varint64_lo_bytes[OF s2]
  have "lb_nat b1 = unat (lo b1)" using h by (simp add: lb_nat_def)
  then show "buf' = blit buf pos (varint (lb_nat b))" and "hi b' = 0" and "unat (lo b') < 128"
    using h l r by simp_all
qed

section \<open>Running the queue\<close>

lemma blit4: "blit buf pos [a, b, c, d] = buf[pos := a, pos + 1 := b, pos + 2 := c, pos + 3 := d]"
  by (simp add: eval_nat_numeral)

lemma blit8:
  "blit buf pos [a, b, c, d, e, f, g, h] =
   buf[pos := a, pos + 1 := b, pos + 2 := c, pos + 3 := d,
       pos + 4 := e, pos + 5 := f, pos + 6 := g, pos + 7 := h]"
  by (simp add: eval_nat_numeral)

lemma writeFixed32_bytes: "writeFixed32 v buf pos = blit buf pos (fixed32_bytes v)"
  by (simp add: writeFixed32_def fixed32_bytes_def eval_nat_numeral)

lemma list4: "length xs = 4 \<Longrightarrow> xs = [xs ! 0, xs ! 1, xs ! 2, xs ! 3]"
  by (intro nth_equalityI) (auto simp: less_Suc_eq eval_nat_numeral)

lemma list8:
  "length xs = 8 \<Longrightarrow> xs = [xs ! 0, xs ! 1, xs ! 2, xs ! 3, xs ! 4, xs ! 5, xs ! 6, xs ! 7]"
  by (intro nth_equalityI) (auto simp: less_Suc_eq eval_nat_numeral)

lemma writeFloatLE_bytes: "writeFloatLE v buf pos = blit buf pos (f32_le v)"
  by (subst list4[of "f32_le v"]) (simp_all only: writeFloatLE_def Let_def blit4, simp add: f32_le_def)

lemma writeDoubleLE_bytes: "writeDoubleLE v buf pos = blit buf pos (f64_le v)"
  by (subst list8[of "f64_le v"]) (simp_all only: writeDoubleLE_def Let_def blit8, simp add: f64_le_def)

text \<open>Every operation writes its bytes at the position and nothing else.\<close>

lemma run_op_bytes: "snd (run_op op buf pos) = blit buf pos (fn_bytes (op_fn op))"
proof (cases "op_fn op")
  case (WriteVarint64 b)
  obtain b' buf' where "writeVarint64 b buf pos = (b', buf')" by force
  then show ?thesis using WriteVarint64 writeVarint64_bytes(1) by (simp add: run_op_def)
qed (simp_all add: run_op_def writeByte_def writeVarint32_bytes writeFixed32_bytes
      writeFloatLE_bytes writeDoubleLE_bytes writeBytes_def utf8_write_enc)

lemma run_op_len: "op_len (fst (run_op op buf pos)) = op_len op"
  by (auto simp: run_op_def split: op_fn.splits prod.splits)

lemma run_ops_bytes:
  "list_all wf_op ops \<Longrightarrow> snd (run_ops ops buf pos) = blit buf pos (ops_bytes ops)"
proof (induction ops arbitrary: buf pos)
  case Nil
  then show ?case by (simp add: ops_bytes_def)
next
  case (Cons op ops)
  obtain op' buf1 where r: "run_op op buf pos = (op', buf1)" by force
  then have "buf1 = blit buf pos (fn_bytes (op_fn op))" using run_op_bytes[of op buf pos] by simp
  moreover have "op_len op = length (fn_bytes (op_fn op))" using Cons.prems by (simp add: wf_op_def)
  ultimately show ?case
    using Cons r by (simp add: ops_bytes_def blit_append split: prod.splits) (metis snd_conv)
qed

lemma finish_bytes: "wf_writer w \<Longrightarrow> fst (finish w) = w_bytes w"
proof -
  assume "wf_writer w"
  then have q: "wf_queue (w_ops w) (w_len w)" by (simp add: wf_writer_def)
  then have "snd (run_ops (w_ops w) (writer_alloc (w_len w)) 0) =
      blit (replicate (length (w_bytes w)) 0) 0 (w_bytes w)"
    by (subst run_ops_bytes) (auto simp: wf_queue_def w_bytes_def writer_alloc_def wf_queue_length)
  then show ?thesis
    by (auto simp: finish_def blit_split split: prod.splits)
qed

section \<open>What the operations of the writer append\<close>

lemma wf_queue_append: "wf_queue ops len \<Longrightarrow> wf_op op \<Longrightarrow> wf_queue (ops @ [op]) (len + op_len op)"
  by (simp add: wf_queue_def)

definition appends :: "(writer \<Rightarrow> writer) \<Rightarrow> byte list \<Rightarrow> bool" where
  "appends f bs \<longleftrightarrow> (\<forall>w. wf_writer w \<longrightarrow>
     wf_writer (f w) \<and> w_bytes (f w) = w_bytes w @ bs \<and> w_states (f w) = w_states w)"

lemma appends_comp: "appends f bs \<Longrightarrow> appends g cs \<Longrightarrow> appends (g \<circ> f) (bs @ cs)"
  by (simp add: appends_def)

lemma appends_id: "appends (\<lambda>w. w) []"
  by (simp add: appends_def)

lemma appends_push:
  assumes "len = length (fn_bytes fn)"
  shows "appends (push fn len) (fn_bytes fn)"
  using assms wf_queue_append[of _ _ "Op fn len"]
  by (simp add: appends_def push_def wf_writer_def w_bytes_def ops_bytes_def wf_op_def Op_def)

lemma length_varint_u32:
  "(if v < 128 then 1 else if v < 16384 then 2 else if v < 2097152 then 3
    else if v < 268435456 then 4 else 5) = length (varint (unat (v :: u32)))"
  using unat_u32_lt[of v] varint_size_1[of "unat v"] varint_size_eq[of 1 "unat v"]
    varint_size_eq[of 2 "unat v"] varint_size_eq[of 3 "unat v"] varint_size_eq[of 4 "unat v"]
  by (simp add: length_varint word_less_nat_alt)

lemma write_uint32_push:
  "write_uint32 v w = push (WriteVarint32 (to_uint32 v)) (length (varint (unat (to_uint32 v)))) w"
  by (simp only: write_uint32_def Let_def push_def length_varint_u32)

lemma appends_uint32: "appends (write_uint32 v) (varint (unat (to_uint32 v)))"
  unfolding write_uint32_push[abs_def] using appends_push[of _ "WriteVarint32 (to_uint32 v)"] by simp

lemma appends_int32:
  assumes "- (2 ^ 31) \<le> v" "v < 2 ^ 31"
  shows "appends (write_int32 v) (varint (nat (v mod 2 ^ 64)))"
proof (cases "v < 0")
  case True
  have "v mod 2 ^ 64 = v + 2 ^ 64"
    using True assms by (intro int_mod_pos_eq[where q = "- 1"]) auto
  then have n: "lb_nat (fromNumber v) = nat (v + 2 ^ 64)" using int_lb_nat_fromNumber[of v] by simp
  have "(128::nat) ^ 9 \<le> nat (v + 2 ^ 64)" "nat (v + 2 ^ 64) < (128::nat) ^ Suc 9"
    using True assms by (simp_all add: le_nat_iff nat_less_iff)
  then have "varint_size (lb_nat (fromNumber v)) = 10" using varint_size_eq[of 9] n by simp
  then have "write_int32 v = push (WriteVarint64 (fromNumber v)) (length (fn_bytes (WriteVarint64 (fromNumber v))))"
    using True by (simp add: write_int32_def length_varint fun_eq_iff)
  then show ?thesis
    using appends_push[of _ "WriteVarint64 (fromNumber v)"] n \<open>v mod 2 ^ 64 = v + 2 ^ 64\<close> by simp
next
  case False
  then have "write_int32 v = write_uint32 v" by (simp add: write_int32_def fun_eq_iff)
  moreover have "unat (to_uint32 v) = nat v"
    using False assms by (simp add: unat_eq_nat_uint uint_to_uint32)
  ultimately show ?thesis using appends_uint32[of v] False assms by simp
qed

lemma to_uint32_uint [simp]: "to_uint32 (uint w) = w"
  by (simp add: to_uint32_def)

definition zig32 :: "u32 \<Rightarrow> u32" where
  "zig32 v = push_bit 1 v XOR signed_drop_bit 31 v"

lemma appends_sint32: "appends (write_sint32 v) (varint (unat (zig32 (to_uint32 v))))"
  using appends_uint32[of "uint (zig32 (to_uint32 v))"]
  by (simp add: write_sint32_def[abs_def] Let_def zig32_def)

lemma appends_uint64: "appends (write_uint64 b) (varint (lb_nat b))"
  using appends_push[of "longbits_length b" "WriteVarint64 b"]
  by (simp add: write_uint64_def[abs_def] longbits_length_eq length_varint)

lemma appends_sint64: "appends (write_sint64 b) (varint (lb_nat (zzEncode b)))"
  using appends_push[of "longbits_length (zzEncode b)" "WriteVarint64 (zzEncode b)"]
  by (simp add: write_sint64_def[abs_def] Let_def longbits_length_eq length_varint)

lemma appends_bool: "appends (write_bool v) (varint (if v then 1 else 0))"
  using appends_push[of 1 "WriteByte 0"] appends_push[of 1 "WriteByte 1"]
  by (cases v) (simp_all add: write_bool_def[abs_def] varint_small)

lemma length_fixed32_bytes [simp]: "length (fixed32_bytes v) = 4"
  by (simp add: fixed32_bytes_def)

lemma appends_fixed32: "appends (write_fixed32 v) (fixed32_bytes (to_uint32 v))"
  using appends_push[of 4 "WriteFixed32 (to_uint32 v)"] by (simp add: write_fixed32_def[abs_def])

lemma appends_fixed64: "appends (write_fixed64 b) (fixed32_bytes (lo b) @ fixed32_bytes (hi b))"
proof -
  have "write_fixed64 b = push (WriteFixed32 (hi b)) 4 \<circ> push (WriteFixed32 (lo b)) 4"
    by (simp add: write_fixed64_def fun_eq_iff)
  moreover have "appends (push (WriteFixed32 v) 4) (fixed32_bytes v)" for v
    using appends_push[of 4 "WriteFixed32 v"] by simp
  ultimately show ?thesis by (simp only: appends_comp)
qed

lemma length_float_bytes [simp]: "length (f32_le x) = 4" "length (f64_le y) = 8"
  by (simp_all add: f32_le_def f64_le_def)

lemma appends_float: "appends (write_float v) (f32_le v)"
  using appends_push[of 4 "WriteFloatLE v"] by (simp add: write_float_def[abs_def])

lemma appends_double: "appends (write_double v) (f64_le v)"
  using appends_push[of 8 "WriteDoubleLE v"] by (simp add: write_double_def[abs_def])

lemma appends_byte0: "appends (push (WriteByte 0) 1) (varint 0)"
  using appends_push[of 1 "WriteByte 0"] by (simp add: varint_small)

lemma appends_bytes:
  assumes "length bs < 2 ^ 32"
  shows "appends (write_bytes bs) (varint (length bs) @ bs)"
proof -
  have u: "unat (to_uint32 (int (length bs))) = length bs"
    using assms by (simp add: to_uint32_def unat_of_nat)
  show ?thesis
  proof (cases "bs = []")
    case True
    then show ?thesis using appends_byte0 by (simp add: write_bytes_def[abs_def] to_uint32_def)
  next
    case False
    then have "write_bytes bs = push (WriteBytes bs) (length bs) \<circ> write_uint32 (int (length bs))"
      by (auto simp: write_bytes_def u Let_def)
    then show ?thesis
      using appends_comp[OF appends_uint32[of "int (length bs)"] appends_push[of _ "WriteBytes bs"]] u
      by simp
  qed
qed

lemma appends_string:
  assumes "utf8_length s < 2 ^ 32"
  shows "appends (write_string s) (varint (length (utf8_enc s)) @ utf8_enc s)"
proof (cases "utf8_length s = 0")
  case True
  then show ?thesis using appends_byte0 by (simp add: write_string_def[abs_def] utf8_length_enc)
next
  case False
  then have "write_string s = push (WriteUtf8 s) (length (utf8_enc s)) \<circ> write_uint32 (int (length (utf8_enc s)))"
    by (auto simp: write_string_def Let_def utf8_length_enc)
  moreover have "unat (to_uint32 (int (length (utf8_enc s)))) = length (utf8_enc s)"
    using assms by (simp add: to_uint32_def unat_of_nat utf8_length_enc)
  ultimately show ?thesis
    using appends_comp[OF appends_uint32 appends_push[of _ "WriteUtf8 s"], of "length (utf8_enc s)"
        "int (length (utf8_enc s))"] by simp
qed

section \<open>Forks\<close>

text \<open>A fork, a body that appends and \<open>ldelim\<close> together append the length-prefixed body.\<close>

lemma appends_delimited:
  assumes f: "appends f bs" and "length bs < 2 ^ 32"
  shows "appends (ldelim \<circ> f \<circ> fork) (varint (length bs) @ bs)"
  unfolding appends_def
proof (intro allI impI)
  fix w assume w: "wf_writer w"
  let ?v = "f (fork w)"
  have "wf_writer (fork w)"
    using w by (simp add: fork_def wf_writer_def State_def) (simp add: wf_queue_def)
  moreover have "w_bytes (fork w) = []" by (simp add: fork_def w_bytes_def ops_bytes_def)
  ultimately have v: "wf_writer ?v" "w_bytes ?v = bs" "w_states ?v = State w # w_states w"
    using f by (simp_all add: appends_def fork_def)
  then have q: "wf_queue (w_ops ?v) (w_len ?v)" by (simp add: wf_writer_def)
  then have len: "w_len ?v = length bs" using wf_queue_length v(2) by (fastforce simp: w_bytes_def)
  have r: "reset ?v = w" using v(3) by (simp add: reset_def State_def)
  define u where "u = write_uint32 (int (length bs)) w"
  have u: "wf_writer u" "w_bytes u = w_bytes w @ varint (length bs)" "w_states u = w_states w"
    using appends_uint32[of "int (length bs)"] w assms(2)
    by (simp_all add: appends_def u_def to_uint32_def unat_of_nat)
  have l: "ldelim ?v = (if length bs \<noteq> 0
      then u\<lparr>w_ops := w_ops u @ w_ops ?v, w_len := w_len u + w_len ?v\<rparr> else u)"
    by (simp add: ldelim_def Let_def r len u_def)
  show "wf_writer ((ldelim \<circ> f \<circ> fork) w) \<and>
      w_bytes ((ldelim \<circ> f \<circ> fork) w) = w_bytes w @ varint (length bs) @ bs \<and>
      w_states ((ldelim \<circ> f \<circ> fork) w) = w_states w"
    using u q v(2) by (simp add: l) (auto simp: wf_writer_def wf_queue_def w_bytes_def ops_bytes_def)
qed


section \<open>Every writer a program can build\<close>

text \<open>
  The states a program reaches with the operations of the writer. The sizes are those of the
  arrays and strings of a JavaScript engine, the range of \<open>int32\<close> is the one its name says.
\<close>

inductive writer_reachable :: "writer \<Rightarrow> bool" where
  create: "writer_reachable writer_create"
| uint32: "writer_reachable w \<Longrightarrow> writer_reachable (write_uint32 v w)"
| int32: "writer_reachable w \<Longrightarrow> - (2 ^ 31) \<le> v \<Longrightarrow> v < 2 ^ 31 \<Longrightarrow> writer_reachable (write_int32 v w)"
| sint32: "writer_reachable w \<Longrightarrow> writer_reachable (write_sint32 v w)"
| uint64: "writer_reachable w \<Longrightarrow> writer_reachable (write_uint64 b w)"
| sint64: "writer_reachable w \<Longrightarrow> writer_reachable (write_sint64 b w)"
| bool: "writer_reachable w \<Longrightarrow> writer_reachable (write_bool c w)"
| fixed32: "writer_reachable w \<Longrightarrow> writer_reachable (write_fixed32 v w)"
| fixed64: "writer_reachable w \<Longrightarrow> writer_reachable (write_fixed64 b w)"
| float: "writer_reachable w \<Longrightarrow> writer_reachable (write_float x w)"
| double: "writer_reachable w \<Longrightarrow> writer_reachable (write_double y w)"
| bytes: "writer_reachable w \<Longrightarrow> length bs < 2 ^ 32 \<Longrightarrow> writer_reachable (write_bytes bs w)"
| string: "writer_reachable w \<Longrightarrow> utf8_length s < 2 ^ 32 \<Longrightarrow> writer_reachable (write_string s w)"
| fork: "writer_reachable w \<Longrightarrow> writer_reachable (fork w)"
| reset: "writer_reachable w \<Longrightarrow> writer_reachable (reset w)"
| ldelim: "writer_reachable w \<Longrightarrow> writer_reachable (ldelim w)"

lemma wf_create: "wf_writer writer_create"
  by (simp add: writer_create_def Writer_def wf_writer_def wf_queue_def)

lemma wf_fork: "wf_writer w \<Longrightarrow> wf_writer (fork w)"
  by (simp add: fork_def wf_writer_def State_def) (simp add: wf_queue_def)

lemma wf_reset: "wf_writer w \<Longrightarrow> wf_writer (reset w)"
  by (auto simp: reset_def wf_writer_def wf_queue_def split: list.splits)

lemma appends_wf: "appends f bs \<Longrightarrow> wf_writer w \<Longrightarrow> wf_writer (f w)"
  by (simp add: appends_def)

lemma wf_ldelim: "wf_writer w \<Longrightarrow> wf_writer (ldelim w)"
  using appends_wf[OF appends_uint32 wf_reset, of w "int (w_len w)"]
  by (auto simp: ldelim_def Let_def wf_writer_def wf_queue_def)

lemma reachable_wf: "writer_reachable w \<Longrightarrow> wf_writer w"
  by (induction rule: writer_reachable.induct)
     (blast intro: wf_create wf_fork wf_reset wf_ldelim appends_wf[OF appends_uint32]
       appends_wf[OF appends_int32] appends_wf[OF appends_sint32] appends_wf[OF appends_uint64]
       appends_wf[OF appends_sint64] appends_wf[OF appends_bool] appends_wf[OF appends_fixed32]
       appends_wf[OF appends_fixed64] appends_wf[OF appends_float] appends_wf[OF appends_double]
       appends_wf[OF appends_bytes] appends_wf[OF appends_string])+

lemma wf_writer_size: "wf_writer w \<Longrightarrow> length (w_bytes w) = w_len w"
  using wf_queue_length by (auto simp: wf_writer_def w_bytes_def)



text \<open>\<open>finish\<close> is not idempotent: \<open>writeVarint64\<close> shifts the halves of its value in
  place, so a second \<open>finish\<close> of a writer that holds a 64-bit varint writes other bytes.\<close>

theorem finish_twice:
  "fst (finish (write_uint64 (fromNumber 300) writer_create)) = [172, 2] \<and>
   fst (finish (snd (finish (write_uint64 (fromNumber 300) writer_create)))) = [2, 0]"
  by code_simp

end
