(* ===== verification/Reader.thy ===== *)
theory Reader
  imports LongBits Utf8
begin

unbundle bit_operations_syntax

text \<open>
  \<open>Reader\<close> of protobuf.js: a buffer, a position and a length. Every operation returns an
  error or a value, and the reader it leaves behind, because the source moves the position
  before some of its checks.
\<close>

record reader =
  r_buf :: "byte list"
  r_pos :: nat
  r_len :: nat

definition Reader :: "byte list \<Rightarrow> reader" where
  "Reader buffer = \<lparr>r_buf = buffer, r_pos = 0, r_len = length buffer\<rparr>"

definition indexOutOfRange :: "reader \<Rightarrow> nat \<Rightarrow> js_error" where
  "indexOutOfRange r writeLength =
     RangeError (r_pos r) (if writeLength = 0 then 1 else writeLength) (r_len r)"

text \<open>\<open>create\<close> takes any value; what is not an array of bytes is refused.\<close>

datatype js_buffer = U8Array "byte list" | NotABuffer

primrec reader_create :: "js_buffer \<Rightarrow> js_error + reader" where
  "reader_create (U8Array buffer) = Inr (Reader buffer)"
| "reader_create NotABuffer = Inl (Error ''illegal buffer'')"

definition advance :: "nat \<Rightarrow> reader \<Rightarrow> reader" where
  "advance k r = r\<lparr>r_pos := r_pos r + k\<rparr>"

text \<open>The byte \<open>i\<close> places after the position, and its low seven bits.\<close>

definition peek :: "reader \<Rightarrow> nat \<Rightarrow> byte option" where
  "peek r i = js_get (r_buf r) (r_pos r + i)"

definition low7 :: "byte option \<Rightarrow> u32" where
  "low7 b = bits_of b AND 127"

definition read_uint32 :: "reader \<Rightarrow> (js_error + u32) \<times> reader" where
  "read_uint32 r =
     (let value = low7 (peek r 0)
      in if lt128 (peek r 0) then (Inr value, advance 1 r) else
      let value = value OR push_bit 7 (low7 (peek r 1))
      in if lt128 (peek r 1) then (Inr value, advance 2 r) else
      let value = value OR push_bit 14 (low7 (peek r 2))
      in if lt128 (peek r 2) then (Inr value, advance 3 r) else
      let value = value OR push_bit 21 (low7 (peek r 3))
      in if lt128 (peek r 3) then (Inr value, advance 4 r) else
      let value = value OR push_bit 28 (bits_of (peek r 4) AND 15)
      in if lt128 (peek r 4) then (Inr value, advance 5 r) else
      if r_pos r + 10 > r_len r
      then let r' = r\<lparr>r_pos := r_len r\<rparr> in (Inl (indexOutOfRange r' 10), r')
      else (Inr value, advance 10 r))"

text \<open>The value of a read, mapped; errors and the reader stay.\<close>

definition map_read :: "('a \<Rightarrow> 'b) \<Rightarrow> (js_error + 'a) \<times> reader \<Rightarrow> (js_error + 'b) \<times> reader" where
  "map_read f p = (case p of (Inl e, r) \<Rightarrow> (Inl e, r) | (Inr v, r) \<Rightarrow> (Inr (f v), r))"

definition bind_read ::
  "(js_error + 'a) \<times> reader \<Rightarrow> ('a \<Rightarrow> reader \<Rightarrow> (js_error + 'b) \<times> reader) \<Rightarrow> (js_error + 'b) \<times> reader" where
  "bind_read p f = (case p of (Inl e, r) \<Rightarrow> (Inl e, r) | (Inr v, r) \<Rightarrow> f v r)"

definition read_int32 :: "reader \<Rightarrow> (js_error + int) \<times> reader" where
  "read_int32 r = map_read sint (read_uint32 r)"

definition read_sint32 :: "reader \<Rightarrow> (js_error + int) \<times> reader" where
  "read_sint32 r =
     map_read (\<lambda>value. sint (drop_bit 1 value XOR - (value AND 1))) (read_uint32 r)"

definition read_bool :: "reader \<Rightarrow> (js_error + bool) \<times> reader" where
  "read_bool r = map_read (\<lambda>value. value \<noteq> 0) (read_uint32 r)"

text \<open>
  \<open>readLongVarint\<close>: the loops over the low and the high half. \<open>n\<close> turns are left, the
  turn's index is \<open>i\<close>; \<open>Inr (True, bits)\<close> is the source's return from inside the loop.
\<close>

fun rlv_lo :: "bool \<Rightarrow> nat \<Rightarrow> nat \<Rightarrow> long_bits \<Rightarrow> reader \<Rightarrow> (js_error + bool \<times> long_bits) \<times> reader" where
  "rlv_lo chk 0 i bits r = (Inr (False, bits), r)"
| "rlv_lo chk (Suc n) i bits r =
     (if chk \<and> r_pos r \<ge> r_len r then (Inl (indexOutOfRange r 0), r)
      else
        let bits' = bits\<lparr>lo := lo bits OR push_bit (i * 7) (low7 (peek r 0))\<rparr>
        in if lt128 (peek r 0) then (Inr (True, bits'), advance 1 r)
           else rlv_lo chk n (i + 1) bits' (advance 1 r))"

fun rlv_hi :: "bool \<Rightarrow> nat \<Rightarrow> nat \<Rightarrow> long_bits \<Rightarrow> reader \<Rightarrow> (js_error + bool \<times> long_bits) \<times> reader" where
  "rlv_hi chk 0 i bits r = (Inr (False, bits), r)"
| "rlv_hi chk (Suc n) i bits r =
     (if chk \<and> r_pos r \<ge> r_len r then (Inl (indexOutOfRange r 0), r)
      else
        let bits' = bits\<lparr>hi := hi bits OR push_bit (i * 7 + 3) (low7 (peek r 0))\<rparr>
        in if lt128 (peek r 0) then (Inr (True, bits'), advance 1 r)
           else rlv_hi chk n (i + 1) bits' (advance 1 r))"

definition rlv_fifth :: "long_bits \<Rightarrow> reader \<Rightarrow> long_bits" where
  "rlv_fifth bits r =
     bits\<lparr>lo := lo bits OR push_bit 28 (low7 (peek r 0)),
          hi := hi bits OR drop_bit 4 (low7 (peek r 0))\<rparr>"

definition rlv_high :: "long_bits \<Rightarrow> reader \<Rightarrow> (js_error + long_bits) \<times> reader" where
  "rlv_high bits r =
     bind_read (rlv_hi (\<not> r_len r > r_pos r + 4) 5 0 bits r)
       (\<lambda>(done, bits') r'. if done then (Inr bits', r')
                           else (Inl (Error ''invalid varint encoding''), r'))"

definition readLongVarint :: "reader \<Rightarrow> (js_error + long_bits) \<times> reader" where
  "readLongVarint r =
     (if r_len r > r_pos r + 4
      then bind_read (rlv_lo False 4 0 zero r)
        (\<lambda>(done, bits) r1.
           if done then (Inr bits, r1)
           else
             let bits' = rlv_fifth bits r1
             in if lt128 (peek r1 0) then (Inr bits', advance 1 r1)
                else rlv_high bits' (advance 1 r1))
      else bind_read (rlv_lo True 3 0 zero r)
        (\<lambda>(done, bits) r1.
           if done then (Inr bits, r1)
           else (Inr (bits\<lparr>lo := lo bits OR push_bit 21 (low7 (peek r1 0))\<rparr>), advance 1 r1)))"

text \<open>
  \<open>fn\<close> of \<open>_configure\<close>: with the Long library the 64-bit readers return a Long,
  without it a number.
\<close>

datatype long_val = LongV js_long | NumV int

definition long_result :: "bool \<Rightarrow> bool \<Rightarrow> long_bits \<Rightarrow> long_val" where
  "long_result has_Long uns bits =
     (if has_Long then LongV (toLong uns bits) else NumV (toNumber uns bits))"

definition read_int64 :: "bool \<Rightarrow> reader \<Rightarrow> (js_error + long_val) \<times> reader" where
  "read_int64 has_Long r = map_read (long_result has_Long False) (readLongVarint r)"

definition read_uint64 :: "bool \<Rightarrow> reader \<Rightarrow> (js_error + long_val) \<times> reader" where
  "read_uint64 has_Long r = map_read (long_result has_Long True) (readLongVarint r)"

definition read_sint64 :: "bool \<Rightarrow> reader \<Rightarrow> (js_error + long_val) \<times> reader" where
  "read_sint64 has_Long r = map_read (\<lambda>b. long_result has_Long False (zzDecode b)) (readLongVarint r)"

definition readFixed32_end :: "byte list \<Rightarrow> nat \<Rightarrow> u32" where
  "readFixed32_end buf end =
     bits_of (js_get buf (end - 4)) OR push_bit 8 (bits_of (js_get buf (end - 3)))
       OR push_bit 16 (bits_of (js_get buf (end - 2))) OR push_bit 24 (bits_of (js_get buf (end - 1)))"

definition read_fixed32 :: "reader \<Rightarrow> (js_error + u32) \<times> reader" where
  "read_fixed32 r =
     (if r_pos r + 4 > r_len r then (Inl (indexOutOfRange r 4), r)
      else (Inr (readFixed32_end (r_buf r) (r_pos r + 4)), advance 4 r))"

definition read_sfixed32 :: "reader \<Rightarrow> (js_error + int) \<times> reader" where
  "read_sfixed32 r =
     (if r_pos r + 4 > r_len r then (Inl (indexOutOfRange r 4), r)
      else (Inr (sint (readFixed32_end (r_buf r) (r_pos r + 4))), advance 4 r))"

definition readFixed64 :: "reader \<Rightarrow> (js_error + long_bits) \<times> reader" where
  "readFixed64 r =
     (if r_pos r + 8 > r_len r then (Inl (indexOutOfRange r 8), r)
      else (Inr (LongBits (readFixed32_end (r_buf r) (r_pos r + 4))
                          (readFixed32_end (r_buf r) (r_pos r + 8))), advance 8 r))"

definition read_fixed64 :: "bool \<Rightarrow> reader \<Rightarrow> (js_error + long_val) \<times> reader" where
  "read_fixed64 has_Long r = map_read (long_result has_Long True) (readFixed64 r)"

definition read_sfixed64 :: "bool \<Rightarrow> reader \<Rightarrow> (js_error + long_val) \<times> reader" where
  "read_sfixed64 has_Long r = map_read (long_result has_Long False) (readFixed64 r)"

text \<open>Binary32 and binary64 values are bit patterns, collected from the bytes by \<open>util.float\<close>.\<close>

definition le_pattern :: "byte list \<Rightarrow> nat" where
  "le_pattern bs = foldr (\<lambda>b n. unat b + 256 * n) bs 0"

definition readFloatLE :: "byte list \<Rightarrow> nat \<Rightarrow> u32" where
  "readFloatLE buf pos = word_of_nat (le_pattern (take 4 (drop pos buf)))"

definition readDoubleLE :: "byte list \<Rightarrow> nat \<Rightarrow> u64" where
  "readDoubleLE buf pos = word_of_nat (le_pattern (take 8 (drop pos buf)))"

definition read_float :: "reader \<Rightarrow> (js_error + u32) \<times> reader" where
  "read_float r =
     (if r_pos r + 4 > r_len r then (Inl (indexOutOfRange r 4), r)
      else (Inr (readFloatLE (r_buf r) (r_pos r)), advance 4 r))"

definition read_double :: "reader \<Rightarrow> (js_error + u64) \<times> reader" where
  "read_double r =
     (if r_pos r + 8 > r_len r then (Inl (indexOutOfRange r 4), r)
      else (Inr (readDoubleLE (r_buf r) (r_pos r)), advance 8 r))"

definition read_bytes :: "reader \<Rightarrow> (js_error + byte list) \<times> reader" where
  "read_bytes r =
     bind_read (read_uint32 r)
       (\<lambda>len r1.
          let start = r_pos r1; end = r_pos r1 + unat len
          in if end > r_len r1 then (Inl (indexOutOfRange r1 (unat len)), r1)
             else (Inr (take (end - start) (drop start (r_buf r1))), advance (unat len) r1))"

definition read_string :: "reader \<Rightarrow> (js_error + js_string) \<times> reader" where
  "read_string r = map_read (\<lambda>bytes. utf8_read bytes 0 (length bytes)) (read_bytes r)"

definition skip :: "nat \<Rightarrow> reader \<Rightarrow> (js_error + unit) \<times> reader" where
  "skip len r =
     (if r_pos r + len > r_len r then (Inl (indexOutOfRange r len), r)
      else (Inr (), advance len r))"

text \<open>\<open>skip\<close> without a length: the bytes up to the first one without its top bit.\<close>

function skip_varint :: "reader \<Rightarrow> (js_error + unit) \<times> reader" where
  "skip_varint r =
     (if r_pos r \<ge> r_len r then (Inl (indexOutOfRange r 0), r)
      else if bits_of (peek r 0) AND 128 \<noteq> 0 then skip_varint (advance 1 r)
      else (Inr (), advance 1 r))"
  by pat_completeness auto
termination
  by (relation "measure (\<lambda>r. r_len r - r_pos r)") (auto simp: advance_def)

declare skip_varint.simps [simp del]

text \<open>
  \<open>skipType\<close> and its loop over the elements of a group. The fuel is the depth of the
  recursion plus the turns of the loop; \<open>None\<close> is running out of it, which
  \<open>skip_fuel\<close> of it excludes.
\<close>

fun skipType_fuel :: "nat \<Rightarrow> u32 \<Rightarrow> reader \<Rightarrow> ((js_error + unit) \<times> reader) option"
  and skip_group_fuel :: "nat \<Rightarrow> reader \<Rightarrow> ((js_error + unit) \<times> reader) option" where
  "skipType_fuel 0 wireType r = None"
| "skipType_fuel (Suc f) wireType r =
     (if wireType = 0 then Some (skip_varint r)
      else if wireType = 1 then Some (skip 8 r)
      else if wireType = 2 then Some (bind_read (read_uint32 r) (\<lambda>len. skip (unat len)))
      else if wireType = 3 then skip_group_fuel f r
      else if wireType = 5 then Some (skip 4 r)
      else Some (Inl (Error ''invalid wire type''), r))"
| "skip_group_fuel 0 r = None"
| "skip_group_fuel (Suc f) r =
     (case read_uint32 r of
        (Inl e, r1) \<Rightarrow> Some (Inl e, r1)
      | (Inr v, r1) \<Rightarrow>
          if v AND 7 = 4 then Some (Inr (), r1)
          else (case skipType_fuel f (v AND 7) r1 of
                  None \<Rightarrow> None
                | Some (Inl e, r2) \<Rightarrow> Some (Inl e, r2)
                | Some (Inr _, r2) \<Rightarrow> skip_group_fuel f r2))"

definition skip_fuel :: "reader \<Rightarrow> nat" where
  "skip_fuel r = 2 * (r_len r - r_pos r) + 2"

definition skipType :: "u32 \<Rightarrow> reader \<Rightarrow> (js_error + unit) \<times> reader" where
  "skipType wireType r = the (skipType_fuel (skip_fuel r) wireType r)"

section \<open>A reader in front of known bytes\<close>

definition ahead :: "reader \<Rightarrow> byte list \<Rightarrow> bool" where
  "ahead r bs \<longleftrightarrow> r_len r = length (r_buf r) \<and> r_pos r \<le> r_len r \<and> drop (r_pos r) (r_buf r) = bs"

lemma ahead_Reader: "ahead (Reader bs) bs"
  by (simp add: ahead_def Reader_def)

lemma ahead_drop: "ahead r bs \<Longrightarrow> k \<le> length bs \<Longrightarrow> ahead (advance k r) (drop k bs)"
  by (auto simp: ahead_def advance_def add.commute)

lemma ahead_advance: "ahead r (xs @ ys) \<Longrightarrow> k = length xs \<Longrightarrow> ahead (advance k r) ys"
  using ahead_drop[of r "xs @ ys" k] by simp

lemma ahead_peek: "ahead r bs \<Longrightarrow> peek r i = js_get bs i"
  by (auto simp: ahead_def peek_def js_get_def)

lemma ahead_len: "ahead r bs \<Longrightarrow> r_len r = r_pos r + length bs"
  by (auto simp: ahead_def)

lemma advance_advance [simp]: "advance k (advance j r) = advance (j + k) r"
  by (simp add: advance_def add.assoc)

lemma advance_0 [simp]: "advance 0 r = r"
  by (simp add: advance_def)

lemma advance_sel [simp]:
  "r_pos (advance k r) = r_pos r + k" "r_len (advance k r) = r_len r" "r_buf (advance k r) = r_buf r"
  by (simp_all add: advance_def)

lemma peek_advance [simp]: "peek (advance k r) i = peek r (k + i)"
  by (simp add: peek_def add.assoc)

section \<open>The digits of a varint\<close>

lemma varint_nth:
  "i < varint_size n \<Longrightarrow>
   unat (varint n ! i) = n div 128 ^ i mod 128 + (if Suc i < varint_size n then 128 else 0)"
proof (induction i arbitrary: n)
  case 0
  show ?case
  proof (cases "n < 128")
    case True
    then show ?thesis by (simp add: varint_small varint_size_1 unat_low7)
  next
    case False
    then have "1 < varint_size n" using varint_size_gt[of 1 n] by simp
    then show ?thesis
      using False unat_low7_cont[of "n mod 128"] by (simp add: varint_big del: of_nat_add) (simp)
  qed
next
  case (Suc i)
  then have b: "128 \<le> n" using varint_size_1[of n] by (cases "n < 128") auto
  then have s: "varint_size n = Suc (varint_size (n div 128))"
    by (subst varint_size.simps) simp
  then have "unat (varint (n div 128) ! i) =
      n div 128 div 128 ^ i mod 128 + (if Suc i < varint_size (n div 128) then 128 else 0)"
    using Suc by (intro Suc.IH) simp
  then show ?case
    using b s by (simp add: varint_big div_mult2_eq)
qed

lemma in_varint: "0 < i \<Longrightarrow> i < varint_size n \<longleftrightarrow> 128 ^ i \<le> n"
  using varint_size_gt[of i n] varint_size_le[of n "i - 1"]
  by (cases "128 ^ i \<le> n") (auto simp: not_le)

lemma low7_nat: "unat (low7 (Some b)) = unat b mod 128"
  by (simp add: low7_def and_127 unat_byte_up)

lemma lt128_nat: "lt128 (Some b) \<longleftrightarrow> unat b < 128"
  by (simp add: word_less_nat_alt)

lemma varint_peek:
  assumes "ahead r (varint n @ rest)" and "i < varint_size n"
  shows "unat (low7 (peek r i)) = n div 128 ^ i mod 128"
    and "lt128 (peek r i) \<longleftrightarrow> n < 128 ^ Suc i"
    and "r_pos r + i < r_len r"
proof -
  have l: "i < length (varint n)" using assms(2) by (simp add: length_varint)
  then have p: "peek r i = Some (varint n ! i)"
    using assms(1) by (simp add: ahead_peek)
  show "unat (low7 (peek r i)) = n div 128 ^ i mod 128"
    using assms(2) by (simp add: p low7_nat varint_nth)
  show "lt128 (peek r i) \<longleftrightarrow> n < 128 ^ Suc i"
    using assms(2) in_varint[of "Suc i" n] by (auto simp: p lt128_nat varint_nth simp del: lt128.simps power_Suc)
  show "r_pos r + i < r_len r"
    using ahead_len[OF assms(1)] l by simp
qed

text \<open>One more group of seven bits.\<close>

lemma acc_step:
  fixes v w :: u32
  assumes "unat v = n mod 128 ^ i" and "unat w = n div 128 ^ i mod 128" and "i * 7 + 7 \<le> 32"
  shows "unat (v OR push_bit (i * 7) w) = n mod 128 ^ Suc i"
proof -
  have p: "(128::nat) ^ i = 2 ^ (i * 7)" using power_mult[of "2::nat" 7 i] by (simp add: mult.commute)
  have e: "n mod 128 ^ Suc i = n mod 128 ^ i + (n div 128 ^ i mod 128) * 128 ^ i"
    unfolding power_Suc2 mod_mult2_eq by (simp add: mult.commute)
  have "n mod 128 ^ Suc i < 128 ^ Suc i" by simp
  also have "(128::nat) ^ Suc i = 2 ^ (i * 7 + 7)" by (simp add: power_add p)
  also have "\<dots> \<le> (2::nat) ^ 32" using assms(3) by (intro power_increasing) auto
  finally have "n mod 128 ^ Suc i < 2 ^ 32" .
  then show ?thesis
    unfolding e using assms(1,2) by (subst unat_or_push_bit) (simp_all add: p)
qed

section \<open>Reading varints\<close>

lemma varint_size_bound: "n < 128 ^ k \<Longrightarrow> 0 < k \<Longrightarrow> varint_size n \<le> k"
  using varint_size_le[of n "k - 1"] by simp

text \<open>The unrolled reader of 32-bit varints.\<close>

lemma read_uint32_any:
  assumes a: "ahead r (varint n @ rest)"
  shows "read_uint32 r =
    (if n < 2 ^ 35 then (Inr (word_of_nat n), advance (varint_size n) r)
     else if 10 \<le> varint_size n + length rest then (Inr (word_of_nat n), advance 10 r)
     else (Inl (RangeError (r_len r) 10 (r_len r)), r\<lparr>r_pos := r_len r\<rparr>))"
proof -
  have v1: "unat (low7 (peek r 0)) = n mod 128 ^ 1"
    using varint_peek(1)[OF a, of 0] varint_size_pos[of n] by simp
  have val: "w = word_of_nat n" if "unat w = n mod k" "n < k" for w :: u32 and k
  proof -
    have "n = unat w" using that by simp
    then show ?thesis by simp
  qed
  have st: "lt128 (peek r i) \<longleftrightarrow> n < 128 ^ Suc i" if "i = 0 \<or> 128 ^ i \<le> n" for i
    using varint_peek(2)[OF a, of i] that in_varint[of i n] varint_size_pos[of n] by auto
  have acc: "unat (v OR push_bit (i * 7) (low7 (peek r i))) = n mod 128 ^ Suc i"
    if "unat v = n mod 128 ^ i" "128 ^ i \<le> n" "0 < i" "i \<le> 3" for v i
    using that varint_peek(1)[OF a, of i] in_varint[of i n] by (intro acc_step) auto
  define v2 where "v2 = low7 (peek r 0) OR push_bit 7 (low7 (peek r 1))"
  define v3 where "v3 = v2 OR push_bit 14 (low7 (peek r 2))"
  define v4 where "v4 = v3 OR push_bit 21 (low7 (peek r 3))"
  define v5 where "v5 = v4 OR push_bit 28 (bits_of (peek r 4) AND 15)"
  have v2: "unat v2 = n mod 16384" if "128 \<le> n"
    using acc[OF v1] that by (simp add: v2_def)
  have v3: "unat v3 = n mod 2097152" if "16384 \<le> n"
    using acc[of v2 2] v2 that by (simp add: v3_def)
  have v4: "unat v4 = n mod 268435456" if "2097152 \<le> n"
    using acc[of v3 3] v3 that by (simp add: v4_def)
  have v5: "v5 = word_of_nat n" if big: "268435456 \<le> n"
  proof (rule word_uint_eq_iff[THEN iffD2])
    have "4 < varint_size n" using in_varint[of 4 n] that by simp
    then have "unat (low7 (peek r 4)) = n div 268435456 mod 128"
      using varint_peek(1)[OF a, of 4] by simp
    then have "unat (bits_of (peek r 4) AND 127) = n div 268435456 mod 128" by (simp add: low7_def)
    moreover have "unat (bits_of (peek r 4) AND 15) = unat (bits_of (peek r 4) AND 127) mod 16"
      by (simp add: and_15 and_127 mod_mod_cancel)
    ultimately have h: "unat (bits_of (peek r 4) AND 15) = n div 268435456 mod 16"
      by (simp add: mod_mod_cancel)
    have l: "unat v4 = n mod 268435456" using v4 big by simp
    have s: "n mod 4294967296 = n mod 268435456 + (n div 268435456 mod 16) * 268435456"
      using mod_mult2_eq[of n 268435456 16] by (simp add: mult.commute)
    moreover have "n mod 4294967296 < 4294967296" by simp
    ultimately have "unat v5 = n mod 4294967296"
      unfolding v5_def using l h by (subst unat_or_push_bit) simp_all
    then show "uint v5 = uint (word_of_nat n :: u32)"
      by (simp add: unsigned_of_nat take_bit_eq_mod zmod_int uint_nat del: unat_eq_nat_uint flip: of_nat_mod)
  qed
  have e: "read_uint32 r =
      (if lt128 (peek r 0) then (Inr (low7 (peek r 0)), advance 1 r) else
       if lt128 (peek r 1) then (Inr v2, advance 2 r) else
       if lt128 (peek r 2) then (Inr v3, advance 3 r) else
       if lt128 (peek r 3) then (Inr v4, advance 4 r) else
       if lt128 (peek r 4) then (Inr v5, advance 5 r) else
       if r_pos r + 10 > r_len r
       then let r' = r\<lparr>r_pos := r_len r\<rparr> in (Inl (indexOutOfRange r' 10), r')
       else (Inr v5, advance 10 r))"
    by (simp only: read_uint32_def Let_def v2_def v3_def v4_def v5_def)
  consider "n < 128" | "128 \<le> n" "n < 16384" | "16384 \<le> n" "n < 2097152"
    | "2097152 \<le> n" "n < 268435456" | "268435456 \<le> n" by linarith
  then show ?thesis
  proof cases
    case 1
    then show ?thesis unfolding e using st[of 0] val[of _ 128] v1 varint_size_1[of n] by simp
  next
    case 2
    then show ?thesis unfolding e using st[of 0] st[of 1] val[of v2 16384] v2 varint_size_eq[of 1 n] by simp
  next
    case 3
    then show ?thesis
      unfolding e using st[of 0] st[of 1] st[of 2] val[of v3 2097152] v3 varint_size_eq[of 2 n] by simp
  next
    case 4
    then show ?thesis
      unfolding e using st[of 0] st[of 1] st[of 2] st[of 3] val[of v4 268435456] v4 varint_size_eq[of 3 n]
      by simp
  next
    case 5
    have len: "r_pos r + 10 > r_len r \<longleftrightarrow> \<not> 10 \<le> varint_size n + length rest"
      using ahead_len[OF a] by (auto simp: length_varint)
    have st4: "lt128 (peek r 4) \<longleftrightarrow> n < 2 ^ 35" using st[of 4] 5 by simp
    have s5: "varint_size n = 5" if "n < 2 ^ 35" using varint_size_eq[of 4 n] 5 that by simp
    show ?thesis
      unfolding e len Let_def st4 indexOutOfRange_def
      using 5 st[of 0] st[of 1] st[of 2] st[of 3] v5 s5 by simp
  qed
qed

lemma read_uint32_varint:
  assumes "ahead r (varint n @ rest)" and "n < 2 ^ 32"
  shows "read_uint32 r = (Inr (word_of_nat n), advance (varint_size n) r)"
  using read_uint32_any[OF assms(1)] assms(2) by simp

text \<open>The loops of \<open>readLongVarint\<close>, from the turn \<open>i\<close> on.\<close>

lemma word_of_unat: "unat w = n \<Longrightarrow> w = word_of_nat n"
  by auto

lemma rlv_lo_varint:
  assumes a: "ahead r (varint n @ rest)"
  shows "unat l = n mod 128 ^ i \<Longrightarrow> i = 0 \<or> 128 ^ i \<le> n \<Longrightarrow> i + cnt \<le> 4 \<Longrightarrow>
    rlv_lo chk cnt i (LongBits l 0) (advance i r) =
      (if 0 < cnt \<and> n < 128 ^ (i + cnt)
       then (Inr (True, LongBits (word_of_nat n) 0), advance (varint_size n) r)
       else (Inr (False, LongBits (word_of_nat (n mod 128 ^ (i + cnt))) 0), advance (i + cnt) r))"
proof (induction cnt arbitrary: i l)
  case 0
  then show ?case using word_of_unat[of l] by simp
next
  case (Suc cnt)
  have i: "i < varint_size n"
    using Suc.prems(2) in_varint[of i n] varint_size_pos[of n] by auto
  note p = varint_peek[OF a i]
  define l' where "l' = l OR push_bit (i * 7) (low7 (peek r i))"
  have l': "unat l' = n mod 128 ^ Suc i"
    unfolding l'_def using Suc.prems p(1) by (intro acc_step) auto
  have step: "rlv_lo chk (Suc cnt) i (LongBits l 0) (advance i r) =
      (if lt128 (peek r i) then (Inr (True, LongBits l' 0), advance (Suc i) r)
       else rlv_lo chk cnt (Suc i) (LongBits l' 0) (advance (Suc i) r))"
    using p(3) by (simp add: Let_def l'_def LongBits_def)
  show ?case
  proof (cases "n < 128 ^ Suc i")
    case True
    then have "varint_size n = Suc i"
      using i varint_size_bound[of n "Suc i"] by simp
    moreover have "n < 128 ^ (i + Suc cnt)"
      by (rule order_less_le_trans[OF True], rule power_increasing) simp_all
    ultimately show ?thesis
      unfolding step using True p(2) l' word_of_unat[of l' n] by simp
  next
    case False
    then have "rlv_lo chk cnt (Suc i) (LongBits l' 0) (advance (Suc i) r) =
      (if 0 < cnt \<and> n < 128 ^ (Suc i + cnt)
       then (Inr (True, LongBits (word_of_nat n) 0), advance (varint_size n) r)
       else (Inr (False, LongBits (word_of_nat (n mod 128 ^ (Suc i + cnt))) 0), advance (Suc i + cnt) r))"
      using Suc.prems l' by (intro Suc.IH) auto
    then show ?thesis
      unfolding step using False p(2) by (cases cnt) auto
  qed
qed

lemma acc_step_high:
  fixes v w :: u32
  assumes "unat v = m mod 2 ^ k" and "unat w = m div 2 ^ k mod 128" and "m < 2 ^ 32"
  shows "unat (v OR push_bit k w) = m mod 2 ^ (k + 7)"
proof -
  have e: "m mod 2 ^ (k + 7) = m mod 2 ^ k + (m div 2 ^ k mod 128) * 2 ^ k"
    unfolding power_add mod_mult2_eq by (simp add: mult.commute)
  have "m mod 2 ^ (k + 7) < 2 ^ 32"
    using assms(3) by (rule order_le_less_trans[OF mod_less_eq_dividend])
  then show ?thesis
    unfolding e using assms(1,2) by (subst unat_or_push_bit) simp_all
qed

lemma high_digit: "n div 128 ^ (5 + i) = (n div 2 ^ 32) div 2 ^ (i * 7 + 3)" for n :: nat
proof -
  have "(128::nat) ^ (5 + i) = 2 ^ (7 * (5 + i))" using power_mult[of "2::nat" 7 "5 + i"] by simp
  also have "7 * (5 + i) = 32 + (i * 7 + 3)" by simp
  also have "(2::nat) ^ (32 + (i * 7 + 3)) = 2 ^ 32 * 2 ^ (i * 7 + 3)" by (rule power_add)
  finally show ?thesis by (simp only: div_mult2_eq)
qed

lemma rlv_hi_varint:
  assumes a: "ahead r (varint n @ rest)" and n: "n < 2 ^ 64"
  shows "unat h = n div 2 ^ 32 mod 2 ^ (i * 7 + 3) \<Longrightarrow> 128 ^ (5 + i) \<le> n \<Longrightarrow> i + cnt = 5 \<Longrightarrow>
    rlv_hi chk cnt i (LongBits l h) (advance (5 + i) r) =
      (Inr (True, LongBits l (word_of_nat (n div 2 ^ 32))), advance (varint_size n) r)"
proof (induction cnt arbitrary: i h)
  case 0
  then have "i = 5" by simp
  then show ?case using 0 n by simp
next
  case (Suc cnt)
  have m: "n div 2 ^ 32 < 2 ^ 32" using n by (simp add: less_mult_imp_div_less)
  have i: "5 + i < varint_size n"
    using Suc.prems(2) in_varint[of "5 + i" n] by auto
  note p = varint_peek[OF a i]
  define h' where "h' = h OR push_bit (i * 7 + 3) (low7 (peek r (5 + i)))"
  have h': "unat h' = n div 2 ^ 32 mod 2 ^ (Suc i * 7 + 3)"
    unfolding h'_def using acc_step_high[OF Suc.prems(1) _ m] p(1) high_digit[of n i]
    by (simp add: algebra_simps)
  have step: "rlv_hi chk (Suc cnt) i (LongBits l h) (advance (5 + i) r) =
      (if lt128 (peek r (5 + i)) then (Inr (True, LongBits l h'), advance (5 + Suc i) r)
       else rlv_hi chk cnt (Suc i) (LongBits l h') (advance (5 + Suc i) r))"
    using p(3) by (simp add: Let_def h'_def LongBits_def)
  show ?case
  proof (cases "n < 128 ^ Suc (5 + i)")
    case True
    then have "varint_size n = Suc (5 + i)"
      using i varint_size_bound[of n "Suc (5 + i)"] by simp
    moreover have "n div 2 ^ 32 < 2 ^ (Suc i * 7 + 3)"
    proof -
      have "n div 128 ^ (5 + Suc i) = 0" using True by simp
      then show ?thesis unfolding high_digit by (simp add: div_eq_0_iff del: power_Suc)
    qed
    ultimately show ?thesis
      unfolding step using True p(2) h' word_of_unat[of h' "n div 2 ^ 32"] by simp
  next
    case False
    then have "rlv_hi chk cnt (Suc i) (LongBits l h') (advance (5 + Suc i) r) =
      (Inr (True, LongBits l (word_of_nat (n div 2 ^ 32))), advance (varint_size n) r)"
      using Suc.prems h' by (intro Suc.IH) auto
    then show ?thesis unfolding step using False p(2) by simp
  qed
qed

text \<open>The 64-bit reader, on both of its routes.\<close>

lemma LongBits_of_nat:
  assumes "n < 2 ^ 64"
  shows "LongBits (word_of_nat n) (word_of_nat (n div 2 ^ 32)) = LongBits l h \<longleftrightarrow>
    lb_nat (LongBits l h) = n"
proof -
  have "lb_nat (LongBits (word_of_nat n) (word_of_nat (n div 2 ^ 32))) = n"
    using assms by (simp add: lb_nat_LongBits unat_of_nat less_mult_imp_div_less take_bit_eq_mod)
  then show ?thesis by (metis lb_nat_inject)
qed

lemma lb_nat_of_nat:
  assumes "n < 2 ^ 64"
  shows "lb_nat (LongBits (word_of_nat n) (word_of_nat (n div 2 ^ 32))) = n"
  using LongBits_of_nat[OF assms] by blast

text \<open>The fifth byte is split between the halves.\<close>

lemma fifth_lo:
  assumes "unat (w :: u32) = n div 268435456 mod 128"
  shows "word_of_nat (n mod 128 ^ 4) OR push_bit 28 w = word_of_nat n"
proof (rule word_uint_eq_iff[THEN iffD2])
  have w: "uint w mod 16 = int (n div 268435456 mod 16)"
    using arg_cong[OF assms, of int] by (simp add: mod_mod_cancel zmod_int)
  have "n mod 4294967296 = n mod 268435456 + (n div 268435456 mod 16) * 268435456"
    using mod_mult2_eq[of n 268435456 16] by (simp add: mult.commute)
  then have e: "int (n mod 4294967296) = int (n mod 268435456) + int (n div 268435456 mod 16) * 268435456"
    by (metis of_nat_add of_nat_mult of_nat_numeral)
  have v: "uint (word_of_nat (n mod 128 ^ 4) :: u32) = int (n mod 268435456)"
  proof -
    have "n mod 268435456 < 268435456" by simp
    then have "n mod 268435456 < 4294967296" by linarith
    then have "unat (word_of_nat (n mod 128 ^ 4) :: u32) = n mod 268435456"
      by (simp add: unat_of_nat)
    then show ?thesis by (metis uint_nat)
  qed
  have "uint (word_of_nat (n mod 128 ^ 4) OR push_bit 28 w) = int (n mod 4294967296)"
    unfolding e using v w by (subst uint_or_push_bit) simp_all
  then show "uint (word_of_nat (n mod 128 ^ 4) OR push_bit 28 w) = uint (word_of_nat n :: u32)"
    by (simp add: unsigned_of_nat take_bit_eq_mod zmod_int)
qed

lemma mod_div_split: "(x :: nat) mod 128 div 16 = x div 16 mod 8"
proof -
  have "x mod (16 * 8) = 16 * (x div 16 mod 8) + x mod 16" by (rule mod_mult2_eq)
  then show ?thesis by simp
qed

lemma fifth_hi:
  assumes "unat (w :: u32) = n div 268435456 mod 128"
  shows "unat (0 OR drop_bit 4 w) = n div 2 ^ 32 mod 2 ^ 3"
  using assms mod_div_split[of "n div 268435456"] by (simp add: unat_drop_bit flip: div_mult2_eq)

lemma readLongVarint_varint:
  assumes a: "ahead r (varint n @ rest)" and n: "n < 2 ^ 64"
  shows "readLongVarint r =
    (Inr (LongBits (word_of_nat n) (word_of_nat (n div 2 ^ 32))), advance (varint_size n) r)"
proof -
  have h0: "(word_of_nat (n div 2 ^ 32) :: u32) = 0" if "n < 2 ^ 32" using that by simp
  have len: "r_len r \<ge> r_pos r + varint_size n"
    using ahead_len[OF a] by (simp add: length_varint)
  have z: "zero = LongBits 0 0" by (simp add: zero_def)
  have lo: "rlv_lo chk cnt 0 zero r =
      (if 0 < cnt \<and> n < 128 ^ cnt then (Inr (True, LongBits (word_of_nat n) 0), advance (varint_size n) r)
       else (Inr (False, LongBits (word_of_nat (n mod 128 ^ cnt)) 0), advance cnt r))"
    if "cnt \<le> 4" for chk cnt
    using rlv_lo_varint[OF a, of 0 0 cnt chk] that by (simp add: z)
  show ?thesis
  proof (cases "r_len r > r_pos r + 4")
    case fast: True
    show ?thesis
    proof (cases "n < 128 ^ 4")
      case True
      then have "readLongVarint r = (Inr (LongBits (word_of_nat n) 0), advance (varint_size n) r)"
        using fast by (simp add: readLongVarint_def lo bind_read_def)
      then show ?thesis using True h0 by simp
    next
      case False
      then have "4 < varint_size n" using in_varint[of 4 n] by simp
      note p = varint_peek[OF a this]
      define l where "l = (word_of_nat (n mod 128 ^ 4) :: u32) OR push_bit 28 (low7 (peek r 4))"
      define h where "h = (0 :: u32) OR drop_bit 4 (low7 (peek r 4))"
      have "rlv_fifth (LongBits (word_of_nat (n mod 128 ^ 4)) 0) (advance 4 r) = LongBits l h"
        by (simp add: rlv_fifth_def LongBits_def l_def h_def)
      then have e: "readLongVarint r =
          (if lt128 (peek r 4) then (Inr (LongBits l h), advance 5 r)
           else rlv_high (LongBits l h) (advance 5 r))"
        using fast False by (simp add: readLongVarint_def lo bind_read_def)
      have l: "l = word_of_nat n"
        unfolding l_def by (rule fifth_lo) (use p(1) in simp)
      have h: "unat h = n div 2 ^ 32 mod 2 ^ 3"
        unfolding h_def by (rule fifth_hi) (use p(1) in simp)
      show ?thesis
      proof (cases "n < 128 ^ 5")
        case True
        then have "varint_size n = 5" using False varint_size_eq[of 4 n] by simp
        moreover have "h = word_of_nat (n div 2 ^ 32)"
          using h True by (intro word_of_unat) (simp add: less_mult_imp_div_less)
        ultimately show ?thesis using e p(2) True l by simp
      next
        case False
        then have "rlv_hi chk 5 0 (LongBits l h) (advance 5 r) =
          (Inr (True, LongBits l (word_of_nat (n div 2 ^ 32))), advance (varint_size n) r)" for chk
          using rlv_hi_varint[OF a n, of h 0 5] h by simp
        then show ?thesis using e p(2) False l by (simp add: rlv_high_def bind_read_def)
      qed
    qed
  next
    case slow: False
    then have "varint_size n \<le> 4" using len by simp
    then have n4: "n < 128 ^ 4" using varint_size_gt[of 4 n] by (meson not_le)
    show ?thesis
    proof (cases "n < 128 ^ 3")
      case True
      then have "readLongVarint r = (Inr (LongBits (word_of_nat n) 0), advance (varint_size n) r)"
        using slow by (simp add: readLongVarint_def lo bind_read_def)
      then show ?thesis using n4 h0 by simp
    next
      case False
      then have "3 < varint_size n" using in_varint[of 3 n] by simp
      note p = varint_peek[OF a this]
      have "unat ((word_of_nat (n mod 128 ^ 3) :: u32) OR push_bit (3 * 7) (low7 (peek r 3))) = n mod 128 ^ Suc 3"
        using p(1) by (intro acc_step) (simp_all add: unat_of_nat)
      then have "(word_of_nat (n mod 128 ^ 3) :: u32) OR push_bit 21 (low7 (peek r 3)) = word_of_nat n"
        using n4 by (intro word_of_unat) simp
      moreover have "varint_size n = 4" using False n4 varint_size_eq[of 3 n] by simp
      ultimately show ?thesis
        using slow False n4 h0 by (simp add: readLongVarint_def lo bind_read_def LongBits_def)
    qed
  qed
qed


section \<open>Reading what the writer writes\<close>

lemma ahead_take: "ahead r (xs @ ys) \<Longrightarrow> take (length xs) (drop (r_pos r) (r_buf r)) = xs"
  by (simp add: ahead_def)

lemma ahead_nth: "ahead r (xs @ ys) \<Longrightarrow> i < length xs \<Longrightarrow> js_get (r_buf r) (r_pos r + i) = Some (xs ! i)"
  using ahead_peek[of r "xs @ ys" i] by (simp add: peek_def)

lemma read_uint32_u32:
  "ahead r (varint (unat (w :: u32)) @ rest) \<Longrightarrow>
   read_uint32 r = (Inr w, advance (length (varint (unat w))) r)"
  using read_uint32_varint[of r "unat w" rest] unat_u32_lt[of w] by (simp add: length_varint)

lemma read_bytes_block:
  assumes a: "ahead r (varint (length bs) @ bs @ rest)" and "length bs < 2 ^ 32"
  shows "read_bytes r = (Inr bs, advance (length (varint (length bs)) + length bs) r)"
proof -
  let ?r = "advance (length (varint (length bs))) r"
  have "ahead ?r (bs @ rest)" using ahead_advance[OF a] by simp
  then have "take (length bs) (drop (r_pos ?r) (r_buf ?r)) = bs" "r_pos ?r + length bs \<le> r_len ?r"
    by (rule ahead_take) (use ahead_len[OF \<open>ahead ?r (bs @ rest)\<close>] in simp)
  moreover have "read_uint32 r = (Inr (word_of_nat (length bs)), ?r)"
    using read_uint32_varint[OF a assms(2)] by (simp add: length_varint)
  moreover have "unat (word_of_nat (length bs) :: u32) = length bs"
    using assms(2) by (simp add: unat_of_nat)
  ultimately show ?thesis
    by (simp add: read_bytes_def bind_read_def Let_def)
qed

text \<open>Little-endian groups of four bytes.\<close>

definition le32 :: "u32 \<Rightarrow> byte list" where
  "le32 v = [ucast (v AND 255), ucast (drop_bit 8 v AND 255), ucast (drop_bit 16 v AND 255),
             ucast (drop_bit 24 v)]"

lemma ucast8_and255: "(ucast (ucast (w AND 255 :: u32) :: byte) :: u32) = w AND 255"
proof (rule bit_word_eqI)
  fix n assume "n < LENGTH(32)"
  have m: "(255 :: u32) = mask 8" by (simp add: mask_eq_exp_minus_1)
  show "bit (ucast (ucast (w AND 255 :: u32) :: byte) :: u32) n = bit (w AND 255) n"
    unfolding m using \<open>n < LENGTH(32)\<close>
    by (auto simp: bit_ucast_iff bit_and_iff bit_mask_iff)
qed

lemma ucast8_drop24: "(ucast (ucast (drop_bit 24 w :: u32) :: byte) :: u32) = drop_bit 24 w"
proof (rule bit_word_eqI)
  fix n assume "n < LENGTH(32)"
  then show "bit (ucast (ucast (drop_bit 24 w :: u32) :: byte) :: u32) n = bit (drop_bit 24 w) n"
    by (auto simp: bit_ucast_iff bit_drop_bit_eq dest: bit_imp_le_length)
qed

lemma readFixed32_end_le32:
  assumes "\<And>i. i < 4 \<Longrightarrow> js_get buf (p + i) = Some (le32 v ! i)"
  shows "readFixed32_end buf (p + 4) = v"
proof -
  have "js_get buf p = Some (ucast (v AND 255))" "js_get buf (p + 1) = Some (ucast (drop_bit 8 v AND 255))"
    "js_get buf (p + 2) = Some (ucast (drop_bit 16 v AND 255))" "js_get buf (p + 3) = Some (ucast (drop_bit 24 v))"
    using assms[of 0] assms[of 1] assms[of 2] assms[of 3] by (simp_all add: le32_def nth_Cons')
  moreover have i: "p + 4 - 4 = p" "p + 4 - 3 = p + 1" "p + 4 - 2 = p + 2" "p + 4 - 1 = p + 3" by simp_all
  ultimately have "readFixed32_end buf (p + 4) = (v AND 255) OR push_bit 8 (drop_bit 8 v AND 255)
      OR push_bit 16 (drop_bit 16 v AND 255) OR push_bit 24 (drop_bit 24 v)"
    unfolding readFixed32_end_def
    by (simp only: i bits_of.simps ucast8_and255 ucast8_drop24)
  then show ?thesis by (simp only: bytes_or[symmetric])
qed

lemma read_fixed_le32:
  assumes "ahead r (le32 v @ rest)"
  shows "read_fixed32 r = (Inr v, advance 4 r)" and "read_sfixed32 r = (Inr (sint v), advance 4 r)"
proof -
  have l: "length (le32 v) = 4" by (simp add: le32_def)
  then have "readFixed32_end (r_buf r) (r_pos r + 4) = v"
    using ahead_nth[OF assms] by (intro readFixed32_end_le32) simp
  moreover have "r_pos r + 4 \<le> r_len r" using ahead_len[OF assms] l by simp
  ultimately show "read_fixed32 r = (Inr v, advance 4 r)" "read_sfixed32 r = (Inr (sint v), advance 4 r)"
    by (simp_all add: read_fixed32_def read_sfixed32_def)
qed

lemma readFixed64_le32:
  assumes "ahead r (le32 (lo b) @ le32 (hi b) @ rest)"
  shows "readFixed64 r = (Inr b, advance 8 r)"
proof -
  have l: "length (le32 v) = 4" for v by (simp add: le32_def)
  have "readFixed32_end (r_buf r) (r_pos r + 4) = lo b"
    using ahead_nth[OF assms] l by (intro readFixed32_end_le32) simp
  moreover have a: "ahead (advance 4 r) (le32 (hi b) @ rest)"
    using ahead_advance[OF assms, of 4] l by simp
  then have "readFixed32_end (r_buf (advance 4 r)) (r_pos (advance 4 r) + 4) = hi b"
    using ahead_nth[OF a] l by (intro readFixed32_end_le32) simp
  then have "readFixed32_end (r_buf r) (r_pos r + 8) = hi b" by (simp add: add.commute)
  moreover have "r_pos r + 8 \<le> r_len r" using ahead_len[OF assms] l by simp
  ultimately show ?thesis by (simp add: readFixed64_def LongBits_def)
qed

text \<open>Floating-point patterns.\<close>

definition le_bytes :: "nat \<Rightarrow> 'a::len word \<Rightarrow> byte list" where
  "le_bytes k v = map (\<lambda>i. ucast (drop_bit (8 * i) v)) [0..<k]"

lemma unat_byte_of: "unat (ucast (v :: 'a::len word) :: byte) = unat v mod 256"
  by (simp add: unsigned_ucast_eq take_bit_eq_mod)

lemma le_bytes_Suc: "le_bytes (Suc k) v = ucast v # le_bytes k (drop_bit 8 v)"
  unfolding le_bytes_def by (simp only: upt_conv_Cons[of 0 "Suc k"] zero_less_Suc list.map map_Suc_upt[symmetric] map_map)
     (simp add: comp_def add.commute)

lemma le_pattern_bytes: "le_pattern (le_bytes k v) = unat v mod 256 ^ k"
proof (induction k arbitrary: v)
  case 0
  then show ?case by (simp add: le_pattern_def le_bytes_def)
next
  case (Suc k)
  have "le_pattern (le_bytes (Suc k) v) = unat v mod 256 + 256 * (unat v div 256 mod 256 ^ k)"
    using Suc[of "drop_bit 8 v"] by (simp add: le_bytes_Suc le_pattern_def unat_byte_of unat_drop_bit)
  also have "\<dots> = unat v mod 256 ^ Suc k"
    unfolding power_Suc mod_mult2_eq by simp
  finally show ?case .
qed

lemma le_pattern_u32: "word_of_nat (le_pattern (le_bytes 4 v)) = (v :: u32)"
  unfolding le_pattern_bytes using unat_u32_lt[of v] by simp

lemma le_pattern_u64: "word_of_nat (le_pattern (le_bytes 8 v)) = (v :: u64)"
proof -
  have "unat v < 2 ^ LENGTH(64)" by (rule unsigned_less)
  then have "unat v mod 256 ^ 8 = unat v" by simp
  then show ?thesis unfolding le_pattern_bytes by simp
qed

lemma read_float_le:
  assumes "ahead r (le_bytes 4 v @ rest)"
  shows "read_float r = (Inr v, advance 4 r)"
proof -
  have l: "length (le_bytes 4 v) = 4" by (simp add: le_bytes_def)
  then show ?thesis
    using ahead_take[OF assms] ahead_len[OF assms] le_pattern_u32[of v]
    by (simp add: read_float_def readFloatLE_def)
qed

lemma read_double_le:
  assumes "ahead r (le_bytes 8 v @ rest)"
  shows "read_double r = (Inr v, advance 8 r)"
proof -
  have l: "length (le_bytes 8 v) = 8" by (simp add: le_bytes_def)
  then show ?thesis
    using ahead_take[OF assms] ahead_len[OF assms] le_pattern_u64[of v]
    by (simp add: read_double_def readDoubleLE_def)
qed

section \<open>Skipping\<close>

lemma top_bit: "bits_of (Some b) AND 128 \<noteq> 0 \<longleftrightarrow> 128 \<le> unat b" for b :: byte
proof -
  have "bits_of (Some b) AND 128 \<noteq> 0 \<longleftrightarrow> bit (bits_of (Some b)) 7"
    using and_exp_eq_0_iff_not_bit[of "bits_of (Some b)" 7] by simp
  also have "\<dots> \<longleftrightarrow> odd (unat b div 128)"
  proof -
    have "bit (bits_of (Some b)) 7 \<longleftrightarrow> odd (uint (bits_of (Some b)) div 128)"
      using bit_uint_iff[of "bits_of (Some b)" 7] by (simp add: bit_iff_odd)
    also have "uint (bits_of (Some b)) div 128 = int (unat b div 128)"
      by (simp only: bits_of.simps uint_nat unat_byte_up zdiv_int of_nat_numeral)
    finally show ?thesis by simp
  qed
  also have "\<dots> \<longleftrightarrow> 128 \<le> unat b"
  proof (cases "128 \<le> unat b")
    case True
    then have "unat b div 128 = 1" using unat_u8_lt[of b] by (intro div_nat_eqI) simp_all
    then show ?thesis using True by simp
  qed simp
  finally show ?thesis .
qed

lemma skip_varint_varint:
  "ahead r (varint n @ rest) \<Longrightarrow> skip_varint r = (Inr (), advance (length (varint n)) r)"
proof (induction n arbitrary: r rule: varint.induct)
  case (1 n)
  have m: "bits_of (Some b) AND 128 \<noteq> 0 \<longleftrightarrow> 128 \<le> unat b" for b :: byte
    by (rule top_bit)
  have len: "r_pos r < r_len r"
    using ahead_len[OF 1(2)] varint_nonempty[of n] by simp
  show ?case
  proof (cases "n < 128")
    case True
    then have "peek r 0 = Some (word_of_nat n)"
      using ahead_peek[OF 1(2), of 0] by (simp add: varint_small)
    then show ?thesis
      using True len m[of "word_of_nat n"]
      by (subst skip_varint.simps) (simp add: varint_small unat_low7)
  next
    case False
    let ?b = "word_of_nat (n mod 128 + 128) :: byte"
    have a: "ahead r ([?b] @ varint (n div 128) @ rest)"
      using 1(2) False by (simp add: varint_big del: of_nat_add)
    then have "peek r 0 = Some ?b" using ahead_peek[OF a, of 0] by simp
    moreover have "skip_varint (advance 1 r) =
        (Inr (), advance (length (varint (n div 128))) (advance 1 r))"
      using False ahead_advance[OF a] by (intro 1(1)) auto
    moreover have "128 \<le> unat ?b" using unat_low7_cont[of "n mod 128"] by simp
    ultimately show ?thesis
      using False len m[of ?b]
      by (subst skip_varint.simps) (simp add: varint_big del: of_nat_add)
  qed
qed



lemma skip_block: "ahead r (xs @ rest) \<Longrightarrow> k = length xs \<Longrightarrow> skip k r = (Inr (), advance k r)"
  using ahead_len[of r "xs @ rest"] by (simp add: skip_def)

text \<open>\<open>uint32\<close> moves the position forward when it succeeds, to at most one byte past a bad end.\<close>

lemma read_uint32_pos:
  "read_uint32 r = (Inr v, r') \<Longrightarrow> r_len r = length (r_buf r) \<Longrightarrow>
   r_pos r < r_pos r' \<and> r_pos r' \<le> r_len r \<and> r_len r' = r_len r \<and> r_buf r' = r_buf r"
proof -
  assume a: "read_uint32 r = (Inr v, r')" and l: "r_len r = length (r_buf r)"
  have p: "lt128 (peek r i) \<Longrightarrow> r_pos r + i < r_len r" for i
    using l by (cases "r_pos r + i < r_len r") (simp_all add: peek_def)
  show ?thesis
    using a p[of 0] p[of 1] p[of 2] p[of 3] p[of 4]
    by (auto simp: read_uint32_def Let_def split: if_splits)
qed

lemma skip_varint_pos:
  "skip_varint r = (Inr u, r') \<Longrightarrow>
   r_pos r < r_pos r' \<and> r_pos r' \<le> r_len r \<and> r_len r' = r_len r \<and> r_buf r' = r_buf r"
proof (induction r rule: skip_varint.induct)
  case (1 r)
  show ?case
  proof (cases "r_pos r \<ge> r_len r \<or> bits_of (peek r 0) AND 128 = 0")
    case True
    then show ?thesis
      using "1.prems" by (subst (asm) skip_varint.simps) (auto split: if_splits)
  next
    case False
    then have "skip_varint (advance 1 r) = (Inr u, r')"
      using "1.prems" by (subst (asm) skip_varint.simps) simp
    then show ?thesis using "1.IH" False by auto
  qed
qed

lemma skip_pos:
  "skip k r = (Inr u, r') \<Longrightarrow>
   r_pos r \<le> r_pos r' \<and> r_pos r' \<le> r_len r \<and> r_len r' = r_len r \<and> r_buf r' = r_buf r"
  by (auto simp: skip_def split: if_splits)

text \<open>With two units of fuel for every byte that is left, skipping finishes.\<close>

definition pos_ok :: "reader \<Rightarrow> (js_error + unit) \<times> reader \<Rightarrow> bool" where
  "pos_ok r res \<longleftrightarrow> (case res of (Inl e, r') \<Rightarrow> True
     | (Inr u, r') \<Rightarrow> r_pos r \<le> r_pos r' \<and> r_pos r' \<le> r_len r \<and> r_len r' = r_len r \<and> r_buf r' = r_buf r)"

lemma pos_okI:
  "(\<And>u r'. res = (Inr u, r') \<Longrightarrow>
      r_pos r \<le> r_pos r' \<and> r_pos r' \<le> r_len r \<and> r_len r' = r_len r \<and> r_buf r' = r_buf r) \<Longrightarrow>
   pos_ok r res"
  unfolding pos_ok_def by (cases res; cases "fst res") (simp_all only: prod.case sum.case fst_conv simp_thms)

lemma skip_enough_fuel:
  "r_len r = length (r_buf r) \<Longrightarrow> r_pos r \<le> r_len r \<Longrightarrow>
   2 * (r_len r - r_pos r) + 2 \<le> f \<Longrightarrow> \<exists>res. skipType_fuel f w r = Some res \<and> pos_ok r res"
  "r_len r = length (r_buf r) \<Longrightarrow> r_pos r \<le> r_len r \<Longrightarrow>
   2 * (r_len r - r_pos r) + 1 \<le> f \<Longrightarrow> \<exists>res. skip_group_fuel f r = Some res \<and> pos_ok r res"
proof (induction f w r and f r rule: skipType_fuel_skip_group_fuel.induct)
  case (1 w r)
  then show ?case by simp
next
  case (2 f w r)
  have v: "pos_ok r (skip_varint r)"
    by (rule pos_okI) (drule skip_varint_pos, simp)
  have s: "pos_ok r (skip k r)" for k
    by (rule pos_okI) (erule skip_pos)
  have l: "pos_ok r (bind_read (read_uint32 r) (\<lambda>len. skip (unat len)))"
  proof -
    obtain x r1 where u: "read_uint32 r = (x, r1)" by force
    show ?thesis
    proof (cases x)
      case (Inl e)
      then show ?thesis using u by (simp add: pos_ok_def bind_read_def)
    next
      case (Inr v)
      obtain y r2 where y: "skip (unat v) r1 = (y, r2)" by force
      note p = read_uint32_pos[OF u[unfolded Inr] "2.prems"(1)]
      show ?thesis
      proof (cases y)
        case (Inl e)
        then show ?thesis using u \<open>x = Inr v\<close> y by (simp add: pos_ok_def bind_read_def)
      next
        case (Inr w)
        then show ?thesis
          using u \<open>x = Inr v\<close> y p skip_pos[OF y[unfolded Inr]] by (simp add: pos_ok_def bind_read_def)
      qed
    qed
  qed
  have g: "w = 3 \<Longrightarrow> \<exists>res. skip_group_fuel f r = Some res \<and> pos_ok r res"
    using "2.prems" by (intro "2.IH") auto
  show ?case
  proof (cases "w = 3")
    case False
    have e: "pos_ok r (Inl err, r)" for err by (simp add: pos_ok_def)
    show ?thesis
      using False v s[of 8] s[of 4] l e by (simp del: split_paired_Ex)
  qed (use g in simp)
next
  case (3 r)
  then show ?case by simp
next
  case (4 f r)
  obtain x r1 where u: "read_uint32 r = (x, r1)" by force
  show ?case
  proof (cases x)
    case (Inl e)
    then show ?thesis using u by (simp add: pos_ok_def)
  next
    case (Inr v)
    note p = read_uint32_pos[OF u[unfolded Inr] "4.prems"(1)]
    show ?thesis
    proof (cases "v AND 7 = 4")
      case True
      then show ?thesis using u Inr p by (simp add: pos_ok_def)
    next
      case False
      have "\<exists>res. skipType_fuel f (v AND 7) r1 = Some res \<and> pos_ok r1 res"
        using "4.prems" p by (intro "4.IH"(1)[OF u[symmetric] Inr False]) auto
      then obtain y r2 where y: "skipType_fuel f (v AND 7) r1 = Some (y, r2)" "pos_ok r1 (y, r2)" by auto
      show ?thesis
      proof (cases y)
        case (Inl e)
        then show ?thesis using u Inr False y \<open>x = Inr v\<close> by (simp add: pos_ok_def)
      next
        case (Inr a)
        have q: "r_pos r1 \<le> r_pos r2" "r_pos r2 \<le> r_len r1" "r_len r2 = r_len r1" "r_buf r2 = r_buf r1"
          using y(2) Inr by (auto simp: pos_ok_def)
        have "\<exists>res. skip_group_fuel f r2 = Some res \<and> pos_ok r2 res"
          using "4.prems" p q y Inr \<open>x = Inr v\<close> False u by (intro "4.IH"(2)) auto
        then obtain z r3 where z: "skip_group_fuel f r2 = Some (z, r3)" "pos_ok r2 (z, r3)" by auto
        have "skip_group_fuel (Suc f) r = Some (z, r3)"
          using u False y Inr \<open>x = Inr v\<close> z by simp
        moreover have "pos_ok r (z, r3)"
          using z(2) p q by (cases z) (simp_all add: pos_ok_def)
        ultimately show ?thesis by blast
      qed
    qed
  qed
qed

lemma skip_fuel_mono:
  "skipType_fuel f w r = Some res \<Longrightarrow> skipType_fuel (Suc f) w r = Some res"
  "skip_group_fuel f r = Some res \<Longrightarrow> skip_group_fuel (Suc f) r = Some res"
proof (induction f w r and f r arbitrary: res and res rule: skipType_fuel_skip_group_fuel.induct)
  case (2 f w r)
  then show ?case by (auto split: if_splits simp del: skip_group_fuel.simps(2))
next
  case (4 f r)
  obtain x r1 where u: "read_uint32 r = (x, r1)" by force
  show ?case
  proof (cases x)
    case (Inr v)
    show ?thesis
    proof (cases "v AND 7 = 4")
      case False
      obtain y r2 where y: "skipType_fuel f (v AND 7) r1 = Some (y, r2)"
        using 4(3) u Inr False by (auto split: option.splits)
      note y' = "4.IH"(1)[OF u[symmetric] Inr False y]
      show ?thesis
      proof (cases y)
        case (Inl e)
        then have "res = (Inl e, r2)" using 4(3) u \<open>x = Inr v\<close> False y by simp
        then show ?thesis using u \<open>x = Inr v\<close> False y' Inl by (simp del: skipType_fuel.simps)
      next
        case (Inr w)
        then have "skip_group_fuel f r2 = Some res"
          using 4(3) u \<open>x = Inr v\<close> False y by simp
        then have "skip_group_fuel (Suc f) r2 = Some res"
          using u y Inr False \<open>x = Inr v\<close> by (intro "4.IH"(2)) auto
        then show ?thesis
          using u \<open>x = Inr v\<close> False y' Inr
          by (subst skip_group_fuel.simps) (simp del: skipType_fuel.simps skip_group_fuel.simps)
      qed
    qed (use 4(3) u Inr in simp)
  qed (use 4(3) u in simp)
qed simp_all

lemma skipType_fuel_eq:
  assumes "r_len r = length (r_buf r)" and "r_pos r \<le> r_len r" and "skip_fuel r \<le> f"
  shows "skipType_fuel f w r = Some (skipType w r)"
proof -
  obtain res where "skipType_fuel (skip_fuel r) w r = Some res"
    using skip_enough_fuel(1)[OF assms(1,2), of "skip_fuel r" w] by (auto simp: skip_fuel_def)
  moreover have "skipType_fuel (skip_fuel r + k) w r = Some res" for k
    by (induction k) (simp_all add: calculation skip_fuel_mono(1) del: skipType_fuel.simps)
  ultimately show ?thesis
    using assms(3) by (metis skipType_def option.sel le_add_diff_inverse)
qed

lemma skipType_pos:
  assumes "r_len r = length (r_buf r)" and "r_pos r \<le> r_len r"
  shows "pos_ok r (skipType w r)"
  using skip_enough_fuel(1)[OF assms, of "skip_fuel r" w] by (auto simp: skip_fuel_def skipType_def)

text \<open>The recursion equations of the source, without fuel.\<close>

definition skip_group :: "reader \<Rightarrow> (js_error + unit) \<times> reader" where
  "skip_group r = the (skip_group_fuel (skip_fuel r) r)"

definition wf_reader :: "reader \<Rightarrow> bool" where
  "wf_reader r \<longleftrightarrow> r_len r = length (r_buf r) \<and> r_pos r \<le> r_len r"

lemma skip_group_fuel_eq:
  assumes "wf_reader r" and "2 * (r_len r - r_pos r) + 1 \<le> f"
  shows "skip_group_fuel f r = Some (skip_group r)"
proof -
  let ?f = "2 * (r_len r - r_pos r) + 1"
  obtain res where "skip_group_fuel ?f r = Some res"
    using skip_enough_fuel(2)[of r ?f, OF _ _ order_refl] assms(1) unfolding wf_reader_def by blast
  then have k: "skip_group_fuel (?f + k) r = Some res" for k
    by (induction k) (simp_all add: skip_fuel_mono(2) del: skip_group_fuel.simps)
  from k[of 1] have "skip_group r = res"
    by (simp add: skip_group_def skip_fuel_def del: skip_group_fuel.simps)
  with k[of "f - ?f"] assms(2) show ?thesis by (metis le_add_diff_inverse)
qed

lemma skipType_simps:
  assumes "wf_reader r"
  shows "skipType 0 r = skip_varint r" and "skipType 1 r = skip 8 r"
    and "skipType 2 r = bind_read (read_uint32 r) (\<lambda>len. skip (unat len))"
    and "skipType 3 r = skip_group r" and "skipType 5 r = skip 4 r"
    and "w \<notin> {0, 1, 2, 3, 5} \<Longrightarrow> skipType w r = (Inl (Error ''invalid wire type''), r)"
  using skip_group_fuel_eq[OF assms, of "Suc (2 * (r_len r - r_pos r))"]
  by (simp_all add: skipType_def skip_fuel_def del: skip_group_fuel.simps)

lemma skip_group_step:
  assumes "wf_reader r"
  shows "skip_group r = bind_read (read_uint32 r)
    (\<lambda>v r1. if v AND 7 = 4 then (Inr (), r1)
            else bind_read (skipType (v AND 7) r1) (\<lambda>u. skip_group))"
proof -
  let ?f = "2 * (r_len r - r_pos r)"
  have s: "skip_group_fuel (Suc ?f) r = Some (skip_group r)"
    using skip_group_fuel_eq[OF assms, of "Suc ?f"] by simp
  obtain x r1 where u: "read_uint32 r = (x, r1)" by force
  show ?thesis
  proof (cases x)
    case (Inl e)
    then show ?thesis using s u by (simp add: bind_read_def)
  next
    case (Inr v)
    note p = read_uint32_pos[OF u[unfolded Inr]]
    have w1: "wf_reader r1" "r_pos r < r_pos r1" "r_len r1 = r_len r"
      using p assms by (auto simp: wf_reader_def)
    have "skip_fuel r1 \<le> ?f" using w1 unfolding skip_fuel_def wf_reader_def by arith
    then have t: "skipType_fuel ?f (v AND 7) r1 = Some (skipType (v AND 7) r1)"
      using w1 by (intro skipType_fuel_eq) (auto simp: wf_reader_def)
    obtain y r2 where y: "skipType (v AND 7) r1 = (y, r2)" by force
    show ?thesis
    proof (cases y)
      case (Inl e)
      then show ?thesis using s u \<open>x = Inr v\<close> t y by (auto simp: bind_read_def)
    next
      case (Inr a)
      have "pos_ok r1 (skipType (v AND 7) r1)"
        using w1 by (intro skipType_pos) (auto simp: wf_reader_def)
      then have "wf_reader r2" "r_pos r1 \<le> r_pos r2" "r_len r2 = r_len r1"
        using w1 y Inr by (auto simp: pos_ok_def wf_reader_def)
      then have "skip_group_fuel ?f r2 = Some (skip_group r2)"
        using w1 by (intro skip_group_fuel_eq) (auto simp: wf_reader_def)
      then show ?thesis using s u \<open>x = Inr v\<close> t y Inr by (auto simp: bind_read_def)
    qed
  qed
qed

lemma ahead_wf: "ahead r bs \<Longrightarrow> wf_reader r"
  by (simp add: ahead_def wf_reader_def)

text \<open>
  Well-formed wire elements: what may follow a field's key. A group holds keyed elements and
  its end key repeats the group's number.
\<close>

datatype wire_elem =
    Varint nat
  | Fixed64 "byte list"
  | Delimited "byte list"
  | Group "(nat \<times> wire_elem) list" nat
  | Fixed32 "byte list"

primrec wire_type :: "wire_elem \<Rightarrow> nat" where
  "wire_type (Varint n) = 0"
| "wire_type (Fixed64 bs) = 1"
| "wire_type (Delimited bs) = 2"
| "wire_type (Group es i) = 3"
| "wire_type (Fixed32 bs) = 5"

fun wire_bytes :: "wire_elem \<Rightarrow> byte list" where
  "wire_bytes (Varint n) = varint n"
| "wire_bytes (Fixed64 bs) = bs"
| "wire_bytes (Delimited bs) = varint (length bs) @ bs"
| "wire_bytes (Group es i) =
     concat (map (\<lambda>(k, e). varint (8 * k + wire_type e) @ wire_bytes e) es) @ varint (8 * i + 4)"
| "wire_bytes (Fixed32 bs) = bs"

fun wf_elem :: "wire_elem \<Rightarrow> bool" where
  "wf_elem (Varint n) = True"
| "wf_elem (Fixed64 bs) = (length bs = 8)"
| "wf_elem (Delimited bs) = (length bs < 2 ^ 32)"
| "wf_elem (Group es i) = (i < 2 ^ 29 \<and> list_all (\<lambda>(k, e). k < 2 ^ 29 \<and> wf_elem e) es)"
| "wf_elem (Fixed32 bs) = (length bs = 4)"

lemma key_type:
  assumes "k < 2 ^ 29" and "t < 8"
  shows "word_of_nat (8 * k + t) AND 7 = (word_of_nat t :: u32)"
proof (rule word_of_unat)
  have "8 * k + t < 2 ^ 32" using assms by simp
  then have "unat (word_of_nat (8 * k + t) :: u32) = 8 * k + t"
    by (simp add: unat_of_nat del: of_nat_add)
  then show "unat (word_of_nat (8 * k + t) AND 7 :: u32) = t"
    using assms(2) by (simp add: and_7 del: of_nat_add)
qed

lemma wire_type_lt: "wire_type e < 8" "wire_type e \<noteq> 4"
  by (cases e; simp)+

lemma bind_read_Inr [simp]: "bind_read (Inr v, r) f = f v r"
  by (simp add: bind_read_def)

lemma bind_read_Inl [simp]: "bind_read (Inl e, r) f = (Inl e, r)"
  by (simp add: bind_read_def)

definition skips_elem :: "wire_elem \<Rightarrow> bool" where
  "skips_elem e \<longleftrightarrow> (\<forall>r rest. ahead r (wire_bytes e @ rest) \<longrightarrow>
     skipType (word_of_nat (wire_type e)) r = (Inr (), advance (length (wire_bytes e)) r))"

lemma read_key:
  assumes "ahead r (varint (8 * k + t) @ rest)" and "k < 2 ^ 29" and "t < 8"
  shows "read_uint32 r = (Inr (word_of_nat (8 * k + t)), advance (length (varint (8 * k + t))) r)"
  using read_uint32_varint[OF assms(1)] assms(2,3) by (simp add: length_varint)

lemma skip_group_elems:
  assumes "\<And>k e. (k, e) \<in> set es \<Longrightarrow> k < 2 ^ 29 \<and> skips_elem e" and "i < 2 ^ 29"
    and "ahead r (wire_bytes (Group es i) @ rest)"
  shows "skip_group r = (Inr (), advance (length (wire_bytes (Group es i))) r)"
  using assms(1,3)
proof (induction es arbitrary: r)
  case Nil
  then have a: "ahead r (varint (8 * i + 4) @ rest)" by simp
  have "word_of_nat (8 * i + 4) AND 7 = (4 :: u32)"
    using key_type[of i 4] assms(2) by simp
  then show ?case
    using read_key[OF a assms(2)] by (simp add: skip_group_step[OF ahead_wf[OF a]] del: of_nat_add)
next
  case (Cons ke es)
  obtain k e where ke: "ke = (k, e)" by force
  let ?key = "varint (8 * k + wire_type e)"
  let ?r1 = "advance (length ?key) r"
  have k: "k < 2 ^ 29" "skips_elem e" using Cons.prems(1)[of k e] ke by simp_all
  have a: "ahead r (?key @ wire_bytes e @ wire_bytes (Group es i) @ rest)"
    using Cons.prems(2) ke by simp
  then have a1: "ahead ?r1 (wire_bytes e @ wire_bytes (Group es i) @ rest)"
    by (rule ahead_advance) simp
  then have a2: "ahead (advance (length (wire_bytes e)) ?r1) (wire_bytes (Group es i) @ rest)"
    by (rule ahead_advance) simp
  have t: "word_of_nat (8 * k + wire_type e) AND 7 = (word_of_nat (wire_type e) :: u32)"
    using k(1) wire_type_lt(1) by (rule key_type)
  have t4: "(word_of_nat (wire_type e) :: u32) \<noteq> 4" by (cases e) simp_all
  have "skipType (word_of_nat (wire_type e)) ?r1 = (Inr (), advance (length (wire_bytes e)) ?r1)"
    using k(2) a1 by (simp only: skips_elem_def)
  moreover have "skip_group (advance (length (wire_bytes e)) ?r1) =
      (Inr (), advance (length (wire_bytes (Group es i))) (advance (length (wire_bytes e)) ?r1))"
    using Cons.prems(1) a2 by (intro Cons.IH) auto
  ultimately show ?case
    using read_key[OF a k(1) wire_type_lt(1)] t t4 ke
    by (simp add: skip_group_step[OF ahead_wf[OF a]] add.assoc del: of_nat_add)
qed

lemma skips_wf_elem: "wf_elem e \<Longrightarrow> skips_elem e"
proof (induction e rule: wf_elem.induct)
  case (1 n)
  then show ?case
    by (simp add: skips_elem_def skipType_simps(1) ahead_wf skip_varint_varint)
next
  case (2 bs)
  then show ?case
    using skip_block[of _ bs] by (auto simp: skips_elem_def skipType_simps(2)[OF ahead_wf])
next
  case (3 bs)
  show ?case unfolding skips_elem_def
  proof (intro allI impI)
    fix r rest assume "ahead r (wire_bytes (Delimited bs) @ rest)"
    then have a: "ahead r (varint (length bs) @ bs @ rest)" by simp
    have l: "length bs < 2 ^ 32" using 3 by simp
    then have "unat (word_of_nat (length bs) :: u32) = length bs" by (simp add: unat_of_nat)
    then show "skipType (word_of_nat (wire_type (Delimited bs))) r =
        (Inr (), advance (length (wire_bytes (Delimited bs))) r)"
      using read_uint32_varint[OF a l] skip_block[OF ahead_advance[OF a]] skipType_simps(3)[OF ahead_wf[OF a]]
      by (simp add: length_varint)
  qed
next
  case (4 es i)
  have "k < 2 ^ 29 \<and> skips_elem e" if "(k, e) \<in> set es" for k e
    using 4 that by (fastforce simp: list_all_iff)
  then show ?case
    using skip_group_elems[of es i] 4(2) skipType_simps(4)[OF ahead_wf]
    by (simp add: skips_elem_def del: wire_bytes.simps)
next
  case (5 bs)
  then show ?case
    using skip_block[of _ bs] by (auto simp: skips_elem_def skipType_simps(5)[OF ahead_wf])
qed



section \<open>Properties\<close>

text \<open>C14 \<open>skipType\<close> passes over any well-formed element of the wire format, groups nested
  to any depth included, and stops at the first byte after it.\<close>

theorem skipType_element:
  assumes "wf_elem e" and "ahead r (wire_bytes e @ rest)"
  shows "skipType (word_of_nat (wire_type e)) r = (Inr (), advance (length (wire_bytes e)) r)"
  using skips_wf_elem[OF assms(1)] assms(2) unfolding skips_elem_def by blast

theorem skipType_element_witness:
  "skipType 3 (Reader (wire_bytes (Group [(1, Varint 300), (2, Group [] 2)] 7) @ [9])) =
   (Inr (), advance 6 (Reader (wire_bytes (Group [(1, Varint 300), (2, Group [] 2)] 7) @ [9])))"
  using skipType_element[of "Group [(1, Varint 300), (2, Group [] 2)] 7"
      "Reader (wire_bytes (Group [(1, Varint 300), (2, Group [] 2)] 7) @ [9])" "[9]"]
  by (simp add: ahead_Reader length_varint varint_size.simps)

text \<open>\<open>skipType\<close> terminates on every buffer and every wire type, malformed and endless
  groups included: with two units of fuel for each byte that is left the recursion ends, more
  fuel changes nothing, and a success leaves the position between the old one and the end.\<close>

theorem skipType_total:
  assumes "wf_reader r" and "2 * (r_len r - r_pos r) + 2 \<le> f"
  shows "skipType_fuel f w r = Some (skipType w r) \<and>
    (\<forall>r'. skipType w r = (Inr (), r') \<longrightarrow> r_pos r \<le> r_pos r' \<and> r_pos r' \<le> r_len r \<and> r_buf r' = r_buf r)"
  using skipType_fuel_eq[of r f w] skipType_pos[of r w] assms
  by (auto simp: wf_reader_def skip_fuel_def pos_ok_def)

theorem skipType_total_witness:
  "skipType_fuel 8 3 (Reader [11, 12, 11]) = Some (skipType 3 (Reader [11, 12, 11]))"
  using skipType_total[of "Reader [11, 12, 11]" 8 3] by (simp add: wf_reader_def Reader_def)

text \<open>A varint of 6 to 9 bytes is not skipped exactly by \<open>uint32\<close>: for a value of at least
  \<open>2 ^ 35\<close> the reader moves by ten bytes whatever the varint's length, into the bytes that
  follow it, or fails although the varint is complete.\<close>

theorem read_uint32_long_varint:
  assumes "ahead r (varint n @ rest)" and "2 ^ 35 \<le> n"
  shows "read_uint32 r =
    (if 10 \<le> length (varint n) + length rest then (Inr (word_of_nat n), advance 10 r)
     else (Inl (RangeError (r_len r) 10 (r_len r)), r\<lparr>r_pos := r_len r\<rparr>))"
  using read_uint32_any[OF assms(1)] assms(2) by (simp add: length_varint)

theorem read_uint32_long_varint_witness:
  "fst (read_uint32 (Reader (varint (2 ^ 35) @ [1, 2, 3]))) = Inl (RangeError 9 10 9) \<and>
   read_uint32 (Reader (varint (2 ^ 35) @ [1, 2, 3, 4, 5])) =
     (Inr 0, advance 10 (Reader (varint (2 ^ 35) @ [1, 2, 3, 4, 5])))"
  using read_uint32_long_varint[of "Reader (varint (2 ^ 35) @ [1, 2, 3])" "2 ^ 35" "[1, 2, 3]"]
    read_uint32_long_varint[of "Reader (varint (2 ^ 35) @ [1, 2, 3, 4, 5])" "2 ^ 35" "[1, 2, 3, 4, 5]"]
  by (simp add: ahead_Reader length_varint varint_size.simps) (simp add: Reader_def length_varint varint_size.simps)

text \<open>A truncated varint is accepted by the 64-bit readers: after three continuation bytes
  at the end of the buffer the fourth byte is read without a check, and the reader ends up
  one byte past the end without an error.\<close>

theorem readLongVarint_truncated:
  assumes "128 \<le> unat b0" and "128 \<le> unat b1" and "128 \<le> unat b2"
  shows "\<exists>bits r. readLongVarint (Reader [b0, b1, b2]) = (Inr bits, r) \<and> r_pos r = 4 \<and> r_len r = 3"
proof -
  let ?r = "Reader [b0, b1, b2]"
  have p: "\<not> lt128 (peek ?r 0)" "\<not> lt128 (peek ?r 1)" "\<not> lt128 (peek ?r 2)"
    using assms by (simp_all add: peek_def js_get_def Reader_def word_less_nat_alt)
  have l: "r_len ?r = 3" "r_pos ?r = 0" by (simp_all add: Reader_def)
  have "\<exists>bits. rlv_lo True (Suc (Suc (Suc 0))) 0 zero ?r = (Inr (False, bits), advance 3 ?r)"
    using p l by (simp add: Let_def numeral_2_eq_2 numeral_3_eq_3)
  then obtain bits where "rlv_lo True 3 0 zero ?r = (Inr (False, bits), advance 3 ?r)"
    by (auto simp only: numeral_3_eq_3)
  then show ?thesis using l by (simp add: readLongVarint_def)
qed

theorem readLongVarint_truncated_witness:
  "\<exists>bits r. readLongVarint (Reader [128, 129, 255]) = (Inr bits, r) \<and> r_pos r = 4 \<and> r_len r = 3"
  by (rule readLongVarint_truncated) simp_all


end
