(* ===== verification/Wire.thy ===== *)
theory Wire
  imports Writer Reader
begin

unbundle bit_operations_syntax

text \<open>
  Writer and reader together. The locale \<open>wire_codec\<close> is the contract between an encoding
  operation of the writer and the decoding operation of the reader that belongs to it: the
  encoder appends a block of bytes and the decoder reads that block wherever it stands. Round
  trips of single values, of sequences of values and of packed repeated fields follow once
  for every pair; the interpretations below give them for the pairs of the source.
\<close>

text \<open>
  The loop of a packed repeated field, \<open>while (r.pos < c2) push(dec(r))\<close>, with fuel
  for its turns: a decoder that succeeds moves the position.
\<close>

fun packed_loop ::
  "(reader \<Rightarrow> (js_error + 'a) \<times> reader) \<Rightarrow> nat \<Rightarrow> nat \<Rightarrow> 'a list \<Rightarrow> reader \<Rightarrow>
   ((js_error + 'a list) \<times> reader) option" where
  "packed_loop dec 0 c2 acc r = (if r_pos r < c2 then None else Some (Inr acc, r))"
| "packed_loop dec (Suc f) c2 acc r =
     (if r_pos r < c2
      then (case dec r of
              (Inl e, r') \<Rightarrow> Some (Inl e, r')
            | (Inr v, r') \<Rightarrow> packed_loop dec f c2 (acc @ [v]) r')
      else Some (Inr acc, r))"

text \<open>The encoder's side: \<open>w.uint32(key).fork(); for (...) w.type(v); w.ldelim()\<close>.\<close>

definition packed_write :: "('v \<Rightarrow> writer \<Rightarrow> writer) \<Rightarrow> 'v list \<Rightarrow> writer \<Rightarrow> writer" where
  "packed_write enc vs w = ldelim (fold enc vs (fork w))"

locale wire_codec =
  fixes enc :: "'v \<Rightarrow> writer \<Rightarrow> writer"
    and dec :: "reader \<Rightarrow> (js_error + 'd) \<times> reader"
    and block :: "'v \<Rightarrow> byte list"
    and val :: "'v \<Rightarrow> 'd"
    and ok :: "'v \<Rightarrow> bool"
  assumes enc_block: "ok v \<Longrightarrow> appends (enc v) (block v)"
    and dec_block: "ok v \<Longrightarrow> ahead r (block v @ rest) \<Longrightarrow>
      dec r = (Inr (val v), advance (length (block v)) r)"
    and block_nonempty: "ok v \<Longrightarrow> block v \<noteq> []"
begin

lemma fold_block: "list_all ok vs \<Longrightarrow> appends (fold enc vs) (concat (map block vs))"
proof (induction vs)
  case Nil
  then show ?case by (simp add: appends_def)
next
  case (Cons v vs)
  then have "appends (fold enc vs \<circ> enc v) (block v @ concat (map block vs))"
    by (intro appends_comp enc_block) simp_all
  then show ?case by (simp add: comp_def)
qed

lemma roundtrip:
  assumes "ok v"
  shows "dec (Reader (fst (finish (enc v Writer)))) =
    (Inr (val v), advance (length (block v)) (Reader (block v)))"
proof -
  have "wf_writer (enc v Writer)" "w_bytes (enc v Writer) = block v"
    using enc_block[OF assms]
    by (auto simp: appends_def Writer_def wf_writer_def wf_queue_def w_bytes_def ops_bytes_def)
  then have "fst (finish (enc v Writer)) = block v" by (simp add: finish_bytes)
  moreover have "ahead (Reader (block v)) (block v @ [])" by (simp add: ahead_Reader)
  note dec_block[OF assms this]
  ultimately show ?thesis by simp
qed

lemma packed_loop_blocks:
  "list_all ok vs \<Longrightarrow> ahead r (concat (map block vs) @ rest) \<Longrightarrow>
   c2 = r_pos r + length (concat (map block vs)) \<Longrightarrow> length (concat (map block vs)) \<le> f \<Longrightarrow>
   packed_loop dec f c2 acc r =
     Some (Inr (acc @ map val vs), advance (length (concat (map block vs))) r)"
proof (induction vs arbitrary: r acc f)
  case Nil
  then show ?case by (cases f) simp_all
next
  case (Cons v vs)
  let ?r = "advance (length (block v)) r"
  have v: "ok v" "block v \<noteq> []" using Cons.prems(1) block_nonempty by simp_all
  then obtain f' where f: "f = Suc f'" using Cons.prems(4) by (cases f) auto
  have a: "ahead r (block v @ concat (map block vs) @ rest)" using Cons.prems(2) by simp
  then have "ahead ?r (concat (map block vs) @ rest)" by (rule ahead_advance) simp
  moreover have "length (concat (map block vs)) \<le> f'"
    using Cons.prems(4) v(2) f by (cases "block v") auto
  ultimately have "packed_loop dec f' c2 (acc @ [val v]) ?r =
      Some (Inr ((acc @ [val v]) @ map val vs), advance (length (concat (map block vs))) ?r)"
    using Cons.prems by (intro Cons.IH) auto
  then show ?case
    using f v dec_block[OF v(1) a] Cons.prems(3) by simp
qed

lemma packed_block:
  assumes "list_all ok vs" and "length (concat (map block vs)) < 2 ^ 32"
  shows "appends (packed_write enc vs) (varint (length (concat (map block vs))) @ concat (map block vs))"
  using appends_delimited[OF fold_block[OF assms(1)] assms(2)]
  by (simp add: packed_write_def[abs_def] comp_def)

end

section \<open>Interpretations\<close>

lemma sint_of_mod64:
  assumes "- (2 ^ 31) \<le> v" "v < 2 ^ 31"
  shows "sint (word_of_nat (nat (v mod 2 ^ 64)) :: u32) = v"
proof -
  have "(word_of_nat (nat (v mod 2 ^ 64)) :: u32) = word_of_int (v mod 2 ^ 64)" by simp
  also have "\<dots> = word_of_int v"
    by (simp add: word_of_int_eq_iff flip: take_bit_eq_mod) (simp add: take_bit_eq_mod mod_mod_cancel)
  finally have "sint (word_of_nat (nat (v mod 2 ^ 64)) :: u32) = signed_take_bit 31 v"
    by (simp add: sint_sbintrunc')
  then show ?thesis using assms by (simp add: signed_take_bit_int_eq_self)
qed

definition int32_ok :: "int \<Rightarrow> bool" where
  "int32_ok v \<longleftrightarrow> - (2 ^ 31) \<le> v \<and> v < 2 ^ 31"

lemma read_int32_varint:
  assumes "int32_ok v" and a: "ahead r (varint (nat (v mod 2 ^ 64)) @ rest)"
  shows "read_int32 r = (Inr v, advance (length (varint (nat (v mod 2 ^ 64)))) r)"
proof (cases "v < 0")
  case True
  let ?n = "nat (v mod 2 ^ 64)"
  have "v mod 2 ^ 64 = v + 2 ^ 64"
    using True assms(1) by (intro int_mod_pos_eq[where q = "- 1"]) (auto simp: int32_ok_def)
  then have n: "2 ^ 35 \<le> ?n" "(128::nat) ^ 9 \<le> ?n" "?n < (128::nat) ^ Suc 9"
    using True assms(1) by (simp_all add: le_nat_iff nat_less_iff int32_ok_def)
  then have "varint_size ?n = 10" using varint_size_eq[of 9 ?n] by simp
  then have "read_uint32 r = (Inr (word_of_nat ?n), advance (length (varint ?n)) r)"
    using read_uint32_any[OF a] n(1) by (simp add: length_varint)
  then show ?thesis
    using sint_of_mod64[of v] assms(1) by (simp add: read_int32_def map_read_def int32_ok_def)
next
  case False
  let ?n = "nat (v mod 2 ^ 64)"
  have "v mod 2 ^ 64 = v" using False assms(1) by (simp add: int32_ok_def mod_pos_pos_trivial)
  then have "?n < 2 ^ 32" using False assms(1) by (simp add: int32_ok_def nat_less_iff)
  then have "read_uint32 r = (Inr (word_of_nat ?n), advance (length (varint ?n)) r)"
    using read_uint32_varint[OF a] by (simp add: length_varint)
  then show ?thesis
    using sint_of_mod64[of v] assms(1) by (simp add: read_int32_def map_read_def int32_ok_def)
qed

lemma zig32_inverse: "drop_bit 1 (zig32 u) XOR - (zig32 u AND 1) = u"
proof -
  have z: "bit (zig32 u) n \<longleftrightarrow> n < 32 \<and> ((0 < n \<and> bit u (n - 1)) \<noteq> bit u 31)" for n
    unfolding zig32_def bit_xor_iff bit_push_bit_iff bit_signed_drop_bit_iff
    by (auto simp: not_le dest: bit_imp_le_length)
  have "odd (uint (zig32 u)) \<longleftrightarrow> bit u 31"
    using z[of 0] bit_uint_iff[of "zig32 u" 0] by (simp add: bit_0)
  then have m: "- (zig32 u AND 1) = (if bit u 31 then - 1 else 0)"
    using odd_mask[of "zig32 u"] by auto
  show ?thesis
  proof (rule bit_word_eqI)
    fix n assume "n < LENGTH(32)"
    then have "n < 31 \<or> n = 31" by auto
    then show "bit (drop_bit 1 (zig32 u) XOR - (zig32 u AND 1)) n = bit u n"
      unfolding m by (auto simp: bit_xor_iff bit_drop_bit_eq z)
  qed
qed


lemma read_sint32_zig:
  assumes "ahead r (varint (unat (zig32 (to_uint32 v))) @ rest)" and "int32_ok v"
  shows "read_sint32 r = (Inr v, advance (length (varint (unat (zig32 (to_uint32 v))))) r)"
proof -
  have "sint (to_uint32 v) = v"
    using assms(2) by (simp add: to_uint32_def sint_sbintrunc' int32_ok_def signed_take_bit_int_eq_self)
  then show ?thesis
    using read_uint32_u32[OF assms(1)] zig32_inverse[of "to_uint32 v"]
    by (simp add: read_sint32_def map_read_def)
qed

lemma appends_uint32_word: "appends (write_uint32 (uint (w :: u32))) (varint (unat w))"
  using appends_uint32[of "uint w"] by (simp only: to_uint32_uint)

interpretation uint32: wire_codec "\<lambda>w. write_uint32 (uint w)" read_uint32 "\<lambda>w. varint (unat w)"
    "\<lambda>w. w" "\<lambda>w. True"
  by unfold_locales (rule appends_uint32_word, erule read_uint32_u32, rule varint_nonempty)

interpretation int32: wire_codec write_int32 read_int32 "\<lambda>v. varint (nat (v mod 2 ^ 64))"
    "\<lambda>v. v" int32_ok
  by unfold_locales
     (unfold int32_ok_def, erule conjE, erule (1) appends_int32, fold int32_ok_def,
      erule (1) read_int32_varint, rule varint_nonempty)

interpretation sint32: wire_codec write_sint32 read_sint32
    "\<lambda>v. varint (unat (zig32 (to_uint32 v)))" "\<lambda>v. v" int32_ok
  by unfold_locales (rule appends_sint32, erule (1) read_sint32_zig, rule varint_nonempty)

interpretation bool: wire_codec write_bool read_bool "\<lambda>b. varint (if b then 1 else 0)"
    "\<lambda>b. b" "\<lambda>b. True"
proof unfold_locales
  fix b r rest assume "ahead r (varint (if b then 1 else 0) @ rest)"
  then show "read_bool r = (Inr b, advance (length (varint (if b then 1 else 0))) r)"
    using read_uint32_varint[of r "if b then 1 else 0" rest]
    by (auto simp: read_bool_def map_read_def length_varint)
qed (rule appends_bool, rule varint_nonempty)

lemma readLongVarint_bits:
  "ahead r (varint (lb_nat b) @ rest) \<Longrightarrow>
   readLongVarint r = (Inr b, advance (length (varint (lb_nat b))) r)"
  using readLongVarint_varint[of r "lb_nat b" rest] lb_nat_lt[of b] lb_nat_of_nat[of "lb_nat b"]
  by (simp add: length_varint) (metis lb_nat_inject)

interpretation uint64: wire_codec write_uint64 "read_uint64 has_Long" "\<lambda>b. varint (lb_nat b)"
    "long_result has_Long True" "\<lambda>b. True" for has_Long
  by unfold_locales
     (rule appends_uint64, simp add: read_uint64_def map_read_def readLongVarint_bits, rule varint_nonempty)

interpretation int64: wire_codec write_int64 "read_int64 has_Long" "\<lambda>b. varint (lb_nat b)"
    "long_result has_Long False" "\<lambda>b. True" for has_Long
  by unfold_locales
     (simp add: write_int64_def appends_uint64, simp add: read_int64_def map_read_def readLongVarint_bits,
      rule varint_nonempty)

interpretation sint64: wire_codec write_sint64 "read_sint64 has_Long"
    "\<lambda>b. varint (lb_nat (zzEncode b))" "long_result has_Long False" "\<lambda>b. True" for has_Long
  by unfold_locales
     (rule appends_sint64,
      simp add: read_sint64_def map_read_def readLongVarint_bits zzDecode_zzEncode, rule varint_nonempty)

lemma fixed32_bytes_le32: "fixed32_bytes v = le32 v"
  by (simp add: fixed32_bytes_def le32_def)

lemma length_le32 [simp]: "length (le32 v) = 4"
  by (simp add: le32_def)

lemma appends_fixed32_word: "appends (write_fixed32 (uint (w :: u32))) (le32 w)"
  using appends_fixed32[of "uint w"] by (simp only: to_uint32_uint fixed32_bytes_le32)

lemma le32_nonempty: "le32 v \<noteq> []"
  by (simp add: le32_def)

interpretation fixed32: wire_codec "\<lambda>w. write_fixed32 (uint w)" read_fixed32 le32 "\<lambda>w. w" "\<lambda>w. True"
  by unfold_locales (rule appends_fixed32_word, simp add: read_fixed_le32(1), rule le32_nonempty)

interpretation sfixed32: wire_codec write_sfixed32 read_sfixed32 "\<lambda>v. le32 (to_uint32 v)"
    "\<lambda>v. sint (to_uint32 v)" "\<lambda>v. True"
  by unfold_locales
     (simp add: write_sfixed32_def appends_fixed32 flip: fixed32_bytes_le32,
      simp add: read_fixed_le32(2), rule le32_nonempty)

lemma appends_fixed64_le: "appends (write_fixed64 b) (le32 (lo b) @ le32 (hi b))"
  using appends_fixed64[of b] by (simp only: fixed32_bytes_le32)

interpretation fixed64: wire_codec write_fixed64 "read_fixed64 has_Long"
    "\<lambda>b. le32 (lo b) @ le32 (hi b)" "long_result has_Long True" "\<lambda>b. True" for has_Long
  by unfold_locales
     (rule appends_fixed64_le, simp add: read_fixed64_def map_read_def readFixed64_le32,
      simp add: le32_nonempty)

interpretation sfixed64: wire_codec write_sfixed64 "read_sfixed64 has_Long"
    "\<lambda>b. le32 (lo b) @ le32 (hi b)" "long_result has_Long False" "\<lambda>b. True" for has_Long
  by unfold_locales
     (simp add: write_sfixed64_def appends_fixed64_le,
      simp add: read_sfixed64_def map_read_def readFixed64_le32, simp add: le32_nonempty)

lemma f32_le_bytes: "f32_le v = le_bytes 4 v" and f64_le_bytes: "f64_le w = le_bytes 8 w"
  by (simp_all add: f32_le_def f64_le_def le_bytes_def)

lemma length_le_bytes [simp]: "length (le_bytes k v) = k"
  by (simp add: le_bytes_def)

interpretation float: wire_codec write_float read_float "le_bytes 4" "\<lambda>v. v" "\<lambda>v. True"
  by unfold_locales
     (simp add: appends_float flip: f32_le_bytes, simp add: read_float_le, simp flip: length_0_conv)

interpretation double: wire_codec write_double read_double "le_bytes 8" "\<lambda>v. v" "\<lambda>v. True"
  by unfold_locales
     (simp add: appends_double flip: f64_le_bytes, simp add: read_double_le, simp flip: length_0_conv)

definition bytes_ok :: "byte list \<Rightarrow> bool" where
  "bytes_ok bs \<longleftrightarrow> length bs < 2 ^ 32"

interpretation bytes: wire_codec write_bytes read_bytes "\<lambda>bs. varint (length bs) @ bs" "\<lambda>bs. bs" bytes_ok
  by unfold_locales
     (unfold bytes_ok_def, erule appends_bytes, simp add: read_bytes_block, simp add: varint_nonempty)

definition string_ok :: "js_string \<Rightarrow> bool" where
  "string_ok s \<longleftrightarrow> length s < 16384"

lemma utf8_enc_bound: "length (utf8_enc s) \<le> 4 * length s"
  by (induction s rule: utf8_enc.induct) auto

lemma string_ok_size: "string_ok s \<Longrightarrow> length (utf8_enc s) < 2 ^ 32"
  using utf8_enc_bound[of s] by (simp add: string_ok_def)

interpretation text_codec: wire_codec write_string read_string
    "\<lambda>s. varint (length (utf8_enc s)) @ utf8_enc s" "\<lambda>s. s" string_ok
proof unfold_locales
  fix s r rest assume s: "string_ok s" and "ahead r ((varint (length (utf8_enc s)) @ utf8_enc s) @ rest)"
  then have "read_bytes r = (Inr (utf8_enc s), advance (length (varint (length (utf8_enc s))) + length (utf8_enc s)) r)"
    by (intro read_bytes_block[where rest = rest]) (simp_all add: string_ok_size[simplified])
  moreover have "utf8_read (utf8_enc s) 0 (length (utf8_enc s)) = s"
    using s utf8_read_dec[of "utf8_enc s"] by (simp add: string_ok_def utf8_dec_enc)
  ultimately show "read_string r =
      (Inr s, advance (length (varint (length (utf8_enc s)) @ utf8_enc s)) r)"
    by (simp add: read_string_def map_read_def)
qed (simp add: appends_string string_ok_size[simplified] utf8_length_enc, simp add: varint_nonempty)


section \<open>Properties\<close>

text \<open>32-bit values survive the wire: every unsigned word through \<open>uint32\<close> and
  \<open>fixed32\<close>, every signed 32-bit number through \<open>int32\<close> (ten bytes when negative, read
  back from their low 32 bits) and through the zig-zag \<open>sint32\<close>, wherever they stand in a
  message, with the reader left right behind them.\<close>

theorem int32_wire_roundtrip:
  assumes "- (2 ^ 31) \<le> v" and "v < 2 ^ 31" and "wf_writer w"
    and "ahead r (drop (length (w_bytes w)) (fst (finish (write_int32 v (write_sint32 v
           (write_fixed32 (uint u) (write_uint32 (uint u) w)))))) @ rest)"
  shows "\<exists>r1 r2 r3 r4. read_uint32 r = (Inr u, r1) \<and> read_fixed32 r1 = (Inr u, r2) \<and>
    read_sint32 r2 = (Inr v, r3) \<and> read_int32 r3 = (Inr v, r4) \<and> ahead r4 rest"
proof -
  have ok: "int32_ok v" using assms by (simp add: int32_ok_def)
  let ?bs = "varint (unat u) @ le32 u @ varint (unat (zig32 (to_uint32 v))) @ varint (nat (v mod 2 ^ 64))"
  have "appends (write_int32 v \<circ> (write_sint32 v \<circ> (write_fixed32 (uint u) \<circ> write_uint32 (uint u)))) 
      (((varint (unat u) @ le32 u) @ varint (unat (zig32 (to_uint32 v)))) @ varint (nat (v mod 2 ^ 64)))"
    by (intro appends_comp uint32.enc_block fixed32.enc_block sint32.enc_block int32.enc_block ok TrueI)
  then have "fst (finish (write_int32 v (write_sint32 v (write_fixed32 (uint u) (write_uint32 (uint u) w))))) =
      w_bytes w @ ?bs"
    using assms(3) by (simp add: appends_def finish_bytes)
  then have a: "ahead r (varint (unat u) @ le32 u @ varint (unat (zig32 (to_uint32 v))) @
      varint (nat (v mod 2 ^ 64)) @ rest)" using assms(4) by simp
  note a1 = ahead_advance[OF a refl]
  note a2 = ahead_advance[OF a1 refl]
  note a3 = ahead_advance[OF a2 refl]
  note a4 = ahead_advance[OF a3 refl]
  from uint32.dec_block[OF TrueI a] fixed32.dec_block[OF TrueI a1] sint32.dec_block[OF ok a2]
    int32.dec_block[OF ok a3] a4 show ?thesis by blast
qed

theorem int32_wire_roundtrip_witness:
  "\<exists>r1 r2 r3 r4. read_uint32 (Reader (fst (finish (write_int32 (- 5) (write_sint32 (- 5)
     (write_fixed32 (uint (300 :: u32)) (write_uint32 (uint (300 :: u32)) Writer))))))) = (Inr 300, r1) \<and>
   read_fixed32 r1 = (Inr 300, r2) \<and> read_sint32 r2 = (Inr (- 5), r3) \<and>
   read_int32 r3 = (Inr (- 5), r4) \<and> ahead r4 []"
proof -
  have "wf_writer Writer" by (simp add: wf_writer_def wf_queue_def Writer_def)
  moreover have "w_bytes Writer = []" by (simp add: w_bytes_def ops_bytes_def Writer_def)
  ultimately show ?thesis
    using int32_wire_roundtrip[of "- 5" Writer _ 300 "[]"] ahead_Reader by simp
qed

text \<open>64-bit values survive the wire: all \<open>2 ^ 64\<close> pairs of halves through
  \<open>uint64\<close>, \<open>int64\<close>, the zig-zag \<open>sint64\<close> and the two fixed encodings, with and
  without the Long library: the reader returns the Long, or the number, of the halves.\<close>

theorem int64_wire_roundtrip:
  "fst (read_uint64 L (Reader (fst (finish (write_uint64 b Writer))))) = Inr (long_result L True b) \<and>
   fst (read_int64 L (Reader (fst (finish (write_int64 b Writer))))) = Inr (long_result L False b) \<and>
   fst (read_sint64 L (Reader (fst (finish (write_sint64 b Writer))))) = Inr (long_result L False b) \<and>
   fst (read_fixed64 L (Reader (fst (finish (write_fixed64 b Writer))))) = Inr (long_result L True b) \<and>
   fst (read_sfixed64 L (Reader (fst (finish (write_sfixed64 b Writer))))) = Inr (long_result L False b)"
  by (simp only: uint64.roundtrip int64.roundtrip sint64.roundtrip fixed64.roundtrip sfixed64.roundtrip
      fst_conv simp_thms)

text \<open>Strings and byte arrays survive the wire: what \<open>string\<close> writes of any string of
  fewer than 16384 code units and what \<open>bytes\<close> writes of any array of fewer than
  \<open>2 ^ 32\<close> bytes is read back, with the position after the last byte.\<close>

theorem string_bytes_wire_roundtrip:
  assumes "length s < 16384" and "length bs < 2 ^ 32"
  shows "\<exists>r r'. read_string (Reader (fst (finish (write_string s Writer)))) = (Inr s, r) \<and> r_pos r = r_len r \<and>
    read_bytes (Reader (fst (finish (write_bytes bs Writer)))) = (Inr bs, r') \<and> r_pos r' = r_len r'"
  using text_codec.roundtrip[of s] bytes.roundtrip[of bs] assms
  by (simp add: string_ok_def bytes_ok_def) (simp add: Reader_def advance_def)

theorem string_bytes_wire_roundtrip_witness:
  "\<exists>r r'. read_string (Reader (fst (finish (write_string [0x20AC] Writer)))) = (Inr [0x20AC], r) \<and> r_pos r = r_len r \<and>
    read_bytes (Reader (fst (finish (write_bytes [0, 255] Writer)))) = (Inr [0, 255], r') \<and> r_pos r' = r_len r'"
  by (rule string_bytes_wire_roundtrip) simp_all

text \<open>A packed repeated field of zig-zag numbers is read back in order: the length the
  writer put in front by \<open>fork\<close> and \<open>ldelim\<close> is exactly that of the elements, and the
  reader's loop ends right behind the last one.\<close>

theorem packed_roundtrip:
  assumes "\<forall>v \<in> set vs. int32_ok v" and "length vs < 2 ^ 28"
  shows "\<exists>len r1 r2. read_uint32 (Reader (fst (finish (packed_write write_sint32 vs Writer)))) = (Inr len, r1) \<and>
    packed_loop read_sint32 (unat len) (r_pos r1 + unat len) [] r1 = Some (Inr vs, r2) \<and> r_pos r2 = r_len r2"
proof -
  let ?blk = "\<lambda>v. varint (unat (zig32 (to_uint32 v)))"
  let ?bs = "concat (map ?blk vs)"
  have ok: "list_all int32_ok vs" using assms(1) by (simp add: list_all_iff)
  have "length (?blk v) \<le> 5" for v
    using varint_size_le[of "unat (zig32 (to_uint32 v))" 4] unat_u32_lt[of "zig32 (to_uint32 v)"]
    by (simp add: length_varint)
  then have "length ?bs \<le> 5 * length vs" by (induction vs) (auto intro: add_mono)
  then have l: "length ?bs < 2 ^ 32" using assms(2) by simp
  have "appends (packed_write write_sint32 vs) (varint (length ?bs) @ ?bs)"
    by (rule sint32.packed_block[OF ok l])
  then have "fst (finish (packed_write write_sint32 vs Writer)) = varint (length ?bs) @ ?bs"
    using finish_bytes[of "packed_write write_sint32 vs Writer"]
    by (simp add: appends_def wf_writer_def wf_queue_def Writer_def) (simp add: w_bytes_def ops_bytes_def)
  then have a: "ahead (Reader (fst (finish (packed_write write_sint32 vs Writer)))) (varint (length ?bs) @ ?bs)"
    by (simp add: ahead_Reader)
  note r1 = read_uint32_varint[OF a l]
  have "ahead (advance (length (varint (length ?bs))) (Reader (fst (finish (packed_write write_sint32 vs Writer)))))
      (?bs @ [])" using ahead_advance[OF a refl] by simp
  note p = sint32.packed_loop_blocks[OF ok this refl order_refl, of "[]"]
  have "unat (word_of_nat (length ?bs) :: u32) = length ?bs" using l by (simp add: unat_of_nat)
  then show ?thesis using r1 p ahead_len[OF a] by (simp add: length_varint)
qed

theorem packed_roundtrip_witness:
  "\<exists>len r1 r2. read_uint32 (Reader (fst (finish (packed_write write_sint32 [3, - 200] Writer)))) = (Inr len, r1) \<and>
    packed_loop read_sint32 (unat len) (r_pos r1 + unat len) [] r1 = Some (Inr [3, - 200], r2) \<and> r_pos r2 = r_len r2"
  by (rule packed_roundtrip) (simp_all add: int32_ok_def)

end
