(* ===== verification/Codec.thy ===== *)
theory Codec
  imports Wire
begin

unbundle bit_operations_syntax

text \<open>
  The message codec of protobuf.js: the tables of \<open>types\<close>, and the meaning of the code
  that \<open>encoder\<close> and \<open>decoder\<close> generate for a message type.

  A message of a type is the list of its fields' own properties, in the order of the type's
  \<open>fieldsArray\<close> (\<open>None\<close>: not set); a property the type does not declare is never
  looked at by the generated code. A value the generated code would coerce (a number where
  bytes are due) is outside the model.
\<close>

section \<open>The tables\<close>

definition types_s :: "string list" where
  "types_s = [''double'', ''float'', ''int32'', ''uint32'', ''sint32'', ''fixed32'', ''sfixed32'',
     ''int64'', ''uint64'', ''sint64'', ''fixed64'', ''sfixed64'', ''bool'', ''string'', ''bytes'']"

text \<open>An index past the table gives the property name \<open>undefined\<close>.\<close>

definition bake :: "'a list \<Rightarrow> nat \<Rightarrow> string \<Rightarrow> 'a option" where
  "bake values offset =
     map_of (rev (map (\<lambda>i. (case js_get types_s (i + offset) of None \<Rightarrow> ''undefined'' | Some s \<Rightarrow> s,
                             values ! i)) [0..<length values]))"

definition types_basic :: "string \<Rightarrow> nat option" where
  "types_basic = bake [1, 5, 0, 0, 0, 5, 5, 0, 0, 0, 1, 1, 0, 2, 2] 0"

definition types_long :: "string \<Rightarrow> nat option" where
  "types_long = bake [0, 0, 0, 1, 1] 7"

definition types_mapKey :: "string \<Rightarrow> nat option" where
  "types_mapKey = bake [0, 0, 0, 5, 5, 0, 0, 0, 1, 1, 0, 2] 2"

definition types_packed :: "string \<Rightarrow> nat option" where
  "types_packed = bake [1, 5, 0, 0, 0, 5, 5, 0, 0, 0, 1, 1, 0] 0"

section \<open>Values, fields and types\<close>

datatype val =
    VInt int
  | VLong js_long
  | VFloat u32
  | VDouble u64
  | VBool bool
  | VString js_string
  | VBytes "byte list"
  | VMsg "val option list"
  | VList "val list"
  | VMap "(js_string \<times> val) list"

text \<open>\<open>types.defaults\<close>; \<open>Some None\<close> is the \<open>null\<close> of messages.\<close>

definition types_defaults :: "string \<Rightarrow> val option option" where
  "types_defaults = bake [Some (VDouble 0), Some (VFloat 0), Some (VInt 0), Some (VInt 0),
     Some (VInt 0), Some (VInt 0), Some (VInt 0), Some (VInt 0), Some (VInt 0), Some (VInt 0),
     Some (VInt 0), Some (VInt 0), Some (VBool False), Some (VString []), Some (VBytes []), None] 0"

text \<open>
  What a field's type resolves to: nothing for a basic type, a message type, which is given by its
  address (\<open>Reflect\<close>), or an enum.
\<close>

datatype resolved = Basic | MessageType nat | EnumType

record field =
  f_name :: string
  f_id :: nat
  f_type :: string
  f_required :: bool
  f_repeated :: bool
  f_keyType :: "string option"
  f_packed :: bool
  f_resolvedType :: resolved
  f_defaultValue :: "val option"

record mtype =
  mt_name :: string
  mt_fieldsArray :: "field list"
  mt_group :: bool

type_synonym schema = "nat \<Rightarrow> mtype option"

text \<open>\<open>field.resolvedType instanceof Enum ? "int32" : field.type\<close>\<close>

definition codec_type :: "field \<Rightarrow> string" where
  "codec_type f = (if f_resolvedType f = EnumType then ''int32'' else f_type f)"

section \<open>Objects used as maps\<close>

text \<open>
  The own properties of a plain object in the order of \<open>Object.keys\<close>: array indices first,
  in ascending order, then the other names in the order in which they were added.
\<close>

definition digit :: "u16 \<Rightarrow> nat option" where
  "digit c = (if 48 \<le> c \<and> c \<le> 57 then Some (unat c - 48) else None)"

fun digits :: "nat \<Rightarrow> js_string \<Rightarrow> nat option" where
  "digits n [] = Some n"
| "digits n (c # cs) = (case digit c of None \<Rightarrow> None | Some d \<Rightarrow> digits (10 * n + d) cs)"

definition array_index :: "js_string \<Rightarrow> nat option" where
  "array_index k =
     (case k of
        [] \<Rightarrow> None
      | c # cs \<Rightarrow>
          if c = 48 \<and> cs \<noteq> [] then None
          else (case digits 0 k of
                  None \<Rightarrow> None
                | Some n \<Rightarrow> if n < 2 ^ 32 - 1 then Some n else None))"

definition key_before :: "js_string \<Rightarrow> js_string \<Rightarrow> bool" where
  "key_before k k' =
     (case (array_index k, array_index k') of
        (Some n, Some m) \<Rightarrow> n < m
      | (Some n, None) \<Rightarrow> True
      | (None, _) \<Rightarrow> False)"

fun obj_insert :: "js_string \<Rightarrow> 'v \<Rightarrow> (js_string \<times> 'v) list \<Rightarrow> (js_string \<times> 'v) list" where
  "obj_insert k v [] = [(k, v)]"
| "obj_insert k v ((k', v') # m) =
     (if key_before k k' then (k, v) # (k', v') # m else (k', v') # obj_insert k v m)"

definition obj_set :: "js_string \<Rightarrow> 'v \<Rightarrow> (js_string \<times> 'v) list \<Rightarrow> (js_string \<times> 'v) list" where
  "obj_set k v m =
     (if k \<in> fst ` set m then map (\<lambda>(k', v'). (k', if k' = k then v else v')) m
      else obj_insert k v m)"

section \<open>The methods of the writer and the reader, by name\<close>

datatype 'a outcome = Done 'a | Thrown js_error | Outside

primrec bind_outcome :: "'a outcome \<Rightarrow> ('a \<Rightarrow> 'b outcome) \<Rightarrow> 'b outcome" where
  "bind_outcome (Done x) f = f x"
| "bind_outcome (Thrown e) f = Thrown e"
| "bind_outcome Outside f = Outside"

fun fold_outcome :: "('v \<Rightarrow> 'a \<Rightarrow> 'a outcome) \<Rightarrow> 'v list \<Rightarrow> 'a \<Rightarrow> 'a outcome" where
  "fold_outcome f [] w = Done w"
| "fold_outcome f (x # xs) w = bind_outcome (f x w) (fold_outcome f xs)"

text \<open>The halves \<open>LongBits.from\<close> makes of a number or of a Long.\<close>

fun long_of_val :: "val \<Rightarrow> long_bits option" where
  "long_of_val (VInt n) = Some (fromNumber n)"
| "long_of_val (VLong l) =
     Some (if low l \<noteq> 0 \<or> high l \<noteq> 0 then LongBits (to_uint32 (low l)) (to_uint32 (high l)) else zero)"
| "long_of_val _ = None"

definition write_long :: "(long_bits \<Rightarrow> writer \<Rightarrow> writer) \<Rightarrow> val \<Rightarrow> writer \<Rightarrow> writer outcome" where
  "write_long wr v w = (case long_of_val v of None \<Rightarrow> Outside | Some b \<Rightarrow> Done (wr b w))"

definition write_int :: "(int \<Rightarrow> writer \<Rightarrow> writer) \<Rightarrow> val \<Rightarrow> writer \<Rightarrow> writer outcome" where
  "write_int wr v w = (case v of VInt n \<Rightarrow> Done (wr n w) | _ \<Rightarrow> Outside)"

text \<open>\<open>w[type](value)\<close>\<close>

definition write_method :: "string \<Rightarrow> val \<Rightarrow> writer \<Rightarrow> writer outcome" where
  "write_method type v w =
     (if type = ''double'' then (case v of VDouble x \<Rightarrow> Done (write_double x w) | _ \<Rightarrow> Outside)
      else if type = ''float'' then (case v of VFloat x \<Rightarrow> Done (write_float x w) | _ \<Rightarrow> Outside)
      else if type = ''int32'' then write_int write_int32 v w
      else if type = ''uint32'' then write_int write_uint32 v w
      else if type = ''sint32'' then write_int write_sint32 v w
      else if type = ''fixed32'' then write_int write_fixed32 v w
      else if type = ''sfixed32'' then write_int write_sfixed32 v w
      else if type = ''int64'' then write_long write_int64 v w
      else if type = ''uint64'' then write_long write_uint64 v w
      else if type = ''sint64'' then write_long write_sint64 v w
      else if type = ''fixed64'' then write_long write_fixed64 v w
      else if type = ''sfixed64'' then write_long write_sfixed64 v w
      else if type = ''bool'' then (case v of VBool b \<Rightarrow> Done (write_bool b w) | _ \<Rightarrow> Outside)
      else if type = ''string'' then (case v of VString s \<Rightarrow> Done (write_string s w) | _ \<Rightarrow> Outside)
      else if type = ''bytes'' then (case v of VBytes b \<Rightarrow> Done (write_bytes b w) | _ \<Rightarrow> Outside)
      else Outside)"

primrec val_of_long :: "long_val \<Rightarrow> val" where
  "val_of_long (LongV l) = VLong l"
| "val_of_long (NumV n) = VInt n"

text \<open>\<open>r[type]()\<close>\<close>

definition read_method :: "bool \<Rightarrow> string \<Rightarrow> reader \<Rightarrow> (js_error + val) \<times> reader" where
  "read_method has_Long type r =
     (if type = ''double'' then map_read VDouble (read_double r)
      else if type = ''float'' then map_read VFloat (read_float r)
      else if type = ''int32'' then map_read VInt (read_int32 r)
      else if type = ''uint32'' then map_read (\<lambda>u. VInt (uint u)) (read_uint32 r)
      else if type = ''sint32'' then map_read VInt (read_sint32 r)
      else if type = ''fixed32'' then map_read (\<lambda>u. VInt (uint u)) (read_fixed32 r)
      else if type = ''sfixed32'' then map_read VInt (read_sfixed32 r)
      else if type = ''int64'' then map_read val_of_long (read_int64 has_Long r)
      else if type = ''uint64'' then map_read val_of_long (read_uint64 has_Long r)
      else if type = ''sint64'' then map_read val_of_long (read_sint64 has_Long r)
      else if type = ''fixed64'' then map_read val_of_long (read_fixed64 has_Long r)
      else if type = ''sfixed64'' then map_read val_of_long (read_sfixed64 has_Long r)
      else if type = ''bool'' then map_read VBool (read_bool r)
      else if type = ''string'' then map_read VString (read_string r)
      else if type = ''bytes'' then map_read VBytes (read_bytes r)
      else (Inl (TypeError ''not a function''), r))"

section \<open>The encoder\<close>

text \<open>\<open>(id << 3 | wireType) >>> 0\<close>\<close>

definition field_key :: "field \<Rightarrow> nat \<Rightarrow> int" where
  "field_key f wt = uint (push_bit 3 (word_of_nat (f_id f) :: u32) OR word_of_nat wt)"

text \<open>A call that is too deep for the engine's stack.\<close>

definition stack_overflow :: js_error where
  "stack_overflow = Error ''Maximum call stack size exceeded''"

text \<open>
  The generated source of \<open>fromObject\<close> has a syntax error when a \<open>switch\<close> has two defaults
  (\<open>Converter\<close>); then none of a type's functions is generated.
\<close>

definition syntax_error :: js_error where
  "syntax_error = Error ''SyntaxError: More than one default clause in switch statement''"

text \<open>
  \<open>genTypePartial\<close>: a nested message, as a group or length-delimited. \<open>rec\<close> is the
  \<open>encode\<close> of the nested type; \<open>null\<close> has no properties to read.
\<close>

definition encode_nested ::
  "schema \<Rightarrow> (mtype \<Rightarrow> val option list \<Rightarrow> writer \<Rightarrow> writer outcome) \<Rightarrow> field \<Rightarrow> val option \<Rightarrow> writer \<Rightarrow>
   writer outcome" where
  "encode_nested S rec f v w =
     (case f_resolvedType f of
        MessageType n \<Rightarrow>
          (case S n of
             None \<Rightarrow> Outside
           | Some T \<Rightarrow>
               if v = None \<and> mt_fieldsArray T \<noteq> []
               then Thrown (TypeError ''Cannot read property of null'')
               else
                 (case (case v of None \<Rightarrow> VMsg [] | Some x \<Rightarrow> x) of
                    VMsg slots \<Rightarrow>
                      if mt_group T
                      then bind_outcome (rec T slots (write_uint32 (field_key f 3) w))
                             (\<lambda>w'. Done (write_uint32 (field_key f 4) w'))
                      else bind_outcome (rec T slots (fork (write_uint32 (field_key f 2) w)))
                             (\<lambda>w'. Done (ldelim w'))
                  | _ \<Rightarrow> Outside))
      | _ \<Rightarrow> Outside)"

definition encode_value ::
  "schema \<Rightarrow> (mtype \<Rightarrow> val option list \<Rightarrow> writer \<Rightarrow> writer outcome) \<Rightarrow> field \<Rightarrow> val option \<Rightarrow> writer \<Rightarrow>
   writer outcome" where
  "encode_value S rec f v w =
     (case types_basic (codec_type f) of
        None \<Rightarrow> encode_nested S rec f v w
      | Some wireType \<Rightarrow>
          (case v of
             None \<Rightarrow> Outside
           | Some x \<Rightarrow> write_method (codec_type f) x (write_uint32 (field_key f wireType) w)))"

text \<open>One entry of a map field; only string keys are modelled, the keys of an object being strings.\<close>

definition encode_entry ::
  "schema \<Rightarrow> (mtype \<Rightarrow> val option list \<Rightarrow> writer \<Rightarrow> writer outcome) \<Rightarrow> field \<Rightarrow> js_string \<times> val \<Rightarrow> writer \<Rightarrow>
   writer outcome" where
  "encode_entry S rec f kv w =
     (if f_keyType f \<noteq> Some ''string'' then Outside
      else
        let w1 = write_string (fst kv) (write_uint32 (int (8 + the (types_mapKey ''string'')))
                   (fork (write_uint32 (field_key f 2) w)))
        in case types_basic (codec_type f) of
             None \<Rightarrow>
               (case f_resolvedType f of
                  MessageType n \<Rightarrow>
                    (case (S n, snd kv) of
                       (Some T, VMsg slots) \<Rightarrow>
                         bind_outcome (rec T slots (fork (write_uint32 18 w1)))
                           (\<lambda>w'. Done (ldelim (ldelim w')))
                     | _ \<Rightarrow> Outside)
                | _ \<Rightarrow> Outside)
           | Some wireType \<Rightarrow>
               bind_outcome (write_method (codec_type f) (snd kv) (write_uint32 (int (16 + wireType)) w1))
                 (\<lambda>w'. Done (ldelim w')))"

definition encode_field ::
  "schema \<Rightarrow> (mtype \<Rightarrow> val option list \<Rightarrow> writer \<Rightarrow> writer outcome) \<Rightarrow> field \<times> val option \<Rightarrow> writer \<Rightarrow>
   writer outcome" where
  "encode_field S rec fs w =
     (let f = fst fs; slot = snd fs
      in if f_keyType f \<noteq> None then
           (case slot of
              None \<Rightarrow> Done w
            | Some (VMap m) \<Rightarrow> fold_outcome (encode_entry S rec f) m w
            | Some _ \<Rightarrow> Outside)
         else if f_repeated f then
           (case slot of
              None \<Rightarrow> Done w
            | Some (VList vs) \<Rightarrow>
                if vs = [] then Done w
                else if f_packed f \<and> types_packed (codec_type f) \<noteq> None then
                  bind_outcome
                    (fold_outcome (write_method (codec_type f)) vs (fork (write_uint32 (field_key f 2) w)))
                    (\<lambda>w'. Done (ldelim w'))
                else fold_outcome (\<lambda>v. encode_value S rec f (Some v)) vs w
            | Some _ \<Rightarrow> Outside)
         else if \<not> f_required f \<and> slot = None then Done w
         else encode_value S rec f (case slot of None \<Rightarrow> f_defaultValue f | Some v \<Rightarrow> Some v) w)"

text \<open>
  The generated \<open>encode\<close>: the fields in the order of their ids. The first argument is the
  depth of calls the stack has room for.
\<close>

fun encode :: "nat \<Rightarrow> schema \<Rightarrow> mtype \<Rightarrow> val option list \<Rightarrow> writer \<Rightarrow> writer outcome" where
  "encode 0 S T slots w = Thrown stack_overflow"
| "encode (Suc d) S T slots w =
     fold_outcome (encode_field S (encode d S))
       (sort_key (\<lambda>(f, _). f_id f) (zip (mt_fieldsArray T) slots)) w"

definition encodeDelimited :: "nat \<Rightarrow> schema \<Rightarrow> mtype \<Rightarrow> val option list \<Rightarrow> writer option \<Rightarrow> writer outcome" where
  "encodeDelimited d S T slots writer =
     bind_outcome
       (encode d S T slots
          (case writer of
             None \<Rightarrow> writer_create
           | Some w \<Rightarrow> if w_len w \<noteq> 0 then fork w else w))
       (\<lambda>w. Done (ldelim w))"

section \<open>The decoder\<close>

text \<open>
  A result of the decoder; \<open>None\<close> is a loop that has used up the turns it was given, which
  never happens (\<open>decode_total\<close> below).
\<close>

type_synonym 'a dec = "((js_error + 'a) \<times> reader) option"

definition bind_dec :: "'a dec \<Rightarrow> ('a \<Rightarrow> reader \<Rightarrow> 'b dec) \<Rightarrow> 'b dec" where
  "bind_dec p f =
     (case p of
        None \<Rightarrow> None
      | Some (Inl e, r) \<Rightarrow> Some (Inl e, r)
      | Some (Inr x, r) \<Rightarrow> f x r)"

text \<open>The properties the generated constructor sets: empty objects and arrays.\<close>

definition ctor_slots :: "mtype \<Rightarrow> val option list" where
  "ctor_slots T =
     map (\<lambda>f. if f_keyType f \<noteq> None then Some (VMap [])
              else if f_repeated f then Some (VList []) else None) (mt_fieldsArray T)"

text \<open>
  \<open>types[i].decode(r)\<close> of a group, \<open>types[i].decode(r, r.uint32())\<close> otherwise;
  \<open>rec\<close> is the \<open>decode\<close> of the nested type.
\<close>

definition decode_nested ::
  "schema \<Rightarrow> (mtype \<Rightarrow> nat option \<Rightarrow> reader \<Rightarrow> val option list dec) \<Rightarrow> bool \<Rightarrow> field \<Rightarrow> reader \<Rightarrow> val dec" where
  "decode_nested S rec group_ok f r =
     (case f_resolvedType f of
        MessageType n \<Rightarrow>
          (case S n of
             None \<Rightarrow> Some (Inl (TypeError ''no such type''), r)
           | Some T \<Rightarrow>
               if mt_group T \<and> group_ok
               then bind_dec (rec T None r) (\<lambda>slots r'. Some (Inr (VMsg slots), r'))
               else bind_dec (Some (read_uint32 r))
                      (\<lambda>len r1. bind_dec (rec T (Some (unat len)) r1)
                        (\<lambda>slots r'. Some (Inr (VMsg slots), r'))))
      | _ \<Rightarrow> Some (Inl (TypeError ''no such type''), r))"

definition decode_value ::
  "bool \<Rightarrow> schema \<Rightarrow> (mtype \<Rightarrow> nat option \<Rightarrow> reader \<Rightarrow> val option list dec) \<Rightarrow> bool \<Rightarrow> field \<Rightarrow> reader \<Rightarrow> val dec" where
  "decode_value has_Long S rec group_ok f r =
     (case types_basic (codec_type f) of
        None \<Rightarrow> decode_nested S rec group_ok f r
      | Some wireType \<Rightarrow> Some (read_method has_Long (codec_type f) r))"

text \<open>
  The property name a key becomes. \<open>Number.prototype.toString\<close> gives the fewest digits that
  still read back as the number, filled up with zeros: the largest power of ten one of whose
  multiples rounds to it. A Long becomes its hash.
\<close>

fun decimal :: "nat \<Rightarrow> js_string" where
  "decimal n = (if n < 10 then [word_of_nat (48 + n)] else decimal (n div 10) @ [word_of_nat (48 + n mod 10)])"

declare decimal.simps [simp del]

definition round_to :: "nat \<Rightarrow> nat \<Rightarrow> nat" where
  "round_to n p = (n + 10 ^ p div 2) div 10 ^ p * 10 ^ p"

definition number_string :: "int \<Rightarrow> js_string" where
  "number_string v =
     (let n = nat \<bar>v\<bar>;
          digits = (case find (\<lambda>p. 0 < round_to n p \<and> to_double (int (round_to n p)) = int n) (rev [0..<21]) of
                      None \<Rightarrow> n
                    | Some p \<Rightarrow> round_to n p)
      in (if v < 0 then [45] else []) @ decimal digits)"

definition longToHash :: "val \<Rightarrow> js_string" where
  "longToHash v = (case long_of_val v of None \<Rightarrow> zeroHash | Some b \<Rightarrow> toHash b)"

definition prop_name :: "val \<Rightarrow> js_string" where
  "prop_name k =
     (case k of
        VInt n \<Rightarrow> number_string n
      | VBool b \<Rightarrow> if b then [116, 114, 117, 101] else [102, 97, 108, 115, 101]
      | VString s \<Rightarrow> s
      | _ \<Rightarrow> longToHash k)"

definition map_of_slot :: "val option \<Rightarrow> (js_string \<times> val) list" where
  "map_of_slot slot = (case slot of Some (VMap m) \<Rightarrow> m | _ \<Rightarrow> [])"

definition list_of_slot :: "val option \<Rightarrow> val list" where
  "list_of_slot slot = (case slot of Some (VList vs) \<Rightarrow> vs | _ \<Rightarrow> [])"

text \<open>
  One case of the generated \<open>switch\<close>: the new value of the field's property. \<open>wt\<close> is the
  wire type of the key, which only a packable repeated field looks at.
\<close>

definition decode_field ::
  "bool \<Rightarrow> schema \<Rightarrow> (mtype \<Rightarrow> nat option \<Rightarrow> reader \<Rightarrow> val option list dec) \<Rightarrow> field \<Rightarrow> u32 \<Rightarrow> val option \<Rightarrow>
   reader \<Rightarrow> val dec" where
  "decode_field has_Long S rec f wt slot r =
     (if f_keyType f \<noteq> None then
        bind_dec (Some (skip_varint r))
          (\<lambda>u r1. bind_dec (Some (read_method has_Long (the (f_keyType f)) (advance 1 r1)))
            (\<lambda>k r2. bind_dec (decode_value has_Long S rec False f (advance 1 r2))
              (\<lambda>v r3. Some (Inr (VMap (obj_set (prop_name k) v (map_of_slot slot))), r3))))
      else if f_repeated f then
        if types_packed (codec_type f) \<noteq> None \<and> wt = 2
        then bind_dec (Some (read_uint32 r))
               (\<lambda>len r1. bind_dec
                 (packed_loop (read_method has_Long (codec_type f)) (r_len r1 - r_pos r1 + 1)
                    (unat len + r_pos r1) (list_of_slot slot) r1)
                 (\<lambda>vs r2. Some (Inr (VList vs), r2)))
        else bind_dec (decode_value has_Long S rec True f r)
               (\<lambda>v r1. Some (Inr (VList (list_of_slot slot @ [v])), r1))
      else decode_value has_Long S rec True f r)"

text \<open>The index of the field that the \<open>switch\<close> selects.\<close>

fun find_field :: "field list \<Rightarrow> nat \<Rightarrow> nat \<Rightarrow> nat option" where
  "find_field [] i k = None"
| "find_field (f # fs) i k = (if f_id f = k then Some i else find_field fs (i + 1) k)"

text \<open>
  The loop \<open>while (r.pos < c)\<close>: one key and its field per turn. Inside a group the end
  key leaves the loop.
\<close>

fun decode_loop ::
  "bool \<Rightarrow> schema \<Rightarrow> (mtype \<Rightarrow> nat option \<Rightarrow> reader \<Rightarrow> val option list dec) \<Rightarrow> mtype \<Rightarrow> nat \<Rightarrow> nat \<Rightarrow>
   val option list \<Rightarrow> reader \<Rightarrow> val option list dec" where
  "decode_loop has_Long S rec T 0 c m r = (if r_pos r < c then None else Some (Inr m, r))"
| "decode_loop has_Long S rec T (Suc turns) c m r =
     (if r_pos r < c then
        (case read_uint32 r of
           (Inl e, r1) \<Rightarrow> Some (Inl e, r1)
         | (Inr t, r1) \<Rightarrow>
             if mt_group T \<and> t AND 7 = 4 then Some (Inr m, r1)
             else (case find_field (mt_fieldsArray T) 0 (unat (drop_bit 3 t)) of
                     None \<Rightarrow> bind_dec (Some (skipType (t AND 7) r1))
                               (\<lambda>u. decode_loop has_Long S rec T turns c m)
                   | Some i \<Rightarrow>
                       bind_dec (decode_field has_Long S rec (mt_fieldsArray T ! i) (t AND 7) (m ! i) r1)
                         (\<lambda>v. decode_loop has_Long S rec T turns c (m[i := Some v]))))
      else Some (Inr m, r))"

text \<open>The check for required fields, in the order of \<open>fieldsArray\<close>.\<close>

fun missing_required :: "(field \<times> val option) list \<Rightarrow> field option" where
  "missing_required [] = None"
| "missing_required ((f, slot) # fs) =
     (if f_required f \<and> slot = None then Some f else missing_required fs)"

definition missing :: "field \<Rightarrow> string" where
  "missing f = ''missing required '' @ [CHR 0x27] @ f_name f @ [CHR 0x27]"

definition check_required :: "mtype \<Rightarrow> val option list \<Rightarrow> reader \<Rightarrow> val option list dec" where
  "check_required T m r =
     (case missing_required (zip (mt_fieldsArray T) m) of
        Some f \<Rightarrow> Some (Inl (ProtocolError (missing f)), r)
      | None \<Rightarrow> Some (Inr m, r))"

fun decode :: "nat \<Rightarrow> bool \<Rightarrow> schema \<Rightarrow> mtype \<Rightarrow> nat option \<Rightarrow> reader \<Rightarrow> val option list dec" where
  "decode 0 has_Long S T l r = Some (Inl stack_overflow, r)"
| "decode (Suc d) has_Long S T l r =
     (let c = (case l of None \<Rightarrow> r_len r | Some n \<Rightarrow> r_pos r + n)
      in bind_dec (decode_loop has_Long S (decode d has_Long S) T (r_len r - r_pos r + 1) c (ctor_slots T) r)
           (check_required T))"

definition decodeDelimited :: "nat \<Rightarrow> bool \<Rightarrow> schema \<Rightarrow> mtype \<Rightarrow> reader \<Rightarrow> val option list dec" where
  "decodeDelimited d has_Long S T r =
     bind_dec (Some (read_uint32 r)) (\<lambda>len. decode d has_Long S T (Some (unat len)))"

section \<open>Decoding ends\<close>

text \<open>A reading operation that succeeds has had a byte to read and has moved forward.\<close>

definition same_buf :: "reader \<Rightarrow> reader \<Rightarrow> bool" where
  "same_buf r r' \<longleftrightarrow> r_buf r' = r_buf r \<and> r_len r' = r_len r"

definition progress :: "reader \<Rightarrow> (js_error + 'a) \<times> reader \<Rightarrow> bool" where
  "progress r p \<longleftrightarrow>
     (case p of (Inl e, r') \<Rightarrow> True
      | (Inr v, r') \<Rightarrow> r_pos r < r_len r \<and> r_pos r < r_pos r' \<and> same_buf r r')"

definition full :: "reader \<Rightarrow> bool" where
  "full r \<longleftrightarrow> r_len r = length (r_buf r)"

lemma same_buf_refl [simp]: "same_buf r r"
  by (simp add: same_buf_def)

lemma same_buf_advance [simp]: "same_buf r (advance k r') = same_buf r r'" "same_buf (advance k r) r' = same_buf r r'"
  by (simp_all add: same_buf_def)

lemma same_buf_trans: "same_buf r r' \<Longrightarrow> same_buf r' r'' \<Longrightarrow> same_buf r r''"
  by (simp add: same_buf_def)

lemma full_same: "full r \<Longrightarrow> same_buf r r' \<Longrightarrow> full r'"
  by (simp add: full_def same_buf_def)

lemma progress_map [simp]: "progress r (map_read f p) = progress r p"
  by (cases p; cases "fst p") (simp_all add: progress_def map_read_def)

lemma progress_uint32: "full r \<Longrightarrow> progress r (read_uint32 r)"
proof -
  assume "full r"
  obtain x r' where u: "read_uint32 r = (x, r')" by force
  show ?thesis
  proof (cases x)
    case (Inr v)
    then show ?thesis
      using read_uint32_pos[OF u[unfolded Inr]] \<open>full r\<close> u
      by (simp add: progress_def full_def same_buf_def)
  qed (simp add: u progress_def)
qed

lemma progress_fixed:
  "progress r (read_fixed32 r)" "progress r (read_sfixed32 r)" "progress r (readFixed64 r)"
  "progress r (read_float r)" "progress r (read_double r)"
  by (simp_all add: progress_def read_fixed32_def read_sfixed32_def readFixed64_def read_float_def
      read_double_def)

lemma progress_skip_varint: "progress r (skip_varint r)"
proof -
  obtain x r' where u: "skip_varint r = (x, r')" by force
  show ?thesis
  proof (cases x)
    case (Inr v)
    then show ?thesis
      using skip_varint_pos[OF u[unfolded Inr]] u by (simp add: progress_def same_buf_def)
  qed (simp add: u progress_def)
qed

lemma progress_bytes: "full r \<Longrightarrow> progress r (read_bytes r)"
proof -
  assume "full r"
  obtain x r' where u: "read_uint32 r = (x, r')" by force
  then show ?thesis
    using progress_uint32[OF \<open>full r\<close>]
    by (cases x) (simp_all add: read_bytes_def progress_def Let_def same_buf_def)
qed

lemma rlv_lo_pos:
  "rlv_lo chk n i bits r = (Inr v, r') \<Longrightarrow> r_pos r \<le> r_pos r' \<and> same_buf r r' \<and>
     (chk \<and> 0 < n \<longrightarrow> r_pos r < r_len r) \<and> (0 < n \<longrightarrow> r_pos r < r_pos r')"
proof (induction chk n i bits r rule: rlv_lo.induct)
  case (2 chk n i bits r)
  show ?case
  proof (cases "lt128 (peek r 0)")
    case True
    then show ?thesis using "2.prems" by (auto simp: Let_def split: if_splits)
  next
    case False
    then have c: "\<not> (chk \<and> r_pos r \<ge> r_len r)" using "2.prems" by auto
    then have "rlv_lo chk n (i + 1) (bits\<lparr>lo := lo bits OR push_bit (i * 7) (low7 (peek r 0))\<rparr>)
        (advance 1 r) = (Inr v, r')"
      using "2.prems" False c by (cases chk) (simp_all add: Let_def not_le)
    from "2.IH"[OF c refl False this] c show ?thesis by auto
  qed
qed auto

lemma rlv_hi_pos:
  "rlv_hi chk n i bits r = (Inr v, r') \<Longrightarrow> r_pos r \<le> r_pos r' \<and> same_buf r r'"
proof (induction chk n i bits r rule: rlv_hi.induct)
  case (2 chk n i bits r)
  show ?case
  proof (cases "lt128 (peek r 0)")
    case True
    then show ?thesis using "2.prems" by (auto simp: Let_def split: if_splits)
  next
    case False
    then have c: "\<not> (chk \<and> r_pos r \<ge> r_len r)" using "2.prems" by auto
    then have "rlv_hi chk n (i + 1) (bits\<lparr>hi := hi bits OR push_bit (i * 7 + 3) (low7 (peek r 0))\<rparr>)
        (advance 1 r) = (Inr v, r')"
      using "2.prems" False c by (cases chk) (simp_all add: Let_def not_le)
    from "2.IH"[OF c refl False this] show ?thesis by auto
  qed
qed auto

lemma rlv_high_pos:
  "rlv_high bits r = (Inr v, r') \<Longrightarrow> r_pos r \<le> r_pos r' \<and> same_buf r r'"
  using rlv_hi_pos[of "\<not> r_len r > r_pos r + 4" 5 0 bits r]
  by (auto simp: rlv_high_def bind_read_def split: prod.splits sum.splits if_splits)

lemma progress_long: "progress r (readLongVarint r)"
proof -
  obtain x r' where u: "readLongVarint r = (x, r')" by force
  show ?thesis
  proof (cases x)
    case (Inr v)
    note u = u[unfolded Inr]
    have "r_pos r < r_len r \<and> r_pos r < r_pos r' \<and> same_buf r r'"
    proof (cases "r_len r > r_pos r + 4")
      case True
      obtain y r1 where y: "rlv_lo False 4 0 zero r = (y, r1)" by force
      with u True obtain dn bits where d: "y = Inr (dn, bits)"
        by (auto simp: readLongVarint_def bind_read_def split: sum.splits)
      note p = rlv_lo_pos[OF y[unfolded d]]
      show ?thesis
        using u True y d p rlv_high_pos[of "rlv_fifth bits r1" "advance 1 r1" v r']
        by (auto simp: readLongVarint_def Let_def same_buf_def split: if_splits)
    next
      case False
      obtain y r1 where y: "rlv_lo True 3 0 zero r = (y, r1)" by force
      with u False obtain dn bits where d: "y = Inr (dn, bits)"
        by (auto simp: readLongVarint_def bind_read_def split: sum.splits)
      note p = rlv_lo_pos[OF y[unfolded d]]
      show ?thesis
        using u False y d p by (auto simp: readLongVarint_def Let_def same_buf_def split: if_splits)
    qed
    then show ?thesis using u by (simp add: progress_def \<open>x = Inr v\<close>)
  qed (simp add: u progress_def)
qed

lemmas progress_reads = progress_uint32 progress_fixed progress_bytes progress_long

lemma progress_method: "full r \<Longrightarrow> progress r (read_method has_Long type r)"
  by (simp add: read_method_def read_int32_def read_sint32_def read_bool_def read_int64_def
      read_uint64_def read_sint64_def read_fixed64_def read_sfixed64_def read_string_def progress_reads)
     (simp add: progress_def)


text \<open>A decoding step that returns, and never moves back when it succeeds.\<close>

definition returns :: "reader \<Rightarrow> 'a dec \<Rightarrow> bool" where
  "returns r p \<longleftrightarrow>
     (case p of None \<Rightarrow> False
      | Some (Inl e, r') \<Rightarrow> True
      | Some (Inr v, r') \<Rightarrow> r_pos r \<le> r_pos r' \<and> same_buf r r')"

lemma returns_error [simp]: "returns r (Some (Inl e, r'))"
  by (simp add: returns_def)

lemma returns_value [simp]: "returns r (Some (Inr v, r')) \<longleftrightarrow> r_pos r \<le> r_pos r' \<and> same_buf r r'"
  by (simp add: returns_def)

lemma progress_returns: "progress r p \<Longrightarrow> returns r (Some p)"
  by (cases p; cases "fst p") (simp_all add: progress_def)

lemma returns_bind:
  assumes "returns r p" and "\<And>v r'. p = Some (Inr v, r') \<Longrightarrow> same_buf r r' \<Longrightarrow> r_pos r \<le> r_pos r' \<Longrightarrow> returns r' (f v r')"
  shows "returns r (bind_dec p f)"
proof (cases p)
  case (Some xr)
  obtain x r' where xr: "xr = (x, r')" by force
  show ?thesis
  proof (cases x)
    case (Inr v)
    have q: "same_buf r r'" "r_pos r \<le> r_pos r'" using assms(1) Some xr Inr by simp_all
    then have "returns r' (f v r')" using assms(2) Some xr Inr by simp
    moreover have "bind_dec p f = f v r'" using Some xr Inr by (simp add: bind_dec_def)
    ultimately show ?thesis
      using q by (auto simp: returns_def same_buf_def split: option.splits prod.splits sum.splits)
  qed (simp add: Some xr bind_dec_def)
qed (use assms(1) in \<open>simp add: returns_def\<close>)

lemma packed_loop_returns:
  assumes dec: "\<And>r. full r \<Longrightarrow> progress r (dec r)"
  shows "full r \<Longrightarrow> r_len r - r_pos r + 1 \<le> n \<Longrightarrow> returns r (packed_loop dec n c acc r)"
proof (induction n arbitrary: acc r)
  case (Suc n)
  obtain x r' where x: "dec r = (x, r')" by force
  show ?case
  proof (cases x)
    case (Inr v)
    have p: "r_pos r < r_len r" "r_pos r < r_pos r'" "same_buf r r'"
      using dec[OF Suc.prems(1)] x Inr by (simp_all add: progress_def)
    then have "r_len r' - r_pos r' + 1 \<le> n" using Suc.prems(2) by (simp add: same_buf_def)
    then have "returns r' (packed_loop dec n c (acc @ [v]) r')"
      using p Suc.prems(1) by (intro Suc.IH) (auto intro: full_same)
    then show ?thesis
      using x Inr p by (auto simp: returns_def same_buf_def split: option.splits prod.splits sum.splits)
  qed (use x in simp)
qed simp

lemma skipType_returns: "full r \<Longrightarrow> r_pos r \<le> r_len r \<Longrightarrow> returns r (Some (skipType w r))"
  using skipType_pos[of r w]
  by (cases "skipType w r"; cases "fst (skipType w r)") (simp_all add: full_def pos_ok_def same_buf_def)

lemmas returns_uint32 = progress_returns[OF progress_uint32]
lemmas returns_skip_varint = progress_returns[OF progress_skip_varint]

lemmas returns_method = progress_returns[OF progress_method]

lemma returns_advance: "returns (advance k r) p \<Longrightarrow> returns r p"
  by (auto simp: returns_def split: option.splits prod.splits sum.splits)

text \<open>
  The contract of the nested \<open>decode\<close> that a generated decoder calls: on any buffer it
  returns, and a success does not move back.
\<close>

locale nested_decoder =
  fixes S :: schema
    and has_Long :: bool
    and rec :: "mtype \<Rightarrow> nat option \<Rightarrow> reader \<Rightarrow> val option list dec"
  assumes rec_returns: "full r \<Longrightarrow> returns r (rec T l r)"
begin

lemma nested_returns: "full r \<Longrightarrow> returns r (decode_nested S rec g f r)"
  by (auto simp: decode_nested_def split: resolved.splits option.splits
      intro!: returns_bind rec_returns returns_uint32 elim: full_same)

lemma value_returns: "full r \<Longrightarrow> returns r (decode_value has_Long S rec g f r)"
  by (auto simp: decode_value_def nested_returns split: option.splits
      intro!: progress_returns progress_method)

lemma field_returns: "full r \<Longrightarrow> returns r (decode_field has_Long S rec f wt slot r)"
proof -
  assume r: "full r"
  have m: "returns r (bind_dec (Some (skip_varint r))
          (\<lambda>u r1. bind_dec (Some (read_method has_Long (the (f_keyType f)) (advance 1 r1)))
            (\<lambda>k r2. bind_dec (decode_value has_Long S rec False f (advance 1 r2))
              (\<lambda>v r3. Some (Inr (VMap (obj_set (prop_name k) v (map_of_slot slot))), r3)))))"
    using r
    by (intro returns_bind returns_skip_varint returns_advance[OF returns_method]
          returns_advance[OF value_returns] returns_bind returns_advance[OF returns_bind])
       (auto elim!: full_same intro: same_buf_trans)
  have p: "returns r (bind_dec (Some (read_uint32 r))
               (\<lambda>len r1. bind_dec
                 (packed_loop (read_method has_Long (codec_type f)) (r_len r1 - r_pos r1 + 1)
                    (unat len + r_pos r1) (list_of_slot slot) r1)
                 (\<lambda>vs r2. Some (Inr (VList vs), r2))))"
    using r by (intro returns_bind returns_uint32 packed_loop_returns progress_method)
      (auto elim!: full_same)
  have v: "returns r (bind_dec (decode_value has_Long S rec True f r)
               (\<lambda>v r1. Some (Inr (VList (list_of_slot slot @ [v])), r1)))"
    using r by (intro returns_bind value_returns) auto
  show ?thesis
    using m p v value_returns[OF r] by (simp add: decode_field_def)
qed

lemma loop_returns:
  "full r \<Longrightarrow> r_len r - r_pos r + 1 \<le> n \<Longrightarrow> returns r (decode_loop has_Long S rec T n c m r)"
proof (induction n arbitrary: m r)
  case (Suc n)
  obtain x r1 where x: "read_uint32 r = (x, r1)" by force
  show ?case
  proof (cases x)
    case (Inr t)
    have p: "r_pos r < r_len r" "r_pos r < r_pos r1" "same_buf r r1" "full r1"
      using progress_uint32[OF Suc.prems(1)] x Inr Suc.prems(1) by (auto simp: progress_def elim: full_same)
    have le: "r_pos r1 \<le> r_len r1"
      using read_uint32_pos[OF x[unfolded Inr]] Suc.prems(1) by (simp add: full_def)
    have nx: "returns r' (decode_loop has_Long S rec T n c m' r')"
      if "same_buf r1 r'" "r_pos r1 \<le> r_pos r'" for m' r'
    proof (rule Suc.IH)
      show "full r'" using that(1) p(4) by (rule full_same[rotated])
      show "r_len r' - r_pos r' + 1 \<le> n"
        using Suc.prems(2) p(1-3) that by (simp add: same_buf_def)
    qed
    have "returns r1 (bind_dec (Some (skipType (t AND 7) r1)) (\<lambda>u. decode_loop has_Long S rec T n c m))"
      using p le nx by (intro returns_bind skipType_returns)
    moreover have "returns r1 (bind_dec (decode_field has_Long S rec f (t AND 7) slot r1)
        (\<lambda>v. decode_loop has_Long S rec T n c (m[i := Some v])))" for f slot i
      using p nx by (intro returns_bind field_returns)
    moreover have "returns r p" if "returns r1 p" for p :: "val option list dec"
      using that p by (auto simp: returns_def same_buf_def split: option.splits prod.splits sum.splits)
    ultimately show ?thesis
      using x Inr p by (auto split: option.splits)
  qed (use x in simp)
qed simp

end

lemma decode_returns: "full r \<Longrightarrow> returns r (decode d L S T l r)"
proof (induction d arbitrary: T l r)
  case (Suc d)
  have "nested_decoder (decode d L S)"
    by unfold_locales (rule Suc.IH)
  note loop = nested_decoder.loop_returns[OF this]
  have "returns r' (check_required T m r')" for m r'
    by (simp add: check_required_def split: option.splits)
  then show ?case
    unfolding decode.simps Let_def using Suc.prems by (intro returns_bind loop) simp_all
qed simp

interpretation decoder: nested_decoder S L "decode d L S" for S L d
  by unfold_locales (rule decode_returns)



text \<open>C7 The generated decoder returns on every buffer, for every schema, message type, length
  argument and stack depth: malformed lengths, endless groups, unknown fields and maps included,
  no loop runs more turns than there are bytes, and a success does not move back.\<close>

theorem decode_total:
  assumes "r_len r = length (r_buf r)"
  shows "\<exists>res r'. decode d has_Long S T l r = Some (res, r') \<and>
    (\<forall>m. res = Inr m \<longrightarrow> r_pos r \<le> r_pos r' \<and> r_buf r' = r_buf r \<and> r_len r' = r_len r)"
proof -
  have "returns r (decode d has_Long S T l r)"
    using assms by (intro decode_returns) (simp add: full_def)
  then show ?thesis
    by (auto simp: returns_def same_buf_def split: option.splits sum.splits)
qed

theorem decode_total_witness:
  "\<exists>res r'. decode 3 True (\<lambda>n. None) \<lparr>mt_name = ''Empty'', mt_fieldsArray = [], mt_group = False\<rparr> None (Reader [11, 255, 0]) = Some (res, r') \<and>
    (\<forall>m. res = Inr m \<longrightarrow> r_pos (Reader [11, 255, 0]) \<le> r_pos r' \<and>
       r_buf r' = r_buf (Reader [11, 255, 0]) \<and> r_len r' = r_len (Reader [11, 255, 0]))"
  by (rule decode_total) (simp add: Reader_def)

end
