(* ===== verification/Reflect.thy ===== *)
theory Reflect
  imports Codec
begin

text \<open>
  The reflection objects of protobuf.js: \<open>ReflectionObject\<close>, \<open>Namespace\<close>, \<open>Type\<close> with its
  fields and \<open>Service\<close> with its methods. Objects refer to each other (a namespace to its members,
  every object to its parent) and are changed in place, so they live in a store and are named by
  their address. The invariant of the store, \<open>wf_store\<close>, is that both directions agree.

  A property of \<open>Object.prototype\<close>, such as \<open>constructor\<close>, is found in every member table of
  the source; here a table has its own properties only. Left out: comments and file names, the
  cached arrays, which every change drops, oneofs, and \<open>root._handleAdd\<close> and
  \<open>root._handleRemove\<close>, which concern extension fields and the shorthand properties of a root.
\<close>

section \<open>Objects\<close>

datatype obj_class = CNamespace | CRoot | CType | CService | CEnum | CField | CMethod

datatype reserved = Range int int | Name string

record robj =
  o_class :: obj_class
  o_name :: string
  o_parent :: "nat option"
  o_options :: "(string \<times> val) list option"
  o_resolved :: bool
  o_nested :: "(string \<times> nat) list option"
  o_fields :: "(string \<times> nat) list"
  o_methods :: "(string \<times> nat) list"
  o_reserved :: "reserved list option"
  o_id :: nat
  o_extend :: "string option"

record store =
  objs :: "nat \<Rightarrow> robj"
  free :: nat

definition update :: "nat \<Rightarrow> (robj \<Rightarrow> robj) \<Rightarrow> store \<Rightarrow> store" where
  "update a f s = s\<lparr>objs := (objs s)(a := f (objs s a))\<rparr>"

definition ReflectionObject :: "obj_class \<Rightarrow> string \<Rightarrow> (string \<times> val) list option \<Rightarrow> robj" where
  "ReflectionObject c name options =
     \<lparr>o_class = c, o_name = name, o_parent = None, o_options = options, o_resolved = False,
      o_nested = None, o_fields = [], o_methods = [], o_reserved = None, o_id = 0, o_extend = None\<rparr>"

definition Namespace :: "string \<Rightarrow> (string \<times> val) list option \<Rightarrow> robj" where
  "Namespace name options = ReflectionObject CNamespace name options"

definition Type :: "string \<Rightarrow> (string \<times> val) list option \<Rightarrow> robj" where
  "Type name options = ReflectionObject CType name options"

definition Service :: "string \<Rightarrow> (string \<times> val) list option \<Rightarrow> robj" where
  "Service name options = ReflectionObject CService name options"

text \<open>\<open>new\<close>: the object at a fresh address.\<close>

definition alloc :: "robj \<Rightarrow> store \<Rightarrow> nat \<times> store" where
  "alloc ob s = (free s, s\<lparr>objs := (objs s)(free s := ob), free := free s + 1\<rparr>)"

text \<open>\<open>instanceof Namespace\<close>: types, services and the root are namespaces too.\<close>

definition is_namespace :: "robj \<Rightarrow> bool" where
  "is_namespace ob \<longleftrightarrow> o_class ob \<in> {CNamespace, CRoot, CType, CService}"

text \<open>A field of the declaring type; an extension field is a nested object.\<close>

definition own_field :: "robj \<Rightarrow> bool" where
  "own_field ob \<longleftrightarrow> o_class ob = CField \<and> o_extend ob = None"

definition valid_nested :: "robj \<Rightarrow> bool" where
  "valid_nested ob \<longleftrightarrow>
     (o_class ob = CField \<and> o_extend ob \<noteq> None) \<or> o_class ob = CType \<or> o_class ob = CEnum \<or>
     o_class ob = CService \<or> is_namespace ob"

text \<open>
  The getters follow the parents, for ever if they form a cycle. An operation that calls one of them
  on a cycle does not return; it ends with \<open>hang\<close>, which like the errors nothing catches.
\<close>

definition hang :: js_error where
  "hang = Error ''never returns''"

partial_function (option) obj_root :: "store \<Rightarrow> nat \<Rightarrow> nat option" where
  "obj_root s a = (case o_parent (objs s a) of None \<Rightarrow> Some a | Some p \<Rightarrow> obj_root s p)"

partial_function (option) path_names :: "store \<Rightarrow> nat \<Rightarrow> string list option" where
  "path_names s a =
     (case o_parent (objs s a) of
        None \<Rightarrow> Some [o_name (objs s a)]
      | Some p \<Rightarrow> Option.bind (path_names s p) (\<lambda>ns. Some (ns @ [o_name (objs s a)])))"

declare obj_root.simps [code] path_names.simps [code]

fun join_dots :: "string list \<Rightarrow> string" where
  "join_dots [] = []"
| "join_dots [x] = x"
| "join_dots (x # xs) = x @ CHR ''.'' # join_dots xs"

definition fullName :: "store \<Rightarrow> nat \<Rightarrow> string option" where
  "fullName s a = map_option join_dots (path_names s a)"

text \<open>\<open>resolve\<close>: only an object of a root is marked.\<close>

definition resolve :: "nat \<Rightarrow> store \<Rightarrow> store option" where
  "resolve a s =
     (if o_resolved (objs s a) then Some s
      else map_option
        (\<lambda>r. if o_class (objs s r) = CRoot then update a (\<lambda>ob. ob\<lparr>o_resolved := True\<rparr>) s else s)
        (obj_root s a))"

section \<open>Options\<close>

definition assoc_set :: "string \<Rightarrow> 'v \<Rightarrow> (string \<times> 'v) list \<Rightarrow> (string \<times> 'v) list" where
  "assoc_set k v m =
     (if k \<in> fst ` set m then map (\<lambda>(k', v'). (k', if k' = k then v else v')) m else m @ [(k, v)])"

definition assoc_del :: "string \<Rightarrow> (string \<times> 'v) list \<Rightarrow> (string \<times> 'v) list" where
  "assoc_del k m = filter (\<lambda>(k', v). k' \<noteq> k) m"

definition getOption :: "string \<Rightarrow> robj \<Rightarrow> val option" where
  "getOption name ob = (case o_options ob of None \<Rightarrow> None | Some m \<Rightarrow> map_of m name)"

definition setOption :: "string \<Rightarrow> val \<Rightarrow> bool \<Rightarrow> robj \<Rightarrow> robj" where
  "setOption name value ifNotSet ob =
     (if \<not> ifNotSet \<or> o_options ob = None \<or> getOption name ob = None
      then ob\<lparr>o_options := Some (assoc_set name value (case o_options ob of None \<Rightarrow> [] | Some m \<Rightarrow> m))\<rparr>
      else ob)"

definition setOptions :: "(string \<times> val) list option \<Rightarrow> bool \<Rightarrow> robj \<Rightarrow> robj" where
  "setOptions options ifNotSet ob =
     (case options of
        None \<Rightarrow> ob
      | Some m \<Rightarrow> fold (\<lambda>(k, v). setOption k v ifNotSet) m ob)"

section \<open>Members\<close>

definition nestedArray :: "robj \<Rightarrow> (string \<times> nat) list" where
  "nestedArray ob = (case o_nested ob of None \<Rightarrow> [] | Some m \<Rightarrow> m)"

text \<open>\<open>get\<close>, which \<open>Type\<close> and \<open>Service\<close> override.\<close>

definition namespace_get :: "robj \<Rightarrow> string \<Rightarrow> nat option" where
  "namespace_get ob name = (case o_nested ob of None \<Rightarrow> None | Some m \<Rightarrow> map_of m name)"

definition type_get :: "robj \<Rightarrow> string \<Rightarrow> nat option" where
  "type_get ob name =
     (case map_of (o_fields ob) name of
        Some a \<Rightarrow> Some a
      | None \<Rightarrow> (case o_nested ob of None \<Rightarrow> None | Some m \<Rightarrow> map_of m name))"

definition service_get :: "robj \<Rightarrow> string \<Rightarrow> nat option" where
  "service_get ob name =
     (case map_of (o_methods ob) name of Some a \<Rightarrow> Some a | None \<Rightarrow> namespace_get ob name)"

definition get :: "store \<Rightarrow> nat \<Rightarrow> string \<Rightarrow> nat option" where
  "get s this name =
     (let ob = objs s this
      in if o_class ob = CType then type_get ob name
         else if o_class ob = CService then service_get ob name
         else namespace_get ob name)"

definition isReservedId :: "reserved list option \<Rightarrow> int \<Rightarrow> bool" where
  "isReservedId rs i =
     (case rs of None \<Rightarrow> False
      | Some l \<Rightarrow> list_ex (\<lambda>x. case x of Range a b \<Rightarrow> a \<le> i \<and> b \<ge> i | Name n \<Rightarrow> False) l)"

definition isReservedName :: "reserved list option \<Rightarrow> string \<Rightarrow> bool" where
  "isReservedName rs n =
     (case rs of None \<Rightarrow> False | Some l \<Rightarrow> list_ex (\<lambda>x. x = Name n) l)"

text \<open>\<open>fieldsById\<close>: filled in the order of the fields, a second field of an id is an error.\<close>

fun collect_ids :: "store \<Rightarrow> (string \<times> nat) list \<Rightarrow> (nat \<Rightarrow> nat option) \<Rightarrow> js_error + (nat \<Rightarrow> nat option)" where
  "collect_ids s [] byId = Inr byId"
| "collect_ids s ((k, f) # fs) byId =
     (if byId (o_id (objs s f)) \<noteq> None then Inl (Error ''duplicate id'')
      else collect_ids s fs (byId(o_id (objs s f) \<mapsto> f)))"

definition fieldsById :: "store \<Rightarrow> nat \<Rightarrow> js_error + (nat \<Rightarrow> nat option)" where
  "fieldsById s this = collect_ids s (o_fields (objs s this)) Map.empty"

section \<open>Removing\<close>

type_synonym op_result = "(js_error + unit) \<times> store"

definition not_a_member :: js_error where
  "not_a_member = Error ''is not a member''"

definition unparent :: "nat \<Rightarrow> store \<Rightarrow> store" where
  "unparent ob s = update ob (\<lambda>x. x\<lparr>o_parent := None, o_resolved := False\<rparr>) s"

definition onRemove :: "nat \<Rightarrow> nat \<Rightarrow> store \<Rightarrow> op_result" where
  "onRemove ob parent s =
     (case obj_root s parent of None \<Rightarrow> (Inl hang, s) | Some r \<Rightarrow> (Inr (), unparent ob s))"

definition namespace_remove :: "nat \<Rightarrow> nat \<Rightarrow> store \<Rightarrow> op_result" where
  "namespace_remove this ob s =
     (if o_parent (objs s ob) \<noteq> Some this then (Inl not_a_member, s)
      else if o_nested (objs s this) = None
      then (Inl (TypeError ''Cannot convert undefined or null to object''), s)
      else
        let m = assoc_del (o_name (objs s ob)) (nestedArray (objs s this))
        in onRemove ob this (update this (\<lambda>x. x\<lparr>o_nested := (if m = [] then None else Some m)\<rparr>) s))"

definition type_remove :: "nat \<Rightarrow> nat \<Rightarrow> store \<Rightarrow> op_result" where
  "type_remove this ob s =
     (if own_field (objs s ob) then
        if map_of (o_fields (objs s this)) (o_name (objs s ob)) \<noteq> Some ob then (Inl not_a_member, s)
        else onRemove ob this (update ob (\<lambda>x. x\<lparr>o_parent := None\<rparr>)
               (update this (\<lambda>x. x\<lparr>o_fields := assoc_del (o_name (objs s ob)) (o_fields x)\<rparr>) s))
      else namespace_remove this ob s)"

definition service_remove :: "nat \<Rightarrow> nat \<Rightarrow> store \<Rightarrow> op_result" where
  "service_remove this ob s =
     (if o_class (objs s ob) = CMethod then
        if map_of (o_methods (objs s this)) (o_name (objs s ob)) \<noteq> Some ob then (Inl not_a_member, s)
        else (Inr (), update ob (\<lambda>x. x\<lparr>o_parent := None\<rparr>)
               (update this (\<lambda>x. x\<lparr>o_methods := assoc_del (o_name (objs s ob)) (o_methods x)\<rparr>) s))
      else namespace_remove this ob s)"

text \<open>The method a call finds on the object's class; the others have none.\<close>

definition remove :: "nat \<Rightarrow> nat \<Rightarrow> store \<Rightarrow> op_result" where
  "remove this ob s =
     (let c = o_class (objs s this)
      in if c = CType then type_remove this ob s
         else if c = CService then service_remove this ob s
         else if is_namespace (objs s this) then namespace_remove this ob s
         else (Inl (TypeError ''remove is not a function''), s))"

section \<open>Adding\<close>

text \<open>Reading \<open>parent.root\<close>.\<close>

definition unless_hang :: "store \<Rightarrow> nat \<Rightarrow> op_result" where
  "unless_hang s parent = (case obj_root s parent of None \<Rightarrow> (Inl hang, s) | Some r \<Rightarrow> (Inr (), s))"

definition onAdd :: "nat \<Rightarrow> nat \<Rightarrow> store \<Rightarrow> op_result" where
  "onAdd ob parent s =
     (case (case o_parent (objs s ob) of
              None \<Rightarrow> (Inr (), s)
            | Some p \<Rightarrow> if p \<noteq> parent then remove p ob s else (Inr (), s)) of
        (Inl e, s1) \<Rightarrow> (Inl e, s1)
      | (Inr _, s1) \<Rightarrow>
          unless_hang (update ob (\<lambda>x. x\<lparr>o_parent := Some parent, o_resolved := False\<rparr>) s1) parent)"

text \<open>The end of \<open>Namespace.add\<close>: \<open>this.nested[object.name] = object; object.onAdd(this)\<close>.\<close>

definition attach :: "nat \<Rightarrow> nat \<Rightarrow> store \<Rightarrow> op_result" where
  "attach this ob s =
     onAdd ob this
       (update this (\<lambda>x. x\<lparr>o_nested := Some (assoc_set (o_name (objs s ob)) ob (nestedArray x))\<rparr>) s)"

definition bind_op :: "op_result \<Rightarrow> (store \<Rightarrow> op_result) \<Rightarrow> op_result" where
  "bind_op p f = (case p of (Inl e, s) \<Rightarrow> (Inl e, s) | (Inr _, s) \<Rightarrow> f s)"

text \<open>\<open>for (...) object.add(nested[i])\<close>; \<open>rec\<close> is the call of \<open>add\<close>.\<close>

fun add_all :: "(nat \<Rightarrow> nat \<Rightarrow> store \<Rightarrow> op_result) \<Rightarrow> nat \<Rightarrow> nat list \<Rightarrow> store \<Rightarrow> op_result" where
  "add_all rec ob [] s = (Inr (), s)"
| "add_all rec ob (a # as) s = bind_op (rec ob a s) (add_all rec ob as)"

definition replaceable :: "robj \<Rightarrow> robj \<Rightarrow> bool" where
  "replaceable prev ob \<longleftrightarrow>
     is_namespace prev \<and> is_namespace ob \<and> \<not> (o_class prev = CType \<or> o_class prev = CService)"

text \<open>
  \<open>Namespace.add\<close>. A plain namespace of the same name is replaced: its nested objects and its
  options move to the new one.
\<close>

definition namespace_add :: "(nat \<Rightarrow> nat \<Rightarrow> store \<Rightarrow> op_result) \<Rightarrow> nat \<Rightarrow> nat \<Rightarrow> store \<Rightarrow> op_result" where
  "namespace_add rec this ob s =
     (if \<not> valid_nested (objs s ob)
      then (Inl (TypeError ''object must be a valid nested object''), s)
      else
        (case (if o_nested (objs s this) = None then None else get s this (o_name (objs s ob))) of
           None \<Rightarrow> attach this ob s
         | Some prev \<Rightarrow>
             if replaceable (objs s prev) (objs s ob) then
               bind_op (add_all rec ob (map snd (nestedArray (objs s prev))) s)
                 (\<lambda>s1. bind_op (remove this prev s1)
                   (\<lambda>s2. attach this ob (update ob (setOptions (o_options (objs s2 prev)) True) s2)))
             else (Inl (Error ''duplicate name''), s)))"

definition type_add :: "(nat \<Rightarrow> nat \<Rightarrow> store \<Rightarrow> op_result) \<Rightarrow> nat \<Rightarrow> nat \<Rightarrow> store \<Rightarrow> op_result" where
  "type_add rec this ob s =
     (let x = objs s ob; T = objs s this
      in if get s this (o_name x) \<noteq> None then (Inl (Error ''duplicate name''), s)
         else if own_field x then
           (case fieldsById s this of
              Inl e \<Rightarrow> (Inl e, s)
            | Inr byId \<Rightarrow>
                if byId (o_id x) \<noteq> None then (Inl (Error ''duplicate id''), s)
                else if isReservedId (o_reserved T) (int (o_id x)) then (Inl (Error ''id is reserved''), s)
                else if isReservedName (o_reserved T) (o_name x) then (Inl (Error ''name is reserved''), s)
                else bind_op (case o_parent x of None \<Rightarrow> (Inr (), s) | Some p \<Rightarrow> remove p ob s)
                  (\<lambda>s1. onAdd ob this
                    (update this (\<lambda>y. y\<lparr>o_fields := assoc_set (o_name x) ob (o_fields y)\<rparr>) s1)))
         else namespace_add rec this ob s)"

definition service_add :: "(nat \<Rightarrow> nat \<Rightarrow> store \<Rightarrow> op_result) \<Rightarrow> nat \<Rightarrow> nat \<Rightarrow> store \<Rightarrow> op_result" where
  "service_add rec this ob s =
     (let x = objs s ob
      in if get s this (o_name x) \<noteq> None then (Inl (Error ''duplicate name''), s)
         else if o_class x = CMethod then
           (Inr (), update ob (\<lambda>y. y\<lparr>o_parent := Some this\<rparr>)
              (update this (\<lambda>y. y\<lparr>o_methods := assoc_set (o_name x) ob (o_methods y)\<rparr>) s))
         else namespace_add rec this ob s)"

text \<open>The call of \<open>add\<close>, with the depth of calls that the stack has room for.\<close>

fun add :: "nat \<Rightarrow> nat \<Rightarrow> nat \<Rightarrow> store \<Rightarrow> op_result" where
  "add 0 this ob s = (Inl stack_overflow, s)"
| "add (Suc d) this ob s =
     (let c = o_class (objs s this)
      in if c = CType then type_add (add d) this ob s
         else if c = CService then service_add (add d) this ob s
         else if is_namespace (objs s this) then namespace_add (add d) this ob s
         else (Inl (TypeError ''add is not a function''), s))"

section \<open>Paths\<close>

fun split_dots :: "string \<Rightarrow> string list" where
  "split_dots [] = [[]]"
| "split_dots (c # cs) =
     (if c = CHR ''.'' then [] # split_dots cs
      else (case split_dots cs of [] \<Rightarrow> [[c]] | p # ps \<Rightarrow> (c # p) # ps))"

text \<open>The loop of \<open>define\<close> over the rest of the path, from the namespace \<open>ptr\<close>.\<close>

fun define_path :: "nat \<Rightarrow> nat \<Rightarrow> string list \<Rightarrow> store \<Rightarrow> (js_error + nat) \<times> store" where
  "define_path d ptr [] s = (Inr ptr, s)"
| "define_path d ptr (part # path) s =
     (case namespace_get (objs s ptr) part of
        Some a \<Rightarrow>
          if is_namespace (objs s a) then define_path d a path s
          else (Inl (Error ''path conflicts with non-namespace objects''), s)
      | None \<Rightarrow>
          (case alloc (Namespace part None) s of
             (a, s1) \<Rightarrow>
               (case add d ptr a s1 of
                  (Inl e, s2) \<Rightarrow> (Inl e, s2)
                | (Inr _, s2) \<Rightarrow> define_path d a path s2)))"

definition ns_define :: "nat \<Rightarrow> nat \<Rightarrow> string list \<Rightarrow> store \<Rightarrow> (js_error + nat) \<times> store" where
  "ns_define d this path s =
     (if path \<noteq> [] \<and> hd path = [] then (Inl (Error ''path must be relative''), s)
      else define_path d this path s)"

text \<open>
  \<open>lookup\<close>, with fuel for its calls; the inner \<open>None\<close> is the source's \<open>null\<close>, the
  outer one running out of fuel. The last argument is \<open>parentAlreadyChecked\<close>. \<open>or_else\<close>: if there
  has been no match, try again.
\<close>

definition or_else :: "'a option option \<Rightarrow> 'a option option \<Rightarrow> 'a option option" where
  "or_else x y = (case x of None \<Rightarrow> None | Some (Some a) \<Rightarrow> Some (Some a) | Some None \<Rightarrow> y)"

definition filter_type :: "obj_class list option \<Rightarrow> store \<Rightarrow> nat \<Rightarrow> nat option" where
  "filter_type filterTypes s a =
     (case filterTypes of
        None \<Rightarrow> Some a
      | Some cs \<Rightarrow> if o_class (objs s a) \<in> set cs then Some a else None)"

fun lookup :: "nat \<Rightarrow> store \<Rightarrow> nat \<Rightarrow> string list \<Rightarrow> obj_class list option \<Rightarrow> bool \<Rightarrow> nat option option"
  and lookup_nested :: "nat \<Rightarrow> store \<Rightarrow> nat list \<Rightarrow> string list \<Rightarrow> obj_class list option \<Rightarrow> nat option option" where
  "lookup 0 s this path filterTypes checked = None"
| "lookup (Suc n) s this path filterTypes checked =
     (if path = [] then Some (Some this)
      else if hd path = [] then
        (case obj_root s this of None \<Rightarrow> None | Some r \<Rightarrow> lookup n s r (tl path) filterTypes False)
      else
        or_else
          (case get s this (hd path) of
             Some a \<Rightarrow>
               if tl path = [] then Some (filter_type filterTypes s a)
               else if is_namespace (objs s a) then lookup n s a (tl path) filterTypes True
               else Some None
           | None \<Rightarrow> lookup_nested n s (map snd (nestedArray (objs s this))) path filterTypes)
          (case o_parent (objs s this) of
             None \<Rightarrow> Some None
           | Some p \<Rightarrow> if checked then Some None else lookup n s p path filterTypes False))"
| "lookup_nested n s [] path filterTypes = Some None"
| "lookup_nested n s (a # as) path filterTypes =
     (if is_namespace (objs s a)
      then or_else (lookup n s a path filterTypes True) (lookup_nested n s as path filterTypes)
      else lookup_nested n s as path filterTypes)"

text \<open>\<open>lookup\<close> of a string.\<close>

definition lookup_string :: "nat \<Rightarrow> store \<Rightarrow> nat \<Rightarrow> string \<Rightarrow> obj_class list option \<Rightarrow> nat option option" where
  "lookup_string n s this path filterTypes =
     (if path = [] then Some (Some this)
      else if path = ''.'' then map_option Some (obj_root s this)
      else lookup n s this (split_dots path) filterTypes False)"

text \<open>The lookups that throw instead of returning \<open>null\<close>.\<close>

definition lookup_or_throw :: "js_error \<Rightarrow> nat option option \<Rightarrow> (js_error + nat) option" where
  "lookup_or_throw e res = map_option (\<lambda>found. case found of None \<Rightarrow> Inl e | Some a \<Rightarrow> Inr a) res"

definition lookupType :: "nat \<Rightarrow> store \<Rightarrow> nat \<Rightarrow> string \<Rightarrow> (js_error + nat) option" where
  "lookupType n s this path =
     lookup_or_throw (Error ''no such type'') (lookup_string n s this path (Some [CType]))"

definition lookupEnum :: "nat \<Rightarrow> store \<Rightarrow> nat \<Rightarrow> string \<Rightarrow> (js_error + nat) option" where
  "lookupEnum n s this path =
     lookup_or_throw (Error ''no such Enum'') (lookup_string n s this path (Some [CEnum]))"

definition lookupTypeOrEnum :: "nat \<Rightarrow> store \<Rightarrow> nat \<Rightarrow> string \<Rightarrow> (js_error + nat) option" where
  "lookupTypeOrEnum n s this path =
     lookup_or_throw (Error ''no such Type or Enum'') (lookup_string n s this path (Some [CType, CEnum]))"

definition lookupService :: "nat \<Rightarrow> store \<Rightarrow> nat \<Rightarrow> string \<Rightarrow> (js_error + nat) option" where
  "lookupService n s this path =
     lookup_or_throw (Error ''no such Service'') (lookup_string n s this path (Some [CService]))"

section \<open>The invariant\<close>

text \<open>The objects from a root down to an object.\<close>

inductive ancestry :: "store \<Rightarrow> nat \<Rightarrow> nat list \<Rightarrow> bool" for s where
  top: "o_parent (objs s a) = None \<Longrightarrow> ancestry s a [a]"
| child: "o_parent (objs s a) = Some p \<Longrightarrow> ancestry s p as \<Longrightarrow> ancestry s a (as @ [a])"

definition forest :: "store \<Rightarrow> bool" where
  "forest s \<longleftrightarrow> (\<forall>a. \<exists>as. ancestry s a as)"

lemma ancestry_nonempty: "ancestry s a as \<Longrightarrow> as \<noteq> []"
  by (induction rule: ancestry.induct) simp_all

lemma obj_root_ancestry: "ancestry s a as \<Longrightarrow> obj_root s a = Some (hd as)"
proof (induction rule: ancestry.induct)
  case (top a)
  then show ?case by (subst obj_root.simps) simp
next
  case (child a p as)
  then show ?case using ancestry_nonempty[OF child.hyps(2)] by (subst obj_root.simps) simp
qed

lemma has_ancestry:
  "o_parent (objs s a) = None \<Longrightarrow> \<exists>as. ancestry s a as"
  "o_parent (objs s a) = Some p \<Longrightarrow> \<exists>as. ancestry s p as \<Longrightarrow> \<exists>as. ancestry s a as"
  by (blast intro: ancestry.intros)+

lemma ancestry_obj_root: "obj_root s a = Some r \<Longrightarrow> \<exists>as. ancestry s a as"
  by (rule obj_root.raw_induct[where P = "\<lambda>s a r. \<exists>as. ancestry s a as"])
     (auto split: option.splits intro: has_ancestry)

lemma forest_root: "forest s \<Longrightarrow> obj_root s a \<noteq> None"
  using obj_root_ancestry by (fastforce simp: forest_def)

lemma ancestry_cong: "ancestry s a as \<Longrightarrow> (\<And>b. o_parent (objs s' b) = o_parent (objs s b)) \<Longrightarrow> ancestry s' a as"
  by (induction rule: ancestry.induct) (auto intro: ancestry.intros)

lemma forest_cong: "forest s \<Longrightarrow> (\<And>b. o_parent (objs s' b) = o_parent (objs s b)) \<Longrightarrow> forest s'"
  by (meson ancestry_cong forest_def)

lemma forest_cut:
  assumes "forest s" and "\<And>x. o_parent (objs s' x) = (if x = b then None else o_parent (objs s x))"
  shows "forest s'"
proof -
  have "ancestry s a as \<Longrightarrow> \<exists>as'. ancestry s' a as'" for a as
    by (induction rule: ancestry.induct) (metis assms(2) has_ancestry)+
  then show ?thesis using assms(1) unfolding forest_def by meson
qed

lemma forest_link:
  assumes "forest s" and "o_parent (objs s b) = None" and "obj_root s' p \<noteq> None"
    and "\<And>x. o_parent (objs s' x) = (if x = b then Some p else o_parent (objs s x))"
  shows "forest s'"
proof -
  have p: "\<exists>ps. ancestry s' p ps" using assms(3) ancestry_obj_root by blast
  have "ancestry s a as \<Longrightarrow> \<exists>as'. ancestry s' a as'" for a as
    by (induction rule: ancestry.induct) (metis p assms(4) has_ancestry)+
  then show ?thesis using assms(1) unfolding forest_def by meson
qed

text \<open>The table of a parent that a member is in.\<close>

definition table :: "robj \<Rightarrow> robj \<Rightarrow> (string \<times> nat) list" where
  "table c p =
     (if own_field c then o_fields p else if o_class c = CMethod then o_methods p else nestedArray p)"

definition members_agree :: "store \<Rightarrow> bool" where
  "members_agree s \<longleftrightarrow>
     (\<forall>a k b. (k, b) \<in> set (nestedArray (objs s a)) \<longrightarrow>
        o_parent (objs s b) = Some a \<and> o_name (objs s b) = k \<and> valid_nested (objs s b)) \<and>
     (\<forall>a k b. (k, b) \<in> set (o_fields (objs s a)) \<longrightarrow>
        o_parent (objs s b) = Some a \<and> o_name (objs s b) = k \<and> own_field (objs s b)) \<and>
     (\<forall>a k b. (k, b) \<in> set (o_methods (objs s a)) \<longrightarrow>
        o_name (objs s b) = k \<and> o_class (objs s b) = CMethod)"

definition parents_agree :: "store \<Rightarrow> bool" where
  "parents_agree s \<longleftrightarrow>
     (\<forall>a b. o_parent (objs s b) = Some a \<longrightarrow>
        (o_name (objs s b), b) \<in> set (table (objs s b) (objs s a)))"

definition wf_tables :: "robj \<Rightarrow> bool" where
  "wf_tables x \<longleftrightarrow>
     distinct (map fst (nestedArray x)) \<and> distinct (map fst (o_fields x)) \<and>
     distinct (map fst (o_methods x)) \<and>
     fst ` set (nestedArray x) \<inter> (fst ` set (o_fields x) \<union> fst ` set (o_methods x)) = {} \<and>
     o_nested x \<noteq> Some [] \<and> (o_nested x \<noteq> None \<longrightarrow> is_namespace x) \<and>
     (o_fields x \<noteq> [] \<longrightarrow> o_class x = CType) \<and> (o_methods x \<noteq> [] \<longrightarrow> o_class x = CService)"

text \<open>The ids of the fields of a type are distinct and, like their names, not reserved.\<close>

definition wf_ids :: "store \<Rightarrow> bool" where
  "wf_ids s \<longleftrightarrow>
     (\<forall>a. distinct (map (\<lambda>(k, b). o_id (objs s b)) (o_fields (objs s a))) \<and>
        (\<forall>(k, b) \<in> set (o_fields (objs s a)).
           \<not> isReservedId (o_reserved (objs s a)) (int (o_id (objs s b))) \<and>
           \<not> isReservedName (o_reserved (objs s a)) k))"

text \<open>What has not been allocated is not referred to.\<close>

definition unused :: "store \<Rightarrow> bool" where
  "unused s \<longleftrightarrow>
     (\<forall>a \<ge> free s. o_parent (objs s a) = None \<and> o_nested (objs s a) = None \<and>
        o_fields (objs s a) = [] \<and> o_methods (objs s a) = []) \<and>
     (\<forall>a. \<forall>(k, b) \<in> set (o_methods (objs s a)). b < free s)"

definition wf_store :: "store \<Rightarrow> bool" where
  "wf_store s \<longleftrightarrow> members_agree s \<and> parents_agree s \<and> (\<forall>a. wf_tables (objs s a)) \<and> wf_ids s \<and>
     unused s \<and> forest s"

text \<open>No operation changes what an object is, only where it is, its tables and its options.\<close>

definition same_kind :: "robj \<Rightarrow> robj \<Rightarrow> bool" where
  "same_kind x y \<longleftrightarrow> o_class x = o_class y \<and> o_name x = o_name y \<and> o_reserved x = o_reserved y \<and>
     o_id x = o_id y \<and> o_extend x = o_extend y"

definition same_kinds :: "store \<Rightarrow> store \<Rightarrow> bool" where
  "same_kinds s s' \<longleftrightarrow> (\<forall>a. same_kind (objs s a) (objs s' a)) \<and> free s' = free s"

lemma same_kinds_refl [simp]: "same_kinds s s"
  by (simp add: same_kinds_def same_kind_def)

lemma same_kinds_trans: "same_kinds s s' \<Longrightarrow> same_kinds s' s'' \<Longrightarrow> same_kinds s s''"
  by (simp add: same_kinds_def same_kind_def)

lemma same_kinds_free: "same_kinds s s' \<Longrightarrow> free s' = free s"
  by (simp add: same_kinds_def)

lemma same_kinds_update [simp]:
  "same_kind (objs s a) (f (objs s a)) \<Longrightarrow> same_kinds s (update a f s)"
  by (simp add: same_kinds_def same_kind_def update_def)

lemma update_sel [simp]:
  "objs (update a f s) b = (if b = a then f (objs s a) else objs s b)" "free (update a f s) = free s"
  by (simp_all add: update_def)

lemma kind_simps [simp]:
  "own_field (x\<lparr>o_parent := p\<rparr>) = own_field x" "own_field (x\<lparr>o_resolved := r\<rparr>) = own_field x"
  "own_field (x\<lparr>o_nested := m\<rparr>) = own_field x" "own_field (x\<lparr>o_fields := t\<rparr>) = own_field x"
  "own_field (x\<lparr>o_methods := t\<rparr>) = own_field x" "own_field (x\<lparr>o_options := q\<rparr>) = own_field x"
  "is_namespace (x\<lparr>o_parent := p\<rparr>) = is_namespace x" "is_namespace (x\<lparr>o_resolved := r\<rparr>) = is_namespace x"
  "is_namespace (x\<lparr>o_nested := m\<rparr>) = is_namespace x" "is_namespace (x\<lparr>o_fields := t\<rparr>) = is_namespace x"
  "is_namespace (x\<lparr>o_methods := t\<rparr>) = is_namespace x" "is_namespace (x\<lparr>o_options := q\<rparr>) = is_namespace x"
  "valid_nested (x\<lparr>o_parent := p\<rparr>) = valid_nested x" "valid_nested (x\<lparr>o_resolved := r\<rparr>) = valid_nested x"
  "valid_nested (x\<lparr>o_nested := m\<rparr>) = valid_nested x" "valid_nested (x\<lparr>o_fields := t\<rparr>) = valid_nested x"
  "valid_nested (x\<lparr>o_methods := t\<rparr>) = valid_nested x" "valid_nested (x\<lparr>o_options := q\<rparr>) = valid_nested x"
  by (simp_all add: own_field_def is_namespace_def valid_nested_def)

lemma nestedArray_simps [simp]:
  "nestedArray (x\<lparr>o_parent := p\<rparr>) = nestedArray x" "nestedArray (x\<lparr>o_resolved := r\<rparr>) = nestedArray x"
  "nestedArray (x\<lparr>o_nested := Some m\<rparr>) = m" "nestedArray (x\<lparr>o_nested := None\<rparr>) = []"
  "nestedArray (x\<lparr>o_fields := t\<rparr>) = nestedArray x" "nestedArray (x\<lparr>o_methods := t\<rparr>) = nestedArray x"
  "nestedArray (x\<lparr>o_options := q\<rparr>) = nestedArray x"
  "nestedArray (x\<lparr>o_nested := if m = [] then None else Some m\<rparr>) = m"
  by (simp_all add: nestedArray_def)

lemma set_assoc_del [simp]: "set (assoc_del k m) = {(k', v) \<in> set m. k' \<noteq> k}"
  by (auto simp: assoc_del_def)

lemma assoc_del_Nil: "assoc_del k m = [] \<longleftrightarrow> (\<forall>(k', v) \<in> set m. k' = k)"
  by (auto simp: assoc_del_def filter_empty_conv)

lemma own_field_class: "own_field x \<Longrightarrow> o_class x = CField"
  by (simp add: own_field_def)

lemma distinct_assoc_del [simp]: "distinct (map f m) \<Longrightarrow> distinct (map f (assoc_del k m))"
  by (simp add: assoc_del_def distinct_map_filter)

lemma assoc_set_fresh: "k \<notin> fst ` set m \<Longrightarrow> assoc_set k v m = m @ [(k, v)]"
  by (simp add: assoc_set_def)

lemma valid_nested_kind: "valid_nested x \<Longrightarrow> \<not> own_field x \<and> o_class x \<noteq> CMethod"
  by (auto simp: valid_nested_def own_field_def is_namespace_def)

lemma table_simps [simp]:
  "valid_nested x \<Longrightarrow> table x p = nestedArray p"
  "own_field x \<Longrightarrow> table x p = o_fields p"
  "o_class x = CMethod \<Longrightarrow> table x p = o_methods p"
  by (auto simp: table_def valid_nested_def own_field_def is_namespace_def)

text \<open>The effect of a removal and of an insertion.\<close>

definition detach :: "nat \<Rightarrow> nat \<Rightarrow> store \<Rightarrow> store" where
  "detach p b s =
     (let k = o_name (objs s b); m = assoc_del k (nestedArray (objs s p))
      in unparent b
           (if own_field (objs s b) then update p (\<lambda>x. x\<lparr>o_fields := assoc_del k (o_fields x)\<rparr>) s
            else update p (\<lambda>x. x\<lparr>o_nested := (if m = [] then None else Some m)\<rparr>) s))"

lemma wf_nested: "wf_store s \<Longrightarrow> (k, b) \<in> set (nestedArray (objs s a)) \<Longrightarrow>
    o_parent (objs s b) = Some a \<and> o_name (objs s b) = k \<and> valid_nested (objs s b)"
  by (simp add: wf_store_def members_agree_def)

lemma wf_field: "wf_store s \<Longrightarrow> (k, b) \<in> set (o_fields (objs s a)) \<Longrightarrow>
    o_parent (objs s b) = Some a \<and> o_name (objs s b) = k \<and> own_field (objs s b)"
  by (simp add: wf_store_def members_agree_def)

lemma wf_method: "wf_store s \<Longrightarrow> (k, b) \<in> set (o_methods (objs s a)) \<Longrightarrow>
    o_name (objs s b) = k \<and> o_class (objs s b) = CMethod"
  by (simp add: wf_store_def members_agree_def)

lemma wf_parent: "wf_store s \<Longrightarrow> o_parent (objs s b) = Some a \<Longrightarrow>
    (o_name (objs s b), b) \<in> set (table (objs s b) (objs s a))"
  by (simp add: wf_store_def parents_agree_def)

lemma wf_tables_of: "wf_store s \<Longrightarrow> wf_tables (objs s a)"
  by (simp add: wf_store_def)

lemma wf_ids_of: "wf_store s \<Longrightarrow> wf_ids s"
  by (simp add: wf_store_def)

lemma wf_unused: "wf_store s \<Longrightarrow> unused s"
  by (simp add: wf_store_def)

lemma wf_forest: "wf_store s \<Longrightarrow> forest s"
  by (simp add: wf_store_def)

lemma wf_parent_free: "wf_store s \<Longrightarrow> o_parent (objs s b) = Some a \<Longrightarrow> a < free s \<and> b < free s"
  using wf_unused[of s] wf_parent[of s b a]
  by (cases "a < free s"; cases "b < free s") (auto simp: unused_def table_def nestedArray_def not_less split: if_splits)

lemma wf_nested_free: "wf_store s \<Longrightarrow> (k, b) \<in> set (nestedArray (objs s a)) \<Longrightarrow> b < free s \<and> a < free s"
  using wf_nested[of s k b a] wf_parent_free[of s b a] by blast

lemma unused_update:
  assumes "unused s" and "a < free s"
    and "\<And>k b. (k, b) \<in> set (o_methods (f (objs s a))) \<Longrightarrow> b < free s"
  shows "unused (update a f s)"
  using assms by (auto simp: unused_def)

lemma wf_distinct: "wf_store s \<Longrightarrow> distinct (map fst (nestedArray (objs s a))) \<and>
    distinct (map fst (o_fields (objs s a))) \<and> distinct (map fst (o_methods (objs s a)))"
  using wf_tables_of[of s a] by (simp add: wf_tables_def)

lemma wf_classes: "wf_store s \<Longrightarrow> (o_nested (objs s a) \<noteq> None \<longrightarrow> is_namespace (objs s a)) \<and>
    (o_fields (objs s a) \<noteq> [] \<longrightarrow> o_class (objs s a) = CType) \<and>
    (o_methods (objs s a) \<noteq> [] \<longrightarrow> o_class (objs s a) = CService)"
  using wf_tables_of[of s a] by (simp add: wf_tables_def)

lemma wf_storeI:
  assumes "\<And>a k b. (k, b) \<in> set (nestedArray (objs s a)) \<Longrightarrow>
      o_parent (objs s b) = Some a \<and> o_name (objs s b) = k \<and> valid_nested (objs s b)"
    and "\<And>a k b. (k, b) \<in> set (o_fields (objs s a)) \<Longrightarrow>
      o_parent (objs s b) = Some a \<and> o_name (objs s b) = k \<and> own_field (objs s b)"
    and "\<And>a k b. (k, b) \<in> set (o_methods (objs s a)) \<Longrightarrow>
      o_name (objs s b) = k \<and> o_class (objs s b) = CMethod"
    and "\<And>a b. o_parent (objs s b) = Some a \<Longrightarrow>
      (o_name (objs s b), b) \<in> set (table (objs s b) (objs s a))"
    and "\<And>a. wf_tables (objs s a)"
    and "wf_ids s"
    and "unused s" and "forest s"
  shows "wf_store s"
  using assms by (simp add: wf_store_def members_agree_def parents_agree_def)

lemma distinct_keys: "distinct (map fst m) \<Longrightarrow> (k, v) \<in> set m \<Longrightarrow> (k, w) \<in> set m \<Longrightarrow> v = w"
  by (metis eq_key_imp_eq_value)

lemma in_nested: "(k, b) \<in> set (nestedArray x) \<Longrightarrow> o_nested x \<noteq> None"
  by (cases "o_nested x") (simp_all add: nestedArray_def)

lemma wf_tables_simps [simp]:
  "wf_tables (x\<lparr>o_parent := q\<rparr>) = wf_tables x" "wf_tables (x\<lparr>o_resolved := r\<rparr>) = wf_tables x"
  "wf_tables (x\<lparr>o_options := t\<rparr>) = wf_tables x"
  by (simp_all add: wf_tables_def)

lemma wf_tables_del_field: "wf_tables x \<Longrightarrow> wf_tables (x\<lparr>o_fields := assoc_del k (o_fields x)\<rparr>)"
proof -
  have "fst ` set (assoc_del k (o_fields x)) \<subseteq> fst ` set (o_fields x)" by auto
  moreover assume "wf_tables x"
  moreover have "o_fields x = [] \<Longrightarrow> assoc_del k (o_fields x) = []" by (simp add: assoc_del_def)
  ultimately show ?thesis unfolding wf_tables_def by auto
qed

lemma wf_tables_del_nested:
  assumes "wf_tables x" and "m = assoc_del k (nestedArray x)"
  shows "wf_tables (x\<lparr>o_nested := (if m = [] then None else Some m)\<rparr>)"
proof -
  have "m \<noteq> [] \<Longrightarrow> o_nested x \<noteq> None"
    using assms(2) by (cases "o_nested x") (simp_all add: nestedArray_def assoc_del_def)
  moreover have "fst ` set m \<subseteq> fst ` set (nestedArray x)" using assms(2) by auto
  moreover have "distinct (map fst m)" using assms by (simp add: wf_tables_def)
  ultimately show ?thesis using assms(1) unfolding wf_tables_def by auto
qed

lemma table_simps2 [simp]:
  "table (x\<lparr>o_parent := q\<rparr>) y = table x y" "table (x\<lparr>o_resolved := r\<rparr>) y = table x y"
  "table (x\<lparr>o_options := t\<rparr>) y = table x y" "table (x\<lparr>o_nested := m\<rparr>) y = table x y"
  "table (x\<lparr>o_fields := t'\<rparr>) y = table x y" "table (x\<lparr>o_methods := t'\<rparr>) y = table x y"
  "table x (y\<lparr>o_parent := q\<rparr>) = table x y" "table x (y\<lparr>o_resolved := r\<rparr>) = table x y"
  "table x (y\<lparr>o_options := t\<rparr>) = table x y"
  by (simp_all add: table_def)

lemma store_eqI: "(\<And>a. objs s a = objs s' a) \<Longrightarrow> free s = free s' \<Longrightarrow> s = s'"
  for s s' :: store
  by (simp add: fun_eq_iff)

lemma onRemove_forest: "forest s \<Longrightarrow> onRemove b p s = (Inr (), unparent b s)"
  using forest_root[of s p] by (auto simp: onRemove_def)

lemma remove_detach_nested:
  assumes "forest s" and "o_parent (objs s b) = Some p" and "o_class (objs s b) \<noteq> CMethod"
    and "\<not> own_field (objs s b)" and "is_namespace (objs s p)" and "o_nested (objs s p) \<noteq> None"
  shows "remove p b s = (Inr (), detach p b s)"
proof -
  have "forest (update p (\<lambda>x. x\<lparr>o_nested := m\<rparr>) s)" for m
    by (rule forest_cong[OF assms(1)]) simp
  then show ?thesis
    using assms(2-) by (simp add: remove_def type_remove_def service_remove_def namespace_remove_def detach_def
      onRemove_forest Let_def)
qed

lemma remove_detach:
  assumes "wf_store s" and "o_parent (objs s b) = Some p" and "o_class (objs s b) \<noteq> CMethod"
  shows "remove p b s = (Inr (), detach p b s)"
proof -
  note m = wf_parent[OF assms(1,2)] and c = wf_classes[OF assms(1), of p] and fo = wf_forest[OF assms(1)]
  show ?thesis
  proof (cases "own_field (objs s b)")
    case True
    then have f: "(o_name (objs s b), b) \<in> set (o_fields (objs s p))" using m by simp
    then have "o_class (objs s p) = CType" using c by auto
    moreover have "map_of (o_fields (objs s p)) (o_name (objs s b)) = Some b"
      using f wf_distinct[OF assms(1)] by (simp add: map_of_is_SomeI)
    moreover have "forest (update b (\<lambda>x. x\<lparr>o_parent := None\<rparr>) (update p (\<lambda>x. x\<lparr>o_fields := t x\<rparr>) s))" for t
      by (rule forest_cut[OF fo, of _ b]) simp
    ultimately show ?thesis
      using True
      by (auto simp: remove_def type_remove_def detach_def onRemove_forest unparent_def Let_def intro!: store_eqI)
  next
    case False
    then have "(o_name (objs s b), b) \<in> set (nestedArray (objs s p))" using m assms(3) by (simp add: table_def)
    note n = in_nested[OF this]
    then have "is_namespace (objs s p)" using c by simp
    then show ?thesis by (rule remove_detach_nested[OF fo assms(2,3) False _ n])
  qed
qed

lemma wf_ids_less:
  assumes "wf_ids s" and "same_kinds s s'"
    and "\<And>a. \<exists>k. o_fields (objs s' a) = o_fields (objs s a) \<or> o_fields (objs s' a) = assoc_del k (o_fields (objs s a))"
  shows "wf_ids s'"
proof -
  have k: "o_id (objs s' b) = o_id (objs s b)" "o_reserved (objs s' b) = o_reserved (objs s b)" for b
    using assms(2) by (simp_all add: same_kinds_def same_kind_def)
  show ?thesis
    unfolding wf_ids_def k
  proof
    fix a
    show "distinct (map (\<lambda>(k, b). o_id (objs s b)) (o_fields (objs s' a))) \<and>
        (\<forall>(k, b) \<in> set (o_fields (objs s' a)).
           \<not> isReservedId (o_reserved (objs s a)) (int (o_id (objs s b))) \<and>
           \<not> isReservedName (o_reserved (objs s a)) k)"
      using assms(1)[unfolded wf_ids_def, rule_format, of a] assms(3)[of a] by (elim exE disjE) auto
  qed
qed

lemma detach_wf:
  assumes wf: "wf_store s" and p: "o_parent (objs s b) = Some p" and c: "o_class (objs s b) \<noteq> CMethod"
  shows "wf_store (detach p b s)" and "same_kinds s (detach p b s)"
proof -
  note m = wf_parent[OF wf p]
  show k: "same_kinds s (detach p b s)"
    by (simp add: same_kinds_def same_kind_def detach_def Let_def unparent_def)
  have un: "unused (detach p b s)"
    using wf_unused[OF wf] by (auto simp: unused_def detach_def unparent_def Let_def assoc_del_def nestedArray_def)
  have fo: "forest (detach p b s)"
    by (rule forest_cut[OF wf_forest[OF wf], of _ b]) (simp add: detach_def unparent_def Let_def)
  have i: "wf_ids (detach p b s)"
    by (rule wf_ids_less[OF wf_ids_of[OF wf] k]) (auto simp: detach_def unparent_def Let_def)
  show "wf_store (detach p b s)"
  proof (rule wf_storeI[OF _ _ _ _ _ i un fo])
    fix a k x
    show "(k, x) \<in> set (nestedArray (objs (detach p b s) a)) \<Longrightarrow>
      o_parent (objs (detach p b s) x) = Some a \<and> o_name (objs (detach p b s) x) = k \<and> valid_nested (objs (detach p b s) x)"
      using wf_nested[OF wf, of k x a] m p
      by (auto simp: detach_def unparent_def Let_def table_def dest: valid_nested_kind split: if_splits)
    show "(k, x) \<in> set (o_fields (objs (detach p b s) a)) \<Longrightarrow>
      o_parent (objs (detach p b s) x) = Some a \<and> o_name (objs (detach p b s) x) = k \<and> own_field (objs (detach p b s) x)"
      using wf_field[OF wf, of k x a] m p
      by (auto simp: detach_def unparent_def Let_def table_def split: if_splits)
    show "(k, x) \<in> set (o_methods (objs (detach p b s) a)) \<Longrightarrow>
      o_name (objs (detach p b s) x) = k \<and> o_class (objs (detach p b s) x) = CMethod"
      using wf_method[OF wf, of k x a]
      by (auto simp: detach_def unparent_def Let_def split: if_splits)
  next
    fix a x
    assume x: "o_parent (objs (detach p b s) x) = Some a"
    then have x: "x \<noteq> b" "o_parent (objs s x) = Some a"
      by (auto simp: detach_def unparent_def Let_def split: if_splits)
    note mx = wf_parent[OF wf x(2)]
    have "o_name (objs s x) \<noteq> o_name (objs s b)" if "a = p" "own_field (objs s x) = own_field (objs s b)" "o_class (objs s x) \<noteq> CMethod"
      using distinct_keys[of "table (objs s b) (objs s p)"] wf_distinct[OF wf, of p] mx m that x(1) c
      by (auto simp: table_def split: if_splits)
    then show "(o_name (objs (detach p b s) x), x) \<in> set (table (objs (detach p b s) x) (objs (detach p b s) a))"
      using mx x(1) c by (auto simp: detach_def unparent_def Let_def table_def assoc_del_Nil dest: own_field_class split: if_splits)
  next
    fix a
    show "wf_tables (objs (detach p b s) a)"
      using wf_tables_of[OF wf, of a] wf_tables_del_field[of "objs s p"]
        wf_tables_del_nested[of "objs s p", OF _ refl]
      by (cases "a = p"; cases "a = b"; cases "own_field (objs s b)") (simp_all add: detach_def unparent_def Let_def)
  qed
qed

text \<open>A method's removal.\<close>

definition detach_method :: "nat \<Rightarrow> nat \<Rightarrow> store \<Rightarrow> store" where
  "detach_method p b s =
     update b (\<lambda>x. x\<lparr>o_parent := None\<rparr>)
       (update p (\<lambda>x. x\<lparr>o_methods := assoc_del (o_name (objs s b)) (o_methods x)\<rparr>) s)"

lemma wf_tables_del_method: "wf_tables x \<Longrightarrow> wf_tables (x\<lparr>o_methods := assoc_del k (o_methods x)\<rparr>)"
proof -
  have "fst ` set (assoc_del k (o_methods x)) \<subseteq> fst ` set (o_methods x)" by auto
  moreover assume "wf_tables x"
  moreover have "o_methods x = [] \<Longrightarrow> assoc_del k (o_methods x) = []" by (simp add: assoc_del_def)
  ultimately show ?thesis unfolding wf_tables_def by auto
qed

lemma detach_method_wf:
  assumes wf: "wf_store s" and b: "(o_name (objs s b), b) \<in> set (o_methods (objs s p))"
  shows "wf_store (detach_method p b s)" and "same_kinds s (detach_method p b s)"
proof -
  have c: "o_class (objs s b) = CMethod" using wf_method[OF wf b] by simp
  have nf: "\<not> own_field (objs s b)" "\<not> valid_nested (objs s b)"
    using c by (auto simp: own_field_def valid_nested_def is_namespace_def)
  show k: "same_kinds s (detach_method p b s)"
    by (simp add: same_kinds_def same_kind_def detach_method_def)
  have un: "unused (detach_method p b s)"
    using wf_unused[OF wf] by (auto simp: unused_def detach_method_def assoc_del_def)
  have fo: "forest (detach_method p b s)"
    by (rule forest_cut[OF wf_forest[OF wf], of _ b]) (simp add: detach_method_def)
  have i: "wf_ids (detach_method p b s)"
    by (rule wf_ids_less[OF wf_ids_of[OF wf] k]) (auto simp: detach_method_def)
  show "wf_store (detach_method p b s)"
  proof (rule wf_storeI[OF _ _ _ _ _ i un fo])
    fix a k x
    show "(k, x) \<in> set (nestedArray (objs (detach_method p b s) a)) \<Longrightarrow>
      o_parent (objs (detach_method p b s) x) = Some a \<and> o_name (objs (detach_method p b s) x) = k \<and>
      valid_nested (objs (detach_method p b s) x)"
      using wf_nested[OF wf, of k x a] nf by (auto simp: detach_method_def split: if_splits)
    show "(k, x) \<in> set (o_fields (objs (detach_method p b s) a)) \<Longrightarrow>
      o_parent (objs (detach_method p b s) x) = Some a \<and> o_name (objs (detach_method p b s) x) = k \<and>
      own_field (objs (detach_method p b s) x)"
      using wf_field[OF wf, of k x a] nf by (auto simp: detach_method_def split: if_splits)
    show "(k, x) \<in> set (o_methods (objs (detach_method p b s) a)) \<Longrightarrow>
      o_name (objs (detach_method p b s) x) = k \<and> o_class (objs (detach_method p b s) x) = CMethod"
      using wf_method[OF wf, of k x a] by (auto simp: detach_method_def split: if_splits)
  next
    fix a x
    assume x: "o_parent (objs (detach_method p b s) x) = Some a"
    then have x: "x \<noteq> b" "o_parent (objs s x) = Some a"
      by (auto simp: detach_method_def split: if_splits)
    note mx = wf_parent[OF wf x(2)]
    have "o_name (objs s x) \<noteq> o_name (objs s b)" if "a = p" "o_class (objs s x) = CMethod"
      using distinct_keys[of "o_methods (objs s p)"] wf_distinct[OF wf, of p] mx b that x(1) by auto
    then show "(o_name (objs (detach_method p b s) x), x) \<in>
        set (table (objs (detach_method p b s) x) (objs (detach_method p b s) a))"
      using mx x(1) by (auto simp: detach_method_def table_def split: if_splits)
  next
    fix a
    show "wf_tables (objs (detach_method p b s) a)"
      using wf_tables_of[OF wf, of a] wf_tables_del_method[of "objs s p"]
      by (cases "a = p"; cases "a = b") (simp_all add: detach_method_def)
  qed
qed

text \<open>All results of \<open>remove\<close>.\<close>

lemma remove_cases [consumes 1, case_names detached of_service fails]:
  assumes wf: "wf_store s"
  obtains "remove p b s = (Inr (), detach p b s)" "o_parent (objs s b) = Some p" "o_class (objs s b) \<noteq> CMethod"
    | "remove p b s = (Inr (), detach_method p b s)" "(o_name (objs s b), b) \<in> set (o_methods (objs s p))"
    | e where "remove p b s = (Inl e, s)" "o_class (objs s b) \<noteq> CMethod \<longrightarrow> o_parent (objs s b) \<noteq> Some p"
proof (cases "o_class (objs s b) = CMethod")
  case False
  show ?thesis
  proof (cases "o_parent (objs s b) = Some p")
    case True
    then show ?thesis using that(1) remove_detach[OF wf True False] False by simp
  next
    case neq: False
    have "map_of (o_fields (objs s p)) (o_name (objs s b)) \<noteq> Some b"
      using wf_field[OF wf] neq by (auto dest!: map_of_SomeD)
    then have "\<exists>e. remove p b s = (Inl e, s)"
      using False neq
      by (simp add: remove_def type_remove_def service_remove_def namespace_remove_def Let_def)
    then show ?thesis using that(3) neq by blast
  qed
next
  case True
  have "o_class (objs s p) = CService" if "o_parent (objs s b) = Some p"
    using wf_parent[OF wf that] wf_classes[OF wf, of p] True by auto
  then have np: "o_class (objs s p) \<noteq> CService \<Longrightarrow> o_parent (objs s b) \<noteq> Some p" by auto
  show ?thesis
  proof (cases "o_class (objs s p) = CService \<and> map_of (o_methods (objs s p)) (o_name (objs s b)) = Some b")
    case yes: True
    then have "remove p b s = (Inr (), detach_method p b s)"
      using True by (simp add: remove_def service_remove_def detach_method_def)
    then show ?thesis using that(2) yes by (blast dest: map_of_SomeD)
  next
    case False
    then have "\<exists>e. remove p b s = (Inl e, s)"
      using True np
      by (cases "o_class (objs s p) = CService")
         (auto simp: remove_def type_remove_def service_remove_def namespace_remove_def own_field_def Let_def)
    then show ?thesis using that(3) True by blast
  qed
qed

lemma remove_wf:
  assumes "wf_store s"
  shows "wf_store (snd (remove p b s))" and "same_kinds s (snd (remove p b s))"
  using assms
  by (cases p b rule: remove_cases[OF assms]; simp add: detach_wf detach_method_wf)+

text \<open>The insertions, of an object that has no parent.\<close>

definition insert_nested :: "nat \<Rightarrow> nat \<Rightarrow> store \<Rightarrow> store" where
  "insert_nested p b s =
     update b (\<lambda>x. x\<lparr>o_parent := Some p, o_resolved := False\<rparr>)
       (update p (\<lambda>x. x\<lparr>o_nested := Some (nestedArray x @ [(o_name (objs s b), b)])\<rparr>) s)"

definition insert_field :: "nat \<Rightarrow> nat \<Rightarrow> store \<Rightarrow> store" where
  "insert_field p b s =
     update b (\<lambda>x. x\<lparr>o_parent := Some p, o_resolved := False\<rparr>)
       (update p (\<lambda>x. x\<lparr>o_fields := o_fields x @ [(o_name (objs s b), b)]\<rparr>) s)"

definition insert_method :: "nat \<Rightarrow> nat \<Rightarrow> store \<Rightarrow> store" where
  "insert_method p b s =
     update b (\<lambda>x. x\<lparr>o_parent := Some p\<rparr>)
       (update p (\<lambda>x. x\<lparr>o_methods := o_methods x @ [(o_name (objs s b), b)]\<rparr>) s)"

lemmas insert_defs = insert_nested_def insert_field_def insert_method_def

lemma insert_same_kinds [simp]:
  "same_kinds s (insert_nested p b s)" "same_kinds s (insert_field p b s)" "same_kinds s (insert_method p b s)"
  by (simp_all add: same_kinds_def same_kind_def insert_defs)

text \<open>A name that no table of an object has.\<close>

definition free_name :: "string \<Rightarrow> robj \<Rightarrow> bool" where
  "free_name k x \<longleftrightarrow> k \<notin> fst ` set (nestedArray x) \<union> fst ` set (o_fields x) \<union> fst ` set (o_methods x)"

lemma wf_ids_same:
  assumes "wf_ids s" and "same_kinds s s'" and "\<And>a. o_fields (objs s' a) = o_fields (objs s a)"
  shows "wf_ids s'"
  using assms(1,2) by (simp add: wf_ids_def same_kinds_def same_kind_def assms(3) case_prod_beta)

lemma insert_nested_wf:
  assumes wf: "wf_store s" and b: "o_parent (objs s b) = None" "valid_nested (objs s b)"
    and p: "is_namespace (objs s p)" and fr: "free_name (o_name (objs s b)) (objs s p)"
    and al: "p < free s" "b < free s"
    and ro: "obj_root (insert_nested p b s) p \<noteq> None"
  shows "wf_store (insert_nested p b s)"
proof (rule wf_storeI)
  note k = valid_nested_kind[OF b(2)]
  let ?s = "insert_nested p b s"
  {
    fix a k x
    show "(k, x) \<in> set (nestedArray (objs ?s a)) \<Longrightarrow>
      o_parent (objs ?s x) = Some a \<and> o_name (objs ?s x) = k \<and> valid_nested (objs ?s x)"
      using wf_nested[OF wf, of k x a] b by (auto simp: insert_defs split: if_splits)
    show "(k, x) \<in> set (o_fields (objs ?s a)) \<Longrightarrow>
      o_parent (objs ?s x) = Some a \<and> o_name (objs ?s x) = k \<and> own_field (objs ?s x)"
      using wf_field[OF wf, of k x a] b k by (auto simp: insert_defs split: if_splits)
    show "(k, x) \<in> set (o_methods (objs ?s a)) \<Longrightarrow>
      o_name (objs ?s x) = k \<and> o_class (objs ?s x) = CMethod"
      using wf_method[OF wf, of k x a] k by (auto simp: insert_defs split: if_splits)
  next
    fix a x
    assume x: "o_parent (objs ?s x) = Some a"
    show "(o_name (objs ?s x), x) \<in> set (table (objs ?s x) (objs ?s a))"
    proof (cases "x = b")
      case True
      then show ?thesis using x b by (simp add: insert_defs)
    next
      case False
      then have "o_parent (objs s x) = Some a" using x by (auto simp: insert_defs split: if_splits)
      from wf_parent[OF wf this] False show ?thesis
        by (auto simp: insert_defs table_def split: if_splits)
    qed
  next
    fix a
    have "wf_tables (objs s p\<lparr>o_nested := Some (nestedArray (objs s p) @ [(o_name (objs s b), b)])\<rparr>)"
      using wf_tables_of[OF wf, of p] fr p by (auto simp: wf_tables_def free_name_def)
    then show "wf_tables (objs ?s a)"
      using wf_tables_of[OF wf, of a] by (cases "a = p"; cases "a = b") (simp_all add: insert_defs)
  next
    show "forest ?s"
      by (rule forest_link[OF wf_forest[OF wf] b(1) ro]) (simp add: insert_defs)
  next
    show "unused ?s"
      using wf_unused[OF wf] al unfolding insert_defs
      by (intro unused_update) (auto simp: unused_def split: if_splits)
  next
    show "wf_ids ?s"
      by (rule wf_ids_same[OF wf_ids_of[OF wf]]) (simp_all add: insert_defs same_kinds_def same_kind_def)
  }
qed

lemma ancestry_avoid:
  assumes "ancestry s a as" and "b \<noteq> a" and "\<And>c. o_parent (objs s c) \<noteq> Some b"
    and "\<And>x. x \<noteq> b \<Longrightarrow> o_parent (objs s' x) = o_parent (objs s x)"
  shows "ancestry s' a as"
  using assms(1,2)
proof (induction rule: ancestry.induct)
  case (child a p as)
  then have "p \<noteq> b" using assms(3)[of a] by auto
  then show ?case using child assms(4)[of a] by (auto intro: ancestry.child)
qed (use assms(4) in \<open>auto intro: ancestry.top\<close>)

lemma insert_method_root:
  assumes wf: "wf_store s" and "o_class (objs s b) = CMethod" and "o_class (objs s p) = CService"
  shows "obj_root (insert_method p b s) p \<noteq> None"
proof -
  have nb: "o_parent (objs s c) \<noteq> Some b" for c
  proof
    assume c: "o_parent (objs s c) = Some b"
    have "is_namespace (objs s b)"
      using wf_parent[OF wf c] wf_classes[OF wf, of b] in_nested[of _ c "objs s b"]
      by (auto simp: table_def is_namespace_def split: if_splits)
    then show False using assms(2) by (simp add: is_namespace_def)
  qed
  obtain as where "ancestry s p as" using wf_forest[OF wf] by (auto simp: forest_def)
  then have "ancestry (insert_method p b s) p as"
    by (rule ancestry_avoid[where b = b]) (use nb assms(2,3) in \<open>auto simp: insert_defs\<close>)
  then show ?thesis using obj_root_ancestry by fastforce
qed

lemma insert_method_wf:
  assumes wf: "wf_store s" and b: "o_class (objs s b) = CMethod"
    and p: "o_class (objs s p) = CService" and fr: "free_name (o_name (objs s b)) (objs s p)"
    and al: "p < free s" "b < free s"
    and ro: "obj_root (insert_method p b s) p \<noteq> None"
  shows "wf_store (insert_method p b s)"
proof (rule wf_storeI)
  have k: "\<not> own_field (objs s b)" "\<not> valid_nested (objs s b)"
    using b by (auto simp: own_field_def valid_nested_def is_namespace_def)
  let ?s = "insert_method p b s"
  {
    fix a k x
    show "(k, x) \<in> set (nestedArray (objs ?s a)) \<Longrightarrow>
      o_parent (objs ?s x) = Some a \<and> o_name (objs ?s x) = k \<and> valid_nested (objs ?s x)"
      using wf_nested[OF wf, of k x a] k by (auto simp: insert_defs split: if_splits)
    show "(k, x) \<in> set (o_fields (objs ?s a)) \<Longrightarrow>
      o_parent (objs ?s x) = Some a \<and> o_name (objs ?s x) = k \<and> own_field (objs ?s x)"
      using wf_field[OF wf, of k x a] k by (auto simp: insert_defs split: if_splits)
    show "(k, x) \<in> set (o_methods (objs ?s a)) \<Longrightarrow>
      o_name (objs ?s x) = k \<and> o_class (objs ?s x) = CMethod"
      using wf_method[OF wf, of k x a] b by (auto simp: insert_defs split: if_splits)
  next
    fix a x
    assume x: "o_parent (objs ?s x) = Some a"
    show "(o_name (objs ?s x), x) \<in> set (table (objs ?s x) (objs ?s a))"
    proof (cases "x = b")
      case True
      then show ?thesis using x b by (simp add: insert_defs)
    next
      case False
      then have "o_parent (objs s x) = Some a" using x by (auto simp: insert_defs split: if_splits)
      from wf_parent[OF wf this] False show ?thesis
        by (auto simp: insert_defs table_def split: if_splits)
    qed
  next
    fix a
    have "wf_tables (objs s p\<lparr>o_methods := o_methods (objs s p) @ [(o_name (objs s b), b)]\<rparr>)"
      using wf_tables_of[OF wf, of p] fr p by (auto simp: wf_tables_def free_name_def)
    then show "wf_tables (objs ?s a)"
      using wf_tables_of[OF wf, of a] by (cases "a = p"; cases "a = b") (simp_all add: insert_defs)
  next
    show "forest ?s"
    proof (rule forest_link[of "update b (\<lambda>x. x\<lparr>o_parent := None\<rparr>) s" b _ p])
      show "forest (update b (\<lambda>x. x\<lparr>o_parent := None\<rparr>) s)"
        by (rule forest_cut[OF wf_forest[OF wf], of _ b]) simp
    qed (use ro in \<open>simp_all add: insert_defs\<close>)
  next
    show "unused ?s"
      using wf_unused[OF wf] al unfolding insert_defs
      by (intro unused_update) (auto simp: unused_def split: if_splits)
  next
    show "wf_ids ?s"
      by (rule wf_ids_same[OF wf_ids_of[OF wf]]) (simp_all add: insert_defs same_kinds_def same_kind_def)
  }
qed

lemma insert_field_wf:
  assumes wf: "wf_store s" and b: "o_parent (objs s b) = None" "own_field (objs s b)"
    and p: "o_class (objs s p) = CType" and fr: "free_name (o_name (objs s b)) (objs s p)"
    and id: "o_id (objs s b) \<notin> (\<lambda>(k, f). o_id (objs s f)) ` set (o_fields (objs s p))"
      "\<not> isReservedId (o_reserved (objs s p)) (int (o_id (objs s b)))"
      "\<not> isReservedName (o_reserved (objs s p)) (o_name (objs s b))"
    and al: "p < free s" "b < free s"
    and ro: "obj_root (insert_field p b s) p \<noteq> None"
  shows "wf_store (insert_field p b s)"
proof (rule wf_storeI)
  have k: "o_class (objs s b) \<noteq> CMethod" "\<not> valid_nested (objs s b)"
    using b by (auto simp: own_field_def valid_nested_def is_namespace_def)
  let ?s = "insert_field p b s"
  {
    fix a k x
    show "(k, x) \<in> set (nestedArray (objs ?s a)) \<Longrightarrow>
      o_parent (objs ?s x) = Some a \<and> o_name (objs ?s x) = k \<and> valid_nested (objs ?s x)"
      using wf_nested[OF wf, of k x a] k by (auto simp: insert_defs split: if_splits)
    show "(k, x) \<in> set (o_fields (objs ?s a)) \<Longrightarrow>
      o_parent (objs ?s x) = Some a \<and> o_name (objs ?s x) = k \<and> own_field (objs ?s x)"
      using wf_field[OF wf, of k x a] b by (auto simp: insert_defs split: if_splits)
    show "(k, x) \<in> set (o_methods (objs ?s a)) \<Longrightarrow>
      o_name (objs ?s x) = k \<and> o_class (objs ?s x) = CMethod"
      using wf_method[OF wf, of k x a] k by (auto simp: insert_defs split: if_splits)
  next
    fix a x
    assume x: "o_parent (objs ?s x) = Some a"
    show "(o_name (objs ?s x), x) \<in> set (table (objs ?s x) (objs ?s a))"
    proof (cases "x = b")
      case True
      then show ?thesis using x b by (simp add: insert_defs)
    next
      case False
      then have "o_parent (objs s x) = Some a" using x by (auto simp: insert_defs split: if_splits)
      from wf_parent[OF wf this] False show ?thesis
        by (auto simp: insert_defs table_def split: if_splits)
    qed
  next
    fix a
    have "wf_tables (objs s p\<lparr>o_fields := o_fields (objs s p) @ [(o_name (objs s b), b)]\<rparr>)"
      using wf_tables_of[OF wf, of p] fr p by (auto simp: wf_tables_def free_name_def)
    then show "wf_tables (objs ?s a)"
      using wf_tables_of[OF wf, of a] by (cases "a = p"; cases "a = b") (simp_all add: insert_defs)
  next
    show "forest ?s"
      by (rule forest_link[OF wf_forest[OF wf] b(1) ro]) (simp add: insert_defs)
  next
    show "unused ?s"
      using wf_unused[OF wf] al unfolding insert_defs
      by (intro unused_update) (auto simp: unused_def split: if_splits)
  next
    have i: "o_id (objs ?s x) = o_id (objs s x)" "o_reserved (objs ?s x) = o_reserved (objs s x)" for x
      by (simp_all add: insert_defs)
    have f: "o_fields (objs ?s a) = (if a = p then o_fields (objs s a) @ [(o_name (objs s b), b)] else o_fields (objs s a))" for a
      by (simp add: insert_defs)
    show "wf_ids ?s"
      unfolding wf_ids_def i f
    proof
      fix a
      show "distinct (map (\<lambda>(k, b). o_id (objs s b)) (if a = p then o_fields (objs s a) @ [(o_name (objs s b), b)] else o_fields (objs s a))) \<and>
        (\<forall>(k, x) \<in> set (if a = p then o_fields (objs s a) @ [(o_name (objs s b), b)] else o_fields (objs s a)).
           \<not> isReservedId (o_reserved (objs s a)) (int (o_id (objs s x))) \<and>
           \<not> isReservedName (o_reserved (objs s a)) k)"
        using wf_ids_of[OF wf, unfolded wf_ids_def, rule_format, of a] id by (cases "a = p") auto
    qed
  }
qed

text \<open>
  \<open>attach\<close> first enters the object into the new table and then has its old parent remove it;
  the result is that of the other order.
\<close>

definition attached :: "nat \<Rightarrow> nat \<Rightarrow> store \<Rightarrow> store" where
  "attached this b s =
     insert_nested this b (case o_parent (objs s b) of None \<Rightarrow> s | Some p \<Rightarrow> detach p b s)"

lemma attach_insert:
  assumes wf: "wf_store s" and b: "valid_nested (objs s b)"
    and fr: "o_name (objs s b) \<notin> fst ` set (nestedArray (objs s this))"
  shows "attach this b s = unless_hang (attached this b s) this"
proof -
  note k = valid_nested_kind[OF b]
  have set: "assoc_set (o_name (objs s b)) b (nestedArray (objs s this)) =
      nestedArray (objs s this) @ [(o_name (objs s b), b)]"
    using fr by (simp add: assoc_set_fresh)
  let ?t = "update this (\<lambda>x. x\<lparr>o_nested := Some (assoc_set (o_name (objs s b)) b (nestedArray x))\<rparr>) s"
  let ?par = "update b (\<lambda>x. x\<lparr>o_parent := Some this, o_resolved := False\<rparr>)"
  show ?thesis
  proof (cases "o_parent (objs s b)")
    case None
    then have "?par ?t = attached this b s"
      using set by (auto simp: attached_def insert_defs intro!: store_eqI)
    then show ?thesis
      using None by (auto simp: attach_def onAdd_def)
  next
    case (Some p)
    have mem: "(o_name (objs s b), b) \<in> set (nestedArray (objs s p))" using wf_parent[OF wf Some] b by simp
    have ne: "p \<noteq> this" using fr mem by force
    have "is_namespace (objs s p)" "o_nested (objs s p) \<noteq> None"
      using wf_classes[OF wf, of p] in_nested[OF mem] by simp_all
    moreover have "forest ?t" by (rule forest_cong[OF wf_forest[OF wf]]) simp
    ultimately have "remove p b ?t = (Inr (), detach p b ?t)"
      using Some k ne by (intro remove_detach_nested) auto
    moreover have "?par (detach p b ?t) = attached this b s"
      using ne k set Some by (auto simp: attached_def detach_def unparent_def insert_defs Let_def intro!: store_eqI)
    ultimately show ?thesis
      using Some ne by (auto simp: attach_def onAdd_def)
  qed
qed

lemma detach_sel:
  assumes "o_class (objs s b) \<noteq> CMethod"
  shows "o_parent (objs (detach p b s) b) = None"
    and "free_name k (objs s a) \<Longrightarrow> free_name k (objs (detach p b s) a)"
  by (auto simp: detach_def unparent_def Let_def free_name_def)

lemma same_kinds_sel:
  assumes "same_kinds s s'"
  shows "o_class (objs s' a) = o_class (objs s a)" "o_name (objs s' a) = o_name (objs s a)"
    "o_id (objs s' a) = o_id (objs s a)" "o_reserved (objs s' a) = o_reserved (objs s a)"
    "own_field (objs s' a) = own_field (objs s a)" "valid_nested (objs s' a) = valid_nested (objs s a)"
    "is_namespace (objs s' a) = is_namespace (objs s a)"
  using assms by (simp_all add: same_kinds_def same_kind_def own_field_def valid_nested_def is_namespace_def)

lemma attach_wf:
  assumes wf: "wf_store s" and b: "valid_nested (objs s b)" and p: "is_namespace (objs s this)"
    and fr: "free_name (o_name (objs s b)) (objs s this)" and al: "this < free s" "b < free s"
    and nh: "fst (attach this b s) \<noteq> Inl hang"
  shows "wf_store (snd (attach this b s))" and "same_kinds s (snd (attach this b s))"
proof -
  note k = valid_nested_kind[OF b]
  have a: "attach this b s = unless_hang (attached this b s) this"
    using fr by (intro attach_insert[OF wf b]) (simp add: free_name_def)
  then have ro: "obj_root (attached this b s) this \<noteq> None" and snd: "snd (attach this b s) = attached this b s"
    using nh by (auto simp: unless_hang_def split: option.splits)
  show "wf_store (snd (attach this b s))"
  proof (cases "o_parent (objs s b)")
    case None
    then show ?thesis using snd ro insert_nested_wf[OF wf None b p fr al] by (simp add: attached_def)
  next
    case (Some q)
    note d = detach_wf[OF wf Some conjunct2[OF k]]
    note n = same_kinds_sel[OF d(2)]
    show ?thesis
      using snd ro Some insert_nested_wf[OF d(1), of b this] detach_sel[OF conjunct2[OF k], where p = q] b p fr al
      by (simp add: n same_kinds_free[OF d(2)] attached_def)
  qed
  show "same_kinds s (snd (attach this b s))"
    using snd detach_wf(2)[OF wf _ conjunct2[OF k]]
    by (cases "o_parent (objs s b)") (auto simp: attached_def intro: same_kinds_trans)
qed

lemma update_marks_wf:
  assumes "wf_store s" and "\<And>x. \<exists>q r. f x = x\<lparr>o_options := q, o_resolved := r\<rparr>"
  shows "wf_store (update a f s)" and "same_kinds s (update a f s)"
proof -
  obtain q r where q: "f (objs s a) = objs s a\<lparr>o_options := q, o_resolved := r\<rparr>" using assms(2) by blast
  then show k: "same_kinds s (update a f s)" by (simp add: same_kind_def)
  show "wf_store (update a f s)"
  proof (rule wf_storeI)
    show "wf_ids (update a f s)" by (rule wf_ids_same[OF wf_ids_of[OF assms(1)] k]) (simp add: q)
    show "forest (update a f s)" by (rule forest_cong[OF wf_forest[OF assms(1)]]) (simp add: q)
    show "unused (update a f s)" using wf_unused[OF assms(1)] q by (auto simp: unused_def)
  qed (use wf_nested[OF assms(1)] wf_field[OF assms(1)] wf_method[OF assms(1)] wf_parent[OF assms(1)]
        wf_tables_of[OF assms(1)] in \<open>auto simp: q split: if_splits\<close>)
qed

lemma update_options_wf:
  assumes "wf_store s" and "\<And>x. \<exists>q. f x = x\<lparr>o_options := q\<rparr>"
  shows "wf_store (update a f s)" and "same_kinds s (update a f s)"
proof -
  have "\<exists>q r. f x = x\<lparr>o_options := q, o_resolved := r\<rparr>" for x
  proof -
    obtain q where "f x = x\<lparr>o_options := q\<rparr>" using assms(2) by blast
    then have "f x = x\<lparr>o_options := q, o_resolved := o_resolved x\<rparr>" by simp
    then show ?thesis by blast
  qed
  then show "wf_store (update a f s)" "same_kinds s (update a f s)"
    using update_marks_wf[OF assms(1)] by blast+
qed

lemma setOptions_options: "\<exists>q. setOptions os ifNotSet x = x\<lparr>o_options := q\<rparr>"
proof -
  have "\<exists>q. fold (\<lambda>(k, v). setOption k v ifNotSet) m x = x\<lparr>o_options := q\<rparr>" for m
  proof (induction m arbitrary: x)
    case Nil
    show ?case by (rule exI[of _ "o_options x"]) simp
  next
    case (Cons kv m)
    obtain q where "setOption (fst kv) (snd kv) ifNotSet x = x\<lparr>o_options := q\<rparr>"
      by (cases "\<not> ifNotSet \<or> o_options x = None \<or> getOption (fst kv) x = None")
         (auto simp: setOption_def intro: that[of "o_options x"])
    then show ?case using Cons[of "x\<lparr>o_options := q\<rparr>"] by (auto simp: case_prod_beta)
  qed
  then show ?thesis
    by (cases os) (auto simp: setOptions_def intro: exI[of _ "o_options x"])
qed

text \<open>
  The contract of the nested call of \<open>add\<close>: on two objects of a well-formed store it keeps the
  invariant, if it returns or throws.
\<close>

definition good :: "store \<Rightarrow> op_result \<Rightarrow> bool" where
  "good s p \<longleftrightarrow> fst p = Inl hang \<or> wf_store (snd p) \<and> same_kinds s (snd p)"

definition keeps :: "(nat \<Rightarrow> nat \<Rightarrow> store \<Rightarrow> op_result) \<Rightarrow> bool" where
  "keeps f \<longleftrightarrow> (\<forall>this b s. wf_store s \<and> this < free s \<and> b < free s \<longrightarrow> good s (f this b s))"

lemma good_same [simp]: "wf_store s \<Longrightarrow> good s (x, s)"
  by (simp add: good_def)

lemma good_Inr: "good s (Inr (), s') \<longleftrightarrow> wf_store s' \<and> same_kinds s s'"
  by (simp add: good_def)

lemma good_bind:
  assumes "good s p" and "\<And>s'. p = (Inr (), s') \<Longrightarrow> wf_store s' \<Longrightarrow> same_kinds s s' \<Longrightarrow> good s' (g s')"
  shows "good s (bind_op p g)"
proof (cases p)
  case (Pair x s')
  then show ?thesis
    using assms(1) assms(2)[of s'] same_kinds_trans[of s s'] by (cases x) (auto simp: bind_op_def good_def)
qed

lemma attach_good:
  assumes "wf_store s" and "valid_nested (objs s b)" and "is_namespace (objs s this)"
    and "free_name (o_name (objs s b)) (objs s this)" and "this < free s" "b < free s"
  shows "good s (attach this b s)"
  using attach_wf[OF assms] by (auto simp: good_def)

lemma map_of_None: "map_of m k = None \<longleftrightarrow> k \<notin> fst ` set m"
  by (simp add: map_of_eq_None_iff)

lemma namespace_get_None: "namespace_get x k = None \<longleftrightarrow> k \<notin> fst ` set (nestedArray x)"
  by (cases "o_nested x") (simp_all add: namespace_get_def nestedArray_def map_of_None)

lemma type_get_None: "type_get x k = None \<longleftrightarrow> k \<notin> fst ` set (o_fields x) \<and> k \<notin> fst ` set (nestedArray x)"
proof -
  have "type_get x k = (case map_of (o_fields x) k of None \<Rightarrow> namespace_get x k | Some b \<Rightarrow> Some b)"
    by (simp add: type_get_def namespace_get_def split: option.splits)
  then show ?thesis
    using map_of_None[of "o_fields x" k] namespace_get_None[of x k] by (cases "map_of (o_fields x) k") simp_all
qed

lemma service_get_None: "service_get x k = None \<longleftrightarrow> k \<notin> fst ` set (o_methods x) \<and> k \<notin> fst ` set (nestedArray x)"
  using map_of_None[of "o_methods x" k] namespace_get_None[of x k]
  by (cases "map_of (o_methods x) k") (simp_all add: service_get_def)

lemma get_None:
  assumes "wf_store s" and "is_namespace (objs s a)"
  shows "get s a k = None \<longleftrightarrow> free_name k (objs s a)"
  using wf_classes[OF assms(1), of a]
  by (auto simp: get_def Let_def free_name_def service_get_None type_get_None namespace_get_None)

lemma plain_get:
  assumes "wf_store s" and "o_class (objs s a) \<notin> {CType, CService}" and "get s a k = Some b"
  shows "(k, b) \<in> set (nestedArray (objs s a))" and "free_name k' (objs s a) \<longleftrightarrow> k' \<notin> fst ` set (nestedArray (objs s a))"
proof -
  show "(k, b) \<in> set (nestedArray (objs s a))"
    using assms(2,3) by (auto simp: get_def Let_def namespace_get_def nestedArray_def dest: map_of_SomeD split: option.splits if_splits)
  show "free_name k' (objs s a) \<longleftrightarrow> k' \<notin> fst ` set (nestedArray (objs s a))"
    using wf_classes[OF assms(1), of a] assms(2) by (auto simp: free_name_def)
qed

locale nested_add =
  fixes rec :: "nat \<Rightarrow> nat \<Rightarrow> store \<Rightarrow> op_result"
  assumes rec_keeps: "keeps rec"
begin

lemma rec_good: "wf_store s \<Longrightarrow> this < free s \<Longrightarrow> b < free s \<Longrightarrow> good s (rec this b s)"
  using rec_keeps by (simp add: keeps_def)

lemma all_good: "wf_store s \<Longrightarrow> b < free s \<Longrightarrow> \<forall>a \<in> set as. a < free s \<Longrightarrow> good s (add_all rec b as s)"
proof (induction as arbitrary: s)
  case (Cons a as)
  show ?case
    unfolding add_all.simps
  proof (rule good_bind)
    fix s' assume "wf_store s'" "same_kinds s s'"
    then show "good s' (add_all rec b as s')"
      using Cons.prems by (intro Cons.IH) (auto simp: same_kinds_free)
  qed (use Cons.prems rec_good in simp)
qed simp

text \<open>The rest of \<open>add\<close> after the nested objects of a replaced namespace have moved.\<close>

lemma replace_good:
  assumes s1: "wf_store s1" and al: "this < free s1" "b < free s1"
    and c: "o_class (objs s1 this) \<notin> {CType, CService}" "is_namespace (objs s1 this)"
    and b: "valid_nested (objs s1 b)"
    and prev: "o_name (objs s1 prev) = o_name (objs s1 b)" "is_namespace (objs s1 prev)"
  shows "good s1 (bind_op (remove this prev s1)
    (\<lambda>s2. attach this b (update b (setOptions (o_options (objs s2 prev)) True) s2)))"
proof (cases this prev rule: remove_cases[OF s1])
  case 1
  let ?k = "o_name (objs s1 b)"
  note d = detach_wf[OF s1 1(2,3)]
  let ?s2 = "detach this prev s1"
  note n2 = same_kinds_sel[OF d(2)]
  let ?s3 = "update b (setOptions (o_options (objs ?s2 prev)) True) ?s2"
  have u: "wf_store ?s3" "same_kinds ?s2 ?s3"
    by (rule update_options_wf[OF d(1) setOptions_options])+
  note n3 = same_kinds_sel[OF u(2)]
  have own: "\<not> own_field (objs s1 prev)" using prev(2) by (auto simp: own_field_def is_namespace_def)
  have "?k \<notin> fst ` set (nestedArray (objs ?s2 this))"
    using own prev(1) by (auto simp: detach_def unparent_def Let_def)
  moreover have "o_fields (objs ?s2 this) = []" "o_methods (objs ?s2 this) = []"
    using wf_classes[OF d(1), of this] c by (auto simp: n2)
  ultimately have "free_name ?k (objs ?s2 this)" by (simp add: free_name_def)
  then have fr: "free_name ?k (objs ?s3 this)"
    using setOptions_options[of "o_options (objs ?s2 prev)" True "objs ?s2 b"] by (auto simp: free_name_def)
  have nm: "o_name (objs ?s3 b) = ?k" "valid_nested (objs ?s3 b)" "is_namespace (objs ?s3 this)"
    using b c by (simp_all only: n3 n2)
  have f3: "free ?s3 = free s1" using same_kinds_free[OF d(2)] by simp
  have "good ?s3 (attach this b ?s3)"
    by (rule attach_good[OF u(1) nm(2,3) fr[folded nm(1)] al[folded f3]])
  then show ?thesis
    using 1(1) same_kinds_trans[OF d(2) same_kinds_trans[OF u(2)]]
    by (auto simp: bind_op_def good_def)
next
  case 2
  then show ?thesis using wf_method[OF s1 2(2)] prev(2) by (simp add: is_namespace_def)
next
  case (3 e)
  then show ?thesis using s1 by (simp add: bind_op_def)
qed

lemma namespace_good:
  assumes wf: "wf_store s" and al: "this < free s" "b < free s" and p: "is_namespace (objs s this)"
    and nt: "o_class (objs s this) \<in> {CType, CService} \<longrightarrow> get s this (o_name (objs s b)) = None"
  shows "good s (namespace_add rec this b s)"
proof -
  let ?k = "o_name (objs s b)"
  consider "\<not> valid_nested (objs s b)" | "valid_nested (objs s b)" "free_name ?k (objs s this)"
    | prev where "valid_nested (objs s b)" "get s this ?k = Some prev" "o_nested (objs s this) \<noteq> None"
    using get_None[OF wf p, of ?k] wf_classes[OF wf, of this] nt
    by (cases "get s this ?k"; cases "o_nested (objs s this)")
       (auto simp: get_def namespace_get_def Let_def split: if_splits)
  then show ?thesis
  proof cases
    case 1
    then show ?thesis using wf by (simp add: namespace_add_def)
  next
    case 2
    then have "namespace_add rec this b s = attach this b s"
      using get_None[OF wf p, of ?k] by (simp add: namespace_add_def)
    then show ?thesis using attach_good[OF wf 2(1) p 2(2) al] by simp
  next
    case (3 prev)
    then have nt': "o_class (objs s this) \<notin> {CType, CService}" using nt by auto
    note m = wf_nested[OF wf plain_get(1)[OF wf nt' 3(2)]]
    show ?thesis
    proof (cases "replaceable (objs s prev) (objs s b)")
      case False
      then show ?thesis using 3 wf by (auto simp: namespace_add_def)
    next
      case True
      let ?as = "map snd (nestedArray (objs s prev))"
      have eq: "namespace_add rec this b s = bind_op (add_all rec b ?as s)
          (\<lambda>s1. bind_op (remove this prev s1)
             (\<lambda>s2. attach this b (update b (setOptions (o_options (objs s2 prev)) True) s2)))"
        using 3 True by (auto simp: namespace_add_def)
      have "good s (add_all rec b ?as s)"
        using wf_nested_free[OF wf] by (intro all_good wf al) auto
      then show ?thesis
        unfolding eq
      proof (rule good_bind)
        fix s1 assume n: "same_kinds s s1" "wf_store s1"
        note n1 = same_kinds_sel[OF n(1)] same_kinds_free[OF n(1)]
        show "good s1 (bind_op (remove this prev s1)
            (\<lambda>s2. attach this b (update b (setOptions (o_options (objs s2 prev)) True) s2)))"
          by (rule replace_good[OF n(2)])
             (use al nt' p 3(1) m True in \<open>simp_all add: n1 replaceable_def\<close>)
      qed
    qed
  qed
qed

end

lemma fieldsById_ids:
  assumes "fieldsById s a = Inr m"
  shows "m i = None \<longleftrightarrow> i \<notin> (\<lambda>(k, f). o_id (objs s f)) ` set (o_fields (objs s a))"
proof -
  have "collect_ids s fs m0 = Inr m \<Longrightarrow>
      m i = None \<longleftrightarrow> m0 i = None \<and> i \<notin> (\<lambda>(k, f). o_id (objs s f)) ` set fs" for fs m0
    by (induction s fs m0 rule: collect_ids.induct) (auto split: if_splits)
  from this[of "o_fields (objs s a)" Map.empty] show ?thesis using assms by (simp add: fieldsById_def)
qed

lemma detach_field:
  assumes "own_field (objs s b)"
  shows "o_parent (objs (detach p b s) b) = None" and "o_fields (objs (detach p b s) a) = o_fields (objs s a) \<or>
    o_fields (objs (detach p b s) a) = assoc_del (o_name (objs s b)) (o_fields (objs s a))"
    and "free_name k (objs s a) \<Longrightarrow> free_name k (objs (detach p b s) a)"
  using assms by (auto simp: detach_def unparent_def Let_def free_name_def)

context nested_add
begin

lemma type_good:
  assumes wf: "wf_store s" and al: "this < free s" "b < free s" and c: "o_class (objs s this) = CType"
  shows "good s (type_add rec this b s)"
proof -
  let ?x = "objs s b" and ?T = "objs s this"
  have p: "is_namespace ?T" using c by (simp add: is_namespace_def)
  show ?thesis
  proof (cases "get s this (o_name ?x) = None \<and> own_field ?x")
    case False
    then show ?thesis
      using wf namespace_good[OF wf al p] by (auto simp: type_add_def Let_def)
  next
    case True
    then have g: "get s this (o_name ?x) = None" and f: "own_field ?x" by simp_all
    have m: "o_class ?x \<noteq> CMethod" using f by (simp add: own_field_def)
    have fr: "free_name (o_name ?x) ?T" using get_None[OF wf p] g by simp
    show ?thesis
    proof (cases "\<exists>m. fieldsById s this = Inr m \<and> m (o_id ?x) = None \<and>
        \<not> isReservedId (o_reserved ?T) (int (o_id ?x)) \<and> \<not> isReservedName (o_reserved ?T) (o_name ?x)")
      case False
      then have "\<exists>e. type_add rec this b s = (Inl e, s)"
        using g f by (auto simp: type_add_def Let_def split: sum.splits)
      then show ?thesis using wf by auto
    next
      case True
      then obtain byId where i: "fieldsById s this = Inr byId" "byId (o_id ?x) = None"
        and r: "\<not> isReservedId (o_reserved ?T) (int (o_id ?x))" "\<not> isReservedName (o_reserved ?T) (o_name ?x)"
        by blast
      define s1 where "s1 = (case o_parent ?x of None \<Rightarrow> s | Some q \<Rightarrow> detach q b s)"
      have s1: "wf_store s1" "same_kinds s s1" "o_parent (objs s1 b) = None" "free_name (o_name ?x) (objs s1 this)"
        "set (o_fields (objs s1 this)) \<subseteq> set (o_fields ?T)"
      proof -
        have "wf_store s1 \<and> same_kinds s s1 \<and> o_parent (objs s1 b) = None \<and>
            free_name (o_name ?x) (objs s1 this) \<and> set (o_fields (objs s1 this)) \<subseteq> set (o_fields ?T)"
        proof (cases "o_parent ?x")
          case None
          then show ?thesis using wf fr by (simp add: s1_def)
        next
          case (Some q)
          then have "s1 = detach q b s" by (simp add: s1_def)
          then show ?thesis
            using detach_wf[OF wf Some m] detach_field(1)[OF f] detach_field(2)[OF f, where p = q and a = this]
              detach_field(3)[OF f fr] by auto
        qed
        then show "wf_store s1" "same_kinds s s1" "o_parent (objs s1 b) = None"
          "free_name (o_name ?x) (objs s1 this)" "set (o_fields (objs s1 this)) \<subseteq> set (o_fields ?T)"
          by blast+
      qed
      note n = same_kinds_sel[OF s1(2)]
      have "type_add rec this b s = onAdd b this
          (update this (\<lambda>y. y\<lparr>o_fields := assoc_set (o_name ?x) b (o_fields y)\<rparr>) s1)"
        using g f i r remove_detach[OF wf _ m]
        by (cases "o_parent ?x") (simp_all add: type_add_def Let_def bind_op_def s1_def)
      also have "\<dots> = unless_hang (insert_field this b s1) this"
      proof -
        have "assoc_set (o_name ?x) b (o_fields (objs s1 this)) = o_fields (objs s1 this) @ [(o_name ?x, b)]"
          using s1(4) by (intro assoc_set_fresh) (simp add: free_name_def)
        then show ?thesis
          using s1(3) by (auto simp: onAdd_def insert_field_def n intro!: arg_cong[where f = "\<lambda>s. unless_hang s this"] store_eqI)
      qed
      moreover have "obj_root (insert_field this b s1) this \<noteq> None \<Longrightarrow> wf_store (insert_field this b s1)"
      proof (rule insert_field_wf[OF s1(1,3)])
        show "o_id (objs s1 b) \<notin> (\<lambda>(k, f). o_id (objs s1 f)) ` set (o_fields (objs s1 this))"
          using fieldsById_ids[OF i(1), of "o_id ?x"] i(2) s1(5) unfolding n by fastforce
      qed (use f c r s1(4) al in \<open>simp_all add: n same_kinds_free[OF s1(2)]\<close>)
      ultimately show ?thesis
        using s1(2) by (auto simp: good_def unless_hang_def intro: same_kinds_trans split: option.splits)
    qed
  qed
qed

lemma service_good:
  assumes wf: "wf_store s" and al: "this < free s" "b < free s" and c: "o_class (objs s this) = CService"
  shows "good s (service_add rec this b s)"
proof -
  let ?x = "objs s b"
  have p: "is_namespace (objs s this)" using c by (simp add: is_namespace_def)
  show ?thesis
  proof (cases "get s this (o_name ?x) = None \<and> o_class ?x = CMethod")
    case False
    then show ?thesis
      using wf namespace_good[OF wf al p] by (auto simp: service_add_def Let_def)
  next
    case True
    then have fr: "free_name (o_name ?x) (objs s this)" using get_None[OF wf p] by simp
    then have "assoc_set (o_name ?x) b (o_methods (objs s this)) = o_methods (objs s this) @ [(o_name ?x, b)]"
      by (intro assoc_set_fresh) (simp add: free_name_def)
    then have "service_add rec this b s = (Inr (), insert_method this b s)"
      using True by (auto simp: service_add_def insert_method_def Let_def intro!: store_eqI)
    then show ?thesis using insert_method_wf[OF wf _ c fr al] insert_method_root[OF wf _ c] True by (simp add: good_def)
  qed
qed

end

lemma add_keeps: "keeps (add d)"
proof (induction d)
  case 0
  show ?case by (simp add: keeps_def)
next
  case (Suc d)
  have l: "nested_add (add d)" by unfold_locales (rule Suc.IH)
  show ?case
    unfolding keeps_def
    using nested_add.type_good[OF l] nested_add.service_good[OF l] nested_add.namespace_good[OF l]
    by (auto simp: Let_def)
qed

interpretation adder: nested_add "add d" for d
  by unfold_locales (rule add_keeps)

end
