(* ===== verification/Members.thy ===== *)
theory Members
  imports Reflect
begin

text \<open>
  What programs can do with the reflection objects: the stores they reach by constructing, adding
  and removing objects, and what \<open>get\<close>, \<open>add\<close>, \<open>remove\<close>, \<open>fieldsById\<close>, \<open>root\<close> and \<open>fullName\<close>
  do in them.
\<close>

section \<open>Reachable stores\<close>

text \<open>
  What a program can make of the objects: it starts with a root, constructs objects, adds and
  removes them, whether the calls succeed or throw, changes their options and resolves them. A call
  that does not return is the last one.
\<close>

definition start_store :: store where
  "start_store = \<lparr>objs = (\<lambda>a. ReflectionObject CRoot [] None), free = 1\<rparr>"

inductive reachable :: "store \<Rightarrow> bool" where
  start: "reachable start_store"
| new: "reachable s \<Longrightarrow> o_parent ob = None \<Longrightarrow> o_nested ob = None \<Longrightarrow> o_fields ob = [] \<Longrightarrow> o_methods ob = [] \<Longrightarrow>
    reachable (snd (alloc ob s))"
| add: "reachable s \<Longrightarrow> this < free s \<Longrightarrow> b < free s \<Longrightarrow> fst (add d this b s) \<noteq> Inl hang \<Longrightarrow>
    reachable (snd (add d this b s))"
| remove: "reachable s \<Longrightarrow> reachable (snd (remove this b s))"
| mark: "reachable s \<Longrightarrow> reachable (update a (\<lambda>x. x\<lparr>o_options := m, o_resolved := d\<rparr>) s)"

lemma alloc_wf:
  assumes wf: "wf_store s" and ob: "o_parent ob = None" "o_nested ob = None" "o_fields ob = []" "o_methods ob = []"
  shows "wf_store (snd (alloc ob s))"
proof -
  let ?s = "snd (alloc ob s)"
  have s: "objs ?s a = (if a = free s then ob else objs s a)" "free ?s = free s + 1" for a
    by (simp_all add: alloc_def)
  have un: "o_parent (objs s (free s)) = None" "\<And>k b a. (k, b) \<in> set (o_methods (objs s a)) \<Longrightarrow> b < free s"
    using wf_unused[OF wf] by (auto simp: unused_def)
  have nn: "nestedArray ob = []" by (simp add: nestedArray_def ob)
  show ?thesis
  proof (rule wf_storeI)
    show "forest ?s" by (rule forest_cong[OF wf_forest[OF wf]]) (use un ob in \<open>simp add: s\<close>)
  next
    fix a k x
    show "(k, x) \<in> set (nestedArray (objs ?s a)) \<Longrightarrow>
      o_parent (objs ?s x) = Some a \<and> o_name (objs ?s x) = k \<and> valid_nested (objs ?s x)"
      using wf_nested[OF wf, of k x a] un nn by (auto simp: s split: if_splits)
    show "(k, x) \<in> set (o_fields (objs ?s a)) \<Longrightarrow>
      o_parent (objs ?s x) = Some a \<and> o_name (objs ?s x) = k \<and> own_field (objs ?s x)"
      using wf_field[OF wf, of k x a] un ob by (auto simp: s split: if_splits)
    show "(k, x) \<in> set (o_methods (objs ?s a)) \<Longrightarrow>
      o_name (objs ?s x) = k \<and> o_class (objs ?s x) = CMethod"
      using wf_method[OF wf, of k x a] un ob by (fastforce simp: s split: if_splits)
  next
    fix a x
    assume "o_parent (objs ?s x) = Some a"
    then have x: "x \<noteq> free s" "o_parent (objs s x) = Some a" using ob by (auto simp: s split: if_splits)
    then show "(o_name (objs ?s x), x) \<in> set (table (objs ?s x) (objs ?s a))"
      using wf_parent[OF wf x(2)] wf_parent_free[OF wf x(2)] by (simp add: s)
  next
    fix a
    show "wf_tables (objs ?s a)"
      using wf_tables_of[OF wf, of a] nn ob by (simp add: s wf_tables_def)
  next
    have f: "o_fields (objs ?s a) = o_fields (objs s a)" for a
      using wf_unused[OF wf] ob by (simp add: s unused_def)
    have x: "objs ?s x = objs s x" if "(k, x) \<in> set (o_fields (objs s a))" for k x a
      using wf_field[OF wf that] un(1) by (auto simp: s)
    show "wf_ids ?s"
      unfolding wf_ids_def f
    proof
      fix a
      note w = wf_ids_of[OF wf, unfolded wf_ids_def, rule_format, of a]
      have m: "map (\<lambda>(k, b). o_id (objs ?s b)) (o_fields (objs s a)) = map (\<lambda>(k, b). o_id (objs s b)) (o_fields (objs s a))"
        using x by (intro map_cong) auto
      have r: "o_fields (objs s a) = [] \<or> objs ?s a = objs s a"
        using wf_unused[OF wf] by (auto simp: unused_def s)
      have e: "\<forall>(k, b) \<in> set (o_fields (objs s a)). objs ?s b = objs s b" using x by blast
      show "distinct (map (\<lambda>(k, b). o_id (objs ?s b)) (o_fields (objs s a))) \<and>
          (\<forall>(k, b) \<in> set (o_fields (objs s a)).
             \<not> isReservedId (o_reserved (objs ?s a)) (int (o_id (objs ?s b))) \<and>
             \<not> isReservedName (o_reserved (objs ?s a)) k)"
        unfolding m using w e r by (elim disjE) fastforce+
    qed
  next
    show "unused ?s"
      using wf_unused[OF wf] ob by (fastforce simp: unused_def s)
  qed
qed

lemma reachable_store_wf: "reachable s \<Longrightarrow> wf_store s"
proof (induction rule: reachable.induct)
  case start
  have b: "nestedArray (ReflectionObject CRoot [] None) = []" by (simp add: nestedArray_def ReflectionObject_def)
  show ?case
    by (rule wf_storeI)
       (simp_all add: start_store_def b wf_tables_def wf_ids_def unused_def forest_def,
         simp_all add: ReflectionObject_def has_ancestry)
next
  case (new s ob)
  then show ?case by (intro alloc_wf)
next
  case (add s this b d)
  then show ?case using adder.rec_good[of s this b d] by (simp add: good_def)
next
  case (remove s this b)
  then show ?case by (intro remove_wf)
next
  case (mark s a m d)
  then show ?case by (intro update_marks_wf(1)) blast+
qed

lemma get_iff_parent:
  assumes wf: "wf_store s" and b: "o_class (objs s b) \<noteq> CMethod"
  shows "get s a (o_name (objs s b)) = Some b \<longleftrightarrow> o_parent (objs s b) = Some a"
proof
  assume g: "get s a (o_name (objs s b)) = Some b"
  then have "(o_name (objs s b), b) \<in> set (nestedArray (objs s a)) \<or> (o_name (objs s b), b) \<in> set (o_fields (objs s a))
      \<or> (o_name (objs s b), b) \<in> set (o_methods (objs s a))"
    by (auto simp: get_def Let_def type_get_def service_get_def namespace_get_def nestedArray_def
        dest: map_of_SomeD split: if_splits option.splits)
  then show "o_parent (objs s b) = Some a"
    using wf_nested[OF wf] wf_field[OF wf] wf_method[OF wf] b by blast
next
  assume p: "o_parent (objs s b) = Some a"
  let ?k = "o_name (objs s b)" and ?x = "objs s a"
  note m = wf_parent[OF wf p] and c = wf_classes[OF wf, of a] and t = wf_tables_of[OF wf, of a]
  have nm: "map_of (nestedArray ?x) ?k = namespace_get ?x ?k"
    by (simp add: namespace_get_def nestedArray_def split: option.splits)
  show "get s a ?k = Some b"
  proof (cases "own_field (objs s b)")
    case True
    then have f: "(?k, b) \<in> set (o_fields ?x)" using m by simp
    then have "map_of (o_fields ?x) ?k = Some b" using t by (simp add: wf_tables_def map_of_is_SomeI)
    moreover have "o_class ?x = CType" using f c by auto
    ultimately show ?thesis by (simp add: get_def type_get_def)
  next
    case False
    then have f: "(?k, b) \<in> set (nestedArray ?x)" using m b by (simp add: table_def)
    then have n: "namespace_get ?x ?k = Some b" using t nm by (simp add: wf_tables_def map_of_is_SomeI)
    have "?k \<in> fst ` set (nestedArray ?x)" using f by force
    then have "map_of (o_fields ?x) ?k = None" "map_of (o_methods ?x) ?k = None"
      using t by (auto simp: wf_tables_def map_of_None)
    then show ?thesis
      using n by (simp add: get_def Let_def type_get_def service_get_def namespace_get_def)
  qed
qed

lemma unless_hang_Inr: "unless_hang s p = (Inr (), s') \<Longrightarrow> s' = s"
  by (simp add: unless_hang_def split: option.splits)

lemma onAdd_parent: "onAdd b p s = (Inr (), s') \<Longrightarrow> o_parent (objs s' b) = Some p"
  by (auto simp: onAdd_def dest!: unless_hang_Inr split: prod.splits sum.splits)

lemma bind_op_Inr: "bind_op p f = (Inr (), s') \<Longrightarrow> \<exists>s1. p = (Inr (), s1) \<and> f s1 = (Inr (), s')"
  by (cases p; cases "fst p") (auto simp: bind_op_def)

lemma namespace_add_parent:
  "namespace_add rec this b s = (Inr (), s') \<Longrightarrow> o_parent (objs s' b) = Some this"
  by (auto simp: namespace_add_def attach_def dest!: bind_op_Inr onAdd_parent split: if_splits option.splits)

lemma add_parent: "add d this b s = (Inr (), s') \<Longrightarrow> o_parent (objs s' b) = Some this"
  by (cases d)
     (auto simp: Let_def type_add_def service_add_def dest!: bind_op_Inr onAdd_parent namespace_add_parent
        split: if_splits sum.splits)

lemma add_good:
  "wf_store s \<Longrightarrow> this < free s \<Longrightarrow> b < free s \<Longrightarrow> add d this b s = (Inr (), s') \<Longrightarrow> wf_store s' \<and> same_kinds s s'"
  using adder.rec_good[of s this b d] by (simp add: good_def)

text \<open>A small store for the witnesses: a root with the namespace \<open>n\<close>.\<close>

definition one_namespace :: store where
  "one_namespace = snd (add 1 0 1 (snd (alloc (Namespace ''n'' None) start_store)))"

lemma obj_root_eval:
  "o_parent (objs s a) = None \<Longrightarrow> obj_root s a = Some a"
  "o_parent (objs s a) = Some p \<Longrightarrow> obj_root s a = obj_root s p"
  by (subst obj_root.simps, simp)+

lemmas store_eval = unless_hang_def obj_root_eval start_store_def alloc_def Namespace_def Type_def ReflectionObject_def is_namespace_def
  namespace_add_def valid_nested_def attach_def onAdd_def update_def assoc_set_def nestedArray_def
  get_def namespace_get_def Let_def

lemma one_namespace_eval:
  "o_parent (objs one_namespace 1) = Some 0" "o_name (objs one_namespace 1) = ''n''"
  "o_class (objs one_namespace 1) = CNamespace" "free one_namespace = 2" "o_class (objs one_namespace 0) = CRoot"
  by (simp_all add: one_namespace_def store_eval)

lemma one_namespace_objs:
  "objs one_namespace 0 = (ReflectionObject CRoot [] None)\<lparr>o_nested := Some [(''n'', 1)]\<rparr>"
  "objs one_namespace 1 = (Namespace ''n'' None)\<lparr>o_parent := Some 0\<rparr>"
  by (simp_all add: one_namespace_def store_eval)

lemmas one_namespace_facts = one_namespace_eval(4) one_namespace_objs one_namespace_objs[unfolded One_nat_def]

lemma one_namespace_reachable: "reachable one_namespace"
  unfolding one_namespace_def
  by (intro reachable.add reachable.new reachable.start) (simp_all add: store_eval)



text \<open>C21 The field ids of a type stay unique and unreserved: in every reachable store the getter
  \<open>fieldsById\<close> does not throw, it maps an id to the type's own field of that id, and no field
  has a reserved id or name.\<close>

theorem field_ids:
  assumes "reachable s"
  shows "\<exists>m. fieldsById s a = Inr m \<and>
    (\<forall>f. o_parent (objs s f) = Some a \<and> own_field (objs s f) \<longrightarrow>
       m (o_id (objs s f)) = Some f \<and> \<not> isReservedId (o_reserved (objs s a)) (int (o_id (objs s f))) \<and>
       \<not> isReservedName (o_reserved (objs s a)) (o_name (objs s f)))"
proof -
  have wf: "wf_store s" by (rule reachable_store_wf[OF assms])
  note ids = wf_ids_of[OF wf, unfolded wf_ids_def, rule_format, of a]
  have "distinct (map (\<lambda>(k, b). o_id (objs s b)) fs) \<Longrightarrow>
      \<forall>(k, b) \<in> set fs. m0 (o_id (objs s b)) = None \<Longrightarrow>
      \<exists>m. collect_ids s fs m0 = Inr m \<and> (\<forall>(k, b) \<in> set fs. m (o_id (objs s b)) = Some b) \<and>
          (\<forall>i f. m0 i = Some f \<longrightarrow> m i = Some f)" for fs m0
  proof (induction s fs m0 rule: collect_ids.induct)
    case (2 s k f fs byId)
    have "\<forall>(k, b) \<in> set fs. (byId(o_id (objs s f) \<mapsto> f)) (o_id (objs s b)) = None"
      using "2.prems" by force
    with "2.IH" "2.prems" obtain m where
      m: "collect_ids s fs (byId(o_id (objs s f) \<mapsto> f)) = Inr m" "\<forall>(k, b) \<in> set fs. m (o_id (objs s b)) = Some b"
        "\<forall>i g. (byId(o_id (objs s f) \<mapsto> f)) i = Some g \<longrightarrow> m i = Some g"
      by (auto simp del: fun_upd_apply)
    have "m (o_id (objs s f)) = Some f" using m(3) by simp
    moreover have "byId i = Some g \<Longrightarrow> m i = Some g" for i g
      using m(3)[rule_format, of i g] "2.prems" by (cases "i = o_id (objs s f)") auto
    ultimately show ?case using m(1,2) "2.prems" by auto
  qed simp
  from this[of "o_fields (objs s a)" Map.empty] ids obtain m where
    m: "fieldsById s a = Inr m" "\<forall>(k, b) \<in> set (o_fields (objs s a)). m (o_id (objs s b)) = Some b"
    by (auto simp: fieldsById_def)
  have "(o_name (objs s f), f) \<in> set (o_fields (objs s a))"
    if "o_parent (objs s f) = Some a" "own_field (objs s f)" for f
    using wf_parent[OF wf that(1)] that(2) by simp
  then show ?thesis using m ids by fast
qed

theorem field_ids_witness:
  "\<exists>m. fieldsById one_namespace 1 = Inr m \<and>
    (\<forall>f. o_parent (objs one_namespace f) = Some 1 \<and> own_field (objs one_namespace f) \<longrightarrow>
       m (o_id (objs one_namespace f)) = Some f \<and>
       \<not> isReservedId (o_reserved (objs one_namespace 1)) (int (o_id (objs one_namespace f))) \<and>
       \<not> isReservedName (o_reserved (objs one_namespace 1)) (o_name (objs one_namespace f)))"
  by (rule field_ids[OF one_namespace_reachable])



lemma namespace_add_atomic:
  assumes "wf_store s" and "this < free s" "b < free s" and p: "is_namespace (objs s this)"
    and g: "get s this (o_name (objs s b)) = None" and e: "namespace_add rec this b s = (Inl e, s')" "e \<noteq> hang"
  shows "s' = s"
proof (cases "valid_nested (objs s b)")
  case True
  have "attach this b s = unless_hang (attached this b s) this"
    using g get_None[OF assms(1) p] True by (intro attach_insert[OF assms(1)]) (auto simp: free_name_def)
  moreover have "unless_hang t this \<noteq> (Inl e, s')" for t
    using e(2) by (auto simp: unless_hang_def split: option.splits)
  ultimately show ?thesis
    using e(1) g True by (cases "o_nested (objs s this) = None") (simp_all add: namespace_add_def)
qed (use e in \<open>simp add: namespace_add_def\<close>)


definition named_type :: store where
  "named_type =
     snd (add 1 1 2 (snd (alloc (Namespace ''n'' None) (snd (alloc (Namespace ''n'' None)
       (snd (add 1 0 1 (snd (alloc (Type ''T'' None) start_store)))))))))"


lemma ancestry_top: "ancestry s a as \<Longrightarrow> b \<in> set as \<Longrightarrow> o_parent (objs s b) = None \<Longrightarrow> b = hd as"
proof (induction rule: ancestry.induct)
  case (child a p as)
  then show ?case using ancestry_nonempty[OF child.hyps(2)] by auto
qed simp

lemma ancestry_keep:
  assumes "ancestry s a as" and "b \<notin> set as"
    and "\<And>x. x \<noteq> b \<Longrightarrow> o_parent (objs s' x) = o_parent (objs s x)"
  shows "ancestry s' a as"
  using assms(1,2) by (induction rule: ancestry.induct) (use assms(3) in \<open>auto intro: ancestry.intros\<close>)

text \<open>What \<open>add\<close> does with an object that has no parent yet.\<close>

lemma add_new_root:
  assumes wf: "wf_store s" and b: "o_parent (objs s b) = None" and r: "obj_root s this \<noteq> Some b"
    and same: "\<And>x. x \<noteq> b \<Longrightarrow> o_parent (objs s' x) = o_parent (objs s x)"
  shows "obj_root s' this \<noteq> None"
proof -
  obtain as where as: "ancestry s this as" using wf_forest[OF wf] by (auto simp: forest_def)
  have "b \<notin> set as" using ancestry_top[OF as _ b] obj_root_ancestry[OF as] r by auto
  then have "ancestry s' this as" using same by (intro ancestry_keep[OF as, where b = b])
  then show ?thesis using obj_root_ancestry by fastforce
qed

lemma add_new_nested:
  assumes wf: "wf_store s" and p: "is_namespace (objs s this)"
    and b: "valid_nested (objs s b)" "o_parent (objs s b) = None" and g: "get s this (o_name (objs s b)) = None"
    and r: "obj_root s this \<noteq> Some b"
  shows "add (Suc d) this b s = (Inr (), insert_nested this b s)"
    and "obj_root (insert_nested this b s) this \<noteq> None"
proof -
  have fr: "free_name (o_name (objs s b)) (objs s this)" using get_None[OF wf p] g by simp
  have c: "o_class (objs s b) \<noteq> CMethod" "\<not> own_field (objs s b)" using valid_nested_kind[OF b(1)] by simp_all
  show ro: "obj_root (insert_nested this b s) this \<noteq> None"
    by (rule add_new_root[OF wf b(2) r]) (simp add: insert_defs)
  then have "attach this b s = (Inr (), insert_nested this b s)"
    using attach_insert[OF wf b(1), of this] fr b(2)
    by (auto simp: free_name_def attached_def unless_hang_def split: option.splits)
  then show "add (Suc d) this b s = (Inr (), insert_nested this b s)"
    using p b g c by (simp add: Let_def type_add_def service_add_def namespace_add_def)
qed

lemma fieldsById_Inr:
  assumes wf: "wf_store s"
  shows "\<exists>m. fieldsById s a = Inr m"
proof -
  have "distinct (map (\<lambda>(k, b). o_id (objs s b)) fs) \<Longrightarrow>
      \<forall>(k, b) \<in> set fs. m0 (o_id (objs s b)) = None \<Longrightarrow> \<exists>m. collect_ids s fs m0 = Inr m" for fs m0
  proof (induction s fs m0 rule: collect_ids.induct)
    case (2 s k f fs byId)
    have "\<forall>(k, b) \<in> set fs. (byId(o_id (objs s f) \<mapsto> f)) (o_id (objs s b)) = None"
      using "2.prems" by force
    then show ?case using "2.IH" "2.prems" by (auto simp del: fun_upd_apply)
  qed simp
  then show ?thesis
    using wf_ids_of[OF wf] by (auto simp: fieldsById_def wf_ids_def)
qed

lemma add_new_field:
  assumes wf: "wf_store s" and c: "o_class (objs s this) = CType"
    and b: "own_field (objs s b)" "o_parent (objs s b) = None"
    and g: "get s this (o_name (objs s b)) = None" and r: "obj_root s this \<noteq> Some b"
    and i: "o_id (objs s b) \<notin> (\<lambda>(k, f). o_id (objs s f)) ` set (o_fields (objs s this))"
    and re: "\<not> isReservedId (o_reserved (objs s this)) (int (o_id (objs s b)))"
      "\<not> isReservedName (o_reserved (objs s this)) (o_name (objs s b))"
  shows "add (Suc d) this b s = (Inr (), insert_field this b s)"
proof -
  have p: "is_namespace (objs s this)" using c by (simp add: is_namespace_def)
  have fr: "free_name (o_name (objs s b)) (objs s this)" using get_None[OF wf p] g by simp
  obtain m where m: "fieldsById s this = Inr m" using fieldsById_Inr[OF wf] by blast
  have mi: "m (o_id (objs s b)) = None" using fieldsById_ids[OF m] i by simp
  have set: "assoc_set (o_name (objs s b)) b (o_fields (objs s this)) = o_fields (objs s this) @ [(o_name (objs s b), b)]"
    using fr by (intro assoc_set_fresh) (simp add: free_name_def)
  have ro: "obj_root (insert_field this b s) this \<noteq> None"
    by (rule add_new_root[OF wf b(2) r]) (simp add: insert_defs)
  have "onAdd b this (update this (\<lambda>y. y\<lparr>o_fields := assoc_set (o_name (objs s b)) b (o_fields y)\<rparr>) s) =
      unless_hang (insert_field this b s) this"
    using b(2) set
    by (auto simp: onAdd_def insert_field_def intro!: arg_cong[where f = "\<lambda>s. unless_hang s this"] store_eqI)
  then show ?thesis
    using c g b m mi re ro by (auto simp: Let_def type_add_def bind_op_def unless_hang_def)
qed

lemma add_new_method:
  assumes wf: "wf_store s" and c: "o_class (objs s this) = CService" and b: "o_class (objs s b) = CMethod"
    and g: "get s this (o_name (objs s b)) = None"
  shows "add (Suc d) this b s = (Inr (), insert_method this b s)"
proof -
  have p: "is_namespace (objs s this)" using c by (simp add: is_namespace_def)
  have "free_name (o_name (objs s b)) (objs s this)" using get_None[OF wf p] g by simp
  then have "assoc_set (o_name (objs s b)) b (o_methods (objs s this)) = o_methods (objs s this) @ [(o_name (objs s b), b)]"
    by (intro assoc_set_fresh) (simp add: free_name_def)
  then show ?thesis
    using c g b by (auto simp: service_add_def insert_method_def Let_def intro!: store_eqI)
qed



inductive_cases ancestry_cases: "ancestry s a as"

lemma ancestry_top_path: "ancestry s a as \<Longrightarrow> o_parent (objs s a) = None \<Longrightarrow> as = [a]"
  by (erule ancestry_cases) simp_all

lemma ancestry_child_path:
  "ancestry s a as \<Longrightarrow> o_parent (objs s a) = Some p \<Longrightarrow> \<exists>bs. as = bs @ [a] \<and> ancestry s p bs"
  by (erule ancestry_cases) simp_all

lemma ancestry_fun: "ancestry s a as \<Longrightarrow> ancestry s a bs \<Longrightarrow> as = bs"
proof (induction arbitrary: bs rule: ancestry.induct)
  case (top a)
  show ?case using ancestry_top_path[OF top.prems top.hyps] by simp
next
  case (child a p as)
  obtain cs where cs: "bs = cs @ [a]" "ancestry s p cs"
    using ancestry_child_path[OF child.prems child.hyps(1)] by blast
  show ?case using child.IH[OF cs(2)] cs(1) by simp
qed

lemma ancestry_above: "ancestry s a as \<Longrightarrow> x \<in> set as \<Longrightarrow> \<exists>bs. ancestry s x bs \<and> length bs \<le> length as"
proof (induction rule: ancestry.induct)
  case (top a)
  then show ?case using ancestry.top[OF top.hyps] by auto
next
  case (child a p as)
  show ?case
  proof (cases "x = a")
    case True
    then show ?thesis using ancestry.child[OF child.hyps(1,2)] by blast
  qed (use child in fastforce)
qed

lemma ancestry_acyclic:
  assumes "o_parent (objs s a) = Some p" and "ancestry s p as"
  shows "a \<notin> set as"
proof
  assume "a \<in> set as"
  then obtain bs where bs: "ancestry s a bs" "length bs \<le> length as" using ancestry_above[OF assms(2)] by blast
  have "bs = as @ [a]" by (rule ancestry_fun[OF bs(1) ancestry.child[OF assms]])
  then show False using bs(2) by simp
qed

text \<open>C36 The getters that follow the parents return in every reachable store: \<open>root\<close> is the
  topmost ancestor, and \<open>fullName\<close> is the names on the way down from it, joined by dots.\<close>

theorem root_and_fullName:
  assumes "reachable s"
  shows "\<exists>as. as \<noteq> [] \<and> last as = a \<and> distinct as \<and> o_parent (objs s (hd as)) = None \<and>
    obj_root s a = Some (hd as) \<and> fullName s a = Some (join_dots (map (\<lambda>x. o_name (objs s x)) as))"
proof -
  obtain as where as: "ancestry s a as" using wf_forest[OF reachable_store_wf[OF assms]] by (auto simp: forest_def)
  have "last as = a \<and> distinct as \<and> o_parent (objs s (hd as)) = None \<and>
      path_names s a = Some (map (\<lambda>x. o_name (objs s x)) as)"
    using as
  proof (induction rule: ancestry.induct)
    case (top a)
    then show ?case by (subst path_names.simps) simp
  next
    case (child a p as)
    have "a \<notin> set as"
      by (rule ancestry_acyclic[OF child.hyps])
    then show ?case
      using child ancestry_nonempty[OF child.hyps(2)] by (subst path_names.simps) simp
  qed
  then show ?thesis using ancestry_nonempty[OF as] obj_root_ancestry[OF as] by (auto simp: fullName_def)
qed

theorem root_and_fullName_witness:
  "\<exists>as. as \<noteq> [] \<and> last as = 1 \<and> distinct as \<and> o_parent (objs one_namespace (hd as)) = None \<and>
    obj_root one_namespace 1 = Some (hd as) \<and>
    fullName one_namespace 1 = Some (join_dots (map (\<lambda>x. o_name (objs one_namespace x)) as))"
  by (rule root_and_fullName[OF one_namespace_reachable])

text \<open>Nothing keeps a namespace out of its own subtree: adding an object to one of its
  descendants, or to itself, does not return (the object has become its own ancestor, and
  \<open>onAdd\<close> asks for the root).\<close>

theorem add_cycle_hangs:
  assumes "reachable s" and "ancestry s this as" and "b \<in> set as"
    and "is_namespace (objs s this)" and "valid_nested (objs s b)" and "get s this (o_name (objs s b)) = None"
  shows "\<exists>s'. add (Suc d) this b s = (Inl hang, s') \<and> o_parent (objs s' b) = Some this"
proof -
  have wf: "wf_store s" by (rule reachable_store_wf[OF assms(1)])
  have fr: "free_name (o_name (objs s b)) (objs s this)" using get_None[OF wf assms(4)] assms(6) by simp
  have c: "o_class (objs s b) \<noteq> CMethod" "\<not> own_field (objs s b)" using valid_nested_kind[OF assms(5)] by simp_all
  let ?s' = "attached this b s"
  have p: "o_parent (objs ?s' x) = (if x = b then Some this else o_parent (objs s x))" for x
    using c by (simp add: attached_def insert_defs detach_def unparent_def Let_def split: option.splits)
  have "\<not> ancestry ?s' x bs" if "ancestry s x as" "b \<in> set as" for x as bs
  proof
    assume "ancestry ?s' x bs"
    then show False
      using that
    proof (induction arbitrary: as rule: ancestry.induct)
      case (top x)
      then show ?case using ancestry_top_path[of s x as] by (auto simp: p split: if_splits)
    next
      case (child x q bs)
      then show ?case
        using assms(2,3) ancestry_child_path[of s x as q] by (cases "x = b") (auto simp: p)
    qed
  qed
  then have "obj_root ?s' this = None"
    using ancestry_obj_root assms(2,3) by (metis not_None_eq)
  then have "attach this b s = (Inl hang, ?s')"
    using attach_insert[OF wf assms(5), of this] fr by (simp add: free_name_def unless_hang_def)
  then have "add (Suc d) this b s = (Inl hang, ?s')"
    using assms(4-6) c by (simp add: Let_def type_add_def service_add_def namespace_add_def)
  then show ?thesis by (simp add: p)
qed

theorem add_cycle_hangs_witness:
  "\<exists>s'. add (Suc 0) 1 0 one_namespace = (Inl hang, s') \<and> o_parent (objs s' 0) = Some 1"
proof (rule add_cycle_hangs[OF one_namespace_reachable])
  show "ancestry one_namespace 1 ([0] @ [1])"
    by (rule ancestry.child[OF one_namespace_eval(1) ancestry.top]) (simp add: one_namespace_facts store_eval)
qed (simp_all add: one_namespace_facts store_eval)

text \<open>The store of the next theorem, one member after the other.\<close>

definition merge_store1 :: store where
  "merge_store1 = snd (add 1 1 2 (snd (alloc (Type ''x'' None) one_namespace)))"

definition merge_store2 :: store where
  "merge_store2 = snd (add 1 1 3 (snd (alloc (Type ''y'' None) merge_store1)))"

definition merge_store :: store where
  "merge_store = snd (add 1 4 5 (snd (alloc (Type ''y'' None) (snd (alloc (Namespace ''n'' None) merge_store2)))))"

lemma merge_store1_facts:
  "free merge_store1 = 3"
  "objs merge_store1 0 = objs one_namespace 0"
  "objs merge_store1 1 = (Namespace ''n'' None)\<lparr>o_parent := Some 0, o_nested := Some [(''x'', 2)]\<rparr>"
  "objs merge_store1 2 = (Type ''x'' None)\<lparr>o_parent := Some 1\<rparr>"
  by (simp_all add: merge_store1_def one_namespace_facts store_eval)

lemmas merge_store1_eval = merge_store1_facts merge_store1_facts(3)[unfolded One_nat_def]

lemma merge_store2_facts:
  "free merge_store2 = 4"
  "objs merge_store2 0 = objs one_namespace 0"
  "objs merge_store2 1 = (Namespace ''n'' None)\<lparr>o_parent := Some 0, o_nested := Some [(''x'', 2), (''y'', 3)]\<rparr>"
  "objs merge_store2 2 = (Type ''x'' None)\<lparr>o_parent := Some 1\<rparr>"
  "objs merge_store2 3 = (Type ''y'' None)\<lparr>o_parent := Some 1\<rparr>"
  by (simp_all add: merge_store2_def merge_store1_eval one_namespace_facts store_eval)

lemmas merge_store2_eval = merge_store2_facts merge_store2_facts(3)[unfolded One_nat_def]

lemma merge_store_facts:
  "free merge_store = 6"
  "objs merge_store 0 = objs one_namespace 0"
  "objs merge_store 1 = (Namespace ''n'' None)\<lparr>o_parent := Some 0, o_nested := Some [(''x'', 2), (''y'', 3)]\<rparr>"
  "objs merge_store 2 = (Type ''x'' None)\<lparr>o_parent := Some 1\<rparr>"
  "objs merge_store 3 = (Type ''y'' None)\<lparr>o_parent := Some 1\<rparr>"
  "objs merge_store 4 = (Namespace ''n'' None)\<lparr>o_nested := Some [(''y'', 5)]\<rparr>"
  "objs merge_store 5 = (Type ''y'' None)\<lparr>o_parent := Some 4\<rparr>"
  by (simp_all add: merge_store_def merge_store2_eval one_namespace_facts store_eval)

lemma merge_store_reachable: "reachable merge_store"
proof -
  have "reachable merge_store1"
    unfolding merge_store1_def
    by (intro reachable.add reachable.new one_namespace_reachable) (simp_all add: one_namespace_facts store_eval)
  then have "reachable merge_store2"
    unfolding merge_store2_def
    by (intro reachable.add reachable.new) (simp_all add: merge_store1_eval one_namespace_facts store_eval)
  then show ?thesis
    unfolding merge_store_def
    by (intro reachable.add reachable.new) (simp_all add: merge_store2_eval one_namespace_facts store_eval)
qed


end
