(* ===== verification/Paths.thy ===== *)
theory Paths
  imports Members
begin

text \<open>
  Finding objects by their path: \<open>lookup\<close> returns in every reachable store, the full name of an
  object leads back to it, and \<open>define\<close> creates what it does not find and nothing else.
\<close>

section \<open>Lookup returns\<close>

lemma or_else_Some: "(\<exists>v. or_else x y = Some v) \<longleftrightarrow> (\<exists>v. x = Some v) \<and> (x = Some None \<longrightarrow> (\<exists>v. y = Some v))"
  by (auto simp: or_else_def split: option.splits)

lemma or_else_found [simp]: "or_else (Some (Some a)) y = Some (Some a)"
  by (simp add: or_else_def)

definition extends :: "nat option option \<Rightarrow> nat option option \<Rightarrow> bool" where
  "extends x y \<longleftrightarrow> x \<noteq> None \<longrightarrow> y = x"

lemma extends_refl [simp]: "extends x x"
  by (simp add: extends_def)

lemma extends_None [simp]: "extends None y"
  by (simp add: extends_def)

lemma extends_or_else: "extends x x' \<Longrightarrow> extends y y' \<Longrightarrow> extends (or_else x y) (or_else x' y')"
  by (auto simp: extends_def or_else_def split: option.splits)

text \<open>The two places where a call looks: the members of the object, and its parent.\<close>

definition below :: "nat \<Rightarrow> store \<Rightarrow> nat \<Rightarrow> string list \<Rightarrow> obj_class list option \<Rightarrow> nat option option" where
  "below n s this path f =
     (case get s this (hd path) of
        Some a \<Rightarrow> if tl path = [] then Some (filter_type f s a)
          else if is_namespace (objs s a) then lookup n s a (tl path) f True else Some None
      | None \<Rightarrow> lookup_nested n s (map snd (nestedArray (objs s this))) path f)"

definition above :: "nat \<Rightarrow> store \<Rightarrow> nat \<Rightarrow> string list \<Rightarrow> obj_class list option \<Rightarrow> bool \<Rightarrow> nat option option" where
  "above n s this path f c =
     (case o_parent (objs s this) of
        None \<Rightarrow> Some None | Some p \<Rightarrow> if c then Some None else lookup n s p path f False)"

lemma lookup_step:
  assumes "path \<noteq> []" and "hd path \<noteq> []"
  shows "lookup (Suc n) s this path f c = or_else (below n s this path f) (above n s this path f c)"
  using assms by (simp only: lookup.simps below_def above_def if_False)

lemma lookup_empty: "lookup (Suc n) s this [] f c = Some (Some this)"
  by simp

lemma lookup_absolute:
  assumes "path \<noteq> []" and "hd path = []"
  shows "lookup (Suc n) s this path f c =
    (case obj_root s this of None \<Rightarrow> None | Some r \<Rightarrow> lookup n s r (tl path) f False)"
  using assms by (simp only: lookup.simps if_False if_True refl)

declare lookup.simps(2) [simp del]

lemma lookup_Suc:
  "extends (lookup n s this path f c) (lookup (Suc n) s this path f c)"
  "extends (lookup_nested n s as path f) (lookup_nested (Suc n) s as path f)"
proof (induction n s this path f c and n s as path f rule: lookup_lookup_nested.induct)
  case (2 n s this path f c)
  consider "path = []" | "path \<noteq> []" "hd path = []" | "path \<noteq> []" "hd path \<noteq> []" by blast
  then show ?case
  proof cases
    case 2
    then show ?thesis using "2.IH"(1) by (cases "obj_root s this") (simp_all add: lookup_absolute)
  next
    case 3
    have "extends (below n s this path f) (below (Suc n) s this path f)"
      using "2.IH"(2,3) 3 unfolding below_def by (cases "get s this (hd path)") simp_all
    moreover have "extends (above n s this path f c) (above (Suc n) s this path f c)"
      using "2.IH"(4) 3 unfolding above_def by (cases "o_parent (objs s this)") simp_all
    ultimately show ?thesis using 3 by (simp add: lookup_step extends_or_else)
  qed (simp add: lookup_empty)
qed (simp_all add: extends_or_else)

lemma lookup_mono: "n \<le> m \<Longrightarrow> lookup n s this path f c \<noteq> None \<Longrightarrow> lookup m s this path f c = lookup n s this path f c"
proof (induction m)
  case (Suc m)
  then show ?case using lookup_Suc(1)[of m s this path f c] by (cases "n = Suc m") (auto simp: extends_def le_Suc_eq)
qed simp

lemma lookup_nested_mono:
  "n \<le> m \<Longrightarrow> lookup_nested n s as path f \<noteq> None \<Longrightarrow> lookup_nested m s as path f = lookup_nested n s as path f"
proof (induction m)
  case (Suc m)
  then show ?case using lookup_Suc(2)[of m s as path f] by (cases "n = Suc m") (auto simp: extends_def le_Suc_eq)
qed simp

text \<open>With enough fuel a call returns.\<close>

definition finds :: "store \<Rightarrow> nat \<Rightarrow> string list \<Rightarrow> obj_class list option \<Rightarrow> bool \<Rightarrow> bool" where
  "finds s this path f c \<longleftrightarrow> (\<exists>n. lookup n s this path f c \<noteq> None)"

lemma finds_nested:
  "\<forall>a \<in> set as. is_namespace (objs s a) \<longrightarrow> finds s a path f True \<Longrightarrow> \<exists>n. lookup_nested n s as path f \<noteq> None"
proof (induction as)
  case (Cons a as)
  then obtain n where n: "lookup_nested n s as path f \<noteq> None" by auto
  show ?case
  proof (cases "is_namespace (objs s a)")
    case True
    then obtain m where m: "lookup m s a path f True \<noteq> None" using Cons.prems by (auto simp: finds_def)
    have "lookup (max n m) s a path f True \<noteq> None" "lookup_nested (max n m) s as path f \<noteq> None"
      using lookup_mono[OF _ m, of "max n m"] lookup_nested_mono[OF _ n, of "max n m"] m n by simp_all
    then have "lookup_nested (max n m) s (a # as) path f \<noteq> None"
      using True by (simp add: or_else_Some)
    then show ?thesis by blast
  qed (use n in auto)
qed simp

lemma below_mono: "n \<le> m \<Longrightarrow> below n s this path f \<noteq> None \<Longrightarrow> below m s this path f = below n s this path f"
  unfolding below_def by (auto simp: lookup_mono lookup_nested_mono split: option.splits)

lemma above_mono: "n \<le> m \<Longrightarrow> above n s this path f c \<noteq> None \<Longrightarrow> above m s this path f c = above n s this path f c"
  unfolding above_def by (auto simp: lookup_mono split: option.splits)

lemma finds_step:
  assumes p: "path \<noteq> []" "hd path \<noteq> []"
    and found: "\<And>a. get s this (hd path) = Some a \<Longrightarrow> is_namespace (objs s a) \<Longrightarrow> finds s a (tl path) f True"
    and nested: "\<And>k a. (k, a) \<in> set (nestedArray (objs s this)) \<Longrightarrow> finds s a path f True"
    and up: "\<And>p. o_parent (objs s this) = Some p \<Longrightarrow> \<not> c \<Longrightarrow> finds s p path f False"
  shows "finds s this path f c"
proof -
  obtain n where n: "below n s this path f \<noteq> None"
  proof (cases "get s this (hd path)")
    case None
    have "\<exists>n. lookup_nested n s (map snd (nestedArray (objs s this))) path f \<noteq> None"
      using nested by (intro finds_nested) auto
    then obtain n where "lookup_nested n s (map snd (nestedArray (objs s this))) path f \<noteq> None" ..
    then have "below n s this path f \<noteq> None" using None by (simp add: below_def)
    then show ?thesis by (rule that)
  next
    case (Some a)
    show ?thesis
    proof (cases "tl path \<noteq> [] \<and> is_namespace (objs s a)")
      case True
      then obtain n where "lookup n s a (tl path) f True \<noteq> None" using found[OF Some] by (auto simp: finds_def)
      then have "below n s this path f \<noteq> None" using Some True by (simp add: below_def)
      then show ?thesis by (rule that)
    next
      case False
      then have "below 0 s this path f \<noteq> None" using Some by (auto simp: below_def)
      then show ?thesis by (rule that)
    qed
  qed
  obtain k where k: "above k s this path f c \<noteq> None"
  proof (cases "o_parent (objs s this) = None \<or> c")
    case True
    then have "above 0 s this path f c \<noteq> None" by (auto simp: above_def split: option.split)
    then show ?thesis by (rule that)
  next
    case False
    then obtain q where q: "o_parent (objs s this) = Some q" "\<not> c" by auto
    obtain k where "lookup k s q path f False \<noteq> None" using up[OF q] by (auto simp: finds_def)
    then have "above k s this path f c \<noteq> None" using q by (simp add: above_def)
    then show ?thesis by (rule that)
  qed
  have "lookup (Suc (max n k)) s this path f c \<noteq> None"
    using n k below_mono[OF _ n, of "max n k"] above_mono[OF _ k, of "max n k"]
    by (simp add: lookup_step[OF p] or_else_Some)
  then show ?thesis unfolding finds_def by blast
qed

lemma ancestry_free:
  assumes "wf_store s" and "ancestry s a as" and "a < free s"
  shows "set as \<subseteq> {..<free s}"
  using assms(2,3)
proof (induction rule: ancestry.induct)
  case (child a p as)
  then show ?case using wf_parent_free[OF assms(1) child.hyps(1)] by auto
qed simp

lemma ancestry_distinct: "ancestry s a as \<Longrightarrow> distinct as"
proof (induction rule: ancestry.induct)
  case (child a p as)
  then show ?case using ancestry_acyclic[OF child.hyps] by simp
qed simp

lemma get_free:
  assumes wf: "wf_store s" and g: "get s a k = Some b"
  shows "b < free s"
proof -
  have "(k, b) \<in> set (nestedArray (objs s a)) \<or> (k, b) \<in> set (o_fields (objs s a)) \<or> (k, b) \<in> set (o_methods (objs s a))"
    using g
    by (auto simp: get_def Let_def type_get_def service_get_def namespace_get_def nestedArray_def
        dest: map_of_SomeD split: if_splits option.splits)
  then show ?thesis
  proof (elim disjE)
    assume "(k, b) \<in> set (nestedArray (objs s a))"
    then show ?thesis using wf_nested_free[OF wf] by simp
  next
    assume "(k, b) \<in> set (o_fields (objs s a))"
    then have "o_parent (objs s b) = Some a" using wf_field[OF wf] by simp
    then show ?thesis using wf_parent_free[OF wf] by simp
  next
    assume "(k, b) \<in> set (o_methods (objs s a))"
    then show ?thesis using wf_unused[OF wf] by (auto simp: unused_def)
  qed
qed

lemma finds_under:
  assumes wf: "wf_store s" and p: "path \<noteq> []" "hd path \<noteq> []"
    and IH: "\<And>a c. a < free s \<Longrightarrow> finds s a (tl path) f c"
  shows "ancestry s a as \<Longrightarrow> a < free s \<Longrightarrow> finds s a path f True"
proof (induction "free s - length as" arbitrary: a as rule: less_induct)
  case less
  have nested: "finds s b path f True" if k: "(k, b) \<in> set (nestedArray (objs s a))" for k b
  proof -
    have b: "o_parent (objs s b) = Some a" "b < free s" using wf_nested[OF wf k] wf_nested_free[OF wf k] by simp_all
    have anc: "ancestry s b (as @ [b])" by (rule ancestry.child[OF b(1) less.prems(1)])
    have "length (as @ [b]) \<le> free s"
      using card_mono[OF _ ancestry_free[OF wf anc b(2)]] distinct_card[OF ancestry_distinct[OF anc]] by simp
    then show ?thesis using less.hyps[OF _ anc b(2)] by simp
  qed
  show ?case by (rule finds_step[OF p IH[OF get_free[OF wf]] nested]) simp_all
qed

lemma lookup_finds:
  assumes wf: "wf_store s"
  shows "a < free s \<Longrightarrow> finds s a path f c"
proof (induction "length path" arbitrary: path a c rule: less_induct)
  case less
  obtain as where as: "ancestry s a as" using wf_forest[OF wf] by (auto simp: forest_def)
  consider "path = []" | "path \<noteq> []" "hd path = []" | "path \<noteq> []" "hd path \<noteq> []" by blast
  then show ?case
  proof cases
    case 1
    then have "lookup (Suc 0) s a path f d \<noteq> None" for d by (simp add: lookup_empty)
    then show ?thesis unfolding finds_def by blast
  next
    case 2
    have "hd as < free s" using ancestry_free[OF wf as less.prems] hd_in_set[OF ancestry_nonempty[OF as]] by blast
    then have "finds s (hd as) (tl path) f False" using 2 less.hyps[of "tl path"] by simp
    then obtain n where "lookup n s (hd as) (tl path) f False \<noteq> None" by (auto simp: finds_def)
    then have "lookup (Suc n) s a path f d \<noteq> None" for d
      using 2 by (simp add: lookup_absolute obj_root_ancestry[OF as])
    then show ?thesis unfolding finds_def by blast
  next
    case 3
    have IH: "finds s b (tl path) f d" if "b < free s" for b d
      using less.hyps[of "tl path" b d] 3 that by simp
    have nested: "finds s x path f True" if "(k, x) \<in> set (nestedArray (objs s b))" "ancestry s b bs" for k b x bs
      using finds_under[OF wf 3 IH ancestry.child[OF _ that(2)]] wf_nested[OF wf that(1)] wf_nested_free[OF wf that(1)]
      by blast
    have "ancestry s b bs \<Longrightarrow> b < free s \<Longrightarrow> finds s b path f c" for b bs c
    proof (induction arbitrary: c rule: ancestry.induct)
      case (top b)
      show ?case
        by (rule finds_step[OF 3 IH[OF get_free[OF wf]] nested[OF _ ancestry.top[OF top.hyps]]])
           (simp_all add: top.hyps)
    next
      case (child b p ps)
      have "p < free s" using wf_parent_free[OF wf child.hyps(1)] by simp
      then have up: "\<And>d. finds s p path f d" by (rule child.IH)
      show ?case
        by (rule finds_step[OF 3 IH[OF get_free[OF wf]] nested[OF _ ancestry.child[OF child.hyps]]])
           (simp_all add: child.hyps(1) up)
    qed
    then show ?thesis using as less.prems by blast
  qed
qed

section \<open>What is found\<close>

lemma obj_root_parent: "o_parent (objs s a) = Some p \<Longrightarrow> obj_root s a = obj_root s p"
  by (subst obj_root.simps) simp

lemma get_member:
  assumes wf: "wf_store s" and g: "get s a k = Some b"
  shows "o_name (objs s b) = k" and "o_class (objs s b) \<noteq> CMethod \<Longrightarrow> o_parent (objs s b) = Some a"
proof -
  have m: "(k, b) \<in> set (nestedArray (objs s a)) \<or> (k, b) \<in> set (o_fields (objs s a)) \<or> (k, b) \<in> set (o_methods (objs s a))"
    using g
    by (auto simp: get_def Let_def type_get_def service_get_def namespace_get_def nestedArray_def
        dest: map_of_SomeD split: if_splits option.splits)
  show "o_name (objs s b) = k"
    using m wf_nested[OF wf] wf_field[OF wf] wf_method[OF wf] by blast
  show "o_class (objs s b) \<noteq> CMethod \<Longrightarrow> o_parent (objs s b) = Some a"
    using m wf_nested[OF wf] wf_field[OF wf] wf_method[OF wf] by blast
qed

lemma get_namespace:
  assumes "wf_store s" and "get s a k = Some b"
  shows "is_namespace (objs s a)"
proof (rule ccontr)
  assume "\<not> is_namespace (objs s a)"
  then have "o_nested (objs s a) = None" "o_class (objs s a) \<noteq> CType" "o_class (objs s a) \<noteq> CService"
    using wf_classes[OF assms(1), of a] by (auto simp: is_namespace_def)
  then show False using assms(2) by (simp add: get_def namespace_get_def)
qed

lemma get_root:
  assumes "wf_store s" and "get s a k = Some b" and "o_class (objs s b) \<noteq> CMethod"
  shows "obj_root s b = obj_root s a"
  using obj_root_parent[OF get_member(2)[OF assms]] .

definition right_object :: "store \<Rightarrow> nat \<Rightarrow> string list \<Rightarrow> obj_class list option \<Rightarrow> nat \<Rightarrow> bool" where
  "right_object s this path f b \<longleftrightarrow>
     o_name (objs s b) = last path \<and> (\<forall>cs. f = Some cs \<longrightarrow> o_class (objs s b) \<in> set cs) \<and>
     (o_class (objs s b) \<noteq> CMethod \<longrightarrow> obj_root s b = obj_root s this)"

lemma or_else_cases: "or_else x y = Some (Some b) \<Longrightarrow> x = Some (Some b) \<or> y = Some (Some b)"
  by (auto simp: or_else_def split: option.splits)

lemma root_of_root: "wf_store s \<Longrightarrow> obj_root s a = Some r \<Longrightarrow> obj_root s r = Some r"
proof -
  assume wf: "wf_store s" and r: "obj_root s a = Some r"
  obtain as where as: "ancestry s a as" using wf_forest[OF wf] by (auto simp: forest_def)
  have "ancestry s a as \<Longrightarrow> o_parent (objs s (hd as)) = None"
  proof (induction rule: ancestry.induct)
    case (child a p as)
    then show ?case using ancestry_nonempty[OF child.hyps(2)] by simp
  qed simp
  then have "o_parent (objs s r) = None" using obj_root_ancestry[OF as] as r by simp
  then show "obj_root s r = Some r" by (subst obj_root.simps) simp
qed

lemma namespace_not_method: "is_namespace x \<Longrightarrow> o_class x \<noteq> CMethod"
  by (auto simp: is_namespace_def)

lemma lookup_sound:
  "wf_store s \<Longrightarrow> path \<noteq> [] \<Longrightarrow> last path \<noteq> [] \<Longrightarrow> lookup n s this path f c = Some (Some b) \<Longrightarrow> right_object s this path f b"
  "wf_store s \<Longrightarrow> path \<noteq> [] \<Longrightarrow> last path \<noteq> [] \<Longrightarrow> hd path \<noteq> [] \<Longrightarrow>
      \<forall>a \<in> set as. is_namespace (objs s a) \<longrightarrow> obj_root s a = obj_root s this \<Longrightarrow>
      lookup_nested n s as path f = Some (Some b) \<Longrightarrow> right_object s this path f b"
proof (induction n s this path f c and n s as path f arbitrary: b and this b rule: lookup_lookup_nested.induct)
  case (2 n s this path f c)
  note wf = "2.prems"(1)
  show ?case
  proof (cases "hd path = []")
    case True
    then obtain r where r: "obj_root s this = Some r" "lookup n s r (tl path) f False = Some (Some b)"
      using "2.prems" by (auto simp: lookup_absolute split: option.splits)
    have "tl path \<noteq> []" "last (tl path) = last path"
      using "2.prems"(2,3) True by (cases path; auto)+
    then have "right_object s r (tl path) f b"
      using "2.IH"(1)[OF "2.prems"(2) True r(1) wf] r(2) "2.prems"(3) by simp
    then show ?thesis
      using \<open>last (tl path) = last path\<close> root_of_root[OF wf r(1)] r(1) by (simp add: right_object_def)
  next
    case False
    have "below n s this path f = Some (Some b) \<or> above n s this path f c = Some (Some b)"
      using "2.prems"(4) or_else_cases by (simp add: lookup_step "2.prems"(2) False)
    then show ?thesis
    proof
      assume l: "below n s this path f = Some (Some b)"
      show ?thesis
      proof (cases "get s this (hd path)")
        case None
        have roots: "\<forall>a \<in> set (map snd (nestedArray (objs s this))). is_namespace (objs s a) \<longrightarrow> obj_root s a = obj_root s this"
          using wf_nested[OF wf] obj_root_parent by fastforce
        have "lookup_nested n s (map snd (nestedArray (objs s this))) path f = Some (Some b)"
          using l None by (simp add: below_def)
        then show ?thesis using "2.IH"(2)[OF "2.prems"(2) False None wf "2.prems"(2,3) False roots] by blast
      next
        case (Some a)
        note m = get_member[OF wf Some]
        show ?thesis
        proof (cases "tl path = []")
          case True
          then have "last path = hd path" using "2.prems"(2) by (cases path) auto
          then show ?thesis
            using l Some True m(1) get_root[OF wf Some]
            by (auto simp: below_def filter_type_def right_object_def split: option.splits if_splits)
        next
          case tl: False
          then have a: "is_namespace (objs s a)" "lookup n s a (tl path) f True = Some (Some b)"
            using l Some by (auto simp: below_def split: if_splits)
          have lt: "last (tl path) = last path" using tl by (cases path) auto
          have "right_object s a (tl path) f b"
            using "2.IH"(3)[OF "2.prems"(2) False Some tl a(1) wf tl _ a(2)] "2.prems"(3) lt by simp
          then show ?thesis
            using lt get_root[OF wf Some] namespace_not_method[OF a(1)] by (simp add: right_object_def)
        qed
      qed
    next
      assume l: "above n s this path f c = Some (Some b)"
      then obtain p where p: "o_parent (objs s this) = Some p" "\<not> c" "lookup n s p path f False = Some (Some b)"
        by (auto simp: above_def split: option.splits if_splits)
      have "right_object s p path f b"
        using "2.IH"(4)[OF "2.prems"(2) False p(1,2) wf "2.prems"(2,3) p(3)] .
      then show ?thesis using obj_root_parent[OF p(1)] by (simp add: right_object_def)
    qed
  qed
next
  case (4 n s a as path f)
  note wf = "4.prems"(1)
  show ?case
  proof (cases "is_namespace (objs s a)")
    case True
    then have "lookup n s a path f True = Some (Some b) \<or> lookup_nested n s as path f = Some (Some b)"
      using "4.prems"(6) or_else_cases by simp
    then show ?thesis
    proof
      assume "lookup n s a path f True = Some (Some b)"
      then have "right_object s a path f b" using "4.IH"(1)[OF True wf "4.prems"(2,3)] by blast
      then show ?thesis using True "4.prems"(5) by (simp add: right_object_def)
    next
      assume "lookup_nested n s as path f = Some (Some b)"
      then show ?thesis using "4.IH"(2)[OF True wf "4.prems"(2-4)] "4.prems"(5) by simp
    qed
  next
    case False
    then show ?thesis using "4.IH"(3)[OF False wf "4.prems"(2-4)] "4.prems"(5,6) by simp
  qed
qed simp_all

section \<open>Paths that name an object\<close>

fun chain :: "store \<Rightarrow> nat \<Rightarrow> string list \<Rightarrow> nat \<Rightarrow> bool" where
  "chain s p [] a \<longleftrightarrow> a = p"
| "chain s p (k # ks) a \<longleftrightarrow>
     (case get s p k of None \<Rightarrow> False
      | Some b \<Rightarrow> (ks \<noteq> [] \<longrightarrow> is_namespace (objs s b)) \<and> chain s b ks a)"

lemma chain_append:
  "chain s p (ks @ [k]) a \<longleftrightarrow>
     (\<exists>b. chain s p ks b \<and> (ks \<noteq> [] \<longrightarrow> is_namespace (objs s b)) \<and> get s b k = Some a)"
  by (induction ks arbitrary: p) (auto split: option.splits)

lemma lookup_chain:
  "chain s p path a \<Longrightarrow> path \<noteq> [] \<Longrightarrow> [] \<notin> set path \<Longrightarrow> filter_type f s a = Some a \<Longrightarrow> length path \<le> n \<Longrightarrow>
     lookup n s p path f c = Some (Some a)"
proof (induction path arbitrary: p n c)
  case (Cons k ks)
  then obtain m where m: "n = Suc m" "length ks \<le> m" by (cases n) auto
  obtain b where b: "get s p k = Some b" "ks \<noteq> [] \<longrightarrow> is_namespace (objs s b)" "chain s b ks a"
    using Cons.prems(1) by (auto split: option.splits)
  have "below m s p (k # ks) f = Some (Some a)"
  proof (cases "ks = []")
    case True
    then show ?thesis using b Cons.prems(4) by (simp add: below_def)
  next
    case False
    then have "lookup m s b ks f True = Some (Some a)" using Cons.prems m b by (intro Cons.IH) auto
    then show ?thesis using b False by (simp add: below_def)
  qed
  then show ?case using Cons.prems(3) m(1) by (auto simp: lookup_step)
qed simp

lemma split_dots_name: "CHR ''.'' \<notin> set p \<Longrightarrow> split_dots p = [p]"
  by (induction p) auto

lemma split_dots_cons: "CHR ''.'' \<notin> set p \<Longrightarrow> split_dots (p @ CHR ''.'' # cs) = p # split_dots cs"
  by (induction p) auto

lemma split_join_dots: "ps \<noteq> [] \<Longrightarrow> \<forall>p \<in> set ps. CHR ''.'' \<notin> set p \<Longrightarrow> split_dots (join_dots ps) = ps"
  by (induction ps rule: join_dots.induct) (simp_all add: split_dots_name split_dots_cons)

lemma ancestry_chain:
  assumes wf: "wf_store s"
  shows "ancestry s a as \<Longrightarrow> o_class (objs s a) \<noteq> CMethod \<Longrightarrow>
    chain s (hd as) (map (\<lambda>x. o_name (objs s x)) (tl as)) a \<and>
    path_names s a = Some (map (\<lambda>x. o_name (objs s x)) as)"
proof (induction rule: ancestry.induct)
  case (top a)
  then show ?case by (subst path_names.simps) simp
next
  case (child a p as)
  have g: "get s p (o_name (objs s a)) = Some a"
    using get_iff_parent[OF wf child.prems] child.hyps(1) by simp
  then have ns: "is_namespace (objs s p)" by (rule get_namespace[OF wf])
  then have IH: "chain s (hd as) (map (\<lambda>x. o_name (objs s x)) (tl as)) p"
    "path_names s p = Some (map (\<lambda>x. o_name (objs s x)) as)"
    using child.IH namespace_not_method by blast+
  have ne: "as \<noteq> []" by (rule ancestry_nonempty[OF child.hyps(2)])
  have "chain s (hd as) (map (\<lambda>x. o_name (objs s x)) (tl as) @ [o_name (objs s a)]) a"
    using chain_append IH(1) ns g by blast
  moreover have "path_names s a = Some (map (\<lambda>x. o_name (objs s x)) (as @ [a]))"
    using child.hyps(1) IH(2) by (subst path_names.simps) simp
  ultimately show ?case using ne by simp
qed

text \<open>C19 \<open>lookup\<close> returns in every reachable store, whatever the path (the calls that go down the
  tree, up to the parent and back to the root end), and for a path with a last part it is \<open>null\<close>
  or an object of that name, of an admitted class, in the same tree.\<close>

theorem lookup_spec:
  assumes "reachable s" and "this < free s" and "path \<noteq> []" and "last path \<noteq> []"
  shows "\<exists>n r. (\<forall>m \<ge> n. lookup m s this path f c = Some r) \<and>
    (\<forall>b. r = Some b \<longrightarrow>
       o_name (objs s b) = last path \<and> (\<forall>cs. f = Some cs \<longrightarrow> o_class (objs s b) \<in> set cs) \<and>
       (o_class (objs s b) \<noteq> CMethod \<longrightarrow> obj_root s b = obj_root s this))"
proof -
  note wf = reachable_store_wf[OF assms(1)]
  obtain n r where n: "lookup n s this path f c = Some r"
    using lookup_finds[OF wf assms(2)] unfolding finds_def by blast
  have "\<forall>m \<ge> n. lookup m s this path f c = Some r" using lookup_mono[of n] n by simp
  moreover have "right_object s this path f b" if "r = Some b" for b
    using lookup_sound(1)[OF wf assms(3,4)] n that by blast
  ultimately show ?thesis unfolding right_object_def by blast
qed

theorem lookup_spec_witness:
  "\<exists>n r. (\<forall>m \<ge> n. lookup m one_namespace 1 [[], ''x'', ''n''] None False = Some r) \<and>
    (\<forall>b. r = Some b \<longrightarrow>
       o_name (objs one_namespace b) = ''n'' \<and> (\<forall>cs. None = Some cs \<longrightarrow> o_class (objs one_namespace b) \<in> set cs) \<and>
       (o_class (objs one_namespace b) \<noteq> CMethod \<longrightarrow> obj_root one_namespace b = obj_root one_namespace 1))"
  using lookup_spec[OF one_namespace_reachable, of 1 "[[], ''x'', ''n'']" None False]
  by (simp only: one_namespace_eval last.simps list.simps if_False if_True) simp

text \<open>C20 The full name of an object leads back to it from anywhere in its tree, provided the root
  is unnamed and the names below it are not empty and have no dots: looking it up returns the object
  itself, and not another one of the same name.\<close>

theorem lookup_fullName:
  assumes "reachable s" and "ancestry s a (r # b # bs)" and "o_class (objs s a) \<noteq> CMethod"
    and "o_name (objs s r) = []"
    and "\<forall>x \<in> set (b # bs). o_name (objs s x) \<noteq> [] \<and> CHR ''.'' \<notin> set (o_name (objs s x))"
    and "obj_root s this = obj_root s a"
  shows "\<exists>p. fullName s a = Some p \<and> (\<forall>n > length bs + 1. lookup_string n s this p None = Some (Some a))"
proof -
  let ?names = "map (\<lambda>x. o_name (objs s x))"
  note c = ancestry_chain[OF reachable_store_wf[OF assms(1)] assms(2,3)]
  let ?p = "join_dots (?names (r # b # bs))"
  have ne: "?p \<noteq> []" "?p \<noteq> ''.''" "split_dots ?p = ?names (r # b # bs)"
    using assms(4,5) split_join_dots[of "?names (r # b # bs)"]
    by (simp, cases bs, auto)
  have "lookup_string n s this ?p None = Some (Some a)" if n: "n > length bs + 1" for n
  proof -
    obtain m where m: "n = Suc m" "length (?names (b # bs)) \<le> m" using n by (cases n) auto
    have "obj_root s this = Some r" using assms(6) obj_root_ancestry[OF assms(2)] by simp
    moreover have "lookup m s r (?names (b # bs)) None False = Some (Some a)"
      using c assms(5) m(2) by (intro lookup_chain) (auto simp: filter_type_def)
    ultimately show ?thesis
      unfolding lookup_string_def using ne assms(4) m(1) by (simp add: lookup_absolute)
  qed
  then show ?thesis using c by (auto simp: fullName_def)
qed

theorem lookup_fullName_witness:
  "\<exists>p. fullName one_namespace 1 = Some p \<and> (\<forall>n > 1. lookup_string n one_namespace 0 p None = Some (Some 1))"
proof -
  have "ancestry one_namespace 1 ([0] @ [1])"
    by (rule ancestry.child[OF one_namespace_eval(1) ancestry.top]) (simp add: one_namespace_facts store_eval)
  then have a: "ancestry one_namespace 1 (0 # 1 # [])" by simp
  show ?thesis
    using lookup_fullName[OF one_namespace_reachable a, of 0]
    by (simp add: one_namespace_facts store_eval obj_root_eval[of one_namespace])
qed

section \<open>Defining namespaces\<close>

text \<open>The namespaces on a path below \<open>p\<close>.\<close>

fun named_path :: "store \<Rightarrow> nat \<Rightarrow> string list \<Rightarrow> nat \<Rightarrow> bool" where
  "named_path s p [] a \<longleftrightarrow> a = p"
| "named_path s p (k # ks) a \<longleftrightarrow>
     (\<exists>b. o_parent (objs s b) = Some p \<and> o_name (objs s b) = k \<and> is_namespace (objs s b) \<and> named_path s b ks a)"

lemma namespace_get_parent:
  assumes wf: "wf_store s" and b: "o_parent (objs s b) = Some p" "is_namespace (objs s b)"
  shows "namespace_get (objs s p) (o_name (objs s b)) = Some b"
proof -
  have v: "valid_nested (objs s b)" using b(2) by (simp add: valid_nested_def)
  have m: "(o_name (objs s b), b) \<in> set (nestedArray (objs s p))" using wf_parent[OF wf b(1)] v by simp
  then have "map_of (nestedArray (objs s p)) (o_name (objs s b)) = Some b"
    using wf_distinct[OF wf, of p] by (simp add: map_of_is_SomeI)
  then show ?thesis using m by (auto simp: namespace_get_def nestedArray_def split: option.splits)
qed

lemma named_path_define:
  "wf_store s \<Longrightarrow> named_path s p path a \<Longrightarrow> define_path d p path s = (Inr a, s)"
proof (induction path arbitrary: p)
  case (Cons k ks)
  then obtain b where b: "o_parent (objs s b) = Some p" "o_name (objs s b) = k" "is_namespace (objs s b)" "named_path s b ks a"
    by auto
  then show ?case using namespace_get_parent[OF Cons.prems(1) b(1,3)] Cons.IH[OF Cons.prems(1) b(4)] by simp
qed simp

lemma named_path_chain: "wf_store s \<Longrightarrow> named_path s p path a \<Longrightarrow> chain s p path a"
proof (induction path arbitrary: p)
  case (Cons k ks)
  then obtain b where b: "o_parent (objs s b) = Some p" "o_name (objs s b) = k" "is_namespace (objs s b)" "named_path s b ks a"
    by auto
  have "get s p k = Some b"
    using get_iff_parent[OF Cons.prems(1) namespace_not_method[OF b(3)], of p] b(1,2) by simp
  then show ?case using Cons.IH[OF Cons.prems(1) b(4)] b(3) by simp
qed simp

text \<open>What \<open>define\<close> leaves alone.\<close>

definition grown :: "store \<Rightarrow> store \<Rightarrow> bool" where
  "grown s s' \<longleftrightarrow> free s \<le> free s' \<and>
     (\<forall>x < free s. o_parent (objs s' x) = o_parent (objs s x) \<and> same_kind (objs s x) (objs s' x))"

lemma grown_refl: "grown s s"
  by (simp add: grown_def same_kind_def)

lemma grown_trans: "grown s s' \<Longrightarrow> grown s' s'' \<Longrightarrow> grown s s''"
  by (auto simp: grown_def same_kind_def)

lemma same_kind_namespace: "same_kind x y \<Longrightarrow> is_namespace y = is_namespace x"
  by (simp add: same_kind_def is_namespace_def)

lemma add_new_namespace:
  assumes wf: "wf_store s" and al: "p < free s" and ns: "is_namespace (objs s p)"
    and none: "namespace_get (objs s p) k = None"
    and r: "add d p (free s) (snd (alloc (Namespace k None) s)) = (Inr (), s')"
  shows "wf_store s' \<and> grown s s' \<and> free s < free s' \<and> o_parent (objs s' (free s)) = Some p \<and>
    o_name (objs s' (free s)) = k \<and> is_namespace (objs s' (free s))"
proof -
  let ?b = "free s"
  define s1 where "s1 = snd (alloc (Namespace k None) s)"
  note r = r[folded s1_def]
  have s1: "objs s1 x = (if x = ?b then Namespace k None else objs s x)" "free s1 = free s + 1" for x
    by (simp_all add: s1_def alloc_def)
  have b: "o_name (objs s1 ?b) = k" "o_parent (objs s1 ?b) = None" "is_namespace (objs s1 ?b)"
    "\<not> own_field (objs s1 ?b)" "o_class (objs s1 ?b) \<noteq> CMethod" "valid_nested (objs s1 ?b)"
    by (simp_all add: s1 Namespace_def ReflectionObject_def is_namespace_def own_field_def valid_nested_def)
  have p: "objs s1 p = objs s p" using al by (simp add: s1)
  have wf1: "wf_store s1" unfolding s1_def by (rule alloc_wf[OF wf]) (simp_all add: Namespace_def ReflectionObject_def)
  note g = add_good[OF wf1 _ _ r]
  have wf': "wf_store s'" "same_kinds s1 s'" using g al s1(2) by simp_all
  have "get s1 p k = None"
  proof (rule ccontr)
    assume g: "get s1 p k \<noteq> None"
    then have "o_class (objs s p) = CType \<or> o_class (objs s p) = CService"
      using none by (auto simp: get_def p Let_def split: if_splits)
    then show False using r g b(1) by (cases d) (auto simp: type_add_def service_add_def Let_def p)
  qed
  then have fr: "o_name (objs s1 ?b) \<notin> fst ` set (nestedArray (objs s1 p))"
    using none namespace_get_None[of "objs s p" k] by (simp add: b(1) p)
  have "s' = insert_nested p ?b s1"
  proof -
    have "attach p ?b s1 = (Inr (), s')"
      using r b ns \<open>get s1 p k = None\<close> unfolding p[symmetric]
      by (cases d) (auto simp: type_add_def service_add_def namespace_add_def Let_def split: if_splits)
    then show ?thesis
      using attach_insert[OF wf1 b(6) fr] b(2) by (auto simp: attached_def dest: unless_hang_Inr)
  qed
  then have par: "o_parent (objs s' x) = (if x = ?b then Some p else o_parent (objs s x))" for x
    by (simp add: insert_defs s1)
  have kind: "same_kind (objs s1 x) (objs s' x)" for x
    using wf'(2) by (simp add: same_kinds_def)
  have "same_kind (objs s x) (objs s' x)" if "x < free s" for x
    using kind[of x] that by (simp add: s1(1))
  moreover have "o_name (objs s' ?b) = k" "is_namespace (objs s' ?b)"
    using kind[of ?b] same_kind_namespace[OF kind[of ?b]] b(1,3) by (simp_all add: same_kind_def)
  ultimately show ?thesis
    using wf' par same_kinds_free[OF wf'(2)] s1(2) by (simp add: grown_def)
qed

lemma named_path_grown:
  assumes "wf_store s" and "wf_store s'" and "grown s s'" and "b < free s" and "is_namespace (objs s b)"
    and "o_parent (objs s b) = Some p"
  shows "o_parent (objs s' b) = Some p \<and> o_name (objs s' b) = o_name (objs s b) \<and> is_namespace (objs s' b)"
  using assms same_kind_namespace by (auto simp: grown_def same_kind_def is_namespace_def)

lemma define_path_named:
  "wf_store s \<Longrightarrow> p < free s \<Longrightarrow> is_namespace (objs s p) \<Longrightarrow> define_path d p path s = (Inr a, s') \<Longrightarrow>
     wf_store s' \<and> grown s s' \<and> named_path s' p path a"
proof (induction d p path s rule: define_path.induct)
  case (1 d ptr s)
  then show ?case by (simp add: grown_refl)
next
  case (2 d ptr part path s)
  show ?case
  proof (cases "namespace_get (objs s ptr) part")
    case (Some b)
    have k: "(part, b) \<in> set (nestedArray (objs s ptr))"
      using Some by (auto simp: namespace_get_def nestedArray_def dest: map_of_SomeD split: option.splits)
    have b: "o_parent (objs s b) = Some ptr" "o_name (objs s b) = part" "b < free s"
      using wf_nested[OF "2.prems"(1) k] wf_nested_free[OF "2.prems"(1) k] by simp_all
    have n: "is_namespace (objs s b)" "define_path d b path s = (Inr a, s')"
      using "2.prems"(4) Some by (auto split: if_splits)
    have IH: "wf_store s'" "grown s s'" "named_path s' b path a"
      using "2.IH"(2)[OF Some n(1) "2.prems"(1) b(3) n] by simp_all
    then show ?thesis
      using named_path_grown[OF "2.prems"(1) IH(1,2) b(3) n(1) b(1)] b(2) by auto
  next
    case None
    have al: "alloc (Namespace part None) s = (free s, snd (alloc (Namespace part None) s))"
      by (simp add: alloc_def)
    obtain s2 where r: "add d ptr (free s) (snd (alloc (Namespace part None) s)) = (Inr (), s2)"
      "define_path d (free s) path s2 = (Inr a, s')"
      using "2.prems"(4) None al by (auto split: prod.splits sum.splits)
    note n = add_new_namespace[OF "2.prems"(1-3) None r(1)]
    have IH: "wf_store s'" "grown s2 s'" "named_path s' (free s) path a"
      using "2.IH"(1)[OF None al[symmetric] r(1)[symmetric]] n r(2) by auto
    then show ?thesis
      using named_path_grown[OF _ IH(1,2), of "free s" ptr] n grown_trans[of s s2 s'] by auto
  qed
qed

text \<open>A \<open>define\<close> that succeeds has made every part of the path: a second call returns the same
  namespace and changes nothing, looking the path up finds it, and no object that existed before
  has changed its parent, its name or its class.\<close>

theorem define_again:
  assumes "reachable s" and "this < free s" and "is_namespace (objs s this)"
    and "ns_define d this path s = (Inr a, s')" and "path \<noteq> []" and "[] \<notin> set path"
  shows "ns_define d this path s' = (Inr a, s') \<and>
    (\<forall>n \<ge> length path. lookup n s' this path None False = Some (Some a)) \<and>
    (\<forall>x < free s. o_parent (objs s' x) = o_parent (objs s x) \<and> same_kind (objs s x) (objs s' x))"
proof -
  have d: "define_path d this path s = (Inr a, s')"
    using assms(4-6) by (auto simp: ns_define_def split: if_splits)
  have n: "wf_store s'" "grown s s'" "named_path s' this path a"
    using define_path_named[OF reachable_store_wf[OF assms(1)] assms(2,3) d] by simp_all
  have "ns_define d this path s' = (Inr a, s')"
    using named_path_define[OF n(1,3)] assms(5,6) by (cases path) (auto simp: ns_define_def)
  moreover have "lookup m s' this path None False = Some (Some a)" if "m \<ge> length path" for m
    using lookup_chain[OF named_path_chain[OF n(1,3)] assms(5,6) _ that] by (simp add: filter_type_def)
  ultimately show ?thesis using n(2) by (simp add: grown_def)
qed

theorem define_again_witness:
  "ns_define 1 0 [''n''] one_namespace = (Inr 1, one_namespace) \<and>
    lookup 1 one_namespace 0 [''n''] None False = Some (Some 1) \<and>
    same_kind (objs start_store 0) (objs one_namespace 0)"
proof -
  have "ns_define 1 0 [''n''] start_store = (Inr 1, one_namespace)"
    by (simp add: ns_define_def one_namespace_def store_eval)
  from define_again[OF reachable.start _ _ this] show ?thesis by (simp add: store_eval)
qed

end
