(* ===== verification/Descriptors.thy ===== *)
theory Descriptors
  imports Paths
begin

text \<open>
  JSON descriptors: the constructors of \<open>Enum\<close>, \<open>Field\<close>, \<open>MapField\<close> and \<open>Method\<close>, and
  \<open>fromJSON\<close>, \<open>addJSON\<close> and \<open>toJSON\<close> of the reflection objects. \<open>skeleton.js\<close> is written by
  \<open>toJSON\<close> (\<open>build_proto.js\<close>) and loaded with \<open>fromJSON\<close> (\<open>models/root.js\<close>).

  The objects of \<open>Reflect\<close> get what only their class has in a second table, the declarations.
  Outside the model, with an error of its own: an array as options, and oneofs. Where the source
  asks for the keys of a value that is no object the model has none; \<open>null\<close> and fractions do not
  occur in a descriptor. Comments are left out, and \<open>toJSON\<close> is the call without options, which
  does not write them.
\<close>

section \<open>JSON\<close>

text \<open>An object is the list of its properties in the order of \<open>Object.keys\<close>.\<close>

datatype json =
    JBool bool
  | JNum int
  | JStr string
  | JArr "json list"
  | JObj "(string \<times> json) list"

text \<open>\<open>json.k\<close>, where \<open>None\<close> is \<open>undefined\<close>.\<close>

definition js_prop :: "json \<Rightarrow> string \<Rightarrow> json option" where
  "js_prop j k = (case j of JObj m \<Rightarrow> map_of m k | _ \<Rightarrow> None)"

definition entries :: "json option \<Rightarrow> (string \<times> json) list" where
  "entries j = (case j of Some (JObj m) \<Rightarrow> m | _ \<Rightarrow> [])"

definition is_object :: "json option \<Rightarrow> bool" where
  "is_object j = (case j of Some (JObj m) \<Rightarrow> True | Some (JArr l) \<Rightarrow> True | _ \<Rightarrow> False)"

definition truthy :: "json option \<Rightarrow> bool" where
  "truthy j =
     (case j of
        None \<Rightarrow> False
      | Some (JBool b) \<Rightarrow> b
      | Some (JNum n) \<Rightarrow> n \<noteq> 0
      | Some (JStr s) \<Rightarrow> s \<noteq> []
      | _ \<Rightarrow> True)"

definition has_length :: "json option \<Rightarrow> bool" where
  "has_length j = (case j of Some (JArr l) \<Rightarrow> l \<noteq> [] | Some (JStr s) \<Rightarrow> s \<noteq> [] | _ \<Rightarrow> False)"

lemma size_entry: "(k, v) \<in> set m \<Longrightarrow> size v < Suc (size_list (size_prod (\<lambda>_. 0) size) m)"
  by (induction m) auto

lemma js_prop_size [termination_simp]: "js_prop j k = Some v \<Longrightarrow> size v < size j"
  unfolding js_prop_def by (auto dest!: map_of_SomeD size_entry split: json.splits)

fun val_of_json :: "json \<Rightarrow> val" where
  "val_of_json (JBool b) = VBool b"
| "val_of_json (JNum n) = VInt n"
| "val_of_json (JStr s) = VString (js_text s)"
| "val_of_json (JArr l) = VList (map val_of_json l)"
| "val_of_json (JObj m) = VMap (map (\<lambda>(k, v). (js_text k, val_of_json v)) m)"

text \<open>What \<open>JSON.stringify\<close> makes of an option.\<close>

fun json_of_val :: "val \<Rightarrow> json" where
  "json_of_val (VBool b) = JBool b"
| "json_of_val (VInt n) = JNum n"
| "json_of_val (VString s) = JStr (of_text s)"
| "json_of_val (VList l) = JArr (map json_of_val l)"
| "json_of_val (VMap m) = JObj (map (\<lambda>(k, v). (of_text k, json_of_val v)) m)"
| "json_of_val _ = JObj []"

lemma json_of_val [simp]: "json_of_val (val_of_json j) = j"
  by (induction j rule: val_of_json.induct) (auto simp: case_prod_beta intro!: map_idI)

section \<open>Objects with their declarations\<close>

record field_decl =
  d_rule :: "string option"
  d_type :: string
  d_keyType :: "string option"
  d_required :: bool
  d_repeated :: bool
  d_long :: bool
  d_bytes :: bool
  d_resolvedType :: "nat option"
  d_typeDefault :: "val option"
  d_defaultValue :: "val option"

record method_decl =
  d_kind :: string
  d_requestType :: string
  d_requestStream :: bool
  d_responseType :: string
  d_responseStream :: bool
  d_resolvedRequestType :: "nat option"
  d_resolvedResponseType :: "nat option"

datatype decl =
    NoDecl
  | FieldDecl field_decl
  | EnumDecl "(string \<times> int) list" "(int \<times> string) list"
  | MethodDecl method_decl
  | TypeDecl "json option" bool

text \<open>
  The objects, what they have of their own class, and the constructors of the types that have one:
  the properties of its prototype.
\<close>

record runtime =
  st :: store
  decls :: "nat \<Rightarrow> decl"
  ctors :: "nat \<Rightarrow> (string \<times> val option) list option"

text \<open>Programs that may throw; what they have changed before stays.\<close>

type_synonym 'a prog = "runtime \<Rightarrow> (js_error + 'a) \<times> runtime"

definition return_prog :: "'a \<Rightarrow> 'a prog" where
  "return_prog x w = (Inr x, w)"

definition throw_prog :: "js_error \<Rightarrow> 'a prog" where
  "throw_prog e w = (Inl e, w)"

definition bind_prog :: "'a prog \<Rightarrow> ('a \<Rightarrow> 'b prog) \<Rightarrow> 'b prog" where
  "bind_prog p f w = (case p w of (Inl e, w') \<Rightarrow> (Inl e, w') | (Inr x, w') \<Rightarrow> f x w')"

definition then_prog :: "'a prog \<Rightarrow> 'b prog \<Rightarrow> 'b prog" where
  "then_prog p q = bind_prog p (\<lambda>_. q)"

definition new_object :: "robj \<times> decl \<Rightarrow> nat prog" where
  "new_object x w =
     (case alloc (fst x) (st w) of (a, s) \<Rightarrow> (Inr a, w\<lparr>st := s, decls := (decls w)(a := snd x)\<rparr>))"

text \<open>\<open>d\<close> is the depth of calls \<open>add\<close> has room for.\<close>

definition add_object :: "nat \<Rightarrow> nat \<Rightarrow> nat \<Rightarrow> unit prog" where
  "add_object d this ob w = (case add d this ob (st w) of (r, s) \<Rightarrow> (r, w\<lparr>st := s\<rparr>))"

section \<open>Constructors\<close>

definition outside :: js_error where
  "outside = Error ''outside the model''"

text \<open>The check of \<open>ReflectionObject\<close>.\<close>

definition options_of :: "json option \<Rightarrow> js_error + (string \<times> val) list option" where
  "options_of options =
     (if truthy options \<and> \<not> is_object options then Inl (TypeError ''options must be an object'')
      else case options of
        Some (JObj m) \<Rightarrow> Inr (Some (map (\<lambda>(k, v). (k, val_of_json v)) m))
      | Some (JArr l) \<Rightarrow> Inl outside
      | _ \<Rightarrow> Inr None)"

definition bind_sum :: "js_error + 'a \<Rightarrow> ('a \<Rightarrow> js_error + 'b) \<Rightarrow> js_error + 'b" where
  "bind_sum x f = (case x of Inl e \<Rightarrow> Inl e | Inr y \<Rightarrow> f y)"

definition lower_char :: "char \<Rightarrow> char" where
  "lower_char c =
     (let n = of_char c :: nat in if 65 \<le> n \<and> n \<le> 90 then char_of (n + 32) else c)"

text \<open>\<open>/^required|optional|repeated$/\<close>: only the outer alternatives are anchored.\<close>

definition ruleRe :: "string \<Rightarrow> bool" where
  "ruleRe s \<longleftrightarrow>
     take 8 s = ''required'' \<or>
     list_ex (\<lambda>i. take 8 (drop i s) = ''optional'') [0..<length s] \<or>
     (8 \<le> length s \<and> drop (length s - 8) s = ''repeated'')"

definition rule_of :: "json option \<Rightarrow> js_error + string option" where
  "rule_of rule =
     (case rule of
        None \<Rightarrow> Inr None
      | Some (JStr s) \<Rightarrow>
          if ruleRe (map lower_char s) then Inr (Some (map lower_char s))
          else Inl (TypeError ''rule must be a string rule'')
      | Some _ \<Rightarrow> Inl (TypeError ''rule must be a string rule''))"

definition extend_of :: "json option \<Rightarrow> js_error + string option" where
  "extend_of ext =
     (case ext of
        None \<Rightarrow> Inr None
      | Some (JStr s) \<Rightarrow> Inr (if s = [] then None else Some s)
      | Some _ \<Rightarrow> Inl (TypeError ''extend must be a string''))"

definition id_of :: "json option \<Rightarrow> js_error + nat" where
  "id_of i =
     (case i of
        Some (JNum n) \<Rightarrow> if n < 0 then Inl (TypeError ''id must be a non-negative integer'') else Inr (nat n)
      | _ \<Rightarrow> Inl (TypeError ''id must be a non-negative integer''))"

definition string_of :: "string \<Rightarrow> json option \<Rightarrow> js_error + string" where
  "string_of what s = (case s of Some (JStr t) \<Rightarrow> Inr t | _ \<Rightarrow> Inl (TypeError (what @ '' must be a string'')))"

text \<open>
  \<open>Field\<close>. Arguments may be left out: an object in the place of the rule or of \<open>extend\<close> is the
  options. \<open>L\<close>: is there a \<open>Long\<close> library?
\<close>

definition new_Field ::
  "bool \<Rightarrow> string \<Rightarrow> json option \<Rightarrow> json option \<Rightarrow> json option \<Rightarrow> json option \<Rightarrow> json option \<Rightarrow>
   js_error + robj \<times> field_decl" where
  "new_Field L name ident type rule ext options =
     (let options' = (if is_object rule then rule else if is_object ext then ext else options);
          ext1 = (if is_object rule \<or> is_object ext then None else ext);
          rule' = (if is_object rule then None else rule)
      in bind_sum (options_of options') (\<lambda>os.
         bind_sum (id_of ident) (\<lambda>i.
         bind_sum (string_of ''type'' type) (\<lambda>t.
         bind_sum (rule_of rule') (\<lambda>r.
         bind_sum (extend_of ext1) (\<lambda>x.
           Inr ((ReflectionObject CField name os)\<lparr>o_id := i, o_extend := x\<rparr>,
             \<lparr>d_rule = (if r = Some ''optional'' then None else r), d_type = t, d_keyType = None,
              d_required = (r = Some ''required''), d_repeated = (r = Some ''repeated''),
              d_long = (L \<and> types_long t \<noteq> None), d_bytes = (t = ''bytes''),
              d_resolvedType = None, d_typeDefault = None, d_defaultValue = None\<rparr>)))))))"

definition new_MapField ::
  "bool \<Rightarrow> string \<Rightarrow> json option \<Rightarrow> json option \<Rightarrow> json option \<Rightarrow> json option \<Rightarrow> js_error + robj \<times> field_decl" where
  "new_MapField L name ident keyType type options =
     bind_sum (new_Field L name ident type None None options) (\<lambda>(ob, f).
     bind_sum (string_of ''keyType'' keyType) (\<lambda>k. Inr (ob, f\<lparr>d_keyType := Some k\<rparr>)))"

text \<open>\<open>Enum\<close>: only numbers become values, and the last name of a number is the one it has.\<close>

definition forward :: "(string \<times> json) list \<Rightarrow> (string \<times> int) list" where
  "forward m = List.map_filter (\<lambda>(k, v). case v of JNum n \<Rightarrow> Some (k, n) | _ \<Rightarrow> None) m"

definition id_set :: "int \<Rightarrow> 'v \<Rightarrow> (int \<times> 'v) list \<Rightarrow> (int \<times> 'v) list" where
  "id_set i v m = (if i \<in> fst ` set m then map (\<lambda>(j, u). (j, if j = i then v else u)) m else m @ [(i, v)])"

definition new_Enum :: "string \<Rightarrow> json option \<Rightarrow> json option \<Rightarrow> js_error + robj \<times> decl" where
  "new_Enum name values options =
     bind_sum (options_of options) (\<lambda>os.
       if truthy values \<and> \<not> is_object values then Inl (TypeError ''values must be an object'')
       else
         let vs = forward (entries values)
         in Inr (ReflectionObject CEnum name os,
              EnumDecl (foldl (\<lambda>m (k, n). assoc_set k n m) [] vs) (foldl (\<lambda>m (k, n). id_set n k m) [] vs)))"

definition new_Method ::
  "string \<Rightarrow> json option \<Rightarrow> json option \<Rightarrow> json option \<Rightarrow> json option \<Rightarrow> json option \<Rightarrow> json option \<Rightarrow>
   js_error + robj \<times> decl" where
  "new_Method name type requestType responseType requestStream responseStream options =
     (let options' = (if is_object requestStream then requestStream
                      else if is_object responseStream then responseStream else options);
          rs = (if is_object requestStream then None else requestStream);
          ws = (if is_object requestStream \<or> is_object responseStream then None else responseStream)
      in bind_sum (if type = None then Inr [] else string_of ''type'' type) (\<lambda>t.
         bind_sum (string_of ''requestType'' requestType) (\<lambda>q.
         bind_sum (string_of ''responseType'' responseType) (\<lambda>p.
         bind_sum (options_of options') (\<lambda>os.
           Inr (ReflectionObject CMethod name os,
             MethodDecl \<lparr>d_kind = (if t = [] then ''rpc'' else t), d_requestType = q, d_requestStream = truthy rs,
                         d_responseType = p, d_responseStream = truthy ws,
                         d_resolvedRequestType = None, d_resolvedResponseType = None\<rparr>))))))"

definition reserved_of :: "json option \<Rightarrow> reserved list option" where
  "reserved_of j =
     (case j of
        Some (JArr l) \<Rightarrow>
          Some (List.map_filter
            (\<lambda>x. case x of
                    JStr s \<Rightarrow> Some (Name s)
                  | JArr (JNum a # JNum b # _) \<Rightarrow> Some (Range a b)
                  | _ \<Rightarrow> None) l)
      | _ \<Rightarrow> None)"

section \<open>Loading\<close>

datatype shape = KType | KEnum | KService | KField | KNamespace

text \<open>What a nested descriptor is, from the first of these keys that it has.\<close>

definition nested_shape :: "json \<Rightarrow> shape" where
  "nested_shape j =
     (if js_prop j ''fields'' \<noteq> None then KType
      else if js_prop j ''values'' \<noteq> None then KEnum
      else if js_prop j ''methods'' \<noteq> None then KService
      else if js_prop j ''id'' \<noteq> None then KField
      else KNamespace)"

text \<open>\<open>Type.fromJSON\<close> asks in another order.\<close>

definition shape_in_type :: "json \<Rightarrow> shape" where
  "shape_in_type j =
     (if js_prop j ''id'' \<noteq> None then KField
      else if js_prop j ''fields'' \<noteq> None then KType
      else if js_prop j ''values'' \<noteq> None then KEnum
      else if js_prop j ''methods'' \<noteq> None then KService
      else KNamespace)"

definition construct :: "js_error + robj \<times> decl \<Rightarrow> nat prog" where
  "construct x = (case x of Inl e \<Rightarrow> throw_prog e | Inr y \<Rightarrow> new_object y)"

definition Field_fromJSON :: "bool \<Rightarrow> string \<Rightarrow> json \<Rightarrow> js_error + robj \<times> field_decl" where
  "Field_fromJSON L name j =
     new_Field L name (js_prop j ''id'') (js_prop j ''type'') (js_prop j ''rule'') (js_prop j ''extend'')
       (js_prop j ''options'')"

definition MapField_fromJSON :: "bool \<Rightarrow> string \<Rightarrow> json \<Rightarrow> js_error + robj \<times> field_decl" where
  "MapField_fromJSON L name j =
     new_MapField L name (js_prop j ''id'') (js_prop j ''keyType'') (js_prop j ''type'') (js_prop j ''options'')"

definition with_field_decl :: "js_error + robj \<times> field_decl \<Rightarrow> js_error + robj \<times> decl" where
  "with_field_decl x = bind_sum x (\<lambda>(ob, f). Inr (ob, FieldDecl f))"

definition Enum_fromJSON :: "string \<Rightarrow> json \<Rightarrow> js_error + robj \<times> decl" where
  "Enum_fromJSON name j =
     bind_sum (new_Enum name (js_prop j ''values'') (js_prop j ''options''))
       (\<lambda>(ob, e). Inr (ob\<lparr>o_reserved := reserved_of (js_prop j ''reserved'')\<rparr>, e))"

definition Method_fromJSON :: "string \<Rightarrow> json \<Rightarrow> js_error + robj \<times> decl" where
  "Method_fromJSON name j =
     new_Method name (js_prop j ''type'') (js_prop j ''requestType'') (js_prop j ''responseType'')
       (js_prop j ''requestStream'') (js_prop j ''responseStream'') (js_prop j ''options'')"

text \<open>The fields of a type and the methods of a service.\<close>

definition any_field :: "bool \<Rightarrow> string \<Rightarrow> json \<Rightarrow> js_error + robj \<times> decl" where
  "any_field L name j =
     with_field_decl
       (if js_prop j ''keyType'' \<noteq> None then MapField_fromJSON L name j else Field_fromJSON L name j)"

fun add_fields :: "bool \<Rightarrow> nat \<Rightarrow> nat \<Rightarrow> (string \<times> json) list \<Rightarrow> unit prog" where
  "add_fields L d this [] = return_prog ()"
| "add_fields L d this ((name, j) # fs) =
     bind_prog (construct (any_field L name j))
       (\<lambda>f. then_prog (add_object d this f) (add_fields L d this fs))"

fun add_methods :: "nat \<Rightarrow> nat \<Rightarrow> (string \<times> json) list \<Rightarrow> unit prog" where
  "add_methods d this [] = return_prog ()"
| "add_methods d this ((name, j) # ms) =
     bind_prog (construct (Method_fromJSON name j))
       (\<lambda>f. then_prog (add_object d this f) (add_methods d this ms))"

definition new_Type :: "string \<Rightarrow> json \<Rightarrow> js_error + robj \<times> decl" where
  "new_Type name j =
     bind_sum (options_of (js_prop j ''options''))
       (\<lambda>os. Inr ((Type name os)\<lparr>o_reserved := reserved_of (js_prop j ''reserved'')\<rparr>,
          TypeDecl (js_prop j ''extensions'') False))"

definition set_group :: "nat \<Rightarrow> json \<Rightarrow> unit prog" where
  "set_group a j w =
     (Inr (), if truthy (js_prop j ''group'')
              then w\<lparr>decls := (decls w)(a := TypeDecl (js_prop j ''extensions'') True)\<rparr> else w)"

definition no_oneofs :: "json \<Rightarrow> unit prog" where
  "no_oneofs j = (if entries (js_prop j ''oneofs'') = [] then return_prog () else throw_prog outside)"

lemma entries_size: "size_list (size_prod (\<lambda>_. 0) size) (entries (js_prop j k)) \<le> size j"
proof (cases "\<exists>m. js_prop j k = Some (JObj m)")
  case True
  then show ?thesis using js_prop_size[of j k] by (auto simp: entries_def)
next
  case False
  then have "entries (js_prop j k) = []" by (auto simp: entries_def split: option.splits json.splits)
  then show ?thesis by simp
qed

function (sequential) fromJSON :: "bool \<Rightarrow> nat \<Rightarrow> shape \<Rightarrow> string \<Rightarrow> json \<Rightarrow> nat prog"
  and addJSON :: "bool \<Rightarrow> nat \<Rightarrow> (json \<Rightarrow> shape) \<Rightarrow> nat \<Rightarrow> (string \<times> json) list \<Rightarrow> unit prog" where
  "fromJSON L d KType name j =
     bind_prog (construct (new_Type name j))
       (\<lambda>a. then_prog (add_fields L d a (entries (js_prop j ''fields'')))
         (then_prog (no_oneofs j)
           (then_prog (addJSON L d shape_in_type a (entries (js_prop j ''nested'')))
             (then_prog (set_group a j) (return_prog a)))))"
| "fromJSON L d KEnum name j = construct (Enum_fromJSON name j)"
| "fromJSON L d KService name j =
     bind_prog (construct (bind_sum (options_of (js_prop j ''options'')) (\<lambda>os. Inr (Service name os, NoDecl))))
       (\<lambda>a. then_prog (add_methods d a (entries (js_prop j ''methods'')))
         (then_prog (addJSON L d nested_shape a (entries (js_prop j ''nested''))) (return_prog a)))"
| "fromJSON L d KField name j = construct (with_field_decl (Field_fromJSON L name j))"
| "fromJSON L d KNamespace name j =
     bind_prog (construct (bind_sum (options_of (js_prop j ''options'')) (\<lambda>os. Inr (Namespace name os, NoDecl))))
       (\<lambda>a. then_prog (addJSON L d nested_shape a (entries (js_prop j ''nested''))) (return_prog a))"
| "addJSON L d shape this [] = return_prog ()"
| "addJSON L d shape this ((name, j) # js) =
     bind_prog (fromJSON L d (shape j) name j)
       (\<lambda>b. then_prog (add_object d this b) (addJSON L d shape this js))"
  by pat_completeness auto

termination
  by (relation "measure (case_sum (\<lambda>(L, d, k, name, j). Suc (2 * size j))
        (\<lambda>(L, d, k, this, js). 2 * size_list (size_prod (\<lambda>_. 0) size) js))")
     (simp_all add: less_Suc_eq_le entries_size)

text \<open>\<open>Root.fromJSON\<close> on an existing root, and on a new one, the object 0 of a new store.\<close>

definition Root_fromJSON :: "bool \<Rightarrow> nat \<Rightarrow> json \<Rightarrow> nat \<Rightarrow> nat prog" where
  "Root_fromJSON L d j this w =
     then_prog (addJSON L d nested_shape this (entries (js_prop j ''nested''))) (return_prog this)
       (w\<lparr>st := update this (setOptions
            (Some (map (\<lambda>(k, v). (k, val_of_json v)) (entries (js_prop j ''options'')))) False) (st w)\<rparr>)"

definition start_runtime :: runtime where
  "start_runtime = \<lparr>st = start_store, decls = (\<lambda>a. NoDecl), ctors = (\<lambda>a. None)\<rparr>"

section \<open>Writing descriptors\<close>

definition toObject :: "(string \<times> json option) list \<Rightarrow> json" where
  "toObject array = JObj (List.map_filter (\<lambda>(k, v). map_option (Pair k) v) array)"

definition options_json :: "robj \<Rightarrow> json option" where
  "options_json ob = map_option (\<lambda>m. JObj (map (\<lambda>(k, v). (k, json_of_val v)) m)) (o_options ob)"

definition reserved_json :: "robj \<Rightarrow> json option" where
  "reserved_json ob =
     (case o_reserved ob of
        None \<Rightarrow> None
      | Some l \<Rightarrow>
          if l = [] then None
          else Some (JArr (map (\<lambda>r. case r of Range a b \<Rightarrow> JArr [JNum a, JNum b] | Name s \<Rightarrow> JStr s) l)))"

definition Field_toJSON :: "robj \<Rightarrow> field_decl \<Rightarrow> json" where
  "Field_toJSON ob f =
     toObject
       [(''rule'', map_option JStr (d_rule f)),
        (''type'', Some (JStr (d_type f))),
        (''id'', Some (JNum (int (o_id ob)))),
        (''extend'', map_option JStr (o_extend ob)),
        (''options'', options_json ob)]"

definition MapField_toJSON :: "robj \<Rightarrow> field_decl \<Rightarrow> string \<Rightarrow> json" where
  "MapField_toJSON ob f keyType =
     toObject
       [(''keyType'', Some (JStr keyType)),
        (''type'', Some (JStr (d_type f))),
        (''id'', Some (JNum (int (o_id ob)))),
        (''extend'', map_option JStr (o_extend ob)),
        (''options'', options_json ob)]"

definition Enum_toJSON :: "robj \<Rightarrow> (string \<times> int) list \<Rightarrow> json" where
  "Enum_toJSON ob vs =
     toObject
       [(''options'', options_json ob),
        (''values'', Some (JObj (map (\<lambda>(k, n). (k, JNum n)) vs))),
        (''reserved'', reserved_json ob)]"

definition Method_toJSON :: "robj \<Rightarrow> method_decl \<Rightarrow> json" where
  "Method_toJSON ob f =
     toObject
       [(''type'', if d_kind f = ''rpc'' then None else Some (JStr (d_kind f))),
        (''requestType'', Some (JStr (d_requestType f))),
        (''requestStream'', if d_requestStream f then Some (JBool True) else None),
        (''responseType'', Some (JStr (d_responseType f))),
        (''responseStream'', if d_responseStream f then Some (JBool True) else None),
        (''options'', options_json ob)]"

text \<open>
  \<open>rec\<close> is \<open>toJSON\<close> of the members; the outer \<open>None\<close> is running out of fuel, the inner one
  \<open>undefined\<close>.
\<close>

definition arrayToJSON :: "(nat \<Rightarrow> json option) \<Rightarrow> store \<Rightarrow> nat list \<Rightarrow> json option option" where
  "arrayToJSON rec s array =
     (if array = [] then Some None
      else map_option (\<lambda>js. Some (JObj (foldl (\<lambda>m (k, j). assoc_set k j m) [] js)))
        (those (map (\<lambda>a. map_option (Pair (o_name (objs s a))) (rec a)) array)))"

definition Namespace_toJSON :: "robj \<Rightarrow> json option \<Rightarrow> json" where
  "Namespace_toJSON ob nested = toObject [(''options'', options_json ob), (''nested'', nested)]"

definition Service_toJSON :: "robj \<Rightarrow> json option \<Rightarrow> json option \<Rightarrow> json" where
  "Service_toJSON ob methods nested =
     toObject
       [(''options'', options_json ob),
        (''methods'', Some (case methods of None \<Rightarrow> JObj [] | Some m \<Rightarrow> m)),
        (''nested'', nested)]"

definition Type_toJSON :: "robj \<Rightarrow> json option \<Rightarrow> bool \<Rightarrow> json option \<Rightarrow> json option \<Rightarrow> json" where
  "Type_toJSON ob extensions is_group flds nested =
     toObject
       [(''options'', options_json ob),
        (''fields'', Some (case flds of None \<Rightarrow> JObj [] | Some m \<Rightarrow> m)),
        (''extensions'', if has_length extensions then extensions else None),
        (''reserved'', reserved_json ob),
        (''group'', if is_group then Some (JBool True) else None),
        (''nested'', nested)]"

fun toJSON :: "nat \<Rightarrow> runtime \<Rightarrow> nat \<Rightarrow> json option" where
  "toJSON 0 w a = None"
| "toJSON (Suc n) w a =
     (let ob = objs (st w) a;
          members = (\<lambda>m. arrayToJSON (toJSON n w) (st w) (map snd m))
      in case decls w a of
           FieldDecl f \<Rightarrow>
             Some (case d_keyType f of None \<Rightarrow> Field_toJSON ob f | Some k \<Rightarrow> MapField_toJSON ob f k)
         | EnumDecl vs ids \<Rightarrow> Some (Enum_toJSON ob vs)
         | MethodDecl f \<Rightarrow> Some (Method_toJSON ob f)
         | TypeDecl ext is_group \<Rightarrow>
             Option.bind (members (nestedArray ob))
               (\<lambda>nested. map_option (\<lambda>flds. Type_toJSON ob ext is_group flds nested) (members (o_fields ob)))
         | NoDecl \<Rightarrow>
             Option.bind (members (nestedArray ob))
               (\<lambda>nested. if o_class ob = CService
                 then map_option (\<lambda>methods. Service_toJSON ob methods nested) (members (o_methods ob))
                 else Some (Namespace_toJSON ob nested)))"


section \<open>What a descriptor says\<close>

text \<open>The abstract syntax of descriptors, and the JSON they are written as.\<close>

type_synonym opts = "(string \<times> json) list option"

datatype field_desc =
    FieldD "string option" string nat opts
  | MapD string string nat opts

datatype method_desc = MethodD string string bool string bool opts

datatype desc =
    NamespaceD opts "(string \<times> desc) list"
  | TypeD opts "(string \<times> field_desc) list" "json option" "reserved list" bool "(string \<times> desc) list"
  | EnumD opts "(string \<times> int) list" "reserved list"
  | ServiceD opts "(string \<times> method_desc) list" "(string \<times> desc) list"

definition some_object :: "(string \<times> json) list \<Rightarrow> json option" where
  "some_object m = (if m = [] then None else Some (JObj m))"

fun json_of_field :: "field_desc \<Rightarrow> json" where
  "json_of_field (FieldD r t i os) =
     toObject [(''rule'', map_option JStr r), (''type'', Some (JStr t)), (''id'', Some (JNum (int i))),
       (''extend'', None), (''options'', map_option JObj os)]"
| "json_of_field (MapD k t i os) =
     toObject [(''keyType'', Some (JStr k)), (''type'', Some (JStr t)), (''id'', Some (JNum (int i))),
       (''extend'', None), (''options'', map_option JObj os)]"

fun json_of_method :: "method_desc \<Rightarrow> json" where
  "json_of_method (MethodD k q qs p ps os) =
     toObject [(''type'', if k = ''rpc'' then None else Some (JStr k)), (''requestType'', Some (JStr q)),
       (''requestStream'', if qs then Some (JBool True) else None), (''responseType'', Some (JStr p)),
       (''responseStream'', if ps then Some (JBool True) else None), (''options'', map_option JObj os)]"

definition json_of_reserved :: "reserved list \<Rightarrow> json option" where
  "json_of_reserved rs =
     (if rs = [] then None
      else Some (JArr (map (\<lambda>r. case r of Range a b \<Rightarrow> JArr [JNum a, JNum b] | Name s \<Rightarrow> JStr s) rs)))"

fun json_of_desc :: "desc \<Rightarrow> json" where
  "json_of_desc (NamespaceD os ns) =
     toObject [(''options'', map_option JObj os),
       (''nested'', some_object (map (\<lambda>(k, D). (k, json_of_desc D)) ns))]"
| "json_of_desc (TypeD os fs ext rs gr ns) =
     toObject [(''options'', map_option JObj os),
       (''fields'', Some (JObj (map (\<lambda>(k, F). (k, json_of_field F)) fs))), (''extensions'', ext),
       (''reserved'', json_of_reserved rs), (''group'', if gr then Some (JBool True) else None),
       (''nested'', some_object (map (\<lambda>(k, D). (k, json_of_desc D)) ns))]"
| "json_of_desc (EnumD os vs rs) =
     toObject [(''options'', map_option JObj os), (''values'', Some (JObj (map (\<lambda>(k, n). (k, JNum n)) vs))),
       (''reserved'', json_of_reserved rs)]"
| "json_of_desc (ServiceD os ms ns) =
     toObject [(''options'', map_option JObj os),
       (''methods'', Some (JObj (map (\<lambda>(k, M). (k, json_of_method M)) ms))),
       (''nested'', some_object (map (\<lambda>(k, D). (k, json_of_desc D)) ns))]"

text \<open>Descriptors whose members do not clash.\<close>

fun field_id :: "field_desc \<Rightarrow> nat" where
  "field_id (FieldD r t i os) = i"
| "field_id (MapD k t i os) = i"

fun field_ok :: "field_desc \<Rightarrow> bool" where
  "field_ok (FieldD r t i os) \<longleftrightarrow>
     (case r of None \<Rightarrow> True | Some s \<Rightarrow> ruleRe s \<and> map lower_char s = s \<and> s \<noteq> ''optional'')"
| "field_ok (MapD k t i os) \<longleftrightarrow> True"

fun method_ok :: "method_desc \<Rightarrow> bool" where
  "method_ok (MethodD k q qs p ps os) \<longleftrightarrow> k \<noteq> []"

fun desc_ok :: "desc \<Rightarrow> bool" where
  "desc_ok (NamespaceD os ns) \<longleftrightarrow> distinct (map fst ns) \<and> (\<forall>(k, D) \<in> set ns. desc_ok D)"
| "desc_ok (TypeD os fs ext rs gr ns) \<longleftrightarrow>
     distinct (map fst fs @ map fst ns) \<and> (\<forall>(k, D) \<in> set ns. desc_ok D) \<and>
     distinct (map (\<lambda>(k, F). field_id F) fs) \<and> (ext \<noteq> None \<longrightarrow> has_length ext) \<and>
     (\<forall>(k, F) \<in> set fs. field_ok F \<and> \<not> isReservedId (Some rs) (int (field_id F)) \<and> \<not> isReservedName (Some rs) k)"
| "desc_ok (EnumD os vs rs) \<longleftrightarrow> distinct (map fst vs)"
| "desc_ok (ServiceD os ms ns) \<longleftrightarrow>
     distinct (map fst ms @ map fst ns) \<and> (\<forall>(k, D) \<in> set ns. desc_ok D) \<and> (\<forall>(k, M) \<in> set ms. method_ok M)"

section \<open>What an object has been loaded from\<close>

text \<open>An object up to its place in the tree, which changes when it is added.\<close>

definition node :: "runtime \<Rightarrow> nat \<Rightarrow> robj \<times> decl" where
  "node w a = ((objs (st w) a)\<lparr>o_parent := None, o_resolved := False\<rparr>, decls w a)"

definition opts_val :: "opts \<Rightarrow> (string \<times> val) list option" where
  "opts_val os = map_option (map (\<lambda>(k, v). (k, val_of_json v))) os"

fun field_obj :: "bool \<Rightarrow> string \<Rightarrow> field_desc \<Rightarrow> robj \<times> field_decl" where
  "field_obj L k (FieldD r t i os) =
     ((ReflectionObject CField k (opts_val os))\<lparr>o_id := i\<rparr>,
      \<lparr>d_rule = r, d_type = t, d_keyType = None, d_required = (r = Some ''required''),
       d_repeated = (r = Some ''repeated''), d_long = (L \<and> types_long t \<noteq> None), d_bytes = (t = ''bytes''),
       d_resolvedType = None, d_typeDefault = None, d_defaultValue = None\<rparr>)"
| "field_obj L k (MapD key t i os) =
     ((ReflectionObject CField k (opts_val os))\<lparr>o_id := i\<rparr>,
      \<lparr>d_rule = None, d_type = t, d_keyType = Some key, d_required = False,
       d_repeated = False, d_long = (L \<and> types_long t \<noteq> None), d_bytes = (t = ''bytes''),
       d_resolvedType = None, d_typeDefault = None, d_defaultValue = None\<rparr>)"

fun method_obj :: "string \<Rightarrow> method_desc \<Rightarrow> robj \<times> decl" where
  "method_obj k (MethodD kind q qs p ps os) =
     (ReflectionObject CMethod k (opts_val os),
      MethodDecl \<lparr>d_kind = kind, d_requestType = q, d_requestStream = qs, d_responseType = p, d_responseStream = ps,
                   d_resolvedRequestType = None, d_resolvedResponseType = None\<rparr>)"

definition reserved_val :: "reserved list \<Rightarrow> reserved list option" where
  "reserved_val rs = (if rs = [] then None else Some rs)"

definition leaf_members :: "('x \<Rightarrow> string \<Rightarrow> robj \<times> decl) \<Rightarrow> (nat \<Rightarrow> robj \<times> decl) \<Rightarrow> nat set \<Rightarrow>
    (string \<times> nat) list \<Rightarrow> (string \<times> 'x) list \<Rightarrow> bool" where
  "leaf_members ob N R = list_all2 (\<lambda>m x. fst m = fst x \<and> snd m \<in> R \<and> N (snd m) = ob (snd x) (fst x))"

inductive loaded :: "bool \<Rightarrow> (nat \<Rightarrow> robj \<times> decl) \<Rightarrow> nat set \<Rightarrow> nat \<Rightarrow> desc \<Rightarrow> bool" for L N R where
  namespace:
    "a \<in> R \<Longrightarrow> N a = (ob, NoDecl) \<Longrightarrow> o_class ob \<in> {CNamespace, CRoot} \<Longrightarrow> o_options ob = opts_val os \<Longrightarrow>
     list_all2 (\<lambda>m x. fst m = fst x \<and> o_name (fst (N (snd m))) = fst x \<and> loaded L N R (snd m) (snd x))
       (nestedArray ob) ns \<Longrightarrow>
     loaded L N R a (NamespaceD os ns)"
| type:
    "a \<in> R \<Longrightarrow> N a = (ob, TypeDecl ext gr) \<Longrightarrow> o_class ob = CType \<Longrightarrow> o_options ob = opts_val os \<Longrightarrow>
     o_reserved ob = reserved_val rs \<Longrightarrow>
     leaf_members (\<lambda>F k. map_prod (\<lambda>x. x) FieldDecl (field_obj L k F)) N R (o_fields ob) fs \<Longrightarrow>
     list_all2 (\<lambda>m x. fst m = fst x \<and> o_name (fst (N (snd m))) = fst x \<and> loaded L N R (snd m) (snd x))
       (nestedArray ob) ns \<Longrightarrow>
     loaded L N R a (TypeD os fs ext rs gr ns)"
| enum:
    "a \<in> R \<Longrightarrow> N a = (ob, EnumDecl vs ids) \<Longrightarrow> o_class ob = CEnum \<Longrightarrow> o_options ob = opts_val os \<Longrightarrow>
     o_reserved ob = reserved_val rs \<Longrightarrow> ids = foldl (\<lambda>m (k, n). id_set n k m) [] vs \<Longrightarrow>
     loaded L N R a (EnumD os vs rs)"
| service:
    "a \<in> R \<Longrightarrow> N a = (ob, NoDecl) \<Longrightarrow> o_class ob = CService \<Longrightarrow> o_options ob = opts_val os \<Longrightarrow>
     leaf_members (\<lambda>M k. method_obj k M) N R (o_methods ob) ms \<Longrightarrow>
     list_all2 (\<lambda>m x. fst m = fst x \<and> o_name (fst (N (snd m))) = fst x \<and> loaded L N R (snd m) (snd x))
       (nestedArray ob) ns \<Longrightarrow>
     loaded L N R a (ServiceD os ms ns)"

text \<open>Reading the properties back.\<close>

lemma js_prop_toObject [simp]:
  "js_prop (toObject []) k = None"
  "k \<notin> fst ` set m \<Longrightarrow> js_prop (toObject ((k', v) # m)) k = (if k' = k then v else js_prop (toObject m) k)"
  "k' \<noteq> k \<Longrightarrow> js_prop (toObject ((k', v) # m)) k = js_prop (toObject m) k"
proof -
  have none: "k \<notin> fst ` set m \<Longrightarrow> js_prop (toObject m) k = None"
    by (induction m) (auto simp: js_prop_def toObject_def map_filter_simps split: option.splits)
  show "js_prop (toObject []) k = None" by (simp add: js_prop_def toObject_def map_filter_simps)
  show ne: "k' \<noteq> k \<Longrightarrow> js_prop (toObject ((k', v) # m)) k = js_prop (toObject m) k"
    by (auto simp: js_prop_def toObject_def map_filter_simps split: option.splits)
  show "k \<notin> fst ` set m \<Longrightarrow> js_prop (toObject ((k', v) # m)) k = (if k' = k then v else js_prop (toObject m) k)"
    using ne none by (auto simp: js_prop_def toObject_def map_filter_simps split: option.splits)
qed

lemma entries_simps [simp]: "entries (some_object m) = m" "entries (Some (JObj m)) = m" "entries None = []"
  by (simp_all add: entries_def some_object_def)

lemma options_of [simp]: "options_of (map_option JObj os) = Inr (opts_val os)"
  by (cases os) (simp_all add: options_of_def truthy_def is_object_def opts_val_def)

lemma reserved_of [simp]: "reserved_of (json_of_reserved rs) = reserved_val rs"
proof -
  have "List.map_filter (\<lambda>x. case x of JStr s \<Rightarrow> Some (Name s) | JArr (JNum a # JNum b # _) \<Rightarrow> Some (Range a b) | _ \<Rightarrow> None)
      (map (\<lambda>r. case r of Range a b \<Rightarrow> JArr [JNum a, JNum b] | Name s \<Rightarrow> JStr s) rs) = rs"
    by (induction rs) (auto simp: map_filter_simps split: reserved.splits)
  then show ?thesis by (simp add: json_of_reserved_def reserved_of_def reserved_val_def)
qed

lemma isReserved_val [simp]:
  "isReservedId (reserved_val rs) i = isReservedId (Some rs) i"
  "isReservedName (reserved_val rs) k = isReservedName (Some rs) k"
  by (simp_all add: reserved_val_def isReservedId_def isReservedName_def)

lemma field_props:
  "js_prop (json_of_field (FieldD r t i os)) ''keyType'' = None"
  "js_prop (json_of_field (FieldD r t i os)) ''rule'' = map_option JStr r"
  "js_prop (json_of_field (FieldD r t i os)) ''type'' = Some (JStr t)"
  "js_prop (json_of_field (FieldD r t i os)) ''id'' = Some (JNum (int i))"
  "js_prop (json_of_field (FieldD r t i os)) ''extend'' = None"
  "js_prop (json_of_field (FieldD r t i os)) ''options'' = map_option JObj os"
  "js_prop (json_of_field (MapD k t i os)) ''keyType'' = Some (JStr k)"
  "js_prop (json_of_field (MapD k t i os)) ''type'' = Some (JStr t)"
  "js_prop (json_of_field (MapD k t i os)) ''id'' = Some (JNum (int i))"
  "js_prop (json_of_field (MapD k t i os)) ''options'' = map_option JObj os"
  by simp_all

lemma not_object [simp]: "\<not> is_object None" "\<not> is_object (map_option JStr r)"
  by (auto simp: is_object_def split: option.splits)

lemma read_simps [simp]:
  "bind_sum (Inr x) f = f x" "id_of (Some (JNum (int i))) = Inr i" "string_of n (Some (JStr t)) = Inr t"
  "extend_of None = Inr None"
  by (simp_all add: bind_sum_def id_of_def string_of_def extend_of_def)

lemma rule_read: "field_ok (FieldD r t i os) \<Longrightarrow> rule_of (map_option JStr r) = Inr r \<and> r \<noteq> Some ''optional''"
  by (cases r) (auto simp: rule_of_def)

lemma field_read [simp]:
  assumes "field_ok F"
  shows "any_field L k (json_of_field F) = Inr (map_prod (\<lambda>x. x) FieldDecl (field_obj L k F))"
proof (cases F)
  case (FieldD r t i os)
  then show ?thesis
    using assms rule_read[of r t i os]
    by (simp add: any_field_def with_field_decl_def Field_fromJSON_def new_Field_def field_props Let_def ReflectionObject_def
        del: json_of_field.simps field_ok.simps)
next
  case (MapD key t i os)
  have "rule_of None = Inr None" by (simp add: rule_of_def)
  then show ?thesis
    using MapD
    by (simp add: any_field_def with_field_decl_def MapField_fromJSON_def new_MapField_def new_Field_def field_props Let_def
        ReflectionObject_def
        del: json_of_field.simps)
qed

lemma method_read [simp]: "method_ok M \<Longrightarrow> Method_fromJSON k (json_of_method M) = Inr (method_obj k M)"
  by (cases M) (auto simp: Method_fromJSON_def new_Method_def bind_sum_def string_of_def truthy_def is_object_def Let_def)

lemma enum_read [simp]:
  assumes "distinct (map fst vs)"
  shows "Enum_fromJSON k (json_of_desc (EnumD os vs rs)) =
    Inr ((ReflectionObject CEnum k (opts_val os))\<lparr>o_reserved := reserved_val rs\<rparr>,
      EnumDecl vs (foldl (\<lambda>m (k, n). id_set n k m) [] vs))"
proof -
  have f: "forward (map (\<lambda>(k, n). (k, JNum n)) vs) = vs"
    by (induction vs) (auto simp: forward_def map_filter_simps)
  have "distinct (map fst (m @ vs)) \<Longrightarrow> foldl (\<lambda>m (k, n). assoc_set k n m) m vs = m @ vs" for m :: "(string \<times> int) list"
  proof (induction vs arbitrary: m)
    case (Cons v vs)
    then have "assoc_set (fst v) (snd v) m = m @ [v]" by (cases v) (auto simp: assoc_set_def)
    then show ?case using Cons.IH[of "m @ [v]"] Cons.prems by (simp add: case_prod_beta)
  qed simp
  from this[of "[]"] show ?thesis
    using assms f by (simp add: Enum_fromJSON_def new_Enum_def bind_sum_def Let_def is_object_def)
qed

section \<open>Loading a descriptor\<close>

text \<open>Of the objects that there are only those in \<open>S\<close> change.\<close>

definition frame :: "nat set \<Rightarrow> runtime \<Rightarrow> runtime \<Rightarrow> bool" where
  "frame S w w' \<longleftrightarrow> free (st w) \<le> free (st w') \<and>
     (\<forall>x < free (st w). x \<notin> S \<longrightarrow> objs (st w') x = objs (st w) x \<and> decls w' x = decls w x)"

lemma frame_refl [simp]: "frame S w w"
  by (simp add: frame_def)

lemma frame_trans: "frame S w w' \<Longrightarrow> frame S w' w'' \<Longrightarrow> frame S w w''"
  by (auto simp: frame_def)

text \<open>The objects from an address on have their place in the tree.\<close>

definition placed :: "nat \<Rightarrow> runtime \<Rightarrow> bool" where
  "placed l w \<longleftrightarrow>
     (\<forall>x. l \<le> x \<and> x < free (st w) \<longrightarrow> o_parent (objs (st w) x) \<noteq> None \<and> \<not> o_resolved (objs (st w) x))"

lemma placed_trans:
  assumes "placed l w" and "frame {this} w w'" and "this < l" and "placed (free (st w)) w'"
  shows "placed l w'"
  unfolding placed_def
proof (intro allI impI)
  fix x assume x: "l \<le> x \<and> x < free (st w')"
  show "o_parent (objs (st w') x) \<noteq> None \<and> \<not> o_resolved (objs (st w') x)"
    using assms x by (cases "x < free (st w)") (auto simp: placed_def frame_def)
qed

lemma placed_nothing [simp]: "free (st w) \<le> l \<Longrightarrow> placed l w"
  by (auto simp: placed_def)

lemma old_root:
  assumes wf: "wf_store s" and a: "a < free s" and same: "\<And>x. x < free s \<Longrightarrow> o_parent (objs s' x) = o_parent (objs s x)"
  shows "\<exists>r < free s. obj_root s' a = Some r"
proof -
  have "ancestry s a as \<Longrightarrow> a < free s \<Longrightarrow> ancestry s' a as" for a as
  proof (induction rule: ancestry.induct)
    case (top a)
    then show ?case using same by (intro ancestry.top) simp
  next
    case (child a p as)
    then show ?case using same wf_parent_free[OF wf child.hyps(1)] by (intro ancestry.child) simp_all
  qed
  moreover obtain as where as: "ancestry s a as" using wf_forest[OF wf] by (auto simp: forest_def)
  ultimately have "obj_root s' a = Some (hd as)" using obj_root_ancestry a by blast
  moreover have "hd as < free s" using ancestry_free[OF wf as a] hd_in_set[OF ancestry_nonempty[OF as]] by blast
  ultimately show ?thesis by blast
qed

lemma leaf_members_append:
  "leaf_members ob N R ms xs \<Longrightarrow> leaf_members ob N R ms' xs' \<Longrightarrow> leaf_members ob N R (ms @ ms') (xs @ xs')"
  by (simp add: leaf_members_def list_all2_appendI)

lemma leaf_members_frame:
  assumes "leaf_members ob N R ms xs" and "R \<subseteq> R'" and "\<And>x. x \<in> R \<Longrightarrow> N' x = N x"
  shows "leaf_members ob N' R' ms xs"
  using assms unfolding leaf_members_def by (auto elim!: list_all2_mono)

text \<open>A new object, before it is added: \<open>b\<close> is the first free address.\<close>

definition created :: "robj \<times> decl \<Rightarrow> runtime \<Rightarrow> runtime" where
  "created x w = snd (new_object x w)"

lemma created_simps [simp]:
  "free (st (created x w)) = free (st w) + 1" "ctors (created x w) = ctors w"
  "objs (st (created x w)) a = (if a = free (st w) then fst x else objs (st w) a)"
  "decls (created x w) a = (if a = free (st w) then snd x else decls w a)"
  by (simp_all add: created_def new_object_def alloc_def)

lemma new_object: "new_object x w = (Inr (free (st w)), created x w)"
  by (simp add: created_def new_object_def alloc_def)

lemma created_store: "st (created x w) = snd (alloc (fst x) (st w))"
  by (simp add: created_def new_object_def alloc_def)

definition new_robj :: "robj \<Rightarrow> bool" where
  "new_robj ob \<longleftrightarrow> o_parent ob = None \<and> o_nested ob = None \<and> o_fields ob = [] \<and> o_methods ob = [] \<and> \<not> o_resolved ob"

lemma new_robj_node [simp]: "new_robj ob \<Longrightarrow> ob\<lparr>o_parent := None, o_resolved := False\<rparr> = ob"
  by (simp add: new_robj_def)

lemma created_reachable: "reachable (st w) \<Longrightarrow> new_robj (fst x) \<Longrightarrow> reachable (st (created x w))"
  unfolding created_store by (rule reachable.new) (simp_all add: new_robj_def)

lemma field_obj_new: "new_robj (fst (field_obj L k F))" "o_class (fst (field_obj L k F)) = CField"
  "o_name (fst (field_obj L k F)) = k" "o_extend (fst (field_obj L k F)) = None" "o_id (fst (field_obj L k F)) = field_id F"
  by (cases F; simp add: new_robj_def ReflectionObject_def)+

lemma method_obj_new: "new_robj (fst (method_obj k M))" "o_class (fst (method_obj k M)) = CMethod"
  "o_name (fst (method_obj k M)) = k"
  by (cases M; simp add: new_robj_def ReflectionObject_def)+

lemma created_facts:
  assumes re: "reachable (st w)" and al: "this < free (st w)" and p: "is_namespace (objs (st w) this)"
    and x: "new_robj (fst x)" and fr: "free_name (o_name (fst x)) (objs (st w) this)"
  shows "reachable (st (created x w))" and "wf_store (st (created x w))"
    and "get (st (created x w)) this (o_name (fst x)) = None" and "obj_root (st (created x w)) this \<noteq> Some (free (st w))"
    and "\<And>k b a. (k, b) \<in> set (o_fields (objs (st w) a)) \<Longrightarrow> b < free (st w)"
proof -
  have wf: "wf_store (st w)" by (rule reachable_store_wf[OF re])
  show r: "reachable (st (created x w))" by (rule created_reachable[OF re x])
  show wf1: "wf_store (st (created x w))" by (rule reachable_store_wf[OF r])
  show "get (st (created x w)) this (o_name (fst x)) = None"
    using get_None[OF wf1, of this] al p fr by simp
  show "obj_root (st (created x w)) this \<noteq> Some (free (st w))"
    using old_root[OF wf al, of "st (created x w)"] by auto
  show "b < free (st w)" if "(k, b) \<in> set (o_fields (objs (st w) a))" for k b a
    using wf_field[OF wf that] wf_parent_free[OF wf] by blast
qed

lemma add_field_step:
  assumes re: "reachable (st w)" and al: "this < free (st w)" and c: "o_class (objs (st w) this) = CType"
    and ok: "\<not> isReservedId (o_reserved (objs (st w) this)) (int (field_id F))"
      "\<not> isReservedName (o_reserved (objs (st w) this)) k"
    and fr: "free_name k (objs (st w) this)"
    and i: "field_id F \<notin> (\<lambda>(k, f). o_id (objs (st w) f)) ` set (o_fields (objs (st w) this))"
    and x: "x = map_prod (\<lambda>x. x) FieldDecl (field_obj L k F)"
  shows "add_object (Suc d) this (free (st w)) (created x w) =
      (Inr (), (created x w)\<lparr>st := insert_field this (free (st w)) (st (created x w))\<rparr>)"
    and "reachable (insert_field this (free (st w)) (st (created x w)))"
proof -
  let ?b = "free (st w)" and ?s = "st (created x w)"
  have p: "is_namespace (objs (st w) this)" using c by (simp add: is_namespace_def)
  have n: "new_robj (fst x)" "o_name (fst x) = k" using field_obj_new by (simp_all add: x)
  note f = created_facts[OF re al p n(1) fr[folded n(2)], unfolded n(2)]
  have b: "own_field (objs ?s ?b)" "o_parent (objs ?s ?b) = None" "o_name (objs ?s ?b) = k" "o_id (objs ?s ?b) = field_id F"
    using n field_obj_new by (simp_all add: x own_field_def new_robj_def)
  have t: "objs ?s this = objs (st w) this" using al by simp
  have "o_id (objs ?s ?b) \<notin> (\<lambda>(k, f). o_id (objs ?s f)) ` set (o_fields (objs ?s this))"
  proof -
    have "(\<lambda>(k, f). o_id (objs ?s f)) ` set (o_fields (objs (st w) this)) =
        (\<lambda>(k, f). o_id (objs (st w) f)) ` set (o_fields (objs (st w) this))"
      by (intro image_cong) (auto dest: f(5))
    then show ?thesis using i unfolding b(4) t by simp
  qed
  then have a: "add (Suc d) this ?b ?s = (Inr (), insert_field this ?b ?s)" for d
    using ok by (intro add_new_field[OF f(2) _ b(1,2) _ f(4)]) (simp_all only: t b c f(3) not_False_eq_True)
  show "add_object (Suc d) this ?b (created x w) = (Inr (), (created x w)\<lparr>st := insert_field this ?b ?s\<rparr>)"
    unfolding add_object_def a by simp
  show "reachable (insert_field this ?b ?s)"
    using reachable.add[OF f(1), of this ?b "Suc 0"] al unfolding a by simp
qed

text \<open>
  The loops that create members and add them share a contract. \<open>fits\<close> is what the object asks of
  the members to come, \<open>put\<close> enters members into its table, and \<open>is_loaded\<close> is what a member
  is afterwards, which only depends on the objects made for it.
\<close>

locale member_loop =
  fixes run :: "nat \<Rightarrow> (string \<times> 'x) list \<Rightarrow> unit prog"
    and fits :: "runtime \<Rightarrow> nat \<Rightarrow> (string \<times> 'x) list \<Rightarrow> bool"
    and put :: "(string \<times> nat) list \<Rightarrow> robj \<Rightarrow> robj"
    and is_loaded :: "(nat \<Rightarrow> robj \<times> decl) \<Rightarrow> nat set \<Rightarrow> nat \<Rightarrow> string \<Rightarrow> 'x \<Rightarrow> bool"
  assumes run_nothing: "run this [] w = (Inr (), w)"
    and put_nothing: "put [] ob = ob"
    and put_put: "put ms (put [m] ob) = put (m # ms) ob"
    and is_loaded_frame: "is_loaded N R b k x \<Longrightarrow> R \<subseteq> R' \<Longrightarrow> (\<And>y. y \<in> R \<Longrightarrow> N' y = N y) \<Longrightarrow> is_loaded N' R' b k x"
    and run_step: "reachable (st w) \<Longrightarrow> this < free (st w) \<Longrightarrow> fits w this ((k, x) # xs) \<Longrightarrow>
      \<exists>w1 b. run this ((k, x) # xs) w = run this xs w1 \<and> reachable (st w1) \<and> frame {this} w w1 \<and>
        ctors w1 = ctors w \<and> decls w1 this = decls w this \<and> objs (st w1) this = put [(k, b)] (objs (st w) this) \<and>
        is_loaded (node w1) {free (st w)..<free (st w1)} b k x \<and> placed (free (st w)) w1 \<and> fits w1 this xs"
begin

definition all_loaded :: "(nat \<Rightarrow> robj \<times> decl) \<Rightarrow> nat set \<Rightarrow> (string \<times> nat) list \<Rightarrow> (string \<times> 'x) list \<Rightarrow> bool" where
  "all_loaded N R = list_all2 (\<lambda>m x. fst m = fst x \<and> is_loaded N R (snd m) (fst x) (snd x))"

lemma run_loaded:
  "reachable (st w) \<Longrightarrow> this < free (st w) \<Longrightarrow> fits w this xs \<Longrightarrow>
   \<exists>w' ms. run this xs w = (Inr (), w') \<and> reachable (st w') \<and> frame {this} w w' \<and> ctors w' = ctors w \<and>
     decls w' this = decls w this \<and> objs (st w') this = put ms (objs (st w) this) \<and>
     all_loaded (node w') {free (st w)..<free (st w')} ms xs \<and> placed (free (st w)) w'"
proof (induction xs arbitrary: w)
  case Nil
  then show ?case
    by (intro exI[of _ w] exI[of _ "[]"]) (simp add: run_nothing put_nothing all_loaded_def)
next
  case (Cons kx xs)
  obtain k x where kx: "kx = (k, x)" by (cases kx)
  obtain w1 b where s: "run this (kx # xs) w = run this xs w1" "reachable (st w1)" "frame {this} w w1"
    "ctors w1 = ctors w" "decls w1 this = decls w this" "objs (st w1) this = put [(k, b)] (objs (st w) this)"
    "is_loaded (node w1) {free (st w)..<free (st w1)} b k x" "fits w1 this xs" "placed (free (st w)) w1"
    using run_step[of w this k x xs] Cons.prems kx by blast
  have le: "free (st w) \<le> free (st w1)" using s(3) by (simp add: frame_def)
  then obtain w' ms where w': "run this xs w1 = (Inr (), w')" "reachable (st w')" "frame {this} w1 w'"
    "ctors w' = ctors w1" "decls w' this = decls w1 this" "objs (st w') this = put ms (objs (st w1) this)"
    "all_loaded (node w') {free (st w1)..<free (st w')} ms xs" "placed (free (st w1)) w'"
    using Cons.IH[OF s(2) _ s(8)] Cons.prems(2) by auto
  have le': "free (st w1) \<le> free (st w')" using w'(3) by (simp add: frame_def)
  have "is_loaded (node w') {free (st w)..<free (st w')} b k x"
    by (rule is_loaded_frame[OF s(7)]) (use w'(3) le' Cons.prems(2) in \<open>auto simp: frame_def node_def\<close>)
  moreover have "all_loaded (node w') {free (st w)..<free (st w')} ms xs"
    using w'(7) unfolding all_loaded_def
    by (rule list_all2_mono) (use le in \<open>auto intro: is_loaded_frame\<close>)
  ultimately have "all_loaded (node w') {free (st w)..<free (st w')} ((k, b) # ms) (kx # xs)"
    by (simp add: all_loaded_def kx)
  then show ?case
    using w' s frame_trans[OF s(3) w'(3)] placed_trans[OF s(9) w'(3) Cons.prems(2) w'(8)]
    by (intro exI[of _ w'] exI[of _ "(k, b) # ms"]) (simp add: put_put)
qed

end

definition field_fits :: "runtime \<Rightarrow> nat \<Rightarrow> (string \<times> field_desc) list \<Rightarrow> bool" where
  "field_fits w this fs \<longleftrightarrow>
     o_class (objs (st w) this) = CType \<and> distinct (map fst fs) \<and> distinct (map (\<lambda>(k, F). field_id F) fs) \<and>
     (\<forall>(k, F) \<in> set fs. field_ok F \<and> \<not> isReservedId (o_reserved (objs (st w) this)) (int (field_id F)) \<and>
        \<not> isReservedName (o_reserved (objs (st w) this)) k \<and> free_name k (objs (st w) this) \<and>
        field_id F \<notin> (\<lambda>(k, f). o_id (objs (st w) f)) ` set (o_fields (objs (st w) this)))"

definition put_fields :: "(string \<times> nat) list \<Rightarrow> robj \<Rightarrow> robj" where
  "put_fields ms ob = ob\<lparr>o_fields := o_fields ob @ ms\<rparr>"

definition field_loaded :: "bool \<Rightarrow> (nat \<Rightarrow> robj \<times> decl) \<Rightarrow> nat set \<Rightarrow> nat \<Rightarrow> string \<Rightarrow> field_desc \<Rightarrow> bool" where
  "field_loaded L N R b k F \<longleftrightarrow> b \<in> R \<and> N b = map_prod (\<lambda>x. x) FieldDecl (field_obj L k F)"

lemma field_step:
  assumes re: "reachable (st w)" and al: "this < free (st w)" and fit: "field_fits w this ((k, F) # fs)"
  shows "\<exists>w1 b. add_fields L (Suc d) this (map (\<lambda>(k, F). (k, json_of_field F)) ((k, F) # fs)) w =
      add_fields L (Suc d) this (map (\<lambda>(k, F). (k, json_of_field F)) fs) w1 \<and>
    reachable (st w1) \<and> frame {this} w w1 \<and> ctors w1 = ctors w \<and> decls w1 this = decls w this \<and>
    objs (st w1) this = put_fields [(k, b)] (objs (st w) this) \<and>
    field_loaded L (node w1) {free (st w)..<free (st w1)} b k F \<and> placed (free (st w)) w1 \<and> field_fits w1 this fs"
proof -
  define x where "x = map_prod (\<lambda>x. x) FieldDecl (field_obj L k F)"
  let ?b = "free (st w)"
  define w1 where "w1 = (created x w)\<lparr>st := insert_field this ?b (st (created x w))\<rparr>"
  have c: "o_class (objs (st w) this) = CType" using fit by (simp add: field_fits_def)
  note st = add_field_step[OF re al c _ _ _ _ x_def]
  have step: "add_object (Suc d) this ?b (created x w) = (Inr (), w1)" "reachable (st w1)"
    using st fit by (auto simp: w1_def field_fits_def)
  have t: "objs (st w1) this = put_fields [(k, ?b)] (objs (st w) this)"
    using al field_obj_new(3) by (simp add: w1_def insert_defs x_def put_fields_def)
  have o: "objs (st w1) y = objs (st w) y" "decls w1 y = decls w y" if "y < ?b" "y \<noteq> this" for y
    using that by (simp_all add: w1_def insert_defs)
  have b: "node w1 ?b = x" "o_id (objs (st w1) ?b) = field_id F"
    using al field_obj_new[of L k F] by (auto simp: w1_def insert_defs node_def x_def intro: prod_eqI)
  have fr1: "free (st w1) = ?b + 1" by (simp add: w1_def insert_defs)
  have ids: "o_id (objs (st w1) f) = o_id (objs (st w) f)" if "f < ?b" for f
    using o(1)[OF that] t by (cases "f = this") (simp_all add: put_fields_def)
  have olds: "f < ?b" if "(k', f) \<in> set (o_fields (objs (st w) this))" for k' f
    using wf_field[OF reachable_store_wf[OF re] that] wf_parent_free[OF reachable_store_wf[OF re]] by blast
  have used: "(\<lambda>(k, f). o_id (objs (st w1) f)) ` set (o_fields (objs (st w1) this)) =
      insert (field_id F) ((\<lambda>(k, f). o_id (objs (st w) f)) ` set (o_fields (objs (st w) this)))"
  proof -
    have "(\<lambda>(k, f). o_id (objs (st w1) f)) ` set (o_fields (objs (st w) this)) =
        (\<lambda>(k, f). o_id (objs (st w) f)) ` set (o_fields (objs (st w) this))"
      by (intro image_cong) (auto dest!: olds simp: ids)
    then show ?thesis by (simp add: t b(2) put_fields_def)
  qed
  have "field_ok F' \<and> \<not> isReservedId (o_reserved (objs (st w1) this)) (int (field_id F')) \<and>
      \<not> isReservedName (o_reserved (objs (st w1) this)) k' \<and> free_name k' (objs (st w1) this) \<and>
      field_id F' \<notin> (\<lambda>(k, f). o_id (objs (st w1) f)) ` set (o_fields (objs (st w1) this))"
    if m: "(k', F') \<in> set fs" for k' F'
  proof -
    have "k \<notin> fst ` set fs" "field_id F \<notin> (\<lambda>(k, F). field_id F) ` set fs"
      using fit by (simp_all add: field_fits_def)
    then have "k' \<noteq> k" "field_id F' \<noteq> field_id F" using m by (auto simp: rev_image_eqI)
    moreover have "field_ok F' \<and> \<not> isReservedId (o_reserved (objs (st w) this)) (int (field_id F')) \<and>
        \<not> isReservedName (o_reserved (objs (st w) this)) k' \<and> free_name k' (objs (st w) this) \<and>
        field_id F' \<notin> (\<lambda>(k, f). o_id (objs (st w) f)) ` set (o_fields (objs (st w) this))"
    proof -
      have "\<forall>(k, F) \<in> set fs. field_ok F \<and> \<not> isReservedId (o_reserved (objs (st w) this)) (int (field_id F)) \<and>
        \<not> isReservedName (o_reserved (objs (st w) this)) k \<and> free_name k (objs (st w) this) \<and>
        field_id F \<notin> (\<lambda>(k, f). o_id (objs (st w) f)) ` set (o_fields (objs (st w) this))"
        using fit by (simp add: field_fits_def)
      with m show ?thesis by blast
    qed
    ultimately show ?thesis
      unfolding used by (auto simp: t put_fields_def free_name_def nestedArray_def)
  qed
  moreover have "o_class (objs (st w1) this) = CType \<and> distinct (map fst fs) \<and> distinct (map (\<lambda>(k, F). field_id F) fs)"
    using fit by (simp add: field_fits_def t put_fields_def)
  ultimately have "field_fits w1 this fs" unfolding field_fits_def by blast
  moreover have "add_fields L (Suc d) this (map (\<lambda>(k, F). (k, json_of_field F)) ((k, F) # fs)) w =
      add_fields L (Suc d) this (map (\<lambda>(k, F). (k, json_of_field F)) fs) w1"
    using fit step(1)
    by (simp add: construct_def bind_prog_def then_prog_def new_object x_def field_fits_def del: json_of_field.simps)
  moreover have "frame {this} w w1" using o by (simp add: frame_def fr1)
  moreover have "ctors w1 = ctors w" "decls w1 this = decls w this" using al by (simp_all add: w1_def)
  moreover have "field_loaded L (node w1) {?b..<free (st w1)} ?b k F"
    by (simp add: field_loaded_def b(1) fr1 x_def)
  moreover have "placed ?b w1" using al by (auto simp: placed_def fr1 w1_def insert_defs)
  ultimately show ?thesis using step(2) t by blast
qed

interpretation fields: member_loop
  "\<lambda>this fs. add_fields L (Suc d) this (map (\<lambda>(k, F). (k, json_of_field F)) fs)" field_fits put_fields "field_loaded L"
  for L d
  by (unfold_locales, simp add: return_prog_def, simp add: put_fields_def, simp add: put_fields_def,
      force simp: field_loaded_def, rule field_step)

definition method_fits :: "runtime \<Rightarrow> nat \<Rightarrow> (string \<times> method_desc) list \<Rightarrow> bool" where
  "method_fits w this ms \<longleftrightarrow>
     o_class (objs (st w) this) = CService \<and> distinct (map fst ms) \<and>
     (\<forall>(k, M) \<in> set ms. method_ok M \<and> free_name k (objs (st w) this))"

definition put_methods :: "(string \<times> nat) list \<Rightarrow> robj \<Rightarrow> robj" where
  "put_methods ms ob = ob\<lparr>o_methods := o_methods ob @ ms\<rparr>"

definition method_loaded :: "(nat \<Rightarrow> robj \<times> decl) \<Rightarrow> nat set \<Rightarrow> nat \<Rightarrow> string \<Rightarrow> method_desc \<Rightarrow> bool" where
  "method_loaded N R b k M \<longleftrightarrow> b \<in> R \<and> N b = method_obj k M"

lemma method_step:
  assumes re: "reachable (st w)" and al: "this < free (st w)" and fit: "method_fits w this ((k, M) # ms)"
  shows "\<exists>w1 b. add_methods (Suc d) this (map (\<lambda>(k, M). (k, json_of_method M)) ((k, M) # ms)) w =
      add_methods (Suc d) this (map (\<lambda>(k, M). (k, json_of_method M)) ms) w1 \<and>
    reachable (st w1) \<and> frame {this} w w1 \<and> ctors w1 = ctors w \<and> decls w1 this = decls w this \<and>
    objs (st w1) this = put_methods [(k, b)] (objs (st w) this) \<and>
    method_loaded (node w1) {free (st w)..<free (st w1)} b k M \<and> placed (free (st w)) w1 \<and> method_fits w1 this ms"
proof -
  define x where "x = method_obj k M"
  let ?b = "free (st w)" and ?s = "st (created x w)"
  define w1 where "w1 = (created x w)\<lparr>st := insert_method this ?b ?s\<rparr>"
  have c: "o_class (objs (st w) this) = CService" and p: "is_namespace (objs (st w) this)"
    using fit by (simp_all add: method_fits_def is_namespace_def)
  have n: "new_robj (fst x)" "o_name (fst x) = k" "o_class (fst x) = CMethod"
    using method_obj_new by (simp_all add: x_def)
  have fr: "free_name (o_name (fst x)) (objs (st w) this)" using fit n(2) by (simp add: method_fits_def)
  note f = created_facts[OF re al p n(1) fr, unfolded n(2)]
  have a: "add (Suc d) this ?b ?s = (Inr (), insert_method this ?b ?s)" for d
    using al f(3) c n by (intro add_new_method[OF f(2)]) simp_all
  have step: "add_object (Suc d) this ?b (created x w) = (Inr (), w1)"
    unfolding add_object_def a w1_def by simp
  have re1: "reachable (st w1)"
    using reachable.add[OF f(1), of this ?b "Suc 0"] al unfolding a w1_def by simp
  have t: "objs (st w1) this = put_methods [(k, ?b)] (objs (st w) this)"
    using al n(2) by (simp add: w1_def insert_defs put_methods_def)
  have o: "objs (st w1) y = objs (st w) y" "decls w1 y = decls w y" if "y < ?b" "y \<noteq> this" for y
    using that by (simp_all add: w1_def insert_defs)
  have fr1: "free (st w1) = ?b + 1" by (simp add: w1_def insert_defs)
  have b: "node w1 ?b = x"
    using al n by (auto simp: w1_def insert_defs node_def intro: prod_eqI)
  have ne: "k \<notin> fst ` set ms" and d: "distinct (map fst ms)" and all: "\<forall>(k, M) \<in> set ms. method_ok M \<and> free_name k (objs (st w) this)"
    and M: "method_ok M"
    using fit by (simp_all add: method_fits_def)
  have "method_ok M' \<and> free_name k' (objs (st w1) this)" if m: "(k', M') \<in> set ms" for k' M'
  proof -
    have "k' \<noteq> k" using ne m by (auto simp: rev_image_eqI)
    moreover have "method_ok M' \<and> free_name k' (objs (st w) this)" using all m by blast
    ultimately show ?thesis by (auto simp: t put_methods_def free_name_def nestedArray_def)
  qed
  moreover have "o_class (objs (st w1) this) = CService" using c by (simp add: t put_methods_def)
  ultimately have "method_fits w1 this ms" using d unfolding method_fits_def by blast
  moreover have "add_methods (Suc d) this (map (\<lambda>(k, M). (k, json_of_method M)) ((k, M) # ms)) w =
      add_methods (Suc d) this (map (\<lambda>(k, M). (k, json_of_method M)) ms) w1"
    using M step by (simp add: construct_def bind_prog_def then_prog_def new_object x_def del: json_of_method.simps)
  moreover have "frame {this} w w1" using o by (simp add: frame_def fr1)
  moreover have "ctors w1 = ctors w" "decls w1 this = decls w this" using al by (simp_all add: w1_def)
  moreover have "method_loaded (node w1) {?b..<free (st w1)} ?b k M"
    by (simp add: method_loaded_def b fr1 x_def)
  moreover have "placed ?b w1" using al n(1) by (auto simp: placed_def fr1 w1_def insert_defs new_robj_def)
  ultimately show ?thesis using re1 t by blast
qed

interpretation methods: member_loop
  "\<lambda>this ms. add_methods (Suc d) this (map (\<lambda>(k, M). (k, json_of_method M)) ms)" method_fits put_methods method_loaded
  for d
  by (unfold_locales, simp add: return_prog_def, simp add: put_methods_def, simp add: put_methods_def,
      force simp: method_loaded_def, rule method_step)

text \<open>Nested objects, each of which is built before it is added.\<close>

fun shape_of :: "desc \<Rightarrow> shape" where
  "shape_of (NamespaceD os ns) = KNamespace"
| "shape_of (TypeD os fs ext rs gr ns) = KType"
| "shape_of (EnumD os vs rs) = KEnum"
| "shape_of (ServiceD os ms ns) = KService"

lemma shapes: "nested_shape (json_of_desc D) = shape_of D" "shape_in_type (json_of_desc D) = shape_of D"
  by (cases D; simp add: nested_shape_def shape_in_type_def)+

lemma loaded_region: "loaded L N R a D \<Longrightarrow> a \<in> R"
  by (cases rule: loaded.cases) auto

lemma loaded_frame:
  assumes "loaded L N R a D" and R: "R \<subseteq> R'" and N: "\<And>y. y \<in> R \<Longrightarrow> N' y = N y"
  shows "loaded L N' R' a D"
proof -
  have nested: "list_all2 (\<lambda>m x. fst m = fst x \<and> o_name (fst (N' (snd m))) = fst x \<and> loaded L N' R' (snd m) (snd x)) ms xs"
    if "list_all2 (\<lambda>m x. fst m = fst x \<and> o_name (fst (N (snd m))) = fst x \<and>
        (loaded L N R (snd m) (snd x) \<and> loaded L N' R' (snd m) (snd x))) ms xs" for ms xs
    using that by (rule list_all2_mono) (auto simp: N dest: loaded_region)
  show ?thesis
    using assms(1)
  proof (induction rule: loaded.induct)
    case (namespace a ob os ns)
    show ?case
      by (rule loaded.namespace[of _ _ _ ob])
         (use namespace R N nested[OF namespace.IH] in auto)
  next
    case (type a ob ext gr os rs fs ns)
    show ?case
      by (rule loaded.type[of _ _ _ ob])
         (use type R N nested[OF type.IH] leaf_members_frame[OF type.hyps(6) R N] in auto)
  next
    case (enum a ob vs ids os rs)
    show ?case by (rule loaded.enum[of _ _ _ ob]) (use enum R N in auto)
  next
    case (service a ob os ms ns)
    show ?case
      by (rule loaded.service[of _ _ _ ob])
         (use service R N nested[OF service.IH] leaf_members_frame[OF service.hyps(5) R N] in auto)
  qed
qed

definition built :: "bool \<Rightarrow> nat set \<Rightarrow> runtime \<Rightarrow> runtime \<Rightarrow> nat \<Rightarrow> string \<Rightarrow> desc \<Rightarrow> bool" where
  "built L R w w' b k D \<longleftrightarrow>
     reachable (st w') \<and> frame {} w w' \<and> ctors w' = ctors w \<and> b = free (st w) \<and> b < free (st w') \<and>
     o_parent (objs (st w') b) = None \<and> valid_nested (objs (st w') b) \<and> o_name (objs (st w') b) = k \<and>
     loaded L (node w') R b D \<and> placed (Suc b) w'"

definition buildable :: "bool \<Rightarrow> nat \<Rightarrow> desc \<Rightarrow> bool" where
  "buildable L d D \<longleftrightarrow>
     (\<forall>k w. reachable (st w) \<longrightarrow>
        (\<exists>w'. fromJSON L d (shape_of D) k (json_of_desc D) w = (Inr (free (st w)), w') \<and>
           built L {free (st w)..<free (st w')} w w' (free (st w)) k D))"

definition nested_fits :: "bool \<Rightarrow> nat \<Rightarrow> runtime \<Rightarrow> nat \<Rightarrow> (string \<times> desc) list \<Rightarrow> bool" where
  "nested_fits L d w this ns \<longleftrightarrow>
     is_namespace (objs (st w) this) \<and> distinct (map fst ns) \<and>
     (\<forall>(k, D) \<in> set ns. buildable L d D \<and> free_name k (objs (st w) this))"

definition put_nested :: "(string \<times> nat) list \<Rightarrow> robj \<Rightarrow> robj" where
  "put_nested ms ob = (if ms = [] then ob else ob\<lparr>o_nested := Some (nestedArray ob @ ms)\<rparr>)"

definition nested_loaded :: "bool \<Rightarrow> (nat \<Rightarrow> robj \<times> decl) \<Rightarrow> nat set \<Rightarrow> nat \<Rightarrow> string \<Rightarrow> desc \<Rightarrow> bool" where
  "nested_loaded L N R b k D \<longleftrightarrow> o_name (fst (N b)) = k \<and> loaded L N R b D"

lemma nestedArray_put [simp]: "nestedArray (put_nested ms ob) = nestedArray ob @ ms"
  by (simp add: put_nested_def nestedArray_def)

lemma nestedArray_other [simp]:
  "nestedArray (put_fields fs ob) = nestedArray ob" "nestedArray (put_methods fs ob) = nestedArray ob"
  by (simp_all add: put_fields_def put_methods_def nestedArray_def)

lemma put_nested_sel [simp]:
  "o_class (put_nested ms ob) = o_class ob" "o_parent (put_nested ms ob) = o_parent ob" "o_name (put_nested ms ob) = o_name ob"
  "o_fields (put_nested ms ob) = o_fields ob" "o_methods (put_nested ms ob) = o_methods ob"
  "o_options (put_nested ms ob) = o_options ob" "o_reserved (put_nested ms ob) = o_reserved ob"
  "is_namespace (put_nested ms ob) = is_namespace ob"
  by (simp_all add: put_nested_def is_namespace_def)

lemma nested_step:
  assumes re: "reachable (st w)" and al: "this < free (st w)" and fit: "nested_fits L (Suc d) w this ((k, D) # ns)"
    and sh: "\<And>D. sh (json_of_desc D) = shape_of D"
  shows "\<exists>w1 b. addJSON L (Suc d) sh this (map (\<lambda>(k, D). (k, json_of_desc D)) ((k, D) # ns)) w =
      addJSON L (Suc d) sh this (map (\<lambda>(k, D). (k, json_of_desc D)) ns) w1 \<and>
    reachable (st w1) \<and> frame {this} w w1 \<and> ctors w1 = ctors w \<and> decls w1 this = decls w this \<and>
    objs (st w1) this = put_nested [(k, b)] (objs (st w) this) \<and>
    nested_loaded L (node w1) {free (st w)..<free (st w1)} b k D \<and> placed (free (st w)) w1 \<and> nested_fits L (Suc d) w1 this ns"
proof -
  let ?b = "free (st w)"
  have p: "is_namespace (objs (st w) this)" and bd: "buildable L (Suc d) D" and fr: "free_name k (objs (st w) this)"
    and ne: "k \<notin> fst ` set ns" and dn: "distinct (map fst ns)"
    and all: "\<forall>(k, D) \<in> set ns. buildable L (Suc d) D \<and> free_name k (objs (st w) this)"
    using fit by (simp_all add: nested_fits_def)
  obtain w0 where w0: "fromJSON L (Suc d) (shape_of D) k (json_of_desc D) w = (Inr ?b, w0)"
    "built L {?b..<free (st w0)} w w0 ?b k D"
    using bd re unfolding buildable_def by blast
  have b0: "reachable (st w0)" "frame {} w w0" "ctors w0 = ctors w" "?b < free (st w0)" "o_parent (objs (st w0) ?b) = None"
    "valid_nested (objs (st w0) ?b)" "o_name (objs (st w0) ?b) = k" "loaded L (node w0) {?b..<free (st w0)} ?b D"
    "placed (Suc ?b) w0"
    using w0(2) by (simp_all add: built_def)
  have t0: "objs (st w0) this = objs (st w) this" "decls w0 this = decls w this" using b0(2) al by (simp_all add: frame_def)
  have wf0: "wf_store (st w0)" by (rule reachable_store_wf[OF b0(1)])
  have g: "get (st w0) this (o_name (objs (st w0) ?b)) = None"
    using get_None[OF wf0, of this] p fr by (simp add: t0 b0(7))
  have "\<exists>r < ?b. obj_root (st w0) this = Some r"
    using b0(2) by (intro old_root[OF reachable_store_wf[OF re] al]) (simp add: frame_def)
  then have r: "obj_root (st w0) this \<noteq> Some ?b" by auto
  have a: "add (Suc d) this ?b (st w0) = (Inr (), insert_nested this ?b (st w0))" for d
    by (rule add_new_nested(1)[OF wf0 _ b0(6,5) g r]) (simp add: t0 p)
  define w1 where "w1 = w0\<lparr>st := insert_nested this ?b (st w0)\<rparr>"
  have step: "add_object (Suc d) this ?b w0 = (Inr (), w1)"
    unfolding add_object_def a w1_def by simp
  have al0: "this < free (st w0)" using al b0(4) by simp
  have re1: "reachable (st w1)"
    using reachable.add[OF b0(1) al0 b0(4), of "Suc 0"] unfolding a w1_def by simp
  have t: "objs (st w1) this = put_nested [(k, ?b)] (objs (st w) this)"
    using al by (simp add: w1_def insert_defs put_nested_def b0(7) t0)
  have fr1: "free (st w1) = free (st w0)" by (simp add: w1_def insert_defs)
  have nodes: "node w1 y = node w0 y" if "y \<noteq> this" for y
    using that by (simp add: w1_def insert_defs node_def)
  have "loaded L (node w1) {?b..<free (st w1)} ?b D"
    by (rule loaded_frame[OF b0(8)]) (use al nodes fr1 in auto)
  moreover have "o_name (fst (node w1 ?b)) = k" using b0(7) al nodes[of ?b] by (simp add: node_def)
  ultimately have ld: "nested_loaded L (node w1) {?b..<free (st w1)} ?b k D" by (simp add: nested_loaded_def)
  have "frame {this} w w1"
    using b0(2) al fr1 by (auto simp: frame_def w1_def insert_defs)
  moreover have "ctors w1 = ctors w" "decls w1 this = decls w this" using b0(3) t0 by (simp_all add: w1_def)
  moreover have "nested_fits L (Suc d) w1 this ns"
  proof -
    have "buildable L (Suc d) D' \<and> free_name k' (objs (st w1) this)" if m: "(k', D') \<in> set ns" for k' D'
    proof -
      have "k' \<noteq> k" using ne m by (auto simp: rev_image_eqI)
      moreover have "buildable L (Suc d) D' \<and> free_name k' (objs (st w) this)" using all m by blast
      ultimately show ?thesis by (simp add: t free_name_def)
    qed
    moreover have "is_namespace (objs (st w1) this)" using p by (simp add: t)
    ultimately show ?thesis using dn unfolding nested_fits_def by blast
  qed
  moreover have "placed ?b w1"
    using b0(9) al unfolding placed_def w1_def by (auto simp: insert_defs)
  moreover have "addJSON L (Suc d) sh this (map (\<lambda>(k, D). (k, json_of_desc D)) ((k, D) # ns)) w =
      addJSON L (Suc d) sh this (map (\<lambda>(k, D). (k, json_of_desc D)) ns) w1"
    using w0(1) step by (simp add: sh bind_prog_def then_prog_def del: json_of_desc.simps fromJSON.simps)
  ultimately show ?thesis using re1 t ld by blast
qed

lemma nested_loaded_frame:
  "nested_loaded L N R b k D \<Longrightarrow> R \<subseteq> R' \<Longrightarrow> (\<And>y. y \<in> R \<Longrightarrow> N' y = N y) \<Longrightarrow> nested_loaded L N' R' b k D"
  using loaded_frame[of L N R b D R' N'] loaded_region[of L N R b D] by (simp add: nested_loaded_def)

interpretation nested: member_loop
  "\<lambda>this ns. addJSON L (Suc d) nested_shape this (map (\<lambda>(k, D). (k, json_of_desc D)) ns)"
  "nested_fits L (Suc d)" put_nested "nested_loaded L" for L d
  by (unfold_locales, simp add: return_prog_def, simp add: put_nested_def, simp add: put_nested_def nestedArray_def,
      erule (1) nested_loaded_frame, blast, rule nested_step, assumption+, rule shapes)

interpretation type_nested: member_loop
  "\<lambda>this ns. addJSON L (Suc d) shape_in_type this (map (\<lambda>(k, D). (k, json_of_desc D)) ns)"
  "nested_fits L (Suc d)" put_nested "nested_loaded L" for L d
  by (unfold_locales, simp add: return_prog_def, simp add: put_nested_def, simp add: put_nested_def nestedArray_def,
      erule (1) nested_loaded_frame, blast, rule nested_step, assumption+, rule shapes)

lemma created_built:
  assumes re: "reachable (st w)" and x: "new_robj (fst x)"
  shows "reachable (st (created x w))" and "frame {} w (created x w)" and "free (st w) < free (st (created x w))"
  using created_reachable[OF assms] by (simp_all add: frame_def)

lemma new_namespace: "c \<in> {CNamespace, CType, CService} \<Longrightarrow> new_robj ((ReflectionObject c k os)\<lparr>o_reserved := r\<rparr>)"
  "new_robj (ReflectionObject c k os)"
  by (simp_all add: new_robj_def ReflectionObject_def)

lemma frame_new: "frame {} w w1 \<Longrightarrow> frame {b} w1 w2 \<Longrightarrow> free (st w) \<le> b \<Longrightarrow> frame {} w w2"
  by (auto simp: frame_def)

lemma nested_members:
  assumes "nested.all_loaded L N R ms ns" and R: "R \<subseteq> R'" and N: "\<And>y. y \<in> R \<Longrightarrow> N' y = N y"
  shows "list_all2 (\<lambda>m x. fst m = fst x \<and> o_name (fst (N' (snd m))) = fst x \<and> loaded L N' R' (snd m) (snd x)) ms ns"
  using assms(1) unfolding nested.all_loaded_def
proof (rule list_all2_mono)
  fix m :: "string \<times> nat" and x :: "string \<times> desc"
  assume m: "fst m = fst x \<and> nested_loaded L N R (snd m) (fst x) (snd x)"
  have "nested_loaded L N' R' (snd m) (fst x) (snd x)"
    by (rule nested_loaded_frame[OF conjunct2[OF m] R]) (rule N)
  with m show "fst m = fst x \<and> o_name (fst (N' (snd m))) = fst x \<and> loaded L N' R' (snd m) (snd x)"
    by (simp add: nested_loaded_def)
qed

lemma nestedArray_place [simp]: "nestedArray (ob\<lparr>o_parent := p, o_resolved := r\<rparr>) = nestedArray ob"
  by (simp add: nestedArray_def)

lemma build_namespace:
  assumes ns: "distinct (map fst ns)" "\<forall>(k, D) \<in> set ns. buildable L (Suc d) D"
  shows "buildable L (Suc d) (NamespaceD os ns)"
  unfolding buildable_def
proof (intro allI impI)
  fix k and w :: runtime assume re: "reachable (st w)"
  let ?a = "free (st w)"
  define x where "x = (Namespace k (opts_val os), NoDecl)"
  have new: "new_robj (fst x)" "o_name (fst x) = k" "o_options (fst x) = opts_val os" "o_class (fst x) = CNamespace"
    "is_namespace (fst x)" "nestedArray (fst x) = []" "\<And>k. free_name k (fst x)"
    by (simp_all add: x_def Namespace_def new_robj_def ReflectionObject_def is_namespace_def nestedArray_def free_name_def)
  let ?w0 = "created x w"
  note c = created_built[OF re new(1)]
  have "nested_fits L (Suc d) ?w0 ?a ns"
    using ns new by (auto simp: nested_fits_def)
  then obtain w' ms where r: "addJSON L (Suc d) nested_shape ?a (map (\<lambda>(k, D). (k, json_of_desc D)) ns) ?w0 = (Inr (), w')"
    "reachable (st w')" "frame {?a} ?w0 w'" "ctors w' = ctors ?w0" "decls w' ?a = decls ?w0 ?a"
    "objs (st w') ?a = put_nested ms (objs (st ?w0) ?a)"
    "nested.all_loaded L (node w') {free (st ?w0)..<free (st w')} ms ns" "placed (free (st ?w0)) w'"
    using nested.run_loaded[OF c(1), of ?a L d ns] by auto
  have le: "?a < free (st w')" using r(3) by (simp add: frame_def)
  have "loaded L (node w') {?a..<free (st w')} ?a (NamespaceD os ns)"
  proof (rule loaded.namespace[of _ _ _ "(put_nested ms (fst x))\<lparr>o_parent := None, o_resolved := False\<rparr>"])
    show "node w' ?a = ((put_nested ms (fst x))\<lparr>o_parent := None, o_resolved := False\<rparr>, NoDecl)"
      using r(5,6) by (simp add: node_def x_def)
    show "list_all2 (\<lambda>m x. fst m = fst x \<and> o_name (fst (node w' (snd m))) = fst x \<and>
        loaded L (node w') {?a..<free (st w')} (snd m) (snd x))
        (nestedArray ((put_nested ms (fst x))\<lparr>o_parent := None, o_resolved := False\<rparr>)) ns"
      using nested_members[OF r(7)] new(6) by simp
  qed (use new le in simp_all)
  moreover have "fromJSON L (Suc d) (shape_of (NamespaceD os ns)) k (json_of_desc (NamespaceD os ns)) w = (Inr ?a, w')"
    using r(1) by (simp add: construct_def bind_prog_def then_prog_def return_prog_def new_object x_def)
  moreover have "valid_nested (objs (st w') ?a)" using new r(6) by (simp add: valid_nested_def)
  ultimately show "\<exists>w'. fromJSON L (Suc d) (shape_of (NamespaceD os ns)) k (json_of_desc (NamespaceD os ns)) w = (Inr ?a, w') \<and>
      built L {?a..<free (st w')} w w' ?a k (NamespaceD os ns)"
    using r new le frame_new[OF c(2) r(3)] by (intro exI[of _ w']) (simp add: built_def new_robj_def)
qed

lemma build_enum:
  assumes "distinct (map fst vs)"
  shows "buildable L d (EnumD os vs rs)"
  unfolding buildable_def
proof (intro allI impI)
  fix k and w :: runtime assume re: "reachable (st w)"
  let ?a = "free (st w)"
  define x where "x = ((ReflectionObject CEnum k (opts_val os))\<lparr>o_reserved := reserved_val rs\<rparr>,
    EnumDecl vs (foldl (\<lambda>m (k, n). id_set n k m) [] vs))"
  have new: "new_robj (fst x)" "o_name (fst x) = k" "o_options (fst x) = opts_val os" "o_class (fst x) = CEnum"
    "o_reserved (fst x) = reserved_val rs"
    by (simp_all add: x_def new_robj_def ReflectionObject_def)
  let ?w' = "created x w"
  note c = created_built[OF re new(1)]
  have "loaded L (node ?w') {?a..<free (st ?w')} ?a (EnumD os vs rs)"
    by (rule loaded.enum[of _ _ _ "fst x"]) (use new in \<open>auto simp: node_def x_def\<close>)
  moreover have "fromJSON L d (shape_of (EnumD os vs rs)) k (json_of_desc (EnumD os vs rs)) w = (Inr ?a, ?w')"
    using enum_read[OF assms] by (simp add: construct_def new_object x_def del: json_of_desc.simps)
  moreover have "valid_nested (objs (st ?w') ?a)" using new by (simp add: valid_nested_def)
  ultimately show "\<exists>w'. fromJSON L d (shape_of (EnumD os vs rs)) k (json_of_desc (EnumD os vs rs)) w = (Inr ?a, w') \<and>
      built L {?a..<free (st w')} w w' ?a k (EnumD os vs rs)"
    using new c by (intro exI[of _ ?w']) (simp add: built_def new_robj_def)
qed

lemma build_service:
  assumes ok: "distinct (map fst ms @ map fst ns)" "\<forall>(k, M) \<in> set ms. method_ok M" "\<forall>(k, D) \<in> set ns. buildable L (Suc d) D"
  shows "buildable L (Suc d) (ServiceD os ms ns)"
  unfolding buildable_def
proof (intro allI impI)
  fix k and w :: runtime assume re: "reachable (st w)"
  let ?a = "free (st w)"
  define x where "x = (Service k (opts_val os), NoDecl)"
  have new: "new_robj (fst x)" "o_name (fst x) = k" "o_options (fst x) = opts_val os" "o_class (fst x) = CService"
    "nestedArray (fst x) = []" "o_methods (fst x) = []" "o_fields (fst x) = []" "\<And>k. free_name k (fst x)"
    by (simp_all add: x_def Service_def new_robj_def ReflectionObject_def nestedArray_def free_name_def)
  let ?w0 = "created x w"
  note c = created_built[OF re new(1)]
  have "method_fits ?w0 ?a ms" using ok new by (auto simp: method_fits_def)
  then obtain w1 mm where r1: "add_methods (Suc d) ?a (map (\<lambda>(k, M). (k, json_of_method M)) ms) ?w0 = (Inr (), w1)"
    "reachable (st w1)" "frame {?a} ?w0 w1" "ctors w1 = ctors ?w0" "decls w1 ?a = decls ?w0 ?a"
    "objs (st w1) ?a = put_methods mm (objs (st ?w0) ?a)"
    "methods.all_loaded (node w1) {free (st ?w0)..<free (st w1)} mm ms" "placed (free (st ?w0)) w1"
    using methods.run_loaded[OF c(1), of ?a ms d] by auto
  have names: "map fst mm = map fst ms"
    using r1(7) by (auto simp: methods.all_loaded_def list_eq_iff_nth_eq list_all2_conv_all_nth)
  have al1: "?a < free (st w1)" using r1(3) by (simp add: frame_def)
  have "nested_fits L (Suc d) w1 ?a ns"
  proof -
    have "free_name k' (objs (st w1) ?a)" if "(k', D) \<in> set ns" for k' D
    proof -
      have "k' \<notin> set (map fst mm)" using ok(1) imageI[OF that, of fst] unfolding names by auto
      then show ?thesis using new(5-7) by (simp add: r1(6) put_methods_def free_name_def nestedArray_def)
    qed
    then have "\<forall>(k, D) \<in> set ns. buildable L (Suc d) D \<and> free_name k (objs (st w1) ?a)" using ok(3) by blast
    then show ?thesis using ok(1) new(4) by (simp add: nested_fits_def r1(6) put_methods_def is_namespace_def)
  qed
  then obtain w' ms' where r: "addJSON L (Suc d) nested_shape ?a (map (\<lambda>(k, D). (k, json_of_desc D)) ns) w1 = (Inr (), w')"
    "reachable (st w')" "frame {?a} w1 w'" "ctors w' = ctors w1" "decls w' ?a = decls w1 ?a"
    "objs (st w') ?a = put_nested ms' (objs (st w1) ?a)"
    "nested.all_loaded L (node w') {free (st w1)..<free (st w')} ms' ns" "placed (free (st w1)) w'"
    using nested.run_loaded[OF r1(2) al1, of L d ns] by auto
  have le: "?a < free (st w')" "free (st w1) \<le> free (st w')" "?a + 1 \<le> free (st w1)"
    using r(3) r1(3) by (simp_all add: frame_def)
  have same: "node w' y = node w1 y" if "y \<in> {free (st ?w0)..<free (st w1)}" for y
    using r(3) that by (auto simp: frame_def node_def)
  let ?ob = "(put_nested ms' (put_methods mm (fst x)))\<lparr>o_parent := None, o_resolved := False\<rparr>"
  have "loaded L (node w') {?a..<free (st w')} ?a (ServiceD os ms ns)"
  proof (rule loaded.service[of _ _ _ ?ob])
    show "node w' ?a = (?ob, NoDecl)"
      using r(5,6) r1(5,6) by (simp add: node_def x_def)
    have "leaf_members (\<lambda>M k. method_obj k M) (node w1) {free (st ?w0)..<free (st w1)} mm ms"
      using r1(7) by (simp add: methods.all_loaded_def leaf_members_def method_loaded_def)
    then have "leaf_members (\<lambda>M k. method_obj k M) (node w') {?a..<free (st w')} mm ms"
      by (rule leaf_members_frame) (use le same in auto)
    then show "leaf_members (\<lambda>M k. method_obj k M) (node w') {?a..<free (st w')} (o_methods ?ob) ms"
      using new(6) by (simp add: put_methods_def)
    show "list_all2 (\<lambda>m x. fst m = fst x \<and> o_name (fst (node w' (snd m))) = fst x \<and>
        loaded L (node w') {?a..<free (st w')} (snd m) (snd x)) (nestedArray ?ob) ns"
      using nested_members[OF r(7)] le new(5) by simp
  qed (use new le in \<open>simp_all add: put_methods_def\<close>)
  moreover have "fromJSON L (Suc d) (shape_of (ServiceD os ms ns)) k (json_of_desc (ServiceD os ms ns)) w = (Inr ?a, w')"
    using r(1) r1(1) by (simp add: construct_def bind_prog_def then_prog_def return_prog_def new_object x_def)
  moreover have "valid_nested (objs (st w') ?a)" using new by (simp add: valid_nested_def r(6) r1(6) put_methods_def)
  moreover have "frame {} w w'" using frame_new[OF c(2) frame_trans[OF r1(3) r(3)]] by simp
  moreover have "placed (Suc ?a) w'" using placed_trans[OF r1(8) r(3) _ r(8)] by simp
  ultimately show "\<exists>w'. fromJSON L (Suc d) (shape_of (ServiceD os ms ns)) k (json_of_desc (ServiceD os ms ns)) w = (Inr ?a, w') \<and>
      built L {?a..<free (st w')} w w' ?a k (ServiceD os ms ns)"
    using r r1 new le by (intro exI[of _ w']) (simp add: built_def new_robj_def put_methods_def)
qed

lemma desc_props:
  "entries (js_prop (json_of_desc (TypeD os fs ext rs gr ns)) ''fields'') = map (\<lambda>(k, F). (k, json_of_field F)) fs"
  "entries (js_prop (json_of_desc (TypeD os fs ext rs gr ns)) ''nested'') = map (\<lambda>(k, D). (k, json_of_desc D)) ns"
  "js_prop (json_of_desc (TypeD os fs ext rs gr ns)) ''oneofs'' = None"
  "js_prop (json_of_desc (TypeD os fs ext rs gr ns)) ''extensions'' = ext"
  "truthy (js_prop (json_of_desc (TypeD os fs ext rs gr ns)) ''group'') = gr"
  "new_Type k (json_of_desc (TypeD os fs ext rs gr ns)) =
     Inr ((Type k (opts_val os))\<lparr>o_reserved := reserved_val rs\<rparr>, TypeDecl ext False)"
  by (simp_all add: truthy_def new_Type_def)

lemma build_type:
  assumes ok: "desc_ok (TypeD os fs ext rs gr ns)" and ns: "\<forall>(k, D) \<in> set ns. buildable L (Suc d) D"
  shows "buildable L (Suc d) (TypeD os fs ext rs gr ns)"
  unfolding buildable_def
proof (intro allI impI)
  fix k and w :: runtime assume re: "reachable (st w)"
  let ?a = "free (st w)" and ?D = "TypeD os fs ext rs gr ns"
  define x where "x = ((Type k (opts_val os))\<lparr>o_reserved := reserved_val rs\<rparr>, TypeDecl ext False)"
  have new: "new_robj (fst x)" "o_name (fst x) = k" "o_options (fst x) = opts_val os" "o_class (fst x) = CType"
    "nestedArray (fst x) = []" "o_methods (fst x) = []" "o_fields (fst x) = []" "o_reserved (fst x) = reserved_val rs"
    "\<And>k. free_name k (fst x)"
    by (simp_all add: x_def Type_def new_robj_def ReflectionObject_def nestedArray_def free_name_def)
  let ?w0 = "created x w"
  note c = created_built[OF re new(1)]
  have "field_fits ?w0 ?a fs" using ok new by (auto simp: field_fits_def)
  then obtain w1 fm where r1: "add_fields L (Suc d) ?a (map (\<lambda>(k, F). (k, json_of_field F)) fs) ?w0 = (Inr (), w1)"
    "reachable (st w1)" "frame {?a} ?w0 w1" "ctors w1 = ctors ?w0" "decls w1 ?a = decls ?w0 ?a"
    "objs (st w1) ?a = put_fields fm (objs (st ?w0) ?a)"
    "fields.all_loaded L (node w1) {free (st ?w0)..<free (st w1)} fm fs" "placed (free (st ?w0)) w1"
    using fields.run_loaded[OF c(1), of ?a fs L d] by auto
  have names: "map fst fm = map fst fs"
    using r1(7) by (auto simp: fields.all_loaded_def list_eq_iff_nth_eq list_all2_conv_all_nth)
  have al1: "?a < free (st w1)" using r1(3) by (simp add: frame_def)
  have "nested_fits L (Suc d) w1 ?a ns"
  proof -
    have "free_name k' (objs (st w1) ?a)" if "(k', D) \<in> set ns" for k' D
    proof -
      have "k' \<notin> set (map fst fm)" using ok imageI[OF that, of fst] unfolding names by auto
      then show ?thesis using new(5-7) by (simp add: r1(6) put_fields_def free_name_def nestedArray_def)
    qed
    then have "\<forall>(k, D) \<in> set ns. buildable L (Suc d) D \<and> free_name k (objs (st w1) ?a)" using ns by blast
    then show ?thesis using ok new(4) by (simp add: nested_fits_def r1(6) put_fields_def is_namespace_def)
  qed
  then obtain w2 ms' where r: "addJSON L (Suc d) shape_in_type ?a (map (\<lambda>(k, D). (k, json_of_desc D)) ns) w1 = (Inr (), w2)"
    "reachable (st w2)" "frame {?a} w1 w2" "ctors w2 = ctors w1" "decls w2 ?a = decls w1 ?a"
    "objs (st w2) ?a = put_nested ms' (objs (st w1) ?a)"
    "nested.all_loaded L (node w2) {free (st w1)..<free (st w2)} ms' ns" "placed (free (st w1)) w2"
    using type_nested.run_loaded[OF r1(2) al1, of L d ns] by auto
  define w' where "w' = snd (set_group ?a (json_of_desc ?D) w2)"
  have w': "set_group ?a (json_of_desc ?D) w2 = (Inr (), w')" "st w' = st w2" "ctors w' = ctors w2"
    "decls w' ?a = TypeDecl ext gr" "\<And>y. y \<noteq> ?a \<Longrightarrow> decls w' y = decls w2 y"
    using r(5) r1(5) by (simp_all add: w'_def set_group_def desc_props x_def del: json_of_desc.simps)
  have le: "?a < free (st w2)" "free (st w1) \<le> free (st w2)" "?a + 1 \<le> free (st w1)"
    using r(3) r1(3) by (simp_all add: frame_def)
  have same2: "node w' y = node w2 y" if "y \<in> {free (st w1)..<free (st w2)}" for y
    using w'(2,5) le that by (simp add: node_def)
  have same1: "node w' y = node w1 y" if "y \<in> {free (st ?w0)..<free (st w1)}" for y
    using r(3) w'(2,5) that by (auto simp: frame_def node_def)
  let ?ob = "(put_nested ms' (put_fields fm (fst x)))\<lparr>o_parent := None, o_resolved := False\<rparr>"
  have "loaded L (node w') {?a..<free (st w')} ?a ?D"
  proof (rule loaded.type[of _ _ _ ?ob])
    show "node w' ?a = (?ob, TypeDecl ext gr)"
      using w'(2,4) r(6) r1(6) by (simp add: node_def)
    have "leaf_members (\<lambda>F k. map_prod (\<lambda>x. x) FieldDecl (field_obj L k F)) (node w1) {free (st ?w0)..<free (st w1)} fm fs"
      using r1(7) by (simp add: fields.all_loaded_def leaf_members_def field_loaded_def)
    then have "leaf_members (\<lambda>F k. map_prod (\<lambda>x. x) FieldDecl (field_obj L k F)) (node w') {?a..<free (st w')} fm fs"
      by (rule leaf_members_frame) (use le same1 w'(2) in auto)
    then show "leaf_members (\<lambda>F k. map_prod (\<lambda>x. x) FieldDecl (field_obj L k F)) (node w') {?a..<free (st w')} (o_fields ?ob) fs"
      using new(7) by (simp add: put_fields_def)
    show "list_all2 (\<lambda>m x. fst m = fst x \<and> o_name (fst (node w' (snd m))) = fst x \<and>
        loaded L (node w') {?a..<free (st w')} (snd m) (snd x)) (nestedArray ?ob) ns"
      using nested_members[OF r(7) _ same2] le new(5) w'(2) by simp
  qed (use new le w'(2) in \<open>simp_all add: put_fields_def\<close>)
  moreover have "fromJSON L (Suc d) (shape_of ?D) k (json_of_desc ?D) w = (Inr ?a, w')"
    using r(1) r1(1) w'(1)
    by (simp add: construct_def bind_prog_def then_prog_def return_prog_def new_object x_def desc_props no_oneofs_def
        del: json_of_desc.simps)
  moreover have "valid_nested (objs (st w') ?a)" using new by (simp add: valid_nested_def w'(2) r(6) r1(6) put_fields_def)
  moreover have "frame {} w w'"
    using frame_new[OF c(2) frame_trans[OF r1(3) r(3)]] w'(2,5) by (auto simp: frame_def)
  moreover have "placed (Suc ?a) w'" using placed_trans[OF r1(8) r(3) _ r(8)] w'(2) by (simp add: placed_def)
  ultimately show "\<exists>w'. fromJSON L (Suc d) (shape_of ?D) k (json_of_desc ?D) w = (Inr ?a, w') \<and>
      built L {?a..<free (st w')} w w' ?a k ?D"
    using r r1 new le w'(2,3) by (intro exI[of _ w']) (simp add: built_def new_robj_def put_fields_def)
qed

lemma desc_buildable: "desc_ok D \<Longrightarrow> buildable L (Suc d) D"
proof (induction D rule: desc_ok.induct)
  case (1 os ns)
  then show ?case by (intro build_namespace) auto
next
  case (2 os fs ext rs gr ns)
  then show ?case by (intro build_type) auto
next
  case (3 os vs rs)
  then show ?case by (intro build_enum) auto
next
  case (4 os ms ns)
  then show ?case by (intro build_service) auto
qed

section \<open>Writing what was loaded\<close>

lemma options_json_val [simp]: "o_options ob = opts_val os \<Longrightarrow> options_json ob = map_option JObj os"
  by (cases os) (auto simp: options_json_def opts_val_def case_prod_beta intro!: map_idI)

lemma reserved_json_val [simp]: "o_reserved ob = reserved_val rs \<Longrightarrow> reserved_json ob = json_of_reserved rs"
  by (simp add: reserved_json_def json_of_reserved_def reserved_val_def)

lemma node_sel:
  assumes "node w a = (ob, e)"
  shows "o_class (objs (st w) a) = o_class ob" "o_name (objs (st w) a) = o_name ob" "o_options (objs (st w) a) = o_options ob"
    "o_fields (objs (st w) a) = o_fields ob" "o_methods (objs (st w) a) = o_methods ob" "o_reserved (objs (st w) a) = o_reserved ob"
    "o_id (objs (st w) a) = o_id ob" "o_extend (objs (st w) a) = o_extend ob"
    "nestedArray (objs (st w) a) = nestedArray ob" "decls w a = e"
  using assms by (auto simp: node_def nestedArray_def)

lemma node_name: "o_name (fst (node w a)) = o_name (objs (st w) a)"
  by (simp add: node_def)

lemma field_toJSON:
  assumes "node w b = map_prod (\<lambda>x. x) FieldDecl (field_obj L k F)"
  shows "toJSON (Suc n) w b = Some (json_of_field F) \<and> o_name (objs (st w) b) = k"
proof -
  have n: "node w b = (fst (field_obj L k F), FieldDecl (snd (field_obj L k F)))"
    using assms by (simp add: prod_eq_iff)
  show ?thesis
    using node_sel[OF n]
    by (cases F) (simp_all add: Let_def Field_toJSON_def MapField_toJSON_def ReflectionObject_def)
qed

lemma method_toJSON:
  assumes "node w b = method_obj k M"
  shows "toJSON (Suc n) w b = Some (json_of_method M) \<and> o_name (objs (st w) b) = k"
  using node_sel[of w b "fst (method_obj k M)" "snd (method_obj k M)"] assms
  by (cases M) (simp add: Let_def Method_toJSON_def ReflectionObject_def)

lemma assoc_set_all: "distinct (map fst (m @ xs)) \<Longrightarrow> foldl (\<lambda>m (k, v). assoc_set k v m) m xs = m @ xs"
proof (induction xs arbitrary: m)
  case (Cons x xs)
  then have "assoc_set (fst x) (snd x) m = m @ [x]" by (cases x) (auto simp: assoc_set_def)
  then show ?case using Cons.IH[of "m @ [x]"] Cons.prems by (simp add: case_prod_beta)
qed simp

lemma array_loaded:
  assumes "list_all2 (\<lambda>m x. o_name (objs s (snd m)) = fst x \<and> rec (snd m) = Some (f (snd x))) ms xs"
    and "distinct (map fst xs)"
  shows "arrayToJSON rec s (map snd ms) = Some (some_object (map (\<lambda>(k, x). (k, f x)) xs))"
proof -
  let ?js = "map (\<lambda>(k, x). (k, f x)) xs"
  have "those (map (\<lambda>a. map_option (Pair (o_name (objs s a))) (rec a)) (map snd ms)) = Some ?js"
    using assms(1) by (induction rule: list_all2_induct) auto
  moreover have "foldl (\<lambda>m (k, j). assoc_set k j m) [] ?js = ?js"
    using assms(2) by (subst assoc_set_all) (auto simp: comp_def case_prod_beta)
  moreover have "ms = [] \<longleftrightarrow> xs = []" using assms(1) by auto
  ultimately show ?thesis by (auto simp: arrayToJSON_def some_object_def)
qed

lemma list_all2_eventually:
  assumes "list_all2 (\<lambda>x y. \<exists>n. \<forall>m \<ge> n. P m x y) xs ys"
  shows "\<exists>n :: nat. \<forall>m \<ge> n. list_all2 (P m) xs ys"
  using assms
proof (induction rule: list_all2_induct)
  case (Cons x xs y ys)
  then obtain n n' where "\<forall>m \<ge> n. P m x y" "\<forall>m \<ge> n'. list_all2 (P m) xs ys" by blast
  then show ?case by (intro exI[of _ "max n n'"]) simp
qed simp

lemma leaf_toJSON:
  assumes "leaf_members ob N R ms xs" and "distinct (map fst xs)"
    and "\<And>b k x. N b = ob x k \<Longrightarrow> toJSON n w b = Some (f x) \<and> o_name (objs (st w) b) = k"
  shows "arrayToJSON (toJSON n w) (st w) (map snd ms) = Some (some_object (map (\<lambda>(k, x). (k, f x)) xs))"
  by (rule array_loaded[OF _ assms(2)])
     (use assms(1) in \<open>auto simp: leaf_members_def assms(3) elim!: list_all2_mono\<close>)

lemma nested_toJSON:
  assumes "list_all2 (\<lambda>m x. fst m = fst x \<and> o_name (fst (node w (snd m))) = fst x \<and>
      (loaded L (node w) R (snd m) (snd x) \<and> (desc_ok (snd x) \<longrightarrow> (\<exists>n. \<forall>k \<ge> n. toJSON k w (snd m) = Some (json_of_desc (snd x)))))) ms ns"
    and "distinct (map fst ns)" and "\<forall>(k, D) \<in> set ns. desc_ok D"
  shows "\<exists>n. \<forall>k \<ge> n. arrayToJSON (toJSON k w) (st w) (map snd ms) = Some (some_object (map (\<lambda>(k, D). (k, json_of_desc D)) ns))"
proof -
  have "list_all2 (\<lambda>m x. \<exists>n. \<forall>k \<ge> n. o_name (objs (st w) (snd m)) = fst x \<and> toJSON k w (snd m) = Some (json_of_desc (snd x))) ms ns"
    using assms(1)
  proof (rule list.rel_mono_strong)
    fix m :: "string \<times> nat" and x :: "string \<times> desc"
    assume x: "x \<in> set ns" and m: "fst m = fst x \<and> o_name (fst (node w (snd m))) = fst x \<and>
      (loaded L (node w) R (snd m) (snd x) \<and> (desc_ok (snd x) \<longrightarrow> (\<exists>n. \<forall>k \<ge> n. toJSON k w (snd m) = Some (json_of_desc (snd x)))))"
    have "desc_ok (snd x)" using assms(3) x by auto
    then obtain n where n: "\<forall>k \<ge> n. toJSON k w (snd m) = Some (json_of_desc (snd x))" using m by blast
    have "o_name (fst (node w (snd m))) = fst x" using m by blast
    then have "o_name (objs (st w) (snd m)) = fst x" by (simp only: node_name)
    then show "\<exists>n. \<forall>k \<ge> n. o_name (objs (st w) (snd m)) = fst x \<and> toJSON k w (snd m) = Some (json_of_desc (snd x))"
      using n by blast
  qed
  then obtain n where n: "\<forall>k \<ge> n. list_all2 (\<lambda>m x. o_name (objs (st w) (snd m)) = fst x \<and> toJSON k w (snd m) = Some (json_of_desc (snd x))) ms ns"
    by (rule exE[OF list_all2_eventually])
  have "arrayToJSON (toJSON k w) (st w) (map snd ms) = Some (some_object (map (\<lambda>(k, D). (k, json_of_desc D)) ns))"
    if "k \<ge> n" for k
    by (rule array_loaded[OF _ assms(2)]) (rule n[rule_format, OF that])
  then show ?thesis by blast
qed

lemma loaded_toJSON:
  "loaded L (node w) R a D \<Longrightarrow> desc_ok D \<Longrightarrow> \<exists>n. \<forall>m \<ge> n. toJSON m w a = Some (json_of_desc D)"
proof (induction rule: loaded.induct)
  case (namespace a ob os ns)
  obtain n where n: "\<forall>k \<ge> n. arrayToJSON (toJSON k w) (st w) (map snd (nestedArray ob)) =
      Some (some_object (map (\<lambda>(k, D). (k, json_of_desc D)) ns))"
    using nested_toJSON[OF namespace.IH] namespace.prems by auto
  have "toJSON m w a = Some (json_of_desc (NamespaceD os ns))" if "m \<ge> Suc n" for m
    using that n namespace.hyps node_sel[OF namespace.hyps(2)]
    by (cases m) (auto simp: Let_def Namespace_toJSON_def)
  then show ?case by blast
next
  case (type a ob ext gr os rs fs ns)
  obtain n where n: "\<forall>k \<ge> n. arrayToJSON (toJSON k w) (st w) (map snd (nestedArray ob)) =
      Some (some_object (map (\<lambda>(k, D). (k, json_of_desc D)) ns))"
    using nested_toJSON[OF type.IH] type.prems by auto
  have f: "arrayToJSON (toJSON (Suc k) w) (st w) (map snd (o_fields ob)) =
      Some (some_object (map (\<lambda>(k, F). (k, json_of_field F)) fs))" for k
    by (rule leaf_toJSON[OF type.hyps(6)]) (use type.prems field_toJSON in auto)
  have "toJSON m w a = Some (json_of_desc (TypeD os fs ext rs gr ns))" if m: "m \<ge> Suc (Suc n)" for m
  proof -
    obtain k where k: "m = Suc (Suc k)" "n \<le> Suc k" using m by (cases m; cases "m - 1") auto
    show ?thesis
      using k n f[of k] type.hyps type.prems node_sel[OF type.hyps(2)]
      by (cases "fs = []") (auto simp: Let_def Type_toJSON_def some_object_def)
  qed
  then show ?case by blast
next
  case (enum a ob vs ids os rs)
  have "toJSON m w a = Some (json_of_desc (EnumD os vs rs))" if "m \<ge> Suc 0" for m
    using that enum.hyps node_sel[OF enum.hyps(2)] by (cases m) (auto simp: Let_def Enum_toJSON_def)
  then show ?case by blast
next
  case (service a ob os ms ns)
  obtain n where n: "\<forall>k \<ge> n. arrayToJSON (toJSON k w) (st w) (map snd (nestedArray ob)) =
      Some (some_object (map (\<lambda>(k, D). (k, json_of_desc D)) ns))"
    using nested_toJSON[OF service.IH] service.prems by auto
  have f: "arrayToJSON (toJSON (Suc k) w) (st w) (map snd (o_methods ob)) =
      Some (some_object (map (\<lambda>(k, M). (k, json_of_method M)) ms))" for k
    by (rule leaf_toJSON[OF service.hyps(5)]) (use service.prems method_toJSON in auto)
  have "toJSON m w a = Some (json_of_desc (ServiceD os ms ns))" if m: "m \<ge> Suc (Suc n)" for m
  proof -
    obtain k where k: "m = Suc (Suc k)" "n \<le> Suc k" using m by (cases m; cases "m - 1") auto
    show ?thesis
      using k n f[of k] service.hyps service.prems node_sel[OF service.hyps(2)]
      by (cases "ms = []") (auto simp: Let_def Service_toJSON_def some_object_def)
  qed
  then show ?case by blast
qed

section \<open>A root and its descriptor\<close>

lemma setOptions_None:
  "distinct (map fst m) \<Longrightarrow> o_options ob = None \<Longrightarrow>
   setOptions (Some m) False ob = ob\<lparr>o_options := (if m = [] then None else Some m)\<rparr>"
proof -
  have *: "distinct (map fst (m0 @ m)) \<Longrightarrow>
    fold (\<lambda>(k, v). setOption k v False) m (ob\<lparr>o_options := Some m0\<rparr>) = ob\<lparr>o_options := Some (m0 @ m)\<rparr>" for m0 m
  proof (induction m arbitrary: m0)
    case (Cons x m)
    then have "assoc_set (fst x) (snd x) m0 = m0 @ [x]" by (cases x) (auto simp: assoc_set_def)
    then show ?case using Cons.IH[of "m0 @ [x]"] Cons.prems by (simp add: case_prod_beta setOption_def)
  qed simp
  assume "distinct (map fst m)" and "o_options ob = None"
  then show ?thesis
    using *[of "[hd m]" "tl m"]
    by (cases m) (simp_all add: setOptions_def case_prod_beta setOption_def assoc_set_def)
qed

lemma root_loaded:
  assumes ok: "desc_ok (NamespaceD os ns)" and os: "os \<noteq> Some []" "distinct (map fst (case os of None \<Rightarrow> [] | Some m \<Rightarrow> m))"
  shows "\<exists>w'. Root_fromJSON L (Suc d) (json_of_desc (NamespaceD os ns)) 0 start_runtime = (Inr 0, w') \<and>
    reachable (st w') \<and> ctors w' = (\<lambda>a. None) \<and> placed 1 w' \<and> o_parent (objs (st w') 0) = None \<and> loaded L (node w') {0..<free (st w')} 0 (NamespaceD os ns)"
proof -
  define w where "w = start_runtime\<lparr>st := update 0 (\<lambda>ob. ob\<lparr>o_options := opts_val os\<rparr>) start_store\<rparr>"
  have root: "objs (st w) 0 = (objs start_store 0)\<lparr>o_options := opts_val os\<rparr>" "free (st w) = 1" "decls w 0 = NoDecl" "ctors w = (\<lambda>a. None)"
    by (simp_all add: w_def start_runtime_def update_def start_store_def)
  have o: "o_options (objs start_store 0) = None" "o_class (objs start_store 0) = CRoot" "nestedArray (objs start_store 0) = []"
    "\<And>k. free_name k (objs start_store 0)" "\<not> o_resolved (objs start_store 0)" "o_parent (objs start_store 0) = None"
    by (simp_all add: start_store_def ReflectionObject_def Namespace_def nestedArray_def free_name_def)
  have "setOptions (Some (map (\<lambda>(k, v). (k, val_of_json v)) (entries (map_option JObj os)))) False (objs start_store 0) =
      (objs start_store 0)\<lparr>o_options := opts_val os\<rparr>"
    using os o(1) by (subst setOptions_None) (auto simp: opts_val_def comp_def case_prod_beta split: option.splits)
  then have w: "start_runtime\<lparr>st := update 0 (setOptions
      (Some (map (\<lambda>(k, v). (k, val_of_json v)) (entries (map_option JObj os)))) False) (st start_runtime)\<rparr> = w"
    by (simp add: w_def start_runtime_def update_def)
  have "(objs start_store 0)\<lparr>o_options := opts_val os, o_resolved := False\<rparr> = (objs start_store 0)\<lparr>o_options := opts_val os\<rparr>"
    by (simp add: start_store_def ReflectionObject_def)
  then have re: "reachable (st w)"
    using reachable.mark[OF reachable.start, where a = 0 and m = "opts_val os" and d = False]
    by (simp add: w_def update_def)
  have fit: "nested_fits L (Suc d) w 0 ns"
    using ok desc_buildable by (auto simp: nested_fits_def root is_namespace_def start_store_def ReflectionObject_def free_name_def nestedArray_def)
  obtain w' ms where r: "addJSON L (Suc d) nested_shape 0 (map (\<lambda>(k, D). (k, json_of_desc D)) ns) w = (Inr (), w')"
    "reachable (st w')" "frame {0} w w'" "ctors w' = ctors w" "decls w' 0 = decls w 0"
    "objs (st w') 0 = put_nested ms (objs (st w) 0)" "nested.all_loaded L (node w') {free (st w)..<free (st w')} ms ns"
    "placed (free (st w)) w'"
    using nested.run_loaded[OF re _ fit] root by auto
  let ?ob = "(put_nested ms (objs (st w) 0))\<lparr>o_parent := None, o_resolved := False\<rparr>"
  have n: "nestedArray ?ob = ms" using o(3) unfolding nestedArray_place nestedArray_put root(1) by (simp add: nestedArray_def)
  have "loaded L (node w') {0..<free (st w')} 0 (NamespaceD os ns)"
  proof (rule loaded.namespace[of _ _ _ ?ob])
    show "list_all2 (\<lambda>m x. fst m = fst x \<and> o_name (fst (node w' (snd m))) = fst x \<and>
        loaded L (node w') {0..<free (st w')} (snd m) (snd x)) (nestedArray ?ob) ns"
      unfolding n by (rule nested_members[OF r(7)]) auto
  qed (use r root o in \<open>auto simp: node_def frame_def\<close>)
  moreover have "Root_fromJSON L (Suc d) (json_of_desc (NamespaceD os ns)) 0 start_runtime = (Inr 0, w')"
    using w r(1) by (simp add: Root_fromJSON_def then_prog_def bind_prog_def return_prog_def)
  moreover have "o_parent (objs (st w') 0) = None" using o(6) by (simp add: r(6) root)
  ultimately show ?thesis using r(2,4,8) root by auto
qed

text \<open>C16 A descriptor whose members do not clash is loaded into a root without an error, and
  \<open>toJSON\<close> of the root writes it again, name for name and in its order.\<close>

theorem descriptor_roundtrip:
  assumes "desc_ok (NamespaceD os ns)" and "os \<noteq> Some []" and "distinct (map fst (case os of None \<Rightarrow> [] | Some m \<Rightarrow> m))"
  shows "\<exists>w' n. Root_fromJSON L (Suc d) (json_of_desc (NamespaceD os ns)) 0 start_runtime = (Inr 0, w') \<and>
    reachable (st w') \<and> (\<forall>m \<ge> n. toJSON m w' 0 = Some (json_of_desc (NamespaceD os ns)))"
  using root_loaded[OF assms] loaded_toJSON[OF _ assms(1)] by blast

lemma descriptor_roundtrip_witness:
  "\<exists>w' n. Root_fromJSON True (Suc 0) (json_of_desc (NamespaceD (Some [(''java_package'', JStr ''ch.epfl'')])
      [(''onet'', NamespaceD None [(''Roster'', TypeD None
          [(''id'', FieldD None ''bytes'' 1 None), (''list'', FieldD (Some ''repeated'') ''ServerIdentity'' 2 None),
           (''tags'', MapD ''string'' ''bytes'' 3 (Some [(''packed'', JBool False)]))]
          None [Name ''aggregate'', Range 10 12] False [(''Kind'', EnumD None [(''OLD'', 0), (''NEW'', 1)] [])])]),
       (''Status'', ServiceD None [(''Ask'', MethodD ''rpc'' ''Roster'' False ''Roster'' True None)] [])])) 0 start_runtime =
        (Inr 0, w') \<and> reachable (st w') \<and>
      (\<forall>m \<ge> n. toJSON m w' 0 = Some (json_of_desc (NamespaceD (Some [(''java_package'', JStr ''ch.epfl'')])
      [(''onet'', NamespaceD None [(''Roster'', TypeD None
          [(''id'', FieldD None ''bytes'' 1 None), (''list'', FieldD (Some ''repeated'') ''ServerIdentity'' 2 None),
           (''tags'', MapD ''string'' ''bytes'' 3 (Some [(''packed'', JBool False)]))]
          None [Name ''aggregate'', Range 10 12] False [(''Kind'', EnumD None [(''OLD'', 0), (''NEW'', 1)] [])])]),
       (''Status'', ServiceD None [(''Ask'', MethodD ''rpc'' ''Roster'' False ''Roster'' True None)] [])])))"
  by (rule descriptor_roundtrip) (code_simp, simp, simp)

end
