(* ===== verification/Resolve.thy ===== *)
theory Resolve
  imports Descriptors Base64
begin

text \<open>
  Resolving references: \<open>resolve\<close> of fields and methods, \<open>resolveAll\<close>, and the constructor of a
  type, which resolves the fields when it is made.

  \<open>Long\<close> is a library of its own: \<open>Long.fromNumber\<close> is the parameter \<open>fromNum\<close>. \<open>n\<close> is the fuel of
  the lookups and \<open>d\<close> the depth of calls there is room for. Extension fields have no sister-field
  (\<open>declaringField\<close>), as in \<open>Reflect\<close>.
\<close>

section \<open>Fields\<close>

definition set_decl :: "nat \<Rightarrow> decl \<Rightarrow> runtime \<Rightarrow> runtime" where
  "set_decl a x w = w\<lparr>decls := (decls w)(a := x)\<rparr>"

text \<open>\<open>values[name]\<close> of an enum, whose prototype are the names by id.\<close>

definition enum_value :: "(string \<times> int) list \<Rightarrow> (int \<times> string) list \<Rightarrow> js_string \<Rightarrow> val option" where
  "enum_value vs ids s =
     (case map_of vs (of_text s) of
        Some i \<Rightarrow> Some (VInt i)
      | None \<Rightarrow> map_option (\<lambda>(i, name). VString (js_text name)) (find (\<lambda>(i, name). number_string i = s) ids))"

text \<open>
  The type a field refers to and the default of the type, from \<open>types.defaults\<close> or by a lookup from
  the parent: \<open>null\<close> of a type and the first value of an enum. A lookup of the empty path gives
  the parent itself, which may be neither.
\<close>

definition type_default :: "nat \<Rightarrow> runtime \<Rightarrow> nat \<Rightarrow> field_decl \<Rightarrow> (js_error + val option) \<times> nat option" where
  "type_default n w a f =
     (case types_defaults (d_type f) of
        Some v \<Rightarrow> (Inr v, d_resolvedType f)
      | None \<Rightarrow>
          (case o_parent (objs (st w) a) of
             None \<Rightarrow> (Inl (TypeError ''Cannot read property of null''), d_resolvedType f)
           | Some p \<Rightarrow>
               (case lookupTypeOrEnum n (st w) p (d_type f) of
                  None \<Rightarrow> (Inl hang, d_resolvedType f)
                | Some (Inl e) \<Rightarrow> (Inl e, d_resolvedType f)
                | Some (Inr t) \<Rightarrow>
                    (if o_class (objs (st w) t) = CType then Inr None
                     else case decls w t of
                       EnumDecl vs ids \<Rightarrow> Inr (case vs of [] \<Rightarrow> None | (k, i) # _ \<Rightarrow> Some (VInt i))
                     | _ \<Rightarrow> Inl (TypeError ''Cannot convert undefined to object''), Some t))))"

text \<open>The option \<open>default\<close> takes precedence.\<close>

definition explicit_default :: "runtime \<Rightarrow> nat option \<Rightarrow> val option \<Rightarrow> val option \<Rightarrow> val option" where
  "explicit_default w t option_default typeDefault =
     (case option_default of
        None \<Rightarrow> typeDefault
      | Some (VString s) \<Rightarrow>
          (case map_option (decls w) t of Some (EnumDecl vs ids) \<Rightarrow> enum_value vs ids s | _ \<Rightarrow> Some (VString s))
      | Some v \<Rightarrow> Some v)"

definition is_enum :: "runtime \<Rightarrow> nat \<Rightarrow> bool" where
  "is_enum w t \<longleftrightarrow> o_class (objs (st w) t) = CEnum"

text \<open>Options that say nothing are removed, and so are no options at all.\<close>

definition needed_options :: "runtime \<Rightarrow> nat option \<Rightarrow> (string \<times> val) list option \<Rightarrow> (string \<times> val) list option" where
  "needed_options w t options =
     (case options of
        None \<Rightarrow> None
      | Some m \<Rightarrow>
          let packed = map_of m ''packed'';
              m' = (if packed = Some (VBool True) \<or> packed \<noteq> None \<and> (case t of None \<Rightarrow> False | Some x \<Rightarrow> \<not> is_enum w x)
                    then assoc_del ''packed'' m else m)
          in if m' = [] then None else Some m')"

text \<open>The default as the messages have it: a Long, or the bytes that a string stands for.\<close>

definition default_bytes :: "js_string \<Rightarrow> byte list" where
  "default_bytes s =
     (if base64_test s then snd (base64_decode s (replicate (nat \<lfloor>base64_length s\<rfloor>) 0) 0)
      else fst (utf8_write s (replicate (utf8_length s) 0) 0))"

definition internal_default :: "(val option \<Rightarrow> bool \<Rightarrow> val) \<Rightarrow> field_decl \<Rightarrow> val option \<Rightarrow> val option" where
  "internal_default fromNum f v =
     (if d_long f then Some (fromNum v (take 1 (d_type f) = ''u''))
      else if d_bytes f then (case v of Some (VString s) \<Rightarrow> Some (VBytes (default_bytes s)) | _ \<Rightarrow> v)
      else v)"

definition default_of :: "field_decl \<Rightarrow> val option \<Rightarrow> val option" where
  "default_of f typeDefault =
     (if d_keyType f \<noteq> None then Some (VMap []) else if d_repeated f then Some (VList []) else typeDefault)"

text \<open>
  \<open>resolve\<close> of a field up to its default value; an exception leaves what has been assigned before.
\<close>

definition resolved_decl :: "field_decl \<Rightarrow> nat option \<Rightarrow> val option \<Rightarrow> field_decl" where
  "resolved_decl f t typeDefault =
     f\<lparr>d_resolvedType := t, d_typeDefault := typeDefault, d_defaultValue := default_of f typeDefault\<rparr>"

definition resolve_decl ::
  "(val option \<Rightarrow> bool \<Rightarrow> val) \<Rightarrow> nat \<Rightarrow> nat \<Rightarrow> field_decl \<Rightarrow> unit prog" where
  "resolve_decl fromNum n a f w =
     (case type_default n w a f of
        (Inl e, t) \<Rightarrow> (Inl e, set_decl a (FieldDecl (f\<lparr>d_resolvedType := t, d_typeDefault := None\<rparr>)) w)
      | (Inr v, t) \<Rightarrow>
          let ob = objs (st w) a;
              typeDefault = internal_default fromNum f (explicit_default w t (getOption ''default'' ob) v)
          in (Inr (), set_decl a (FieldDecl (resolved_decl f t typeDefault))
                (w\<lparr>st := update a (\<lambda>x. x\<lparr>o_options := needed_options w t (o_options ob)\<rparr>) (st w)\<rparr>)))"

text \<open>\<open>ReflectionObject.resolve\<close>\<close>

definition mark_resolved :: "nat \<Rightarrow> unit prog" where
  "mark_resolved a w = (case resolve a (st w) of None \<Rightarrow> (Inl hang, w) | Some s \<Rightarrow> (Inr (), w\<lparr>st := s\<rparr>))"

fun each :: "(nat \<Rightarrow> unit prog) \<Rightarrow> nat list \<Rightarrow> unit prog" where
  "each p [] = return_prog ()"
| "each p (a # as) = then_prog (p a) (each p as)"

text \<open>
  The constructor of a type: its first use makes it, and resolves the fields. \<open>rec\<close> is \<open>resolve\<close>
  of a field.
\<close>

definition type_ctor :: "(nat \<Rightarrow> unit prog) \<Rightarrow> nat \<Rightarrow> unit prog" where
  "type_ctor rec p w =
     (if ctors w p \<noteq> None then (Inr (), w)
      else each rec (map snd (o_fields (objs (st w) p))) (w\<lparr>ctors := (ctors w)(p := Some [])\<rparr>))"

definition set_prototype :: "nat \<Rightarrow> nat \<Rightarrow> unit prog" where
  "set_prototype p a w =
     (case decls w a of
        FieldDecl f \<Rightarrow>
          (Inr (), w\<lparr>ctors := (ctors w)(p := map_option (assoc_set (o_name (objs (st w) a)) (d_defaultValue f)) (ctors w p))\<rparr>)
      | _ \<Rightarrow> (Inr (), w))"

definition proper_prototype :: "(nat \<Rightarrow> unit prog) \<Rightarrow> nat \<Rightarrow> unit prog" where
  "proper_prototype rec a w =
     (case o_parent (objs (st w) a) of
        Some p \<Rightarrow>
          if o_class (objs (st w) p) = CType then then_prog (type_ctor rec p) (set_prototype p a) w else (Inr (), w)
      | None \<Rightarrow> (Inr (), w))"

definition bad_key :: "field_decl \<Rightarrow> bool" where
  "bad_key f \<longleftrightarrow> (case d_keyType f of None \<Rightarrow> False | Some k \<Rightarrow> types_mapKey k = None)"

definition resolve_step ::
  "(val option \<Rightarrow> bool \<Rightarrow> val) \<Rightarrow> nat \<Rightarrow> (nat \<Rightarrow> unit prog) \<Rightarrow> nat \<Rightarrow> unit prog" where
  "resolve_step fromNum n rec a w =
     (case decls w a of
        FieldDecl f \<Rightarrow>
          if o_resolved (objs (st w) a) then (Inr (), w)
          else if bad_key f then (Inl (Error ''invalid key type''), w)
          else then_prog (resolve_decl fromNum n a f) (then_prog (proper_prototype rec a) (mark_resolved a)) w
      | _ \<Rightarrow> (Inr (), w))"

text \<open>\<open>Field.resolve\<close> and \<open>MapField.resolve\<close>\<close>

primrec field_resolve ::
  "(val option \<Rightarrow> bool \<Rightarrow> val) \<Rightarrow> nat \<Rightarrow> nat \<Rightarrow> nat \<Rightarrow> unit prog" where
  "field_resolve fromNum n 0 a = throw_prog stack_overflow"
| "field_resolve fromNum n (Suc d) a = resolve_step fromNum n (field_resolve fromNum n d) a"

section \<open>Methods and namespaces\<close>

definition lookup_prog :: "(js_error + nat) option \<Rightarrow> nat prog" where
  "lookup_prog r w = (case r of None \<Rightarrow> (Inl hang, w) | Some x \<Rightarrow> (x, w))"

definition method_resolve :: "nat \<Rightarrow> nat \<Rightarrow> unit prog" where
  "method_resolve n a w =
     (if o_resolved (objs (st w) a) then (Inr (), w)
      else case (decls w a, o_parent (objs (st w) a)) of
        (MethodDecl m, Some p) \<Rightarrow>
          bind_prog (lookup_prog (lookupType n (st w) p (d_requestType m)))
            (\<lambda>q w1.
              let m1 = m\<lparr>d_resolvedRequestType := Some q\<rparr>
              in bind_prog (lookup_prog (lookupType n (st w) p (d_responseType m)))
                   (\<lambda>r w2. mark_resolved a (set_decl a (MethodDecl (m1\<lparr>d_resolvedResponseType := Some r\<rparr>)) w2))
                   (set_decl a (MethodDecl m1) w1)) w
      | (MethodDecl m, None) \<Rightarrow> (Inl (TypeError ''Cannot read property of null''), w)
      | _ \<Rightarrow> (Inr (), w))"

text \<open>\<open>resolve\<close> of an object of any class.\<close>

definition object_resolve ::
  "(val option \<Rightarrow> bool \<Rightarrow> val) \<Rightarrow> nat \<Rightarrow> nat \<Rightarrow> nat \<Rightarrow> unit prog" where
  "object_resolve fromNum n d a w =
     (case o_class (objs (st w) a) of
        CField \<Rightarrow> field_resolve fromNum n d a w
      | CMethod \<Rightarrow> method_resolve n a w
      | _ \<Rightarrow> mark_resolved a w)"

text \<open>
  \<open>resolveAll\<close>: a type resolves its fields first, a service its methods and nothing nested. The
  extension fields that a root has deferred are left out.
\<close>

fun resolveAll :: "(val option \<Rightarrow> bool \<Rightarrow> val) \<Rightarrow> nat \<Rightarrow> nat \<Rightarrow> nat \<Rightarrow> unit prog" where
  "resolveAll fromNum n 0 a w = (Inl stack_overflow, w)"
| "resolveAll fromNum n (Suc d) a w =
     (let ob = objs (st w) a;
          members = (\<lambda>w1. each (\<lambda>b w2. if is_namespace (objs (st w2) b) then resolveAll fromNum n d b w2
                                         else object_resolve fromNum n d b w2)
                      (map snd (nestedArray (objs (st w1) a))) w1)
      in case o_class ob of
           CService \<Rightarrow> then_prog (each (method_resolve n) (map snd (o_methods ob))) (mark_resolved a) w
         | CType \<Rightarrow>
             then_prog (each (field_resolve fromNum n d) (map snd (o_fields ob))) (then_prog members (mark_resolved a)) w
         | _ \<Rightarrow> then_prog members (mark_resolved a) w)"

section \<open>What resolving leaves\<close>

text \<open>
  Resolving changes no more than the options of an object and the mark, so that it finds the same
  things afterwards.
\<close>

definition place_of :: "robj \<Rightarrow> robj" where
  "place_of ob = ob\<lparr>o_options := None, o_resolved := False\<rparr>"

definition same_tree :: "store \<Rightarrow> store \<Rightarrow> bool" where
  "same_tree s s' \<longleftrightarrow> free s' = free s \<and> (\<forall>x. place_of (objs s' x) = place_of (objs s x))"

lemma same_tree_refl [simp]: "same_tree s s"
  by (simp add: same_tree_def)

lemma same_tree_trans: "same_tree s s' \<Longrightarrow> same_tree s' s'' \<Longrightarrow> same_tree s s''"
  by (simp add: same_tree_def)

lemma place_of_eq:
  assumes "place_of x = place_of y"
  shows "o_class x = o_class y" "o_name x = o_name y" "o_parent x = o_parent y" "o_nested x = o_nested y"
    "o_fields x = o_fields y" "o_methods x = o_methods y" "o_reserved x = o_reserved y" "o_id x = o_id y"
    "o_extend x = o_extend y"
  using assms by (cases x; cases y; simp add: place_of_def)+

lemma same_treeD:
  assumes "same_tree s s'"
  shows "free s' = free s" "o_class (objs s' x) = o_class (objs s x)" "o_name (objs s' x) = o_name (objs s x)"
    "o_parent (objs s' x) = o_parent (objs s x)" "o_nested (objs s' x) = o_nested (objs s x)"
    "o_fields (objs s' x) = o_fields (objs s x)" "o_methods (objs s' x) = o_methods (objs s x)"
    "o_id (objs s' x) = o_id (objs s x)"
  using assms place_of_eq unfolding same_tree_def by blast+

lemma same_tree_members:
  assumes "same_tree s s'"
  shows "get s' a k = get s a k" and "nestedArray (objs s' a) = nestedArray (objs s a)"
    and "is_namespace (objs s' a) = is_namespace (objs s a)" and "filter_type f s' a = filter_type f s a"
  using same_treeD[OF assms]
  by (simp_all add: get_def Let_def type_get_def service_get_def namespace_get_def nestedArray_def is_namespace_def
      filter_type_def split: option.split)

lemma same_tree_root:
  assumes "same_tree s s'" and "wf_store s"
  shows "obj_root s' a = obj_root s a"
proof -
  have *: "ancestry s a as \<Longrightarrow> ancestry s' a as" for as
    by (induction rule: ancestry.induct) (auto intro: ancestry.intros simp: same_treeD[OF assms(1)])
  obtain as where as: "ancestry s a as" using wf_forest[OF assms(2)] by (auto simp: forest_def)
  show ?thesis using obj_root_ancestry[OF as] obj_root_ancestry[OF *[OF as]] by simp
qed

lemma same_tree_nested:
  assumes "same_tree s s'" and "\<And>a path f c. lookup n s' a path f c = lookup n s a path f c"
  shows "lookup_nested n s' as path f = lookup_nested n s as path f"
  by (induction as) (simp_all add: assms same_tree_members[OF assms(1)])

lemma same_tree_lookup:
  assumes "same_tree s s'" and "wf_store s"
  shows "lookup n s' a path f c = lookup n s a path f c"
proof (induction n arbitrary: a path f c)
  case (Suc n)
  note nested = same_tree_nested[OF assms(1) Suc]
  show ?case
    by (cases "path = []"; cases "hd path = []")
       (simp_all add: lookup_empty lookup_absolute lookup_step below_def above_def same_tree_root[OF assms] Suc nested
          same_tree_members[OF assms(1)] same_treeD[OF assms(1)] split: option.split)
qed simp

lemma same_tree_lookups:
  assumes "same_tree s s'" and "wf_store s"
  shows "lookup_string n s' a path f = lookup_string n s a path f" and "lookupTypeOrEnum n s' a path = lookupTypeOrEnum n s a path"
  by (simp_all add: lookup_string_def lookupTypeOrEnum_def same_tree_lookup[OF assms] same_tree_root[OF assms])

text \<open>What a field becomes, which does not depend on when it is resolved.\<close>

definition resolved_form ::
  "(val option \<Rightarrow> bool \<Rightarrow> val) \<Rightarrow> nat \<Rightarrow> runtime \<Rightarrow> nat \<Rightarrow> (field_decl \<times> (string \<times> val) list option) option" where
  "resolved_form fromNum n w a =
     (case decls w a of
        FieldDecl f \<Rightarrow>
          (if bad_key f then None
           else case type_default n w a f of
             (Inl e, t) \<Rightarrow> None
           | (Inr v, t) \<Rightarrow>
               Some (resolved_decl f t
                       (internal_default fromNum f (explicit_default w t (getOption ''default'' (objs (st w) a)) v)),
                     needed_options w t (o_options (objs (st w) a))))
      | _ \<Rightarrow> None)"

definition in_form ::
  "(val option \<Rightarrow> bool \<Rightarrow> val) \<Rightarrow> nat \<Rightarrow> runtime \<Rightarrow> runtime \<Rightarrow> nat \<Rightarrow> bool" where
  "in_form fromNum n w w' a \<longleftrightarrow>
     (\<exists>f. resolved_form fromNum n w a = Some (f, o_options (objs (st w') a)) \<and> decls w' a = FieldDecl f)"

definition evolves :: "(val option \<Rightarrow> bool \<Rightarrow> val) \<Rightarrow> nat \<Rightarrow> runtime \<Rightarrow> runtime \<Rightarrow> bool" where
  "evolves fromNum n w w' \<longleftrightarrow>
     same_tree (st w) (st w') \<and> reachable (st w') \<and>
     (\<forall>a. decls w' a = decls w a \<and> o_options (objs (st w') a) = o_options (objs (st w) a) \<or> in_form fromNum n w w' a) \<and>
     (\<forall>a. o_resolved (objs (st w') a) \<longrightarrow> o_resolved (objs (st w) a) \<or> in_form fromNum n w w' a) \<and>
     (\<forall>p. ctors w p \<noteq> None \<longrightarrow> ctors w' p \<noteq> None)"

lemma needed_options_keep:
  "getOption ''default'' (x\<lparr>o_options := needed_options w t (o_options x)\<rparr>) = getOption ''default'' x"
proof -
  have "map_of (assoc_del ''packed'' m) ''default'' = map_of m ''default''" for m :: "(string \<times> val) list"
    by (induction m) (auto simp: assoc_del_def)
  moreover from this have "assoc_del ''packed'' m = [] \<Longrightarrow> map_of m ''default'' = None" for m :: "(string \<times> val) list"
    by (metis map_of.simps(1))
  ultimately show ?thesis by (auto simp: getOption_def needed_options_def Let_def split: option.split)
qed

lemma needed_options_again:
  assumes "\<And>x. is_enum w' x = is_enum w x"
  shows "needed_options w' t (needed_options w t os) = needed_options w t os"
proof -
  have "map_of (assoc_del ''packed'' m) ''packed'' = None" for m :: "(string \<times> val) list"
    by (induction m) (auto simp: assoc_del_def)
  then show ?thesis using assms by (auto simp: needed_options_def Let_def split: option.split)
qed

lemma resolved_form_field: "resolved_form fromNum n w a = Some x \<Longrightarrow> \<exists>f. decls w a = FieldDecl f"
  by (auto simp: resolved_form_def split: decl.splits)

lemma evolves_decl:
  assumes "evolves fromNum n w w'"
  shows "decls w' a = decls w a \<and> o_options (objs (st w') a) = o_options (objs (st w) a) \<or>
    (\<exists>f f'. decls w a = FieldDecl f \<and> decls w' a = FieldDecl f' \<and>
       resolved_form fromNum n w a = Some (f', o_options (objs (st w') a)))"
  using assms resolved_form_field unfolding evolves_def in_form_def by metis

lemma evolves_enum:
  assumes "evolves fromNum n w w'"
  shows "is_enum w' x = is_enum w x" and "decls w' x = EnumDecl vs ids \<longleftrightarrow> decls w x = EnumDecl vs ids"
proof -
  have "same_tree (st w) (st w')" using assms by (simp add: evolves_def)
  from same_treeD(2)[OF this] show "is_enum w' x = is_enum w x" by (simp add: is_enum_def)
  show "decls w' x = EnumDecl vs ids \<longleftrightarrow> decls w x = EnumDecl vs ids"
    using evolves_decl[OF assms, of x] by auto
qed

lemma evolves_enum_case:
  assumes "evolves fromNum n w w'"
  shows "(case decls w' t of EnumDecl vs ids \<Rightarrow> g vs ids | _ \<Rightarrow> y) = (case decls w t of EnumDecl vs ids \<Rightarrow> g vs ids | _ \<Rightarrow> y)"
  using evolves_enum(2)[OF assms, of t] evolves_decl[OF assms, of t] by (auto split: decl.split)

lemma evolves_type_default:
  assumes e: "evolves fromNum n w w'" and wf: "wf_store (st w)" and f: "d_type f' = d_type f"
    and t: "d_resolvedType f' = d_resolvedType f \<or> type_default n w a f = (Inr v, d_resolvedType f')"
  shows "type_default n w' a f' = type_default n w a f"
proof -
  have s: "same_tree (st w) (st w')" using e by (simp add: evolves_def)
  show ?thesis
    using t unfolding type_default_def f evolves_enum_case[OF e] same_treeD(2,4)[OF s] same_tree_lookups(2)[OF s wf]
    by (auto split: option.split sum.split)
qed

lemma evolves_explicit_default:
  assumes "evolves fromNum n w w'"
  shows "explicit_default w' t o' v = explicit_default w t o' v"
  using evolves_enum_case[OF assms] by (cases t) (auto simp: explicit_default_def split: option.split val.split)

lemma resolved_form_Some:
  "resolved_form fromNum n w a = Some (f', os) \<longleftrightarrow>
   (\<exists>f v t. decls w a = FieldDecl f \<and> \<not> bad_key f \<and> type_default n w a f = (Inr v, t) \<and>
      f' = resolved_decl f t (internal_default fromNum f (explicit_default w t (getOption ''default'' (objs (st w) a)) v)) \<and>
      os = needed_options w t (o_options (objs (st w) a)))"
  by (auto simp: resolved_form_def split: decl.split sum.split prod.split)

lemma evolves_resolved_form:
  assumes e: "evolves fromNum n w w'" and wf: "wf_store (st w)"
  shows "resolved_form fromNum n w' a = Some (f', os) \<longleftrightarrow> resolved_form fromNum n w a = Some (f', os)"
proof -
  note E = evolves_enum(1)[OF e] evolves_explicit_default[OF e]
  have N: "needed_options w' t os = needed_options w t os" for t os
    by (simp add: needed_options_def E cong: if_cong option.case_cong)
  consider (same) "decls w' a = decls w a" "o_options (objs (st w') a) = o_options (objs (st w) a)"
    | (changed) f g where "decls w a = FieldDecl f" "decls w' a = FieldDecl g"
      "resolved_form fromNum n w a = Some (g, o_options (objs (st w') a))"
    using evolves_decl[OF e, of a] by blast
  then show ?thesis
  proof cases
    case same
    have "getOption ''default'' (objs (st w') a) = getOption ''default'' (objs (st w) a)" using same(2) by (simp add: getOption_def)
    moreover have "type_default n w' a f = type_default n w a f" for f by (rule evolves_type_default[OF e wf]) simp_all
    ultimately show ?thesis unfolding resolved_form_Some using same E N by simp
  next
    case changed
    obtain v t where t: "\<not> bad_key f" "type_default n w a f = (Inr v, t)"
      "g = resolved_decl f t (internal_default fromNum f (explicit_default w t (getOption ''default'' (objs (st w) a)) v))"
      "o_options (objs (st w') a) = needed_options w t (o_options (objs (st w) a))"
      using changed unfolding resolved_form_Some by auto
    have g: "d_type g = d_type f" "d_resolvedType g = t" "bad_key g = bad_key f" "\<And>u v. resolved_decl g u v = resolved_decl f u v"
      "\<And>v. internal_default fromNum g v = internal_default fromNum f v"
      by (simp_all add: t(3) resolved_decl_def bad_key_def internal_default_def default_of_def)
    have "type_default n w' a g = (Inr v, t)"
      using evolves_type_default[OF e wf g(1), of a v] t(2) g(2) by simp
    moreover have "getOption ''default'' (objs (st w') a) = getOption ''default'' (objs (st w) a)"
      using needed_options_keep[where x = "objs (st w) a" and w = w and t = t] by (simp add: getOption_def t(4))
    moreover have "needed_options w t (o_options (objs (st w') a)) = o_options (objs (st w') a)"
      by (simp add: t(4) needed_options_again)
    ultimately show ?thesis unfolding resolved_form_Some using changed t g E N by auto
  qed
qed

lemma in_form_evolves:
  assumes "in_form fromNum n w w' a" and e: "evolves fromNum n w w'" "evolves fromNum n w' w''" and wf: "wf_store (st w)"
  shows "in_form fromNum n w w'' a"
proof -
  have r: "resolved_form fromNum n w' a = Some x \<Longrightarrow> resolved_form fromNum n w a = Some x" for x
    using evolves_resolved_form[OF e(1) wf, of a] by (cases x) simp
  show ?thesis using evolves_decl[OF e(2), of a] r assms(1) by (auto simp: in_form_def)
qed

lemma evolves_refl: "reachable (st w) \<Longrightarrow> evolves fromNum n w w"
  by (simp add: evolves_def)

lemma evolves_reachable: "evolves fromNum n w w' \<Longrightarrow> reachable (st w')"
  by (simp add: evolves_def)

lemma evolves_tree: "evolves fromNum n w w' \<Longrightarrow> same_tree (st w) (st w')"
  by (simp add: evolves_def)

lemma evolves_trans:
  assumes e: "evolves fromNum n w w'" "evolves fromNum n w' w''" and wf: "wf_store (st w)"
  shows "evolves fromNum n w w''"
proof -
  have f: "in_form fromNum n w' w'' a \<Longrightarrow> in_form fromNum n w w'' a" for a
    using evolves_resolved_form[OF e(1) wf, of a] by (auto simp: in_form_def)
  note g = in_form_evolves[OF _ e wf]
  show ?thesis
    unfolding evolves_def
  proof (intro conjI allI impI)
    fix a
    show "decls w'' a = decls w a \<and> o_options (objs (st w'') a) = o_options (objs (st w) a) \<or> in_form fromNum n w w'' a"
      using e f[of a] g[of a] unfolding evolves_def by metis
    show "o_resolved (objs (st w'') a) \<Longrightarrow> o_resolved (objs (st w) a) \<or> in_form fromNum n w w'' a"
      using e f[of a] g[of a] unfolding evolves_def by metis
  qed (use e same_tree_trans in \<open>auto simp: evolves_def\<close>)
qed

text \<open>A field that can be resolved, and if it has been, is what it becomes.\<close>

definition resolvable :: "(val option \<Rightarrow> bool \<Rightarrow> val) \<Rightarrow> nat \<Rightarrow> runtime \<Rightarrow> nat \<Rightarrow> bool" where
  "resolvable fromNum n w a \<longleftrightarrow>
     resolved_form fromNum n w a \<noteq> None \<and> (o_resolved (objs (st w) a) \<longrightarrow> in_form fromNum n w w a)"

lemma in_form_self:
  assumes e: "evolves fromNum n w w'" and wf: "wf_store (st w)"
  shows "in_form fromNum n w' w' a \<longleftrightarrow> in_form fromNum n w w' a"
  using evolves_resolved_form[OF e wf, of a] by (auto simp: in_form_def)

lemma resolvable_evolves:
  assumes "resolvable fromNum n w a" and e: "evolves fromNum n w w'" and wf: "wf_store (st w)"
  shows "resolvable fromNum n w' a"
proof -
  have r: "reachable (st w) \<Longrightarrow> in_form fromNum n w w a \<Longrightarrow> in_form fromNum n w w' a"
    using in_form_evolves[OF _ evolves_refl e wf] by blast
  have "in_form fromNum n w w a \<Longrightarrow> in_form fromNum n w w' a"
    using evolves_decl[OF e, of a] by (auto simp: in_form_def)
  moreover have "resolved_form fromNum n w' a \<noteq> None"
    using assms(1) evolves_resolved_form[OF e wf, of a] by (cases "resolved_form fromNum n w a") (auto simp: resolvable_def)
  moreover have "o_resolved (objs (st w') a) \<Longrightarrow> o_resolved (objs (st w) a) \<or> in_form fromNum n w w' a"
    using e by (simp add: evolves_def)
  ultimately show ?thesis using assms(1) in_form_self[OF e wf] by (auto simp: resolvable_def)
qed

lemma update_options_reachable:
  "reachable s \<Longrightarrow> reachable (update a (\<lambda>x. x\<lparr>o_options := m\<rparr>) s)"
  "reachable s \<Longrightarrow> reachable (update a (\<lambda>x. x\<lparr>o_resolved := d\<rparr>) s)"
proof -
  have "update a (\<lambda>x. x\<lparr>o_options := m\<rparr>) s = update a (\<lambda>x. x\<lparr>o_options := m, o_resolved := o_resolved (objs s a)\<rparr>) s"
    "update a (\<lambda>x. x\<lparr>o_resolved := d\<rparr>) s = update a (\<lambda>x. x\<lparr>o_options := o_options (objs s a), o_resolved := d\<rparr>) s"
    by (simp_all add: update_def fun_eq_iff)
  then show "reachable s \<Longrightarrow> reachable (update a (\<lambda>x. x\<lparr>o_options := m\<rparr>) s)"
    "reachable s \<Longrightarrow> reachable (update a (\<lambda>x. x\<lparr>o_resolved := d\<rparr>) s)"
    using reachable.mark by metis+
qed

lemma resolve_decl_evolves:
  assumes re: "reachable (st w)" and f: "decls w a = FieldDecl f" and r: "resolved_form fromNum n w a \<noteq> None"
  shows "\<exists>w'. resolve_decl fromNum n a f w = (Inr (), w') \<and> evolves fromNum n w w' \<and> in_form fromNum n w w' a \<and> \<not> bad_key f"
proof -
  obtain g os where g: "resolved_form fromNum n w a = Some (g, os)" using r by (cases "resolved_form fromNum n w a") auto
  then obtain v t where t: "\<not> bad_key f" "type_default n w a f = (Inr v, t)"
    "g = resolved_decl f t (internal_default fromNum f (explicit_default w t (getOption ''default'' (objs (st w) a)) v))"
    "os = needed_options w t (o_options (objs (st w) a))"
    using f unfolding resolved_form_Some by auto
  define w' where "w' = set_decl a (FieldDecl g) (w\<lparr>st := update a (\<lambda>x. x\<lparr>o_options := os\<rparr>) (st w)\<rparr>)"
  have "resolve_decl fromNum n a f w = (Inr (), w')"
    using t by (simp add: resolve_decl_def w'_def Let_def)
  moreover have "in_form fromNum n w w' a"
    using g by (simp add: in_form_def w'_def set_decl_def update_def)
  moreover have "evolves fromNum n w w'"
    using g update_options_reachable(1)[OF re]
    by (auto simp: evolves_def in_form_def w'_def set_decl_def update_def same_tree_def place_of_def)
  ultimately show ?thesis using t(1) by blast
qed

lemma mark_evolves:
  assumes re: "reachable (st w)" and "in_form fromNum n w w a"
  shows "\<exists>w'. mark_resolved a w = (Inr (), w') \<and> evolves fromNum n w w'"
proof -
  have "\<exists>r. obj_root (st w) a = Some r"
    using wf_forest[OF reachable_store_wf[OF re]] obj_root_ancestry unfolding forest_def by blast
  then have "\<exists>s. resolve a (st w) = Some s \<and> (s = st w \<or> s = update a (\<lambda>x. x\<lparr>o_resolved := True\<rparr>) (st w))"
    by (auto simp: resolve_def)
  then obtain s where s: "resolve a (st w) = Some s" "s = st w \<or> s = update a (\<lambda>x. x\<lparr>o_resolved := True\<rparr>) (st w)"
    by blast
  have "evolves fromNum n w (w\<lparr>st := s\<rparr>)"
    using s(2) assms update_options_reachable(2)[OF re]
    by (auto simp: evolves_def in_form_def update_def same_tree_def place_of_def split: if_split_asm)
  then show ?thesis using s(1) by (auto simp: mark_resolved_def)
qed

lemma set_prototype_evolves:
  "reachable (st w) \<Longrightarrow> \<exists>w'. set_prototype p a w = (Inr (), w') \<and> evolves fromNum n w w'"
  by (auto simp: set_prototype_def evolves_def split: decl.split)

text \<open>A program that resolves the field at an address.\<close>

definition resolves ::
  "(val option \<Rightarrow> bool \<Rightarrow> val) \<Rightarrow> nat \<Rightarrow> runtime \<Rightarrow> unit prog \<Rightarrow> nat set \<Rightarrow> bool" where
  "resolves fromNum n w p A \<longleftrightarrow>
     (\<exists>w'. p w = (Inr (), w') \<and> evolves fromNum n w w' \<and> (\<forall>a \<in> A. in_form fromNum n w w' a))"

lemma resolves_then:
  assumes "resolves fromNum n w p A" and re: "reachable (st w)"
    and q: "\<And>w'. evolves fromNum n w w' \<Longrightarrow> \<forall>a \<in> A. in_form fromNum n w w' a \<Longrightarrow> resolves fromNum n w' q B"
  shows "resolves fromNum n w (then_prog p q) (A \<union> B)"
proof -
  have wf: "wf_store (st w)" by (rule reachable_store_wf[OF re])
  obtain w1 where w1: "p w = (Inr (), w1)" "evolves fromNum n w w1" "\<forall>a \<in> A. in_form fromNum n w w1 a"
    using assms(1) by (auto simp: resolves_def)
  obtain w2 where w2: "q w1 = (Inr (), w2)" "evolves fromNum n w1 w2" "\<forall>a \<in> B. in_form fromNum n w1 w2 a"
    using q[OF w1(2,3)] by (auto simp: resolves_def)
  have "in_form fromNum n w w2 a" if "a \<in> A \<union> B" for a
  proof (cases "a \<in> A")
    case True
    then show ?thesis using in_form_evolves[OF _ w1(2) w2(2) wf] w1(3) by blast
  next
    case False
    then have "in_form fromNum n w1 w2 a" using w2(3) that by blast
    then show ?thesis using evolves_resolved_form[OF w1(2) wf, of a] by (auto simp: in_form_def)
  qed
  then show ?thesis
    using w1(1) w2(1) evolves_trans[OF w1(2) w2(2) wf] by (auto simp: resolves_def then_prog_def bind_prog_def)
qed

lemma resolves_each:
  assumes "reachable (st w)"
    and "\<And>w' a. evolves fromNum n w w' \<Longrightarrow> a \<in> set as \<Longrightarrow> resolves fromNum n w' (p a) {a}"
  shows "resolves fromNum n w (each p as) (set as)"
  using assms
proof (induction as arbitrary: w)
  case Nil
  then show ?case by (simp add: resolves_def return_prog_def evolves_refl)
next
  case (Cons a as)
  have wf: "wf_store (st w)" by (rule reachable_store_wf[OF Cons.prems(1)])
  have "resolves fromNum n w (then_prog (p a) (each p as)) ({a} \<union> set as)"
  proof (rule resolves_then[OF Cons.prems(2)[OF evolves_refl] Cons.prems(1)])
    fix w' assume e: "evolves fromNum n w w'"
    show "resolves fromNum n w' (each p as) (set as)"
    proof (rule Cons.IH[OF evolves_reachable[OF e]])
      fix w'' b assume "evolves fromNum n w' w''" and "b \<in> set as"
      then show "resolves fromNum n w'' (p b) {b}" using Cons.prems(2)[OF evolves_trans[OF e _ wf]] by simp
    qed
  qed (use Cons.prems in simp_all)
  then show ?case by simp
qed

lemma resolves_step:
  assumes re: "reachable (st w)" and r: "resolvable fromNum n w a"
    and proto: "\<And>w'. evolves fromNum n w w' \<Longrightarrow> resolves fromNum n w' (proper_prototype rec a) {}"
  shows "resolves fromNum n w (resolve_step fromNum n rec a) {a}"
proof -
  have wf: "wf_store (st w)" by (rule reachable_store_wf[OF re])
  obtain f where f: "decls w a = FieldDecl f" using r resolved_form_field unfolding resolvable_def by blast
  show ?thesis
  proof (cases "o_resolved (objs (st w) a)")
    case True
    then show ?thesis using r f evolves_refl[OF re] by (simp add: resolves_def resolve_step_def resolvable_def)
  next
    case False
    have rd: "resolves fromNum n w (resolve_decl fromNum n a f) {a}" and k: "\<not> bad_key f"
      using resolve_decl_evolves[OF re f, of fromNum n] r unfolding resolves_def resolvable_def by blast+
    have "resolves fromNum n w (then_prog (resolve_decl fromNum n a f) (then_prog (proper_prototype rec a) (mark_resolved a)))
        ({a} \<union> ({} \<union> {}))"
    proof (rule resolves_then[OF rd re resolves_then])
      fix w1 assume e: "evolves fromNum n w w1" and i: "\<forall>x \<in> {a}. in_form fromNum n w w1 x"
      show "resolves fromNum n w1 (proper_prototype rec a) {}" by (rule proto[OF e])
      show "reachable (st w1)" by (rule evolves_reachable[OF e])
      fix w2 assume e2: "evolves fromNum n w1 w2"
      have "in_form fromNum n w w2 a" using in_form_evolves[OF _ e e2 wf] i by simp
      then have "in_form fromNum n w2 w2 a" using in_form_self[OF evolves_trans[OF e e2 wf] wf] by simp
      then show "resolves fromNum n w2 (mark_resolved a) {}"
        using mark_evolves[OF evolves_reachable[OF e2]] by (auto simp: resolves_def)
    qed
    then show ?thesis using f False k by (simp add: resolves_def resolve_step_def)
  qed
qed

lemma resolves_prototype:
  assumes re: "reachable (st w)"
    and ctor: "\<And>p. o_parent (objs (st w) a) = Some p \<Longrightarrow> o_class (objs (st w) p) = CType \<Longrightarrow>
      resolves fromNum n w (type_ctor rec p) {}"
  shows "resolves fromNum n w (proper_prototype rec a) {}"
proof -
  have "resolves fromNum n w (then_prog (type_ctor rec p) (set_prototype p a)) ({} \<union> {})"
    if "o_parent (objs (st w) a) = Some p" and "o_class (objs (st w) p) = CType" for p
    by (rule resolves_then[OF ctor[OF that] re])
       (use set_prototype_evolves[OF evolves_reachable] in \<open>simp add: resolves_def\<close>)
  then show ?thesis
    using evolves_refl[OF re] by (auto simp: resolves_def proper_prototype_def split: option.split)
qed

lemma resolves_present:
  "reachable (st w) \<Longrightarrow> ctors w p \<noteq> None \<Longrightarrow> resolves fromNum n w (type_ctor rec p) {}"
  by (simp add: resolves_def type_ctor_def evolves_refl)

text \<open>A field of a type that has its constructor.\<close>

lemma resolves_field_inner:
  assumes re: "reachable (st w)" and r: "resolvable fromNum n w a"
    and p: "o_parent (objs (st w) a) = Some p" "ctors w p \<noteq> None"
  shows "resolves fromNum n w (field_resolve fromNum n (Suc d) a) {a}"
proof -
  have "resolves fromNum n w (resolve_step fromNum n (field_resolve fromNum n d) a) {a}"
  proof (rule resolves_step[OF re r])
    fix w' assume e: "evolves fromNum n w w'"
    have "ctors w' p \<noteq> None" using e p(2) unfolding evolves_def by blast
    moreover have "o_parent (objs (st w') a) = Some p" using p(1) same_treeD(4)[OF evolves_tree[OF e]] by simp
    ultimately show "resolves fromNum n w' (proper_prototype (field_resolve fromNum n d) a) {}"
      by (intro resolves_prototype resolves_present evolves_reachable[OF e]) simp_all
  qed
  then show ?thesis by simp
qed

text \<open>The types whose fields can all be resolved.\<close>

definition type_ok :: "(val option \<Rightarrow> bool \<Rightarrow> val) \<Rightarrow> nat \<Rightarrow> runtime \<Rightarrow> nat \<Rightarrow> bool" where
  "type_ok fromNum n w p \<longleftrightarrow> (\<forall>(k, a) \<in> set (o_fields (objs (st w) p)). resolvable fromNum n w a)"

lemma type_ok_evolves:
  "type_ok fromNum n w p \<Longrightarrow> evolves fromNum n w w' \<Longrightarrow> wf_store (st w) \<Longrightarrow> type_ok fromNum n w' p"
  using resolvable_evolves same_treeD(6)[OF evolves_tree, of fromNum n w w' p] unfolding type_ok_def by fastforce

lemma resolves_ctor:
  assumes re: "reachable (st w)" and ok: "type_ok fromNum n w p"
  shows "resolves fromNum n w (type_ctor (field_resolve fromNum n (Suc d)) p) {}"
proof (cases "ctors w p = None")
  case True
  let ?w = "w\<lparr>ctors := (ctors w)(p := Some [])\<rparr>" and ?as = "map snd (o_fields (objs (st w) p))"
  have wf: "wf_store (st w)" by (rule reachable_store_wf[OF re])
  have e0: "evolves fromNum n w ?w" using re by (auto simp: evolves_def)
  have "resolves fromNum n ?w (each (field_resolve fromNum n (Suc d)) ?as) (set ?as)"
  proof (rule resolves_each)
    fix w' a assume e: "evolves fromNum n ?w w'" and a: "a \<in> set ?as"
    then obtain k where k: "(k, a) \<in> set (o_fields (objs (st w) p))" by auto
    have e': "evolves fromNum n w w'" by (rule evolves_trans[OF e0 e wf])
    have "ctors w' p \<noteq> None" using e unfolding evolves_def by auto
    moreover have "o_parent (objs (st w') a) = Some p"
      using wf_field[OF wf k] same_treeD(4)[OF evolves_tree[OF e']] by simp
    moreover have "resolvable fromNum n w' a"
      using resolvable_evolves[OF _ e' wf] ok k unfolding type_ok_def by blast
    ultimately show "resolves fromNum n w' (field_resolve fromNum n (Suc d) a) {a}"
      using resolves_field_inner evolves_reachable[OF e'] by blast
  qed (use re in simp)
  then show ?thesis
    using True evolves_trans[OF e0 _ wf] by (auto simp: resolves_def type_ctor_def)
qed (rule resolves_present[OF re])

lemma resolves_field:
  assumes re: "reachable (st w)" and k: "(k, a) \<in> set (o_fields (objs (st w) p))" and ok: "type_ok fromNum n w p"
  shows "resolves fromNum n w (field_resolve fromNum n (Suc (Suc d)) a) {a}"
proof -
  have wf: "wf_store (st w)" by (rule reachable_store_wf[OF re])
  have "resolves fromNum n w (resolve_step fromNum n (field_resolve fromNum n (Suc d)) a) {a}"
  proof (rule resolves_step[OF re])
    show "resolvable fromNum n w a" using ok k unfolding type_ok_def by blast
    fix w' assume e: "evolves fromNum n w w'"
    have "o_parent (objs (st w') a) = Some p"
      using wf_field[OF wf k] same_treeD(4)[OF evolves_tree[OF e]] by simp
    then show "resolves fromNum n w' (proper_prototype (field_resolve fromNum n (Suc d)) a) {}"
      using resolves_prototype resolves_ctor[OF evolves_reachable[OF e] type_ok_evolves[OF ok e wf]] evolves_reachable[OF e]
      by (metis option.inject)
  qed
  then show ?thesis by simp
qed

text \<open>All fields of a type: what \<open>setup\<close> does first.\<close>

definition resolve_fields :: "(val option \<Rightarrow> bool \<Rightarrow> val) \<Rightarrow> nat \<Rightarrow> nat \<Rightarrow> nat \<Rightarrow> unit prog" where
  "resolve_fields fromNum n d p w = each (field_resolve fromNum n d) (map snd (o_fields (objs (st w) p))) w"

lemma resolves_type:
  assumes re: "reachable (st w)" and ok: "type_ok fromNum n w p"
  shows "resolves fromNum n w (resolve_fields fromNum n (Suc (Suc d)) p) (snd ` set (o_fields (objs (st w) p)))"
proof -
  let ?as = "map snd (o_fields (objs (st w) p))"
  have wf: "wf_store (st w)" by (rule reachable_store_wf[OF re])
  have "resolves fromNum n w (each (field_resolve fromNum n (Suc (Suc d))) ?as) (set ?as)"
  proof (rule resolves_each[OF re])
    fix w' a assume e: "evolves fromNum n w w'" and "a \<in> set ?as"
    then obtain k where "(k, a) \<in> set (o_fields (objs (st w') p))" using same_treeD(6)[OF evolves_tree[OF e]] by auto
    then show "resolves fromNum n w' (field_resolve fromNum n (Suc (Suc d)) a) {a}"
      using resolves_field[OF evolves_reachable[OF e] _ type_ok_evolves[OF ok e wf]] by blast
  qed
  then show ?thesis by (simp add: resolves_def resolve_fields_def)
qed

end
