(* ===== verification/Roundtrip.thy ===== *)
theory Roundtrip
  imports Codec
begin

unbundle bit_operations_syntax

text \<open>
  The generated encoder and decoder together. \<open>msg_bytes\<close> is the specification: the wire
  format of a message, field by field in the order of the ids. The encoder appends exactly
  these bytes to a writer and the decoder, given these bytes, returns the message; both follow
  by induction on the nesting depth from the same facts about one field. \<open>wf_msg\<close> is what
  is assumed of a message: its values have the types of its fields.
\<close>

section \<open>Values of basic types\<close>

definition scalar_block :: "string \<Rightarrow> val \<Rightarrow> byte list" where
  "scalar_block type v =
     (case v of
        VDouble x \<Rightarrow> le_bytes 8 x
      | VFloat x \<Rightarrow> le_bytes 4 x
      | VBool b \<Rightarrow> varint (if b then 1 else 0)
      | VString s \<Rightarrow> varint (length (utf8_enc s)) @ utf8_enc s
      | VBytes bs \<Rightarrow> varint (length bs) @ bs
      | _ \<Rightarrow>
          if type = ''int32'' then (case v of VInt n \<Rightarrow> varint (nat (n mod 2 ^ 64)) | _ \<Rightarrow> [])
          else if type = ''uint32'' then (case v of VInt n \<Rightarrow> varint (nat n) | _ \<Rightarrow> [])
          else if type = ''sint32'' then (case v of VInt n \<Rightarrow> varint (unat (zig32 (to_uint32 n))) | _ \<Rightarrow> [])
          else if type = ''fixed32'' \<or> type = ''sfixed32''
          then (case v of VInt n \<Rightarrow> le32 (to_uint32 n) | _ \<Rightarrow> [])
          else (case long_of_val v of
                  None \<Rightarrow> []
                | Some b \<Rightarrow>
                    if type = ''sint64'' then varint (lb_nat (zzEncode b))
                    else if type = ''fixed64'' \<or> type = ''sfixed64'' then le32 (lo b) @ le32 (hi b)
                    else varint (lb_nat b)))"

text \<open>
  The values of a basic type. A 64-bit value is a number or a Long that is what the reader
  returns for its halves.
\<close>

inductive scalar_ok :: "bool \<Rightarrow> string \<Rightarrow> val \<Rightarrow> bool" for has_Long :: bool where
  double: "scalar_ok has_Long ''double'' (VDouble x)"
| float: "scalar_ok has_Long ''float'' (VFloat y)"
| int32: "int32_ok n \<Longrightarrow> scalar_ok has_Long ''int32'' (VInt n)"
| uint32: "0 \<le> n \<Longrightarrow> n < 2 ^ 32 \<Longrightarrow> scalar_ok has_Long ''uint32'' (VInt n)"
| sint32: "int32_ok n \<Longrightarrow> scalar_ok has_Long ''sint32'' (VInt n)"
| fixed32: "0 \<le> n \<Longrightarrow> n < 2 ^ 32 \<Longrightarrow> scalar_ok has_Long ''fixed32'' (VInt n)"
| sfixed32: "int32_ok n \<Longrightarrow> scalar_ok has_Long ''sfixed32'' (VInt n)"
| int64: "long_of_val v = Some b \<Longrightarrow> v = val_of_long (long_result has_Long False b) \<Longrightarrow>
    scalar_ok has_Long ''int64'' v"
| uint64: "long_of_val v = Some b \<Longrightarrow> v = val_of_long (long_result has_Long True b) \<Longrightarrow>
    scalar_ok has_Long ''uint64'' v"
| sint64: "long_of_val v = Some b \<Longrightarrow> v = val_of_long (long_result has_Long False b) \<Longrightarrow>
    scalar_ok has_Long ''sint64'' v"
| fixed64: "long_of_val v = Some b \<Longrightarrow> v = val_of_long (long_result has_Long True b) \<Longrightarrow>
    scalar_ok has_Long ''fixed64'' v"
| sfixed64: "long_of_val v = Some b \<Longrightarrow> v = val_of_long (long_result has_Long False b) \<Longrightarrow>
    scalar_ok has_Long ''sfixed64'' v"
| bool: "scalar_ok has_Long ''bool'' (VBool c)"
| "string": "string_ok s \<Longrightarrow> scalar_ok has_Long ''string'' (VString s)"
| bytes: "bytes_ok bs \<Longrightarrow> scalar_ok has_Long ''bytes'' (VBytes bs)"

inductive_simps scalar_ok_simps [simp]:
  "scalar_ok L ''string'' v" "scalar_ok L ''bytes'' v" "scalar_ok L ''sint32'' v"

text \<open>An operation of the encoder that appends a block of bytes.\<close>

definition encodes :: "(writer \<Rightarrow> writer outcome) \<Rightarrow> byte list \<Rightarrow> bool" where
  "encodes h bs \<longleftrightarrow> (\<exists>g. appends g bs \<and> (\<forall>w. h w = Done (g w)))"

lemma encodes_Done: "appends g bs \<Longrightarrow> encodes (\<lambda>w. Done (g w)) bs"
  by (auto simp: encodes_def)

lemma encodes_nothing: "encodes Done []"
  by (auto simp: encodes_def intro!: exI[of _ "\<lambda>w. w"] appends_id)

lemma encodes_bind:
  assumes "encodes h bs" and "encodes k cs"
  shows "encodes (\<lambda>w. bind_outcome (h w) k) (bs @ cs)"
proof -
  obtain f g where "appends f bs" "\<forall>w. h w = Done (f w)" "appends g cs" "\<forall>w. k w = Done (g w)"
    using assms by (auto simp: encodes_def)
  then show ?thesis
    by (auto simp: encodes_def intro!: exI[of _ "g \<circ> f"] appends_comp)
qed

lemma encodes_after:
  assumes "appends g bs" and "encodes h cs"
  shows "encodes (\<lambda>w. h (g w)) (bs @ cs)"
  using encodes_bind[OF encodes_Done[OF assms(1)] assms(2)] by simp

lemma encodes_delimited:
  assumes "encodes h bs" and "length bs < 2 ^ 32"
  shows "encodes (\<lambda>w. bind_outcome (h (fork w)) (\<lambda>w'. Done (ldelim w'))) (varint (length bs) @ bs)"
proof -
  obtain g where g: "appends g bs" "\<forall>w. h w = Done (g w)" using assms(1) by (auto simp: encodes_def)
  from appends_delimited[OF g(1) assms(2)] g(2) show ?thesis
    by (auto simp: encodes_def comp_def)
qed

lemma encodes_fold:
  "(\<And>x. x \<in> set xs \<Longrightarrow> encodes (h x) (b x)) \<Longrightarrow> encodes (fold_outcome h xs) (concat (map b xs))"
proof (induction xs)
  case Nil
  have "fold_outcome h [] = Done" by (simp add: fun_eq_iff)
  then show ?case using encodes_nothing by simp
next
  case (Cons x xs)
  have "fold_outcome h (x # xs) = (\<lambda>w. bind_outcome (h x w) (fold_outcome h xs))"
    by (simp add: fun_eq_iff)
  then show ?case using Cons by (simp add: encodes_bind)
qed

lemma to_uint32_nat: "0 \<le> n \<Longrightarrow> n < 2 ^ 32 \<Longrightarrow> unat (to_uint32 n) = nat n"
  by (simp add: unat_eq_nat_uint uint_to_uint32)

lemma sint_to_uint32: "int32_ok v \<Longrightarrow> sint (to_uint32 v) = v"
  by (simp add: to_uint32_def sint_sbintrunc' int32_ok_def signed_take_bit_int_eq_self)

lemma write_method_simps:
  "write_method ''double'' (VDouble x) = (\<lambda>w. Done (write_double x w))"
  "write_method ''float'' (VFloat y) = (\<lambda>w. Done (write_float y w))"
  "write_method ''int32'' (VInt n) = (\<lambda>w. Done (write_int32 n w))"
  "write_method ''uint32'' (VInt n) = (\<lambda>w. Done (write_uint32 n w))"
  "write_method ''sint32'' (VInt n) = (\<lambda>w. Done (write_sint32 n w))"
  "write_method ''fixed32'' (VInt n) = (\<lambda>w. Done (write_fixed32 n w))"
  "write_method ''sfixed32'' (VInt n) = (\<lambda>w. Done (write_fixed32 n w))"
  "long_of_val v = Some b \<Longrightarrow> write_method ''int64'' v = (\<lambda>w. Done (write_uint64 b w))"
  "long_of_val v = Some b \<Longrightarrow> write_method ''uint64'' v = (\<lambda>w. Done (write_uint64 b w))"
  "long_of_val v = Some b \<Longrightarrow> write_method ''sint64'' v = (\<lambda>w. Done (write_sint64 b w))"
  "long_of_val v = Some b \<Longrightarrow> write_method ''fixed64'' v = (\<lambda>w. Done (write_fixed64 b w))"
  "long_of_val v = Some b \<Longrightarrow> write_method ''sfixed64'' v = (\<lambda>w. Done (write_fixed64 b w))"
  "write_method ''bool'' (VBool c) = (\<lambda>w. Done (write_bool c w))"
  "write_method ''string'' (VString s) = (\<lambda>w. Done (write_string s w))"
  "write_method ''bytes'' (VBytes bs) = (\<lambda>w. Done (write_bytes bs w))"
  by (simp_all add: fun_eq_iff write_method_def write_int_def write_long_def write_int64_def
      write_sfixed32_def write_sfixed64_def)

lemma read_method_simps:
  "read_method L ''double'' r = map_read VDouble (read_double r)"
  "read_method L ''float'' r = map_read VFloat (read_float r)"
  "read_method L ''int32'' r = map_read VInt (read_int32 r)"
  "read_method L ''uint32'' r = map_read (\<lambda>u. VInt (uint u)) (read_uint32 r)"
  "read_method L ''sint32'' r = map_read VInt (read_sint32 r)"
  "read_method L ''fixed32'' r = map_read (\<lambda>u. VInt (uint u)) (read_fixed32 r)"
  "read_method L ''sfixed32'' r = map_read VInt (read_sfixed32 r)"
  "read_method L ''int64'' r = map_read val_of_long (read_int64 L r)"
  "read_method L ''uint64'' r = map_read val_of_long (read_uint64 L r)"
  "read_method L ''sint64'' r = map_read val_of_long (read_sint64 L r)"
  "read_method L ''fixed64'' r = map_read val_of_long (read_fixed64 L r)"
  "read_method L ''sfixed64'' r = map_read val_of_long (read_sfixed64 L r)"
  "read_method L ''bool'' r = map_read VBool (read_bool r)"
  "read_method L ''string'' r = map_read VString (read_string r)"
  "read_method L ''bytes'' r = map_read VBytes (read_bytes r)"
  by (simp_all add: read_method_def)

lemma long_block:
  assumes "long_of_val v = Some b"
  shows "scalar_block ''int64'' v = varint (lb_nat b)" "scalar_block ''uint64'' v = varint (lb_nat b)"
    "scalar_block ''sint64'' v = varint (lb_nat (zzEncode b))"
    "scalar_block ''fixed64'' v = le32 (lo b) @ le32 (hi b)"
    "scalar_block ''sfixed64'' v = le32 (lo b) @ le32 (hi b)"
  using assms by (cases v; simp add: scalar_block_def)+

lemma scalar_encodes: "scalar_ok L type v \<Longrightarrow> encodes (write_method type v) (scalar_block type v)"
proof (induction rule: scalar_ok.induct)
  case (int32 n)
  then show ?case
    unfolding write_method_simps by (intro encodes_Done) (use int32.enc_block in \<open>simp add: scalar_block_def\<close>)
next
  case (uint32 n)
  then have "scalar_block ''uint32'' (VInt n) = varint (unat (to_uint32 n))"
    by (simp add: scalar_block_def to_uint32_nat)
  then show ?case unfolding write_method_simps by (simp add: encodes_Done appends_uint32)
next
  case (fixed32 n)
  then show ?case
    unfolding write_method_simps
    by (simp add: scalar_block_def encodes_Done appends_fixed32[unfolded fixed32_bytes_le32])
next
  case (sfixed32 n)
  then show ?case
    unfolding write_method_simps
    by (simp add: scalar_block_def encodes_Done appends_fixed32[unfolded fixed32_bytes_le32])
next
  case (string s)
  then show ?case
    unfolding write_method_simps
    by (intro encodes_Done) (use text_codec.enc_block in \<open>simp add: scalar_block_def\<close>)
next
  case (bytes bs)
  then show ?case
    unfolding write_method_simps
    by (intro encodes_Done) (use bytes.enc_block in \<open>simp add: scalar_block_def\<close>)
qed (simp_all add: write_method_simps long_block encodes_Done appends_sint32 appends_uint64
      appends_sint64 appends_fixed64_le appends_bool float.enc_block double.enc_block,
     simp_all add: scalar_block_def encodes_Done appends_sint32 appends_bool float.enc_block double.enc_block)

lemma map_read_Inr [simp]: "map_read f (Inr v, r) = (Inr (f v), r)"
  by (simp add: map_read_def)

lemma scalar_block_simps:
  "scalar_block ''double'' (VDouble x) = le_bytes 8 x"
  "scalar_block ''float'' (VFloat y) = le_bytes 4 y"
  "scalar_block ''int32'' (VInt n) = varint (nat (n mod 2 ^ 64))"
  "scalar_block ''sint32'' (VInt n) = varint (unat (zig32 (to_uint32 n)))"
  "scalar_block ''uint32'' (VInt n) = varint (nat n)"
  "scalar_block ''fixed32'' (VInt n) = le32 (to_uint32 n)"
  "scalar_block ''sfixed32'' (VInt n) = le32 (to_uint32 n)"
  "scalar_block ''bool'' (VBool c) = varint (if c then 1 else 0)"
  "scalar_block ''string'' (VString s) = varint (length (utf8_enc s)) @ utf8_enc s"
  "scalar_block ''bytes'' (VBytes bs) = varint (length bs) @ bs"
  by (simp_all add: scalar_block_def)

lemma string_block_read:
  "string_ok s \<Longrightarrow> ahead r (varint (length (utf8_enc s)) @ utf8_enc s @ rest) \<Longrightarrow>
   read_string r = (Inr s, advance (length (varint (length (utf8_enc s))) + length (utf8_enc s)) r)"
  using text_codec.dec_block[of s r rest] by simp

lemma bytes_block_read:
  "bytes_ok bs \<Longrightarrow> ahead r (varint (length bs) @ bs @ rest) \<Longrightarrow>
   read_bytes r = (Inr bs, advance (length (varint (length bs)) + length bs) r)"
  using bytes.dec_block[of bs r rest] by simp

lemma scalar_reads:
  "scalar_ok L type v \<Longrightarrow> ahead r (scalar_block type v @ rest) \<Longrightarrow>
   read_method L type r = (Inr v, advance (length (scalar_block type v)) r)"
proof (induction rule: scalar_ok.induct)
  case (uint32 n)
  then have b: "scalar_block ''uint32'' (VInt n) = varint (unat (to_uint32 n))"
    by (simp add: scalar_block_def to_uint32_nat)
  have "uint (to_uint32 n) = n" using uint32 by (simp add: uint_to_uint32)
  then show ?case
    using uint32.dec_block[OF TrueI uint32(3)[unfolded b]] by (simp add: read_method_simps b)
next
  case (fixed32 n)
  then have b: "scalar_block ''fixed32'' (VInt n) = le32 (to_uint32 n)"
    by (simp add: scalar_block_def)
  have "uint (to_uint32 n) = n" using fixed32 by (simp add: uint_to_uint32)
  then show ?case
    using fixed32.dec_block[OF TrueI fixed32(3)[unfolded b]] by (simp add: read_method_simps b)
next
  case (int64 v b)
  then show ?case using int64.dec_block[OF TrueI, where v = b and rest = rest and r = r and has_Long = L] by (simp add: read_method_simps long_block)
next
  case (uint64 v b)
  then show ?case using uint64.dec_block[OF TrueI, where v = b and rest = rest and r = r and has_Long = L] by (simp add: read_method_simps long_block)
next
  case (sint64 v b)
  then show ?case using sint64.dec_block[OF TrueI, where v = b and rest = rest and r = r and has_Long = L] by (simp add: read_method_simps long_block)
next
  case (fixed64 v b)
  then show ?case using fixed64.dec_block[OF TrueI, where v = b and rest = rest and r = r and has_Long = L] by (simp add: read_method_simps long_block)
next
  case (sfixed64 v b)
  then show ?case using sfixed64.dec_block[OF TrueI, where v = b and rest = rest and r = r and has_Long = L] by (simp add: read_method_simps long_block)
qed (simp_all add: read_method_simps scalar_block_simps double.dec_block float.dec_block int32.dec_block
      sint32.dec_block sfixed32.dec_block sint_to_uint32 bool.dec_block string_block_read bytes_block_read)

lemma le_bytes_nonempty: "0 < k \<Longrightarrow> le_bytes k v \<noteq> []"
  by (simp add: le_bytes_def)

interpretation scalar: wire_codec
    "\<lambda>v w. case write_method type v w of Done w' \<Rightarrow> w' | _ \<Rightarrow> w" "read_method L type"
    "scalar_block type" "\<lambda>v. v" "scalar_ok L type" for L type
proof unfold_locales
  fix v assume ok: "scalar_ok L type v"
  then obtain g where "appends g (scalar_block type v)" "\<forall>w. write_method type v w = Done (g w)"
    using scalar_encodes[OF ok] unfolding encodes_def by blast
  then show "appends (\<lambda>w. case write_method type v w of Done w' \<Rightarrow> w' | _ \<Rightarrow> w) (scalar_block type v)"
    by simp
  show "scalar_block type v \<noteq> []"
    using ok by (induction rule: scalar_ok.induct)
      (simp_all add: scalar_block_simps long_block varint_nonempty le32_nonempty le_bytes_nonempty)
qed (rule scalar_reads)

section \<open>The wire format of a message\<close>

definition key_bytes :: "field \<Rightarrow> nat \<Rightarrow> byte list" where
  "key_bytes f wt = varint (8 * f_id f + wt)"

definition delimited :: "byte list \<Rightarrow> byte list" where
  "delimited bs = varint (length bs) @ bs"

type_synonym nested_bytes = "mtype \<Rightarrow> val option list \<Rightarrow> byte list"

text \<open>A value without its key: a basic value, or a nested message with its length in front.\<close>

definition value_block :: "schema \<Rightarrow> nested_bytes \<Rightarrow> field \<Rightarrow> val \<Rightarrow> byte list" where
  "value_block S rec f v =
     (case types_basic (codec_type f) of
        Some wt \<Rightarrow> scalar_block (codec_type f) v
      | None \<Rightarrow>
          (case f_resolvedType f of
             MessageType n \<Rightarrow>
               (case (S n, v) of (Some T, VMsg slots) \<Rightarrow> delimited (rec T slots) | _ \<Rightarrow> [])
           | _ \<Rightarrow> []))"

definition value_wt :: "field \<Rightarrow> nat" where
  "value_wt f = (case types_basic (codec_type f) of Some wt \<Rightarrow> wt | None \<Rightarrow> 2)"

definition entry_body :: "schema \<Rightarrow> nested_bytes \<Rightarrow> field \<Rightarrow> js_string \<times> val \<Rightarrow> byte list" where
  "entry_body S rec f kv =
     varint 10 @ delimited (utf8_enc (fst kv)) @ varint (16 + value_wt f) @ value_block S rec f (snd kv)"

definition field_bytes :: "schema \<Rightarrow> nested_bytes \<Rightarrow> field \<times> val option \<Rightarrow> byte list" where
  "field_bytes S rec fs =
     (let f = fst fs
      in case snd fs of
           None \<Rightarrow> []
         | Some v \<Rightarrow>
             if f_keyType f \<noteq> None then
               (case v of
                  VMap m \<Rightarrow> concat (map (\<lambda>kv. key_bytes f 2 @ delimited (entry_body S rec f kv)) m)
                | _ \<Rightarrow> [])
             else if f_repeated f then
               (case v of
                  VList vs \<Rightarrow>
                    if vs = [] then []
                    else if f_packed f \<and> types_packed (codec_type f) \<noteq> None
                    then key_bytes f 2 @ delimited (concat (map (scalar_block (codec_type f)) vs))
                    else concat (map (\<lambda>v. key_bytes f (value_wt f) @ value_block S rec f v) vs)
                | _ \<Rightarrow> [])
             else key_bytes f (value_wt f) @ value_block S rec f v)"

definition by_id :: "field list \<Rightarrow> val option list \<Rightarrow> (field \<times> val option) list" where
  "by_id fs slots = sort_key (\<lambda>(f, _). f_id f) (zip fs slots)"

primrec msg_bytes :: "nat \<Rightarrow> schema \<Rightarrow> mtype \<Rightarrow> val option list \<Rightarrow> byte list" where
  "msg_bytes 0 S T slots = []"
| "msg_bytes (Suc d) S T slots =
     concat (map (field_bytes S (msg_bytes d S)) (by_id (mt_fieldsArray T) slots))"

section \<open>Well-formed messages\<close>

text \<open>
  Every value has its field's type, a nested message is well-formed and shorter than
  \<open>2 ^ 32\<close> bytes, a map has string keys in the order of an object's properties.
\<close>

definition wf_value ::
  "bool \<Rightarrow> schema \<Rightarrow> (mtype \<Rightarrow> val option list \<Rightarrow> bool) \<Rightarrow> nested_bytes \<Rightarrow> field \<Rightarrow> val \<Rightarrow> bool" where
  "wf_value L S okm rec f v =
     (case types_basic (codec_type f) of
        Some wt \<Rightarrow> scalar_ok L (codec_type f) v
      | None \<Rightarrow>
          (case f_resolvedType f of
             MessageType n \<Rightarrow>
               (case (S n, v) of
                  (Some T, VMsg slots) \<Rightarrow> \<not> mt_group T \<and> okm T slots \<and> length (rec T slots) < 2 ^ 32
                | _ \<Rightarrow> False)
           | _ \<Rightarrow> False))"

definition map_ok :: "(js_string \<times> val) list \<Rightarrow> bool" where
  "map_ok m \<longleftrightarrow> foldl (\<lambda>m' (k, v). obj_set k v m') [] m = m"

definition wf_slot ::
  "bool \<Rightarrow> schema \<Rightarrow> (mtype \<Rightarrow> val option list \<Rightarrow> bool) \<Rightarrow> nested_bytes \<Rightarrow> field \<times> val option \<Rightarrow> bool" where
  "wf_slot L S okm rec fs =
     (let f = fst fs; slot = snd fs
      in if f_keyType f \<noteq> None then
           f_keyType f = Some ''string'' \<and>
           (case slot of
              Some (VMap m) \<Rightarrow>
                map_ok m \<and>
                (\<forall>kv \<in> set m. string_ok (fst kv) \<and> wf_value L S okm rec f (snd kv) \<and>
                   length (entry_body S rec f kv) < 2 ^ 32)
            | _ \<Rightarrow> False)
         else if f_repeated f then
           (case slot of
              Some (VList vs) \<Rightarrow>
                (\<forall>v \<in> set vs. wf_value L S okm rec f v) \<and>
                length (concat (map (scalar_block (codec_type f)) vs)) < 2 ^ 32
            | _ \<Rightarrow> False)
         else (case slot of None \<Rightarrow> \<not> f_required f | Some v \<Rightarrow> wf_value L S okm rec f v))"

definition wf_fields :: "mtype \<Rightarrow> bool" where
  "wf_fields T \<longleftrightarrow> distinct (map f_id (mt_fieldsArray T)) \<and>
     (\<forall>f \<in> set (mt_fieldsArray T). f_id f < 2 ^ 29 \<and> (f_repeated f \<or> f_keyType f \<noteq> None \<longrightarrow> \<not> f_required f))"

primrec wf_msg :: "nat \<Rightarrow> bool \<Rightarrow> schema \<Rightarrow> mtype \<Rightarrow> val option list \<Rightarrow> bool" where
  "wf_msg 0 L S T slots = False"
| "wf_msg (Suc d) L S T slots =
     (wf_fields T \<and> length slots = length (mt_fieldsArray T) \<and>
      (\<forall>fs \<in> set (zip (mt_fieldsArray T) slots). wf_slot L S (wf_msg d L S) (msg_bytes d S) fs))"

text \<open>The four kinds of fields.\<close>

lemma wf_slot_cases [consumes 1, case_names map list unset set]:
  assumes "wf_slot L S okm rec (f, slot)"
  obtains m where "f_keyType f = Some ''string''" "slot = Some (VMap m)" "map_ok m"
      "\<And>kv. kv \<in> set m \<Longrightarrow> string_ok (fst kv) \<and> wf_value L S okm rec f (snd kv) \<and>
         length (entry_body S rec f kv) < 2 ^ 32"
    | vs where "f_keyType f = None" "f_repeated f" "slot = Some (VList vs)"
      "\<And>v. v \<in> set vs \<Longrightarrow> wf_value L S okm rec f v"
      "length (concat (map (scalar_block (codec_type f)) vs)) < 2 ^ 32"
    | "f_keyType f = None" "\<not> f_repeated f" "slot = None" "\<not> f_required f"
    | v where "f_keyType f = None" "\<not> f_repeated f" "slot = Some v" "wf_value L S okm rec f v"
proof (cases "f_keyType f = None")
  case True
  show ?thesis
  proof (cases "f_repeated f")
    case False
    show ?thesis
    proof (cases slot)
      case None
      then show ?thesis using assms True False by (intro that(3)) (simp_all add: wf_slot_def)
    next
      case (Some v)
      then show ?thesis using assms True False by (intro that(4)) (simp_all add: wf_slot_def)
    qed
  next
    case rep: True
    then obtain vs where "slot = Some (VList vs)"
      using assms True by (cases slot; cases "the slot") (simp_all add: wf_slot_def)
    then show ?thesis using assms True rep by (intro that(2)) (auto simp: wf_slot_def)
  qed
next
  case False
  then obtain m where "slot = Some (VMap m)"
    using assms by (cases slot; cases "the slot") (simp_all add: wf_slot_def)
  then show ?thesis using assms False by (intro that(1)) (auto simp: wf_slot_def)
qed

section \<open>Encoding\<close>

lemma basic_wt: "types_basic t = Some wt \<Longrightarrow> wt < 8 \<and> wt \<noteq> 4"
  by (simp add: types_basic_def bake_def types_s_def upt_rec js_get_def split: if_splits)

lemma value_wt_lt: "value_wt f < 8"
  using basic_wt by (auto simp: value_wt_def split: option.splits)

lemma field_key_nat:
  assumes "f_id f < 2 ^ 29" and "wt < 8"
  shows "unat (to_uint32 (field_key f wt)) = 8 * f_id f + wt"
proof -
  have u: "unat (word_of_nat wt :: u32) = wt" "unat (word_of_nat (f_id f) :: u32) = f_id f"
    using assms by (simp_all add: unat_of_nat)
  have "unat (word_of_nat wt OR push_bit 3 (word_of_nat (f_id f)) :: u32) = wt + f_id f * 2 ^ 3"
    using assms u by (subst unat_or_push_bit) simp_all
  then have "unat (push_bit 3 (word_of_nat (f_id f)) OR word_of_nat wt :: u32) = 8 * f_id f + wt"
    by (simp only: or.commute) simp
  then show ?thesis by (simp only: field_key_def to_uint32_uint)
qed

lemma appends_key:
  "f_id f < 2 ^ 29 \<Longrightarrow> wt < 8 \<Longrightarrow> appends (write_uint32 (field_key f wt)) (key_bytes f wt)"
  using appends_uint32[of "field_key f wt"] by (simp add: field_key_nat key_bytes_def)

lemma packed_basic: "types_packed t \<noteq> None \<Longrightarrow> \<exists>wt. types_basic t = Some wt \<and> wt \<noteq> 2"
  by (simp add: types_basic_def types_packed_def bake_def types_s_def upt_rec js_get_def split: if_splits)

text \<open>
  The contract of the nested type's \<open>encode\<close>: a well-formed message is written as its bytes.
\<close>

locale nested_encoder =
  fixes S :: schema
    and L :: bool
    and rec :: "mtype \<Rightarrow> val option list \<Rightarrow> writer \<Rightarrow> writer outcome"
    and nbytes :: nested_bytes
    and okm :: "mtype \<Rightarrow> val option list \<Rightarrow> bool"
  assumes rec_encodes: "okm T slots \<Longrightarrow> encodes (rec T slots) (nbytes T slots)"
begin

lemma value_encodes:
  assumes "wf_value L S okm nbytes f v" and "f_id f < 2 ^ 29"
  shows "encodes (encode_value S rec f (Some v)) (key_bytes f (value_wt f) @ value_block S nbytes f v)"
proof (cases "types_basic (codec_type f)")
  case None
  then obtain n T slots where f: "f_resolvedType f = MessageType n" "S n = Some T" "v = VMsg slots"
      "\<not> mt_group T" "okm T slots" "length (nbytes T slots) < 2 ^ 32"
    using assms(1) by (auto simp: wf_value_def split: resolved.splits option.splits val.splits)
  have "encodes (\<lambda>w. bind_outcome (rec T slots (fork (write_uint32 (field_key f 2) w))) (\<lambda>w'. Done (ldelim w')))
      (key_bytes f 2 @ delimited (nbytes T slots))"
    unfolding delimited_def
    by (rule encodes_after[OF appends_key[OF assms(2)] encodes_delimited[OF rec_encodes[OF f(5)] f(6)]]) simp
  then show ?thesis
    using None f by (simp add: encode_value_def[abs_def] encode_nested_def value_wt_def value_block_def)
next
  case (Some wt)
  then have ok: "scalar_ok L (codec_type f) v" using assms(1) by (simp add: wf_value_def)
  have "encodes (\<lambda>w. write_method (codec_type f) v (write_uint32 (field_key f wt) w))
      (key_bytes f wt @ scalar_block (codec_type f) v)"
    using basic_wt[OF Some] assms(2) by (intro encodes_after appends_key scalar_encodes[OF ok]) auto
  then show ?thesis
    using Some by (simp add: encode_value_def[abs_def] value_wt_def value_block_def)
qed

lemma delimited_entry:
  assumes "encodes h bs" and "appends g cs" and "length (cs @ bs) < 2 ^ 32" and "f_id f < 2 ^ 29"
  shows "encodes (\<lambda>w. bind_outcome (h (g (fork (write_uint32 (field_key f 2) w)))) (\<lambda>w'. Done (ldelim w')))
    (key_bytes f 2 @ delimited (cs @ bs))"
  unfolding delimited_def
  using encodes_after[OF appends_key[OF assms(4), of 2]
      encodes_delimited[OF encodes_after[OF assms(2,1)] assms(3)]] by simp

lemma entry_encodes:
  assumes "f_keyType f = Some ''string''" and "string_ok (fst kv)" and "wf_value L S okm nbytes f (snd kv)"
    and "length (entry_body S nbytes f kv) < 2 ^ 32" and "f_id f < 2 ^ 29"
  shows "encodes (encode_entry S rec f kv) (key_bytes f 2 @ delimited (entry_body S nbytes f kv))"
proof -
  let ?g = "\<lambda>w. write_string (fst kv) (write_uint32 10 w)"
  let ?pre = "varint 10 @ delimited (utf8_enc (fst kv))"
  have mk: "the (types_mapKey ''string'') = 2" by code_simp
  have "unat (to_uint32 10) = 10" by (simp add: to_uint32_def)
  then have g: "appends ?g ?pre"
    using appends_comp[OF appends_uint32[of 10] text_codec.enc_block[OF assms(2)]]
    by (simp add: comp_def delimited_def)
  show ?thesis
  proof (cases "types_basic (codec_type f)")
    case None
    then obtain n T slots where f: "f_resolvedType f = MessageType n" "S n = Some T" "snd kv = VMsg slots"
        "okm T slots" "length (nbytes T slots) < 2 ^ 32"
      using assms(3) by (auto simp: wf_value_def split: resolved.splits option.splits val.splits)
    let ?h = "\<lambda>w. bind_outcome (rec T slots (fork (write_uint32 18 w))) (\<lambda>w'. Done (ldelim w'))"
    have "unat (to_uint32 18) = 18" by (simp add: to_uint32_def)
    then have h: "encodes ?h (varint 18 @ delimited (nbytes T slots))"
      unfolding delimited_def
      using encodes_after[OF appends_uint32[of 18] encodes_delimited[OF rec_encodes[OF f(4)] f(5)]] by simp
    have body: "entry_body S nbytes f kv = ?pre @ varint 18 @ delimited (nbytes T slots)"
      using None f by (simp add: entry_body_def value_wt_def value_block_def)
    have b2: "bind_outcome (bind_outcome p (\<lambda>w'. Done (ldelim w'))) (\<lambda>w'. Done (ldelim w')) =
        bind_outcome p (\<lambda>w'. Done (ldelim (ldelim w')))" for p by (cases p) simp_all
    show ?thesis
      using delimited_entry[OF h g, of f] assms(1,4,5) None f mk
      by (simp add: body encode_entry_def[abs_def] Let_def b2)
  next
    case (Some wt)
    let ?h = "\<lambda>w. write_method (codec_type f) (snd kv) (write_uint32 (int (16 + wt)) w)"
    have ok: "scalar_ok L (codec_type f) (snd kv)" using Some assms(3) by (simp add: wf_value_def)
    have "unat (to_uint32 (int (16 + wt))) = 16 + wt"
      using basic_wt[OF Some] by (subst to_uint32_nat) simp_all
    then have h: "encodes ?h (varint (16 + wt) @ scalar_block (codec_type f) (snd kv))"
      using encodes_after[OF appends_uint32[of "int (16 + wt)"] scalar_encodes[OF ok]]
      by (simp del: of_nat_add)
    have body: "entry_body S nbytes f kv = ?pre @ varint (16 + wt) @ scalar_block (codec_type f) (snd kv)"
      using Some by (simp add: entry_body_def value_wt_def value_block_def)
    show ?thesis
      using delimited_entry[OF h g, of f] assms(1,4,5) Some mk
      by (simp add: body encode_entry_def[abs_def] Let_def)
  qed
qed

lemma field_encodes:
  assumes "wf_slot L S okm nbytes fs" and "f_id (fst fs) < 2 ^ 29"
  shows "encodes (encode_field S rec fs) (field_bytes S nbytes fs)"
proof -
  obtain f slot where fs: "fs = (f, slot)" by force
  note id = assms(2)[unfolded fs fst_conv]
  from assms(1)[unfolded fs] show ?thesis
  proof (cases rule: wf_slot_cases)
    case (map m)
    have "encodes (fold_outcome (encode_entry S rec f) m)
        (concat (map (\<lambda>kv. key_bytes f 2 @ delimited (entry_body S nbytes f kv)) m))"
      using map(1,4) id by (intro encodes_fold entry_encodes) auto
    then show ?thesis using map by (simp add: fs encode_field_def[abs_def] field_bytes_def)
  next
    case (list vs)
    show ?thesis
    proof (cases "vs = []")
      case True
      then show ?thesis
        using list encodes_nothing by (simp add: fs encode_field_def[abs_def] field_bytes_def eta_contract_eq)
    next
      case False
      show ?thesis
      proof (cases "f_packed f \<and> types_packed (codec_type f) \<noteq> None")
        case True
        then obtain wt where "types_basic (codec_type f) = Some wt" using packed_basic by blast
        then have ok: "scalar_ok L (codec_type f) v" if "v \<in> set vs" for v
          using list(4) that by (auto simp: wf_value_def)
        have "encodes (\<lambda>w. bind_outcome (fold_outcome (write_method (codec_type f)) vs
              (fork (write_uint32 (field_key f 2) w))) (\<lambda>w'. Done (ldelim w')))
            (key_bytes f 2 @ delimited (concat (map (scalar_block (codec_type f)) vs)))"
          unfolding delimited_def using id list(5)
          by (intro encodes_after[OF appends_key encodes_delimited[OF encodes_fold]] scalar_encodes[OF ok]) auto
        then show ?thesis
          using list False True by (simp add: fs encode_field_def[abs_def] field_bytes_def)
      next
        case np: False
        have "encodes (fold_outcome (\<lambda>v. encode_value S rec f (Some v)) vs)
            (concat (map (\<lambda>v. key_bytes f (value_wt f) @ value_block S nbytes f v) vs))"
          using list(4) id by (intro encodes_fold value_encodes) auto
        then show ?thesis
          using list False np
          by (cases "types_packed (codec_type f)") (simp_all add: fs encode_field_def[abs_def] field_bytes_def)
      qed
    qed
  next
    case unset
    then show ?thesis
      using encodes_nothing by (simp add: fs encode_field_def[abs_def] field_bytes_def)
  next
    case (set v)
    then show ?thesis
      using value_encodes[OF set(4) id] by (simp add: fs encode_field_def[abs_def] field_bytes_def)
  qed
qed

end

lemma encodes_eta: "encodes (\<lambda>w. h w) bs \<Longrightarrow> encodes h bs"
  by simp

lemma set_by_id: "set (by_id fs slots) = set (zip fs slots)"
  by (simp add: by_id_def)

lemma encode_msg_bytes: "wf_msg d L S T slots \<Longrightarrow> encodes (encode d S T slots) (msg_bytes d S T slots)"
proof (induction d arbitrary: T slots)
  case (Suc d)
  have "nested_encoder (encode d S) (msg_bytes d S) (wf_msg d L S)"
    by unfold_locales (rule Suc.IH)
  note field = nested_encoder.field_encodes[OF this]
  have "encodes (encode_field S (encode d S) fs) (field_bytes S (msg_bytes d S) fs)"
    if "fs \<in> set (by_id (mt_fieldsArray T) slots)" for fs
  proof (rule field)
    have z: "fs \<in> set (zip (mt_fieldsArray T) slots)" using that by (simp add: set_by_id)
    then show "wf_slot L S (wf_msg d L S) (msg_bytes d S) fs" using Suc.prems by simp
    have "fst fs \<in> set (mt_fieldsArray T)" using z by (metis in_set_zipE prod.collapse)
    then show "f_id (fst fs) < 2 ^ 29" using Suc.prems by (simp add: wf_fields_def)
  qed
  then have "encodes (fold_outcome (encode_field S (encode d S)) (by_id (mt_fieldsArray T) slots))
      (msg_bytes (Suc d) S T slots)"
    unfolding msg_bytes.simps by (rule encodes_fold)
  moreover have "encode (Suc d) S T slots =
      fold_outcome (encode_field S (encode d S)) (by_id (mt_fieldsArray T) slots)"
    by (simp add: fun_eq_iff by_id_def)
  ultimately show ?case by simp
qed simp

interpretation encoder: nested_encoder S L "encode d S" "msg_bytes d S" "wf_msg d L S" for S L d
  by unfold_locales (rule encode_msg_bytes)

section \<open>Decoding\<close>

lemma find_field_nth:
  "distinct (map f_id fs) \<Longrightarrow> i < length fs \<Longrightarrow> find_field fs k (f_id (fs ! i)) = Some (k + i)"
proof (induction fs arbitrary: k i)
  case (Cons f fs)
  show ?case
  proof (cases i)
    case (Suc j)
    then have "f_id (fs ! j) \<in> set (map f_id fs)" using Cons.prems(2) by simp
    then have "f_id f \<noteq> f_id (fs ! j)" using Cons.prems(1) by auto
    then show ?thesis using Cons Suc by simp
  qed simp
qed simp

lemma bind_dec_Inr [simp]: "bind_dec (Some (Inr v, r)) f = f v r"
  by (simp add: bind_dec_def)

text \<open>One turn of the loop, on the key of a field the type has.\<close>

lemma decode_loop_turn:
  assumes a: "ahead r (key_bytes (mt_fieldsArray T ! i) wt @ rest)" and "r_pos r < c"
    and "distinct (map f_id (mt_fieldsArray T))" "i < length (mt_fieldsArray T)"
    and "f_id (mt_fieldsArray T ! i) < 2 ^ 29" "wt < 8" "\<not> mt_group T"
    and f: "decode_field L S rec (mt_fieldsArray T ! i) (word_of_nat wt) (m ! i)
        (advance (length (key_bytes (mt_fieldsArray T ! i) wt)) r) = Some (Inr v, r')"
  shows "decode_loop L S rec T (Suc n) c m r = decode_loop L S rec T n c (m[i := Some v]) r'"
proof -
  let ?f = "mt_fieldsArray T ! i"
  let ?t = "word_of_nat (8 * f_id ?f + wt) :: u32"
  have k: "read_uint32 r = (Inr ?t, advance (length (key_bytes ?f wt)) r)"
    using read_key[OF a[unfolded key_bytes_def] assms(5,6)] by (simp add: key_bytes_def)
  have "8 * f_id ?f + wt < 2 ^ 32" using assms(5,6) by simp
  then have u: "unat ?t = 8 * f_id ?f + wt" by (simp add: unat_of_nat del: of_nat_add of_nat_mult)
  have "unat (drop_bit 3 ?t) = f_id ?f" using u assms(6) by (simp add: unat_drop_bit)
  then have "find_field (mt_fieldsArray T) 0 (unat (drop_bit 3 ?t)) = Some i"
    using find_field_nth[OF assms(3,4), of 0] by simp
  moreover have "?t AND 7 = word_of_nat wt" using assms(5,6) by (rule key_type)
  ultimately show ?thesis
    using k assms(2,7) f by (simp del: of_nat_add of_nat_mult)
qed

text \<open>The contract of the nested type's \<open>decode\<close>: the bytes of a well-formed message are read back.\<close>

locale nested_roundtrip =
  fixes S :: schema
    and L :: bool
    and rec :: "mtype \<Rightarrow> nat option \<Rightarrow> reader \<Rightarrow> val option list dec"
    and nbytes :: nested_bytes
    and okm :: "mtype \<Rightarrow> val option list \<Rightarrow> bool"
  assumes rec_decodes: "okm T slots \<Longrightarrow> ahead r (nbytes T slots @ rest) \<Longrightarrow>
    rec T (Some (length (nbytes T slots))) r = Some (Inr slots, advance (length (nbytes T slots)) r)"
begin

lemma value_decodes:
  assumes "wf_value L S okm nbytes f v" and a: "ahead r (value_block S nbytes f v @ rest)"
  shows "decode_value L S rec g f r = Some (Inr v, advance (length (value_block S nbytes f v)) r)"
proof (cases "types_basic (codec_type f)")
  case None
  then obtain n T slots where f: "f_resolvedType f = MessageType n" "S n = Some T" "v = VMsg slots"
      "\<not> mt_group T" "okm T slots" "length (nbytes T slots) < 2 ^ 32"
    using assms(1) by (auto simp: wf_value_def split: resolved.splits option.splits val.splits)
  let ?n = "varint (length (nbytes T slots))"
  have b: "value_block S nbytes f v = ?n @ nbytes T slots"
    using None f by (simp add: value_block_def delimited_def)
  have a1: "ahead r (?n @ nbytes T slots @ rest)" using a by (simp add: b)
  have u: "read_uint32 r = (Inr (word_of_nat (length (nbytes T slots))), advance (length ?n) r)"
    using read_uint32_varint[OF a1 f(6)] by (simp add: length_varint)
  have "unat (word_of_nat (length (nbytes T slots)) :: u32) = length (nbytes T slots)"
    using f(6) by (simp add: unat_of_nat)
  then show ?thesis
    using None f u rec_decodes[OF f(5) ahead_advance[OF a1 refl]]
    by (simp add: decode_value_def decode_nested_def b[unfolded f(3)])
next
  case (Some wt)
  then have ok: "scalar_ok L (codec_type f) v" using assms(1) by (simp add: wf_value_def)
  have b: "value_block S nbytes f v = scalar_block (codec_type f) v"
    using Some by (simp add: value_block_def)
  show ?thesis
    using scalar_reads[OF ok a[unfolded b]] Some by (simp add: decode_value_def b)
qed

lemma entry_decodes:
  assumes "f_keyType f = Some ''string''" and "string_ok (fst kv)" and "wf_value L S okm nbytes f (snd kv)"
    and a: "ahead r (delimited (entry_body S nbytes f kv) @ rest)"
  shows "decode_field L S rec f wt slot r =
    Some (Inr (VMap (obj_set (fst kv) (snd kv) (map_of_slot slot))),
          advance (length (delimited (entry_body S nbytes f kv))) r)"
proof -
  let ?b = "entry_body S nbytes f kv"
  let ?k = "delimited (utf8_enc (fst kv))"
  let ?v = "value_block S nbytes f (snd kv)"
  have one: "varint 10 = [10]" "varint (16 + value_wt f) = [word_of_nat (16 + value_wt f)]"
    using value_wt_lt[of f] by (simp_all add: varint_small)
  have "ahead r (varint (length ?b) @ [10] @ ?k @ [word_of_nat (16 + value_wt f)] @ ?v @ rest)"
    using a by (simp add: delimited_def entry_body_def one)
  note a0 = this
  note a1 = ahead_advance[OF a0 refl]
  note a2 = ahead_advance[OF a1 refl]
  note a3 = ahead_advance[OF a2 refl]
  note a4 = ahead_advance[OF a3 refl]
  have s: "read_string (advance (length [10 :: byte]) (advance (length (varint (length ?b))) r)) =
      (Inr (fst kv), advance (length ?k) (advance (length [10 :: byte]) (advance (length (varint (length ?b))) r)))"
    using text_codec.dec_block[OF assms(2) a2[unfolded delimited_def]] by (simp add: delimited_def)
  have v: "decode_value L S rec False f (advance 1 (advance (length ?k) (advance (length [10 :: byte])
        (advance (length (varint (length ?b))) r)))) = Some (Inr (snd kv), advance (length ?v)
        (advance 1 (advance (length ?k) (advance (length [10 :: byte]) (advance (length (varint (length ?b))) r)))))"
    using value_decodes[OF assms(3) a4] by simp
  have l: "length (delimited ?b) = length (varint (length ?b)) + (1 + (length ?k + (1 + length ?v)))"
    by (simp add: delimited_def entry_body_def one)
  show ?thesis
    using assms(1) skip_varint_varint[OF a0] s v l
    by (simp add: decode_field_def read_method_simps prop_name_def map_read_def add.assoc)
qed

end

context nested_roundtrip
begin

text \<open>
  The bytes of one field bring its property from what the constructor set to its value. The
  loop has spent at most one turn for each byte.
\<close>

definition consumes :: "mtype \<Rightarrow> nat \<Rightarrow> val option list \<Rightarrow> reader \<Rightarrow> byte list \<Rightarrow> val option list \<Rightarrow> bool" where
  "consumes T c m r bs m' \<longleftrightarrow>
     (\<exists>k \<le> length bs. \<forall>n. decode_loop L S rec T (n + k) c m r = decode_loop L S rec T n c m' (advance (length bs) r))"

lemma consumes_nothing: "consumes T c m r [] m"
  by (simp add: consumes_def)

lemma consumes_append:
  assumes "consumes T c m r bs m'" and "consumes T c m' (advance (length bs) r) cs m''"
  shows "consumes T c m r (bs @ cs) m''"
proof -
  obtain k j where k: "k \<le> length bs" "\<forall>n. decode_loop L S rec T (n + k) c m r =
      decode_loop L S rec T n c m' (advance (length bs) r)"
    and j: "j \<le> length cs" "\<forall>n. decode_loop L S rec T (n + j) c m' (advance (length bs) r) =
      decode_loop L S rec T n c m'' (advance (length cs) (advance (length bs) r))"
    using assms by (auto simp: consumes_def)
  have "decode_loop L S rec T (n + (j + k)) c m r = decode_loop L S rec T n c m'' (advance (length (bs @ cs)) r)" for n
    using k(2)[rule_format, of "n + j"] j(2)[rule_format, of n] by (simp add: add.assoc)
  moreover have "j + k \<le> length (bs @ cs)" using k j by simp
  ultimately show ?thesis unfolding consumes_def by blast
qed

lemma consumes_element:
  assumes a: "ahead r ((key_bytes (mt_fieldsArray T ! i) wt @ body) @ rest)" and "r_pos r < c"
    and T: "wf_fields T" "\<not> mt_group T" and i: "i < length (mt_fieldsArray T)" and "wt < 8"
    and f: "\<And>r. ahead r (body @ rest) \<Longrightarrow>
      decode_field L S rec (mt_fieldsArray T ! i) (word_of_nat wt) (m ! i) r = Some (Inr v, advance (length body) r)"
  shows "consumes T c m r (key_bytes (mt_fieldsArray T ! i) wt @ body) (m[i := Some v])"
proof -
  let ?k = "key_bytes (mt_fieldsArray T ! i) wt"
  have a1: "ahead r (?k @ body @ rest)" using a by simp
  have "mt_fieldsArray T ! i \<in> set (mt_fieldsArray T)" using i by simp
  then have id: "f_id (mt_fieldsArray T ! i) < 2 ^ 29" "distinct (map f_id (mt_fieldsArray T))"
    using T(1) by (auto simp: wf_fields_def)
  have "decode_loop L S rec T (Suc n) c m r =
      decode_loop L S rec T n c (m[i := Some v]) (advance (length body) (advance (length ?k) r))" for n
    by (rule decode_loop_turn[OF a1 assms(2) id(2) i id(1) assms(6) T(2) f[OF ahead_advance[OF a1 refl]]])
  moreover have "1 \<le> length (?k @ body)"
    using varint_size_pos by (simp add: key_bytes_def length_varint) (metis Suc_leI trans_le_add1)
  ultimately show ?thesis unfolding consumes_def by (intro exI[of _ 1]) simp
qed

text \<open>A sequence of elements of the same field.\<close>

lemma consumes_elements:
  assumes T: "wf_fields T" "\<not> mt_group T" and i: "i < length (mt_fieldsArray T)" and "wt < 8"
    and f: "\<And>x r slot rest. x \<in> set xs \<Longrightarrow> ahead r (body x @ rest) \<Longrightarrow>
      decode_field L S rec (mt_fieldsArray T ! i) (word_of_nat wt) slot r =
      Some (Inr (upd x slot), advance (length (body x)) r)"
  shows "ahead r (concat (map (\<lambda>x. key_bytes (mt_fieldsArray T ! i) wt @ body x) xs) @ rest) \<Longrightarrow>
    r_pos r + length (concat (map (\<lambda>x. key_bytes (mt_fieldsArray T ! i) wt @ body x) xs)) \<le> c \<Longrightarrow>
    i < length m \<Longrightarrow>
    consumes T c m r (concat (map (\<lambda>x. key_bytes (mt_fieldsArray T ! i) wt @ body x) xs))
      (m[i := fold (\<lambda>x slot. Some (upd x slot)) xs (m ! i)])"
  using f
proof (induction xs arbitrary: m r)
  case Nil
  then show ?case using consumes_nothing by simp
next
  case (Cons x xs)
  let ?k = "key_bytes (mt_fieldsArray T ! i) wt"
  let ?es = "concat (map (\<lambda>x. ?k @ body x) xs)"
  have ne: "0 < length ?k" using varint_size_pos by (simp add: key_bytes_def length_varint)
  have a: "ahead r ((?k @ body x) @ ?es @ rest)" using Cons.prems(1) by simp
  have lt: "r_pos r < c" using Cons.prems(2) ne by (simp del: length_greater_0_conv)
  have "consumes T c m r (?k @ body x) (m[i := Some (upd x (m ! i))])"
    using lt by (intro consumes_element[OF a _ T i \<open>wt < 8\<close>] Cons.prems(4)) auto
  moreover have "consumes T c (m[i := Some (upd x (m ! i))]) (advance (length (?k @ body x)) r) ?es
      ((m[i := Some (upd x (m ! i))])[i := fold (\<lambda>x slot. Some (upd x slot)) xs (m[i := Some (upd x (m ! i))] ! i)])"
    using Cons.prems ahead_advance[OF a refl] by (intro Cons.IH) auto
  ultimately show ?case
    using consumes_append Cons.prems(3) by fastforce
qed

end

context nested_roundtrip
begin

lemma fold_set: "fold (\<lambda>(k, v) slot. Some (VMap (obj_set k v (map_of_slot slot)))) m (Some (VMap m0)) =
    Some (VMap (foldl (\<lambda>m' (k, v). obj_set k v m') m0 m))"
  by (induction m arbitrary: m0) (auto simp: map_of_slot_def)

lemma fold_push: "fold (\<lambda>v slot. Some (VList (list_of_slot slot @ [v]))) vs (Some (VList us)) = Some (VList (us @ vs))"
  by (induction vs arbitrary: us) (auto simp: list_of_slot_def)

lemma word_of_wt: "types_basic t = Some wt \<Longrightarrow> types_packed t \<noteq> None \<Longrightarrow> (word_of_nat wt :: u32) \<noteq> 2"
  using packed_basic[of t] basic_wt[of t wt]
  by (auto simp: word_unat_eq_iff unat_of_nat)

lemma packed_decodes:
  assumes "f_keyType f = None" "f_repeated f" "types_packed (codec_type f) \<noteq> None"
    and ok: "\<And>v. v \<in> set vs \<Longrightarrow> scalar_ok L (codec_type f) v"
    and len: "length (concat (map (scalar_block (codec_type f)) vs)) < 2 ^ 32"
    and a: "ahead r (delimited (concat (map (scalar_block (codec_type f)) vs)) @ rest)"
  shows "decode_field L S rec f 2 (Some (VList [])) r =
    Some (Inr (VList vs), advance (length (delimited (concat (map (scalar_block (codec_type f)) vs)))) r)"
proof -
  let ?bs = "concat (map (scalar_block (codec_type f)) vs)"
  have a0: "ahead r (varint (length ?bs) @ ?bs @ rest)" using a by (simp add: delimited_def)
  let ?r = "advance (length (varint (length ?bs))) r"
  have a1: "ahead ?r (?bs @ rest)" using ahead_advance[OF a0 refl] .
  have u: "read_uint32 r = (Inr (word_of_nat (length ?bs)), ?r)"
    using read_uint32_varint[OF a0 len] by (simp add: length_varint)
  have n: "unat (word_of_nat (length ?bs) :: u32) = length ?bs" using len by (simp add: unat_of_nat)
  have le: "length ?bs \<le> r_len ?r - r_pos ?r + 1" using ahead_len[OF a1] by simp
  have "list_all (scalar_ok L (codec_type f)) vs" using ok by (simp add: list_all_iff)
  note scalar.packed_loop_blocks[OF this a1 add.commute le, of "[]"]
  then have "packed_loop (read_method L (codec_type f)) (r_len ?r - r_pos ?r + 1) (length ?bs + r_pos ?r) [] ?r =
      Some (Inr vs, advance (length ?bs) ?r)"
    by (simp only: append_Nil list.map_ident)
  then show ?thesis
    using assms(1-3) u n
    by (simp add: decode_field_def list_of_slot_def delimited_def del: packed_loop.simps)
qed

text \<open>The property of a field before and after its bytes.\<close>

lemma field_consumes:
  assumes T: "wf_fields T" "\<not> mt_group T" and i: "i < length (mt_fieldsArray T)"
    and slot: "wf_slot L S okm nbytes (mt_fieldsArray T ! i, slot)"
    and m: "i < length m" "m ! i = ctor_slots T ! i"
    and a: "ahead r (field_bytes S nbytes (mt_fieldsArray T ! i, slot) @ rest)"
    and c: "r_pos r + length (field_bytes S nbytes (mt_fieldsArray T ! i, slot)) \<le> c"
  shows "consumes T c m r (field_bytes S nbytes (mt_fieldsArray T ! i, slot)) (m[i := slot])"
  using slot
proof (cases rule: wf_slot_cases)
  case (map mp)
  let ?f = "mt_fieldsArray T ! i"
  have e: "field_bytes S nbytes (?f, slot) =
      concat (map (\<lambda>kv. key_bytes ?f 2 @ delimited (entry_body S nbytes ?f kv)) mp)"
    using map by (simp add: field_bytes_def Let_def)
  have "m ! i = Some (VMap [])" using m(2) i map(1) by (simp add: ctor_slots_def)
  then have "fold (\<lambda>kv slot. Some (VMap (obj_set (fst kv) (snd kv) (map_of_slot slot)))) mp (m ! i) = slot"
    using fold_set[of mp "[]"] map(2,3) by (simp add: map_ok_def case_prod_unfold)
  moreover have "consumes T c m r (concat (map (\<lambda>kv. key_bytes ?f 2 @ delimited (entry_body S nbytes ?f kv)) mp))
      (m[i := fold (\<lambda>kv slot. Some (VMap (obj_set (fst kv) (snd kv) (map_of_slot slot)))) mp (m ! i)])"
    using map(1,4) a c m(1) unfolding e
    by (intro consumes_elements[OF T i, where rest = rest] entry_decodes) auto
  ultimately show ?thesis by (simp add: e)
next
  case (list vs)
  let ?f = "mt_fieldsArray T ! i"
  have mi: "m ! i = Some (VList [])" using m(2) i list(1,2) by (simp add: ctor_slots_def)
  show ?thesis
  proof (cases "f_packed ?f \<and> types_packed (codec_type ?f) \<noteq> None \<and> vs \<noteq> []")
    case True
    then obtain wt where "types_basic (codec_type ?f) = Some wt" using packed_basic by blast
    then have ok: "scalar_ok L (codec_type ?f) v" if "v \<in> set vs" for v
      using list(4)[OF that] by (simp add: wf_value_def)
    have e: "field_bytes S nbytes (?f, slot) =
        key_bytes ?f 2 @ delimited (concat (map (scalar_block (codec_type ?f)) vs))"
      using list True by (auto simp: field_bytes_def Let_def)
    have "0 < length (key_bytes ?f 2)" using varint_size_pos by (simp add: key_bytes_def length_varint)
    then have "r_pos r < c" using c unfolding e by (simp del: length_greater_0_conv)
    then have "consumes T c m r (field_bytes S nbytes (?f, slot)) (m[i := Some (VList vs)])"
      using a list(1,2,5) True mi packed_decodes[OF list(1,2) _ ok list(5)] unfolding e
      by (intro consumes_element[OF _ _ T i, where rest = rest]) auto
    then show ?thesis using list(3) by simp
  next
    case False
    have e: "field_bytes S nbytes (?f, slot) =
        concat (map (\<lambda>v. key_bytes ?f (value_wt ?f) @ value_block S nbytes ?f v) vs)"
      using list False by (auto simp: field_bytes_def Let_def)
    have np: "types_packed (codec_type ?f) = None \<or> (word_of_nat (value_wt ?f) :: u32) \<noteq> 2"
      using word_of_wt packed_basic[of "codec_type ?f"] by (fastforce simp: value_wt_def)
    have "fold (\<lambda>v slot. Some (VList (list_of_slot slot @ [v]))) vs (m ! i) = slot"
      using fold_push[of vs "[]"] mi list(3) by simp
    moreover have "consumes T c m r (concat (map (\<lambda>v. key_bytes ?f (value_wt ?f) @ value_block S nbytes ?f v) vs))
        (m[i := fold (\<lambda>v slot. Some (VList (list_of_slot slot @ [v]))) vs (m ! i)])"
    proof (rule consumes_elements[OF T i value_wt_lt])
      fix v r slot rest
      assume v: "v \<in> set vs" and a: "ahead r (value_block S nbytes ?f v @ rest)"
      show "decode_field L S rec ?f (word_of_nat (value_wt ?f)) slot r =
          Some (Inr (VList (list_of_slot slot @ [v])), advance (length (value_block S nbytes ?f v)) r)"
        using value_decodes[OF list(4)[OF v] a] list(1,2) np by (auto simp: decode_field_def)
    qed (use a c m(1) e in auto)
    ultimately show ?thesis by (simp add: e)
  qed
next
  case unset
  then have "field_bytes S nbytes (mt_fieldsArray T ! i, slot) = []" "m[i := slot] = m"
    using m i by (auto simp: field_bytes_def Let_def ctor_slots_def intro: list_update_same_conv[THEN iffD2])
  then show ?thesis using consumes_nothing by simp
next
  case (set v)
  let ?f = "mt_fieldsArray T ! i"
  have e: "field_bytes S nbytes (?f, slot) = key_bytes ?f (value_wt ?f) @ value_block S nbytes ?f v"
    using set by (simp add: field_bytes_def Let_def)
  have "0 < length (key_bytes ?f (value_wt ?f))"
    using varint_size_pos by (simp add: key_bytes_def length_varint)
  then have "r_pos r < c" using c unfolding e by (simp del: length_greater_0_conv)
  then have "consumes T c m r (field_bytes S nbytes (?f, slot)) (m[i := Some v])"
    using a set value_decodes[OF set(4)] value_wt_lt unfolding e
    by (intro consumes_element[OF _ _ T i, where rest = rest]) (auto simp: decode_field_def)
  then show ?thesis using set(3) by simp
qed

end

context nested_roundtrip
begin

text \<open>The fields in any order, each index once.\<close>

lemma fields_consume:
  assumes T: "wf_fields T" "\<not> mt_group T"
    and slots: "\<And>i. i < length (mt_fieldsArray T) \<Longrightarrow> wf_slot L S okm nbytes (mt_fieldsArray T ! i, slots ! i)"
  shows "distinct is \<Longrightarrow> (\<And>i. i \<in> set is \<Longrightarrow> i < length (mt_fieldsArray T) \<and> m ! i = ctor_slots T ! i) \<Longrightarrow>
    length m = length (mt_fieldsArray T) \<Longrightarrow>
    ahead r (concat (map (\<lambda>i. field_bytes S nbytes (mt_fieldsArray T ! i, slots ! i)) is) @ rest) \<Longrightarrow>
    r_pos r + length (concat (map (\<lambda>i. field_bytes S nbytes (mt_fieldsArray T ! i, slots ! i)) is)) \<le> c \<Longrightarrow>
    consumes T c m r (concat (map (\<lambda>i. field_bytes S nbytes (mt_fieldsArray T ! i, slots ! i)) is))
      (fold (\<lambda>i m. m[i := slots ! i]) is m)"
proof (induction "is" arbitrary: m r)
  case Nil
  then show ?case using consumes_nothing by simp
next
  case (Cons i js)
  let ?b = "\<lambda>i. field_bytes S nbytes (mt_fieldsArray T ! i, slots ! i)"
  have i: "i < length (mt_fieldsArray T)" "m ! i = ctor_slots T ! i" "i < length m"
    using Cons.prems(2)[of i] Cons.prems(3) by simp_all
  have a: "ahead r (?b i @ concat (map ?b js) @ rest)" using Cons.prems(4) by simp
  have "consumes T c m r (?b i) (m[i := slots ! i])"
    using Cons.prems(5) by (intro field_consumes[OF T i(1) slots[OF i(1)] i(3,2) a]) simp
  moreover have "consumes T c (m[i := slots ! i]) (advance (length (?b i)) r) (concat (map ?b js))
      (fold (\<lambda>i m. m[i := slots ! i]) js (m[i := slots ! i]))"
  proof (rule Cons.IH)
    fix j assume j: "j \<in> set js"
    then have "j \<noteq> i" using Cons.prems(1) by auto
    then show "j < length (mt_fieldsArray T) \<and> m[i := slots ! i] ! j = ctor_slots T ! j"
      using Cons.prems(2)[of j] j by simp
  qed (use Cons.prems ahead_advance[OF a refl] in auto)
  ultimately show ?case using consumes_append by simp
qed

end

lemma insort_key_map: "insort_key f (g x) (map g xs) = map g (insort_key (f \<circ> g) x xs)"
  by (induction xs) auto

lemma sort_key_map: "sort_key f (map g xs) = map g (sort_key (f \<circ> g) xs)"
  by (induction xs) (simp_all add: insort_key_map comp_def)

lemma by_id_indices:
  assumes "length slots = length fs"
  shows "by_id fs slots = map (\<lambda>i. (fs ! i, slots ! i)) (sort_key (\<lambda>i. f_id (fs ! i)) [0..<length fs])"
proof -
  have "zip fs slots = map (\<lambda>i. (fs ! i, slots ! i)) [0..<length fs]"
    using assms by (intro nth_equalityI) simp_all
  then show ?thesis by (simp add: by_id_def sort_key_map comp_def)
qed

lemma fold_update_nth:
  "distinct is \<Longrightarrow> j < length m \<Longrightarrow>
   fold (\<lambda>i m. m[i := xs ! i]) is m ! j = (if j \<in> set is then xs ! j else m ! j)"
  by (induction "is" arbitrary: m) (auto simp: nth_list_update)

lemma fold_update_length: "length (fold (\<lambda>i m. m[i := xs ! i]) is m) = length m"
  by (induction "is" arbitrary: m) auto

lemma missing_required_None:
  "(\<And>f slot. (f, slot) \<in> set ps \<Longrightarrow> f_required f \<Longrightarrow> slot \<noteq> None) \<Longrightarrow> missing_required ps = None"
  by (induction ps rule: missing_required.induct) auto

text \<open>A whole message, up to the given end.\<close>

lemma decode_msg_bytes:
  "wf_msg d L S T slots \<Longrightarrow> \<not> mt_group T \<Longrightarrow> ahead r (msg_bytes d S T slots @ rest) \<Longrightarrow>
   l = Some (length (msg_bytes d S T slots)) \<or> l = None \<and> rest = [] \<Longrightarrow>
   decode d L S T l r = Some (Inr slots, advance (length (msg_bytes d S T slots)) r)"
proof (induction d arbitrary: T slots r rest l)
  case (Suc d)
  let ?okm = "\<lambda>T slots. wf_msg d L S T slots \<and> \<not> mt_group T"
  let ?fs = "mt_fieldsArray T"
  let ?bs = "msg_bytes (Suc d) S T slots"
  have rt: "nested_roundtrip (decode d L S) (msg_bytes d S) ?okm"
    by unfold_locales (rule Suc.IH, auto)
  define js where "js = sort_key (\<lambda>i. f_id (?fs ! i)) [0..<length ?fs]"
  have js: "distinct js" "set js = {0..<length ?fs}" by (simp_all add: js_def)
  have T: "wf_fields T" "length slots = length ?fs" using Suc.prems(1) by simp_all
  have sl: "wf_slot L S (wf_msg d L S) (msg_bytes d S) (?fs ! i, slots ! i)" if "i < length ?fs" for i
    using Suc.prems(1) that T(2) by (auto simp: in_set_zip)
  have wfv: "wf_value L S ?okm (msg_bytes d S) = wf_value L S (wf_msg d L S) (msg_bytes d S)"
    by (intro ext) (auto simp: wf_value_def split: option.splits resolved.splits val.splits)
  have sl': "wf_slot L S ?okm (msg_bytes d S) (?fs ! i, slots ! i)" if "i < length ?fs" for i
    using sl[OF that] by (simp only: wf_slot_def wfv)
  have e: "?bs = concat (map (\<lambda>i. field_bytes S (msg_bytes d S) (?fs ! i, slots ! i)) js)"
    by (simp add: by_id_indices[OF T(2)] js_def comp_def)
  let ?c = "case l of None \<Rightarrow> r_len r | Some n \<Rightarrow> r_pos r + n"
  have c: "?c = r_pos r + length ?bs"
    using Suc.prems(4) ahead_len[OF Suc.prems(3)] by auto
  have con: "nested_roundtrip.consumes S L (decode d L S) T ?c (ctor_slots T) r ?bs
      (fold (\<lambda>i m. m[i := slots ! i]) js (ctor_slots T))"
    unfolding e
    by (rule nested_roundtrip.fields_consume[OF rt T(1) Suc.prems(2) sl' js(1)])
       (use js(2) Suc.prems(3) c e in \<open>auto simp: ctor_slots_def\<close>)
  have res: "fold (\<lambda>i m. m[i := slots ! i]) js (ctor_slots T) = slots"
    using js T(2) by (intro nth_equalityI) (auto simp: fold_update_length fold_update_nth ctor_slots_def)
  obtain k where k: "k \<le> length ?bs" "\<And>n. decode_loop L S (decode d L S) T (n + k) ?c (ctor_slots T) r =
      decode_loop L S (decode d L S) T n ?c slots (advance (length ?bs) r)"
    using con unfolding nested_roundtrip.consumes_def[OF rt] res by blast
  have stop: "decode_loop L S (decode d L S) T n ?c slots (advance (length ?bs) r) =
      Some (Inr slots, advance (length ?bs) r)" for n
    using c by (cases n) simp_all
  have "k \<le> r_len r - r_pos r + 1" using k(1) ahead_len[OF Suc.prems(3)] by simp
  then have loop: "decode_loop L S (decode d L S) T (r_len r - r_pos r + 1) ?c (ctor_slots T) r =
      Some (Inr slots, advance (length ?bs) r)"
    using k(2)[of "r_len r - r_pos r + 1 - k"] stop by simp
  have "missing_required (zip ?fs slots) = None"
  proof (rule missing_required_None)
    fix f slot assume z: "(f, slot) \<in> set (zip ?fs slots)" and "f_required f"
    then have "wf_slot L S (wf_msg d L S) (msg_bytes d S) (f, slot)" using Suc.prems(1) by auto
    then show "slot \<noteq> None" using \<open>f_required f\<close> by (cases rule: wf_slot_cases) auto
  qed
  then show ?case
    unfolding decode.simps Let_def loop by (simp add: check_required_def del: msg_bytes.simps)
qed simp

interpretation roundtrip: nested_roundtrip S L "decode d L S" "msg_bytes d S"
    "\<lambda>T slots. wf_msg d L S T slots \<and> \<not> mt_group T" for S L d
  by unfold_locales (rule decode_msg_bytes, auto)

section \<open>Properties\<close>

lemma encode_create:
  assumes "wf_msg d L S T slots"
  shows "\<exists>w. encode d S T slots writer_create = Done w \<and> fst (finish w) = msg_bytes d S T slots \<and> wf_writer w"
proof -
  obtain g where g: "appends g (msg_bytes d S T slots)" "\<forall>w. encode d S T slots w = Done (g w)"
    using encode_msg_bytes[OF assms] by (auto simp: encodes_def)
  have "wf_writer (g writer_create)" "w_bytes (g writer_create) = msg_bytes d S T slots"
    using g(1) wf_create by (auto simp: appends_def writer_create_def Writer_def w_bytes_def ops_bytes_def)
  then show ?thesis using g(2) by (simp add: finish_bytes)
qed

lemma encode_decode:
  assumes "wf_msg d has_Long S T slots" and "\<not> mt_group T"
  shows "\<exists>w r. encode d S T slots writer_create = Done w \<and>
    decode d has_Long S T None (Reader (fst (finish w))) = Some (Inr slots, r) \<and> r_pos r = r_len r"
proof -
  obtain w where w: "encode d S T slots writer_create = Done w" "fst (finish w) = msg_bytes d S T slots"
    using encode_create[OF assms(1)] by blast
  have "ahead (Reader (fst (finish w))) (msg_bytes d S T slots @ [])" by (simp add: w(2) ahead_Reader)
  from decode_msg_bytes[OF assms this, of None] w show ?thesis
    by (simp add: Reader_def advance_def)
qed


definition example_type :: mtype where
  "example_type = \<lparr>mt_name = ''Example'', mt_fieldsArray =
     [\<lparr>f_name = ''sigs'', f_id = 2, f_type = ''bytes'', f_required = False, f_repeated = True, f_keyType = None,
       f_packed = True, f_resolvedType = Basic, f_defaultValue = None\<rparr>,
      \<lparr>f_name = ''index'', f_id = 1, f_type = ''sint32'', f_required = True, f_repeated = False, f_keyType = None,
       f_packed = True, f_resolvedType = Basic, f_defaultValue = Some (VInt 0)\<rparr>],
     mt_group = False\<rparr>"


text \<open>C22 \<open>encodeDelimited\<close> on a fresh writer and \<open>decodeDelimited\<close> are inverse, whatever
  follows the message in the buffer, which is where the reader is left.\<close>

theorem delimited_roundtrip:
  assumes "wf_msg d has_Long S T slots" and "\<not> mt_group T" and "length (msg_bytes d S T slots) < 2 ^ 32"
  shows "\<exists>w r. encodeDelimited d S T slots None = Done w \<and>
    decodeDelimited d has_Long S T (Reader (fst (finish w) @ rest)) = Some (Inr slots, r) \<and>
    r_pos r + length rest = r_len r"
proof -
  let ?bs = "msg_bytes d S T slots"
  obtain g where g: "appends g ?bs" "\<forall>w. encode d S T slots w = Done (g w)"
    using encode_msg_bytes[OF assms(1)] by (auto simp: encodes_def)
  have c: "w_states writer_create = []" "w_bytes writer_create = []"
    by (simp_all add: writer_create_def Writer_def w_bytes_def ops_bytes_def)
  let ?v = "g writer_create"
  have v: "wf_writer ?v" "w_bytes ?v = ?bs" "w_states ?v = []"
    using g(1) wf_create c by (simp_all add: appends_def)
  have len: "w_len ?v = length ?bs" using wf_writer_size[OF v(1)] v(2) by simp
  have "reset ?v = Writer" using v(3) by (simp add: reset_def Writer_def)
  then have l: "ldelim ?v = (let w1 = write_uint32 (int (length ?bs)) Writer
      in if length ?bs \<noteq> 0 then w1\<lparr>w_ops := w_ops w1 @ w_ops ?v, w_len := w_len w1 + w_len ?v\<rparr> else w1)"
    by (simp add: ldelim_def len)
  define u where "u = write_uint32 (int (length ?bs)) Writer"
  have "w_bytes u = varint (length ?bs)"
    using appends_uint32[of "int (length ?bs)"] wf_create assms(3) c(2)
    by (simp add: appends_def writer_create_def to_uint32_def unat_of_nat u_def)
  then have "w_bytes (ldelim ?v) = varint (length ?bs) @ ?bs"
    using v(2) unfolding l u_def[symmetric] Let_def
    by (cases "length ?bs = 0") (simp_all add: w_bytes_def ops_bytes_def)
  moreover have "wf_writer (ldelim ?v)" using v(1) by (rule wf_ldelim)
  ultimately have f: "fst (finish (ldelim ?v)) = varint (length ?bs) @ ?bs" by (simp add: finish_bytes)
  let ?r = "Reader (fst (finish (ldelim ?v)) @ rest)"
  have a: "ahead ?r (varint (length ?bs) @ ?bs @ rest)" by (simp add: f ahead_Reader)
  have k: "read_uint32 ?r = (Inr (word_of_nat (length ?bs)), advance (length (varint (length ?bs))) ?r)"
    using read_uint32_varint[OF a assms(3)] by (simp add: length_varint)
  have n: "unat (word_of_nat (length ?bs) :: u32) = length ?bs" using assms(3) by (simp add: unat_of_nat)
  have "decodeDelimited d has_Long S T ?r =
      Some (Inr slots, advance (length ?bs) (advance (length (varint (length ?bs))) ?r))"
    using decode_msg_bytes[OF assms(1,2) ahead_advance[OF a refl], of "Some (length ?bs)"] k n
    by (simp add: decodeDelimited_def)
  moreover have "encodeDelimited d S T slots None = Done (ldelim ?v)"
    using g(2) by (simp add: encodeDelimited_def)
  ultimately show ?thesis using ahead_len[OF a] by (simp add: Reader_def)
qed

theorem delimited_roundtrip_witness:
  "\<exists>w r. encodeDelimited 1 Map.empty example_type [Some (VList []), Some (VInt 7)] None = Done w \<and>
    decodeDelimited 1 True Map.empty example_type (Reader (fst (finish w) @ [9])) =
      Some (Inr [Some (VList []), Some (VInt 7)], r) \<and> r_pos r + length [9 :: byte] = r_len r"
proof (rule delimited_roundtrip)
  have b: "types_basic ''bytes'' = Some 2" "types_basic ''sint32'' = Some 0" by code_simp+
  show "wf_msg 1 True Map.empty example_type [Some (VList []), Some (VInt 7)]"
    using b by (simp add: example_type_def wf_fields_def wf_slot_def wf_value_def codec_type_def int32_ok_def)
  have "msg_bytes 1 Map.empty example_type [Some (VList []), Some (VInt 7)] = [8, 14]" by code_simp
  then show "length (msg_bytes 1 Map.empty example_type [Some (VList []), Some (VInt 7)]) < 2 ^ 32" by simp
qed (simp add: example_type_def)

text \<open>\<open>encodeDelimited\<close> on a writer that is inside an empty fork breaks the fork: it does
  not fork again, because nothing has been written yet, and its \<open>ldelim\<close> closes the caller's
  fork instead of its own.\<close>

theorem encodeDelimited_closes_fork:
  assumes "wf_msg d has_Long S T slots" and "wf_writer w"
  shows "\<exists>w'. encodeDelimited d S T slots (Some (fork w)) = Done w' \<and>
    length (w_states w') = length (w_states (fork w)) - 1 \<and> w_states w' = w_states w"
proof -
  obtain g where g: "appends g (msg_bytes d S T slots)" "\<forall>w. encode d S T slots w = Done (g w)"
    using encode_msg_bytes[OF assms(1)] by (auto simp: encodes_def)
  have s: "w_states (g (fork w)) = w_states (fork w)"
    using g(1) wf_fork[OF assms(2)] by (simp add: appends_def)
  have "w_states (ldelim (g (fork w))) = w_states w"
    using s by (simp add: ldelim_def Let_def reset_def fork_def write_uint32_def)
  then show ?thesis
    using g(2) by (simp add: encodeDelimited_def fork_def)
qed

theorem encodeDelimited_closes_fork_witness:
  "\<exists>w'. encodeDelimited 1 Map.empty example_type [Some (VList []), Some (VInt 7)] (Some (fork writer_create)) = Done w' \<and>
    length (w_states w') = length (w_states (fork writer_create)) - 1 \<and> w_states w' = w_states writer_create"
proof (rule encodeDelimited_closes_fork)
  have b: "types_basic ''bytes'' = Some 2" "types_basic ''sint32'' = Some 0" by code_simp+
  show "wf_msg 1 True Map.empty example_type [Some (VList []), Some (VInt 7)]"
    using b by (simp add: example_type_def wf_fields_def wf_slot_def wf_value_def codec_type_def int32_ok_def)
qed (rule wf_create)

end
