(* ===== verification/Messages.thy ===== *)
theory Messages
  imports Resolve Roundtrip
begin

text \<open>
  \<open>cothority-protobuf.js\<close>: messages of the daga service, encoded and decoded by the name of their type,
  which is looked up in the root that \<open>models/root.js\<close> loads from \<open>skeleton.js\<close>.

  A type sets itself up when it is first used: it makes its constructor, resolves its fields and
  generates its functions. A nested type does so when a message first holds one; the schema below says
  what each type is once it has, and \<open>schema_evolves\<close> that this does not depend on what has been set up
  before. A nested message is one that its constructor has made, or sets the required fields.
\<close>

section \<open>Types as the codec sees them\<close>

definition field_info :: "runtime \<Rightarrow> robj \<Rightarrow> field_decl \<Rightarrow> field" where
  "field_info w ob f =
     \<lparr>f_name = o_name ob, f_id = o_id ob, f_type = d_type f, f_required = d_required f, f_repeated = d_repeated f,
      f_keyType = d_keyType f, f_packed = (getOption ''packed'' ob \<noteq> Some (VBool False)),
      f_resolvedType =
        (case d_resolvedType f of None \<Rightarrow> Basic | Some t \<Rightarrow> if is_enum w t then EnumType else MessageType t),
      f_defaultValue = d_defaultValue f\<rparr>"

definition mtype_of :: "runtime \<Rightarrow> nat \<Rightarrow> mtype" where
  "mtype_of w a =
     \<lparr>mt_name = o_name (objs (st w) a),
      mt_fieldsArray =
        List.map_filter
          (\<lambda>(k, b). case decls w b of FieldDecl f \<Rightarrow> Some (field_info w (objs (st w) b) f) | _ \<Rightarrow> None)
          (o_fields (objs (st w) a)),
      mt_group = (case decls w a of TypeDecl ext gr \<Rightarrow> gr | _ \<Rightarrow> False)\<rparr>"

text \<open>
  Whether the source of the generated functions is free of errors: the \<open>switch\<close> of a repeated field over
  an enum has a default for every name of the default number. Otherwise the first call throws, which is
  what is modelled; the encoder and the decoder are in place by then, and later calls are outside the model.
\<close>

definition one_default :: "runtime \<Rightarrow> field_decl \<Rightarrow> bool" where
  "one_default w f \<longleftrightarrow>
     (case d_resolvedType f of
        None \<Rightarrow> True
      | Some t \<Rightarrow>
          (case decls w t of
             EnumDecl vs ids \<Rightarrow>
               d_repeated f \<longrightarrow> length (filter (\<lambda>kv. d_typeDefault f = Some (VInt (snd kv))) vs) \<le> 1
           | _ \<Rightarrow> True))"

definition sources_ok :: "runtime \<Rightarrow> nat \<Rightarrow> bool" where
  "sources_ok w a \<longleftrightarrow>
     list_all (\<lambda>(k, b). case decls w b of FieldDecl f \<Rightarrow> one_default w f | _ \<Rightarrow> True) (o_fields (objs (st w) a))"

text \<open>A type whose functions cannot be generated has no entry.\<close>

definition schema_of :: "(val option \<Rightarrow> bool \<Rightarrow> val) \<Rightarrow> nat \<Rightarrow> nat \<Rightarrow> runtime \<Rightarrow> schema" where
  "schema_of fromNum n d w a =
     (if o_class (objs (st w) a) \<noteq> CType then None
      else case resolve_fields fromNum n d a w of
        (Inl e, w') \<Rightarrow> None
      | (Inr _, w') \<Rightarrow> if sources_ok w' a then Some (mtype_of w' a) else None)"

text \<open>The generated constructor: properties that are \<open>null\<close> are not set.\<close>

definition new_message :: "mtype \<Rightarrow> (string \<times> val option) list \<Rightarrow> val option list" where
  "new_message T props =
     map2 (\<lambda>f slot. case map_of props (f_name f) of Some (Some v) \<Rightarrow> Some v | _ \<Rightarrow> slot) (mt_fieldsArray T) (ctor_slots T)"

section \<open>The service\<close>

definition getModel :: "nat \<Rightarrow> nat \<Rightarrow> string \<Rightarrow> runtime \<Rightarrow> nat option option" where
  "getModel n root_ob name w = lookup_string n (st w) root_ob name None"

text \<open>
  \<open>model.create\<close> and \<open>model.encode\<close> of a type. Of the other objects none has both.
\<close>

definition model_type :: "nat \<Rightarrow> nat \<Rightarrow> string \<Rightarrow> runtime \<Rightarrow> js_error + nat" where
  "model_type n root_ob name w =
     (case getModel n root_ob name w of
        None \<Rightarrow> Inl hang
      | Some None \<Rightarrow> Inl (TypeError ''Cannot read property of null'')
      | Some (Some a) \<Rightarrow> if o_class (objs (st w) a) = CType then Inr a else Inl (TypeError ''not a function''))"

definition encodeMessage ::
  "(val option \<Rightarrow> bool \<Rightarrow> val) \<Rightarrow> nat \<Rightarrow> nat \<Rightarrow> nat \<Rightarrow> string \<Rightarrow> (string \<times> val option) list \<Rightarrow> runtime \<Rightarrow>
   byte list outcome \<times> runtime" where
  "encodeMessage fromNum n d root_ob name props w =
     (case model_type n root_ob name w of
        Inl e \<Rightarrow> (Thrown e, w)
      | Inr a \<Rightarrow>
          (case then_prog (type_ctor (field_resolve fromNum n d) a) (resolve_fields fromNum n d a) w of
             (Inl e, w1) \<Rightarrow> (Thrown e, w1)
           | (Inr _, w1) \<Rightarrow>
               if \<not> sources_ok w1 a then (Thrown syntax_error, w1) else
               (bind_outcome
                  (encode d (schema_of fromNum n d w1) (mtype_of w1 a) (new_message (mtype_of w1 a) props) writer_create)
                  (\<lambda>w. Done (fst (finish w))), w1)))"

text \<open>The decoder, set up first, makes the message with the constructor.\<close>

definition decodeMessage ::
  "(val option \<Rightarrow> bool \<Rightarrow> val) \<Rightarrow> bool \<Rightarrow> nat \<Rightarrow> nat \<Rightarrow> nat \<Rightarrow> string \<Rightarrow> byte list \<Rightarrow> runtime \<Rightarrow>
   val option list dec \<times> runtime" where
  "decodeMessage fromNum has_Long n d root_ob name buffer w =
     (case model_type n root_ob name w of
        Inl e \<Rightarrow> (Some (Inl e, Reader buffer), w)
      | Inr a \<Rightarrow>
          (case then_prog (resolve_fields fromNum n d a) (type_ctor (field_resolve fromNum n d) a) w of
             (Inl e, w1) \<Rightarrow> (Some (Inl e, Reader buffer), w1)
           | (Inr _, w1) \<Rightarrow>
               if \<not> sources_ok w1 a then (Some (Inl syntax_error, Reader buffer), w1) else
               (decode d has_Long (schema_of fromNum n d w1) (mtype_of w1 a) None (Reader buffer), w1)))"

section \<open>What is decoded is what was encoded\<close>

definition switches_ok :: "(val option \<Rightarrow> bool \<Rightarrow> val) \<Rightarrow> nat \<Rightarrow> runtime \<Rightarrow> nat \<Rightarrow> bool" where
  "switches_ok fromNum n w p \<longleftrightarrow>
     (\<forall>(k, b) \<in> set (o_fields (objs (st w) p)). \<forall>f os. resolved_form fromNum n w b = Some (f, os) \<longrightarrow> one_default w f)"

definition service_ok :: "(val option \<Rightarrow> bool \<Rightarrow> val) \<Rightarrow> nat \<Rightarrow> runtime \<Rightarrow> bool" where
  "service_ok fromNum n w \<longleftrightarrow>
     reachable (st w) \<and>
     (\<forall>p. o_class (objs (st w) p) = CType \<longrightarrow> type_ok fromNum n w p \<and> switches_ok fromNum n w p)"

lemma distinct_one_default:
  assumes "\<And>t vs ids. d_resolvedType f = Some t \<Longrightarrow> decls w t = EnumDecl vs ids \<Longrightarrow> distinct (map snd vs)"
  shows "one_default w f"
proof -
  have "length (filter (\<lambda>kv. d = Some (VInt (snd kv))) vs) \<le> 1" if "distinct (map snd vs)" for d and vs :: "(string \<times> int) list"
    using that
  proof (induction vs)
    case (Cons kv vs)
    then have "d = Some (VInt (snd kv)) \<Longrightarrow> filter (\<lambda>kv. d = Some (VInt (snd kv))) vs = []"
      by (auto simp: filter_empty_conv)
    then show ?case using Cons by auto
  qed simp
  then show ?thesis using assms by (simp add: one_default_def split: option.split decl.split)
qed

lemma one_default_evolves: "evolves fromNum n w w' \<Longrightarrow> one_default w' f = one_default w f"
  by (cases "d_resolvedType f") (simp_all add: one_default_def evolves_enum_case)

lemma switches_ok_evolves:
  assumes "switches_ok fromNum n w p" and "evolves fromNum n w w'" and "wf_store (st w)"
  shows "switches_ok fromNum n w' p"
  using assms(1) same_treeD(6)[OF evolves_tree[OF assms(2)], of p]
  unfolding switches_ok_def evolves_resolved_form[OF assms(2,3)] one_default_evolves[OF assms(2)] by auto

lemma sources_ok_in_form:
  assumes "switches_ok fromNum n w a" and "evolves fromNum n w w'"
    and "\<forall>b \<in> snd ` set (o_fields (objs (st w) a)). in_form fromNum n w w' b"
  shows "sources_ok w' a"
proof -
  have "one_default w' f" if "(k, b) \<in> set (o_fields (objs (st w) a))" "decls w' b = FieldDecl f" for k b f
  proof -
    have "in_form fromNum n w w' b" using assms(3) that(1) by force
    then show ?thesis using assms(1) that by (fastforce simp: in_form_def switches_ok_def one_default_evolves[OF assms(2)])
  qed
  then show ?thesis
    using same_treeD(6)[OF evolves_tree[OF assms(2)], of a] by (auto simp: sources_ok_def list_all_iff split: decl.split)
qed

lemma service_ok_wf: "service_ok fromNum n w \<Longrightarrow> wf_store (st w)"
  by (simp add: service_ok_def reachable_store_wf)

lemma service_ok_evolves:
  assumes "service_ok fromNum n w" and "evolves fromNum n w w'"
  shows "service_ok fromNum n w'"
  using assms type_ok_evolves[OF _ assms(2) service_ok_wf[OF assms(1)]] evolves_reachable[OF assms(2)]
    switches_ok_evolves[OF _ assms(2) service_ok_wf[OF assms(1)]] same_treeD(2)[OF evolves_tree[OF assms(2)]]
  by (simp add: service_ok_def)

lemma evolves_type_case:
  assumes "evolves fromNum n w w'"
  shows "(case decls w' t of TypeDecl x g \<Rightarrow> h x g | _ \<Rightarrow> y) = (case decls w t of TypeDecl x g \<Rightarrow> h x g | _ \<Rightarrow> y)"
  using evolves_decl[OF assms, of t] by auto

lemma mtype_determined:
  assumes e: "evolves fromNum n w w1" "evolves fromNum n w w2"
    and f: "\<forall>b \<in> snd ` set (o_fields (objs (st w) a)). in_form fromNum n w w1 b"
      "\<forall>b \<in> snd ` set (o_fields (objs (st w) a)). in_form fromNum n w w2 b"
  shows "mtype_of w1 a = mtype_of w2 a"
proof -
  note s = same_treeD[OF evolves_tree[OF e(1)]] same_treeD[OF evolves_tree[OF e(2)]]
  have info: "decls w1 b = decls w2 b \<and> (\<forall>f. field_info w1 (objs (st w1) b) f = field_info w2 (objs (st w2) b) f)"
    if "(k, b) \<in> set (o_fields (objs (st w) a))" for k b
  proof -
    have "b \<in> snd ` set (o_fields (objs (st w) a))" using that by force
    then have "in_form fromNum n w w1 b" "in_form fromNum n w w2 b" using f by blast+
    then have d: "decls w1 b = decls w2 b" "o_options (objs (st w1) b) = o_options (objs (st w2) b)" by (auto simp: in_form_def)
    have "field_info w1 (objs (st w1) b) f = field_info w2 (objs (st w2) b) f" for f
      unfolding field_info_def evolves_enum(1)[OF e(1)] evolves_enum(1)[OF e(2)] s getOption_def d(2) by (rule refl)
    with d(1) show ?thesis by blast
  qed
  have "List.map_filter (\<lambda>(k, b). case decls w1 b of FieldDecl f \<Rightarrow> Some (field_info w1 (objs (st w1) b) f) | _ \<Rightarrow> None) xs =
      List.map_filter (\<lambda>(k, b). case decls w2 b of FieldDecl f \<Rightarrow> Some (field_info w2 (objs (st w2) b) f) | _ \<Rightarrow> None) xs"
    if "set xs \<subseteq> set (o_fields (objs (st w) a))" for xs
    using that by (induction xs) (auto simp: map_filter_simps dest!: info split: decl.split)
  from this[OF order_refl] show ?thesis
    by (simp add: mtype_of_def s evolves_type_case[OF e(1)] evolves_type_case[OF e(2)])
qed

lemma in_form_again:
  assumes "evolves fromNum n w w'" and "wf_store (st w)"
  shows "in_form fromNum n w' w'' b \<longleftrightarrow> in_form fromNum n w w'' b"
  using evolves_resolved_form[OF assms, of b] by (simp add: in_form_def)

text \<open>A type that is set up, whatever else has been before, is what the schema says.\<close>

lemma schema_setup:
  assumes ok: "service_ok fromNum n w" and c: "o_class (objs (st w) a) = CType"
    and e: "evolves fromNum n w w'" and r: "resolves fromNum n w' p A"
    and A: "snd ` set (o_fields (objs (st w) a)) \<subseteq> A"
  shows "\<exists>w1. p w' = (Inr (), w1) \<and> evolves fromNum n w w1 \<and> sources_ok w1 a \<and>
    schema_of fromNum n (Suc (Suc d)) w a = Some (mtype_of w1 a)"
proof -
  note wf = service_ok_wf[OF ok]
  obtain w1 where w1: "p w' = (Inr (), w1)" "evolves fromNum n w' w1" "\<forall>b \<in> A. in_form fromNum n w' w1 b"
    using r by (auto simp: resolves_def)
  have sw: "switches_ok fromNum n w a" and "reachable (st w)" "type_ok fromNum n w a"
    using ok c by (simp_all add: service_ok_def)
  then obtain w2 where w2: "resolve_fields fromNum n (Suc (Suc d)) a w = (Inr (), w2)" "evolves fromNum n w w2"
    "\<forall>b \<in> snd ` set (o_fields (objs (st w) a)). in_form fromNum n w w2 b"
    using resolves_type[of w fromNum n a d] by (auto simp: resolves_def)
  have e1: "evolves fromNum n w w1" by (rule evolves_trans[OF e w1(2) wf])
  have "mtype_of w1 a = mtype_of w2 a"
    by (rule mtype_determined[OF e1 w2(2) _ w2(3)]) (use w1(3) A in_form_again[OF e wf] in blast)
  moreover have "\<forall>b \<in> snd ` set (o_fields (objs (st w) a)). in_form fromNum n w w1 b"
    using w1(3) A in_form_again[OF e wf] by blast
  ultimately show ?thesis
    using w1(1) e1 w2(1) c sources_ok_in_form[OF sw e1] sources_ok_in_form[OF sw w2(2,3)] by (auto simp: schema_of_def)
qed

lemma schema_evolves:
  assumes ok: "service_ok fromNum n w" and e: "evolves fromNum n w w'"
  shows "schema_of fromNum n (Suc (Suc d)) w' = schema_of fromNum n (Suc (Suc d)) w"
proof
  fix a
  show "schema_of fromNum n (Suc (Suc d)) w' a = schema_of fromNum n (Suc (Suc d)) w a"
  proof (cases "o_class (objs (st w) a) = CType")
    case True
    have ok': "service_ok fromNum n w'" by (rule service_ok_evolves[OF ok e])
    have c': "o_class (objs (st w') a) = CType" using True same_treeD(2)[OF evolves_tree[OF e]] by simp
    have r: "resolves fromNum n w' (resolve_fields fromNum n (Suc (Suc d)) a) (snd ` set (o_fields (objs (st w') a)))"
      using ok' c' by (intro resolves_type) (simp_all add: service_ok_def)
    have "snd ` set (o_fields (objs (st w) a)) \<subseteq> snd ` set (o_fields (objs (st w') a))"
      using same_treeD(6)[OF evolves_tree[OF e]] by simp
    from schema_setup[OF ok True e r this, where d = d] c' show ?thesis by (auto simp: schema_of_def)
  next
    case False
    then show ?thesis using same_treeD(2)[OF evolves_tree[OF e]] by (simp add: schema_of_def)
  qed
qed

lemma model_evolves:
  assumes "service_ok fromNum n w" and e: "evolves fromNum n w w'"
  shows "getModel n root_ob name w' = getModel n root_ob name w" and "model_type n root_ob name w' = model_type n root_ob name w"
  using same_tree_lookups(1)[OF evolves_tree[OF e] service_ok_wf[OF assms(1)]] same_treeD(2)[OF evolves_tree[OF e]]
  by (simp_all add: getModel_def model_type_def split: option.split)

text \<open>The two ways of setting up a type.\<close>

lemma setup_resolves:
  assumes ok: "service_ok fromNum n w" and c: "o_class (objs (st w) a) = CType"
  shows "resolves fromNum n w (then_prog (type_ctor (field_resolve fromNum n (Suc (Suc d))) a) (resolve_fields fromNum n (Suc (Suc d)) a))
      (snd ` set (o_fields (objs (st w) a)))"
    and "resolves fromNum n w (then_prog (resolve_fields fromNum n (Suc (Suc d)) a) (type_ctor (field_resolve fromNum n (Suc (Suc d))) a))
      (snd ` set (o_fields (objs (st w) a)))"
proof -
  have re: "reachable (st w)" and ty: "type_ok fromNum n w a" using ok c by (simp_all add: service_ok_def)
  note wf = service_ok_wf[OF ok]
  let ?A = "snd ` set (o_fields (objs (st w) a))"
  have "resolves fromNum n w' (resolve_fields fromNum n (Suc (Suc d)) a) ?A" if "evolves fromNum n w w'" for w'
    using resolves_type[OF evolves_reachable[OF that] type_ok_evolves[OF ty that wf]]
      same_treeD(6)[OF evolves_tree[OF that]] by metis
  moreover have "resolves fromNum n w' (type_ctor (field_resolve fromNum n (Suc (Suc d))) a) {}" if "evolves fromNum n w w'" for w'
    by (rule resolves_ctor[OF evolves_reachable[OF that] type_ok_evolves[OF ty that wf]])
  ultimately show "resolves fromNum n w (then_prog (type_ctor (field_resolve fromNum n (Suc (Suc d))) a)
      (resolve_fields fromNum n (Suc (Suc d)) a)) ?A"
    and "resolves fromNum n w (then_prog (resolve_fields fromNum n (Suc (Suc d)) a)
      (type_ctor (field_resolve fromNum n (Suc (Suc d))) a)) ?A"
    using resolves_then[OF _ re, of fromNum n _ "{}" _ ?A] resolves_then[OF _ re, of fromNum n _ ?A _ "{}"] evolves_refl[OF re, of fromNum n]
    by simp_all
qed

text \<open>C1 A message that fits its type survives the service: from its properties \<open>encodeMessage\<close> makes
  bytes, from which \<open>decodeMessage\<close> makes the message that the constructor makes of the properties. The
  calls set up types on their way; what later calls find, and what every type is, stays the same.\<close>

theorem service_roundtrip:
  assumes "service_ok fromNum n w" and "getModel n root_ob name w = Some (Some a)"
    and "schema_of fromNum n (Suc (Suc d)) w a = Some T" and "\<not> mt_group T"
    and "wf_msg (Suc (Suc d)) has_Long (schema_of fromNum n (Suc (Suc d)) w) T (new_message T props)"
  shows "\<exists>bytes w1 r w2. encodeMessage fromNum n (Suc (Suc d)) root_ob name props w = (Done bytes, w1) \<and>
    decodeMessage fromNum has_Long n (Suc (Suc d)) root_ob name bytes w1 = (Some (Inr (new_message T props), r), w2) \<and>
    service_ok fromNum n w2 \<and> getModel n root_ob name w2 = Some (Some a) \<and>
    schema_of fromNum n (Suc (Suc d)) w2 = schema_of fromNum n (Suc (Suc d)) w"
proof -
  let ?d = "Suc (Suc d)" and ?A = "snd ` set (o_fields (objs (st w) a))"
  have c: "o_class (objs (st w) a) = CType" using assms(3) by (auto simp: schema_of_def split: if_splits)
  have m: "model_type n root_ob name w = Inr a" using assms(2) c by (simp add: model_type_def)
  have re: "reachable (st w)" using assms(1) by (simp add: service_ok_def)
  obtain w1 where w1: "then_prog (type_ctor (field_resolve fromNum n ?d) a) (resolve_fields fromNum n ?d a) w = (Inr (), w1)"
    "evolves fromNum n w w1" "mtype_of w1 a = T" "sources_ok w1 a"
    using schema_setup[OF assms(1) c evolves_refl[OF re] setup_resolves(1)[OF assms(1) c] order_refl, where d = d] assms(3) by auto
  have ok1: "service_ok fromNum n w1" by (rule service_ok_evolves[OF assms(1) w1(2)])
  have c1: "o_class (objs (st w1) a) = CType" and A1: "?A \<subseteq> snd ` set (o_fields (objs (st w1) a))"
    using c same_treeD(2,6)[OF evolves_tree[OF w1(2)]] by simp_all
  obtain w2 where w2: "then_prog (resolve_fields fromNum n ?d a) (type_ctor (field_resolve fromNum n ?d) a) w1 = (Inr (), w2)"
    "evolves fromNum n w w2" "mtype_of w2 a = T" "sources_ok w2 a"
    using schema_setup[OF assms(1) c w1(2) setup_resolves(2)[OF ok1 c1] A1, where d = d] assms(3) by auto
  note S = schema_evolves[OF assms(1) w1(2), where d = d] schema_evolves[OF assms(1) w2(2), where d = d]
  note M = model_evolves[OF assms(1) w1(2)] model_evolves[OF assms(1) w2(2)]
  obtain wr r where wr: "encode ?d (schema_of fromNum n ?d w) T (new_message T props) writer_create = Done wr"
    "decode ?d has_Long (schema_of fromNum n ?d w) T None (Reader (fst (finish wr))) = Some (Inr (new_message T props), r)"
    using encode_decode[OF assms(5,4)] by blast
  have "encodeMessage fromNum n ?d root_ob name props w = (Done (fst (finish wr)), w1)"
    unfolding encodeMessage_def using m w1(1,3,4) wr(1) S by (simp del: encode.simps)
  moreover have "decodeMessage fromNum has_Long n ?d root_ob name (fst (finish wr)) w1 = (Some (Inr (new_message T props), r), w2)"
    unfolding decodeMessage_def using m M w2(1,3,4) wr(2) S by (simp del: decode.simps)
  ultimately show ?thesis
    using service_ok_evolves[OF assms(1) w2(2)] M assms(2) S by auto
qed

section \<open>A small service\<close>

text \<open>For the witness: one type, loaded from its descriptor.\<close>

definition small_desc :: desc where
  "small_desc = NamespaceD None [(''network'', NamespaceD None [(''ServerIdentity'', TypeD None
     [(''public'', FieldD (Some ''required'') ''bytes'' 1 None), (''url'', FieldD None ''string'' 5 None)] None [] False [])])]"

definition small_service :: runtime where
  "small_service = snd (Root_fromJSON True (Suc 0) (json_of_desc small_desc) 0 start_runtime)"

lemma small_eval:
  "types_long ''bytes'' = None" "types_long ''string'' = None" "types_defaults ''bytes'' = Some (Some (VBytes []))"
  "types_defaults ''string'' = Some (Some (VString []))" "types_basic ''bytes'' = Some 2" "types_basic ''string'' = Some 2"
  "rule_of (Some (JStr ''required'')) = Inr (Some ''required'')" "rule_of None = Inr None"
  by code_simp+

lemmas load_eval = Root_fromJSON_def then_prog_def bind_prog_def return_prog_def js_prop_def entries_def nested_shape_def
  shape_in_type_def construct_def options_of_def start_runtime_def is_object_def truthy_def bind_sum_def new_object_def
  add_object_def setOptions_def type_add_def fieldsById_def own_field_def isReservedId_def isReservedName_def type_get_def
  new_Type_def any_field_def with_field_decl_def Field_fromJSON_def new_Field_def id_of_def string_of_def extend_of_def
  no_oneofs_def set_group_def reserved_of_def bind_op_def toObject_def map_filter_simps some_object_def json_of_reserved_def

lemma small_service_eval:
  "small_service =
     \<lparr>st = \<lparr>objs = (\<lambda>a. ReflectionObject CRoot [] None)
         (0 := (ReflectionObject CRoot [] None)\<lparr>o_nested := Some [(''network'', 1)]\<rparr>,
          1 := (Namespace ''network'' None)\<lparr>o_parent := Some 0, o_nested := Some [(''ServerIdentity'', 2)]\<rparr>,
          2 := (Type ''ServerIdentity'' None)\<lparr>o_parent := Some 1, o_fields := [(''public'', 3), (''url'', 4)]\<rparr>,
          3 := (ReflectionObject CField ''public'' None)\<lparr>o_parent := Some 2, o_id := 1\<rparr>,
          4 := (ReflectionObject CField ''url'' None)\<lparr>o_parent := Some 2, o_id := 5\<rparr>),
        free = 5\<rparr>,
      decls = (\<lambda>a. NoDecl)
         (2 := TypeDecl None False,
          3 := FieldDecl (snd (field_obj True ''public'' (FieldD (Some ''required'') ''bytes'' 1 None))),
          4 := FieldDecl (snd (field_obj True ''url'' (FieldD None ''string'' 5 None)))),
      ctors = (\<lambda>a. None)\<rparr>"
  by (simp add: small_service_def small_desc_def load_eval store_eval small_eval fun_eq_iff)

lemma small_service_reachable: "reachable (st small_service)"
proof -
  have "desc_ok small_desc" unfolding small_desc_def by code_simp
  then show ?thesis
    using root_loaded[of None "[(''network'', NamespaceD None [(''ServerIdentity'', TypeD None
      [(''public'', FieldD (Some ''required'') ''bytes'' 1 None), (''url'', FieldD None ''string'' 5 None)] None [] False [])])]"
      True 0]
    by (auto simp: small_service_def small_desc_def simp del: json_of_desc.simps desc_ok.simps)
qed

lemma small_forms:
  "resolved_form fromNum n small_service 3 = Some ((snd (field_obj True ''public'' (FieldD (Some ''required'') ''bytes'' 1 None)))
     \<lparr>d_typeDefault := Some (VBytes []), d_defaultValue := Some (VBytes [])\<rparr>, None)"
  "resolved_form fromNum n small_service 4 = Some ((snd (field_obj True ''url'' (FieldD None ''string'' 5 None)))
     \<lparr>d_typeDefault := Some (VString []), d_defaultValue := Some (VString [])\<rparr>, None)"
  by (simp_all add: small_service_eval resolved_form_def bad_key_def type_default_def small_eval resolved_decl_def
      internal_default_def explicit_default_def getOption_def ReflectionObject_def default_of_def needed_options_def)

lemma small_service_ok: "service_ok fromNum n small_service"
proof -
  have "type_ok fromNum n small_service p \<and> switches_ok fromNum n small_service p" if "o_class (objs (st small_service) p) = CType" for p
  proof -
    have "p = 2" using that by (auto simp: small_service_eval ReflectionObject_def Namespace_def split: if_splits)
    moreover have "o_fields (objs (st small_service) 2) = [(''public'', 3), (''url'', 4)]"
      "\<not> o_resolved (objs (st small_service) 3)" "\<not> o_resolved (objs (st small_service) 4)"
      by (simp_all add: small_service_eval Type_def ReflectionObject_def)
    ultimately show ?thesis by (simp add: type_ok_def switches_ok_def one_default_def resolvable_def small_forms)
  qed
  then show ?thesis using small_service_reachable by (simp add: service_ok_def)
qed

definition small_type :: mtype where
  "small_type = \<lparr>mt_name = ''ServerIdentity'',
     mt_fieldsArray =
       [\<lparr>f_name = ''public'', f_id = 1, f_type = ''bytes'', f_required = True, f_repeated = False, f_keyType = None,
         f_packed = True, f_resolvedType = Basic, f_defaultValue = Some (VBytes [])\<rparr>,
        \<lparr>f_name = ''url'', f_id = 5, f_type = ''string'', f_required = False, f_repeated = False, f_keyType = None,
         f_packed = True, f_resolvedType = Basic, f_defaultValue = Some (VString [])\<rparr>],
     mt_group = False\<rparr>"

lemma small_schema: "schema_of fromNum n (Suc (Suc d)) small_service 2 = Some small_type"
proof -
  have c: "o_class (objs (st small_service) 2) = CType" by (simp add: small_service_eval Type_def ReflectionObject_def)
  have objs: "o_fields (objs (st small_service) 2) = [(''public'', 3), (''url'', 4)]" "o_name (objs (st small_service) 2) = ''ServerIdentity''"
    "o_name (objs (st small_service) 3) = ''public''" "o_name (objs (st small_service) 4) = ''url''"
    "o_id (objs (st small_service) 3) = 1" "o_id (objs (st small_service) 4) = 5" "decls small_service 2 = TypeDecl None False"
    by (simp_all add: small_service_eval Type_def ReflectionObject_def)
  have "reachable (st small_service)" "type_ok fromNum n small_service 2"
    using small_service_ok[of fromNum n] c by (simp_all add: service_ok_def)
  then obtain w where w: "resolve_fields fromNum n (Suc (Suc d)) 2 small_service = (Inr (), w)"
    "evolves fromNum n small_service w" "\<forall>b \<in> {3, 4}. in_form fromNum n small_service w b"
    using resolves_type[of small_service fromNum n 2 d] objs(1) by (auto simp: resolves_def)
  have f: "decls w 3 = FieldDecl ((snd (field_obj True ''public'' (FieldD (Some ''required'') ''bytes'' 1 None)))
     \<lparr>d_typeDefault := Some (VBytes []), d_defaultValue := Some (VBytes [])\<rparr>)" "o_options (objs (st w) 3) = None"
    "decls w 4 = FieldDecl ((snd (field_obj True ''url'' (FieldD None ''string'' 5 None)))
     \<lparr>d_typeDefault := Some (VString []), d_defaultValue := Some (VString [])\<rparr>)" "o_options (objs (st w) 4) = None"
    using w(3) by (auto simp: in_form_def small_forms)
  have "mtype_of w 2 = small_type"
    using evolves_type_case[OF w(2), where h = "\<lambda>x g. g" and y = False and t = 2]
    by (simp add: mtype_of_def small_type_def same_treeD[OF evolves_tree[OF w(2)]] objs f map_filter_simps field_info_def getOption_def)
  moreover have "sources_ok w 2"
    by (simp add: sources_ok_def same_treeD[OF evolves_tree[OF w(2)]] objs f one_default_def)
  ultimately show ?thesis using w(1) c by (simp add: schema_of_def)
qed

lemma small_model: "getModel 5 0 ''network.ServerIdentity'' small_service = Some (Some 2)"
  by (simp add: getModel_def lookup_string_def small_service_eval eval_nat_numeral lookup.simps(2) or_else_def get_def
      namespace_get_def Let_def ReflectionObject_def Namespace_def Type_def filter_type_def is_namespace_def)

lemma service_roundtrip_witness:
  "\<exists>bytes w1 r w2. encodeMessage (\<lambda>v u. VInt 0) 5 (Suc (Suc 0)) 0 ''network.ServerIdentity''
      [(''public'', Some (VBytes [1, 2])), (''url'', None)] small_service = (Done bytes, w1) \<and>
    decodeMessage (\<lambda>v u. VInt 0) True 5 (Suc (Suc 0)) 0 ''network.ServerIdentity'' bytes w1 =
      (Some (Inr (new_message small_type [(''public'', Some (VBytes [1, 2])), (''url'', None)]), r), w2) \<and>
    service_ok (\<lambda>v u. VInt 0) 5 w2 \<and> getModel 5 0 ''network.ServerIdentity'' w2 = Some (Some 2) \<and>
    schema_of (\<lambda>v u. VInt 0) 5 (Suc (Suc 0)) w2 = schema_of (\<lambda>v u. VInt 0) 5 (Suc (Suc 0)) small_service"
proof (rule service_roundtrip[OF small_service_ok small_model small_schema])
  show "\<not> mt_group small_type" by (simp add: small_type_def)
  show "wf_msg (Suc (Suc 0)) True (schema_of (\<lambda>v u. VInt 0) 5 (Suc (Suc 0)) small_service) small_type
      (new_message small_type [(''public'', Some (VBytes [1, 2])), (''url'', None)])"
    using small_eval(5,6)
    by (simp add: small_type_def new_message_def ctor_slots_def wf_fields_def wf_slot_def wf_value_def codec_type_def bytes_ok_def)
qed

end
