(* ===== verification/Trees.thy ===== *)
theory Trees
  imports Messages
begin

text \<open>
  The tree of objects that a descriptor describes. A program that has loaded a descriptor into a root
  can be understood without the store: an object is a path of names, and \<open>lookup\<close> in the store refines
  \<open>lookup\<close> on the descriptor (\<open>lookup_refines\<close>). Whether all references of a descriptor resolve can so be
  checked on the descriptor.
\<close>

section \<open>Descriptors as trees\<close>

primrec children :: "desc \<Rightarrow> (string \<times> desc) list" where
  "children (NamespaceD os ns) = ns"
| "children (TypeD os fs ext rs gr ns) = ns"
| "children (EnumD os vs rs) = []"
| "children (ServiceD os ms ns) = ns"

primrec class_of :: "desc \<Rightarrow> obj_class" where
  "class_of (NamespaceD os ns) = CNamespace"
| "class_of (TypeD os fs ext rs gr ns) = CType"
| "class_of (EnumD os vs rs) = CEnum"
| "class_of (ServiceD os ms ns) = CService"

text \<open>The fields of a type and the methods of a service come before the nested objects.\<close>

primrec leaf :: "desc \<Rightarrow> string \<Rightarrow> obj_class option" where
  "leaf (NamespaceD os ns) k = None"
| "leaf (TypeD os fs ext rs gr ns) k = (if k \<in> fst ` set fs then Some CField else None)"
| "leaf (EnumD os vs rs) k = None"
| "leaf (ServiceD os ms ns) k = (if k \<in> fst ` set ms then Some CMethod else None)"

definition member :: "desc \<Rightarrow> string \<Rightarrow> obj_class option" where
  "member D k = (case leaf D k of Some c \<Rightarrow> Some c | None \<Rightarrow> map_option class_of (map_of (children D) k))"

fun part :: "desc \<Rightarrow> string list \<Rightarrow> desc option" where
  "part D [] = Some D"
| "part D (k # ks) = (case map_of (children D) k of None \<Rightarrow> None | Some E \<Rightarrow> part E ks)"

definition is_space :: "obj_class \<Rightarrow> bool" where
  "is_space c \<longleftrightarrow> c \<in> {CNamespace, CRoot, CType, CService}"

text \<open>\<open>lookup\<close> with paths in the place of objects, from the one at \<open>at\<close>.\<close>

fun find_path :: "nat \<Rightarrow> desc \<Rightarrow> string list \<Rightarrow> string list \<Rightarrow> obj_class list option \<Rightarrow> bool \<Rightarrow> string list option option"
  and find_nested :: "nat \<Rightarrow> desc \<Rightarrow> string list \<Rightarrow> (string \<times> desc) list \<Rightarrow> string list \<Rightarrow> obj_class list option \<Rightarrow>
    string list option option" where
  "find_path 0 D p path f c = None"
| "find_path (Suc n) D p path f c =
     (if path = [] then Some (Some p)
      else if hd path = [] then find_path n D [] (tl path) f False
      else or_else
        (case part D p of
           None \<Rightarrow> Some None
         | Some E \<Rightarrow>
             (case member E (hd path) of
                Some c' \<Rightarrow>
                  if tl path = []
                  then Some (if f = None \<or> c' \<in> set (the f) then Some (p @ [hd path]) else None)
                  else if is_space c' then find_path n D (p @ [hd path]) (tl path) f True
                  else Some None
              | None \<Rightarrow> find_nested n D p (children E) path f))
        (if p = [] \<or> c then Some None else find_path n D (butlast p) path f False))"
| "find_nested n D p [] path f = Some None"
| "find_nested n D p ((k, E) # ns) path f =
     (if is_space (class_of E) then or_else (find_path n D (p @ [k]) path f True) (find_nested n D p ns path f)
      else find_nested n D p ns path f)"

section \<open>The objects of a loaded tree\<close>

text \<open>The object at a path.\<close>

fun object_at :: "store \<Rightarrow> nat \<Rightarrow> string list \<Rightarrow> nat option" where
  "object_at s a [] = Some a"
| "object_at s a (k # ks) = (case get s a k of None \<Rightarrow> None | Some b \<Rightarrow> object_at s b ks)"

lemma object_at_append: "object_at s a (ks @ ks') = Option.bind (object_at s a ks) (\<lambda>b. object_at s b ks')"
  by (induction ks arbitrary: a) (auto split: option.split)

lemma part_append: "part D (ks @ ks') = Option.bind (part D ks) (\<lambda>E. part E ks')"
  by (induction ks arbitrary: D) (auto split: option.split)

lemma list_all2_member: "list_all2 P ms xs \<Longrightarrow> m \<in> set ms \<Longrightarrow> \<exists>x \<in> set xs. P m x"
  by (induction rule: list_all2_induct) auto

lemma map_of_loaded:
  assumes "list_all2 (\<lambda>m x. fst m = fst x \<and> P (snd m) (snd x)) ms xs"
  shows "(case map_of ms k of None \<Rightarrow> map_of xs k = None | Some b \<Rightarrow> \<exists>x. map_of xs k = Some x \<and> P b x)"
  using assms
proof (induction rule: list_all2_induct)
  case (Cons m ms x xs)
  then show ?case by (cases m; cases x; cases "fst m = k") (auto split: option.splits)
qed simp

lemma loaded_class:
  "loaded L N R a D \<Longrightarrow> o_class (fst (N a)) = class_of D \<or> (\<exists>os ns. D = NamespaceD os ns \<and> o_class (fst (N a)) = CRoot)"
  by (erule loaded.cases) auto

definition kind_of :: "obj_class \<Rightarrow> obj_class" where
  "kind_of c = (if c = CRoot then CNamespace else c)"

lemma loaded_kind: "loaded L (node w) R a D \<Longrightarrow> kind_of (o_class (objs (st w) a)) = class_of D"
  by (erule loaded.cases) (auto simp: kind_of_def dest: node_sel(1))

lemma is_space_kind: "is_space (kind_of c) = is_space c" "is_namespace ob = is_space (o_class ob)"
  by (auto simp: is_space_def kind_of_def is_namespace_def)

lemma nested_loaded_map:
  assumes "list_all2 (\<lambda>m x. fst m = fst x \<and> o_name (fst (N (snd m))) = fst x \<and> loaded L N R (snd m) (snd x)) ms ns"
  shows "(case map_of ms k of None \<Rightarrow> map_of ns k = None | Some b \<Rightarrow> \<exists>E. map_of ns k = Some E \<and> loaded L N R b E)"
  by (rule map_of_loaded, rule list_all2_mono[OF assms]) blast

lemma leaf_loaded_map:
  assumes "leaf_members ob N R ms xs"
  shows "(case map_of ms k of None \<Rightarrow> k \<notin> fst ` set xs | Some b \<Rightarrow> k \<in> fst ` set xs \<and> (\<exists>x. N b = ob x k))"
  using assms unfolding leaf_members_def
  by (induction rule: list_all2_induct) (auto split: option.splits)

lemma get_map:
  "get s a k =
     (let ob = objs s a; m = (if o_class ob = CType then o_fields ob else if o_class ob = CService then o_methods ob else [])
      in case map_of m k of Some b \<Rightarrow> Some b | None \<Rightarrow> map_of (nestedArray ob) k)"
  by (auto simp: get_def Let_def type_get_def service_get_def namespace_get_def nestedArray_def split: option.split)

text \<open>The member of a name.\<close>

definition agrees :: "bool \<Rightarrow> runtime \<Rightarrow> nat set \<Rightarrow> desc \<Rightarrow> string \<Rightarrow> nat option \<Rightarrow> bool" where
  "agrees L w R D k found \<longleftrightarrow>
     (case found of
        None \<Rightarrow> member D k = None
      | Some b \<Rightarrow> member D k = Some (kind_of (o_class (objs (st w) b))) \<and>
          (is_space (o_class (objs (st w) b)) \<longrightarrow> (\<exists>E. map_of (children D) k = Some E \<and> loaded L (node w) R b E)))"

lemma nested_agrees:
  assumes "list_all2 (\<lambda>m x. fst m = fst x \<and> o_name (fst (node w (snd m))) = fst x \<and> loaded L (node w) R (snd m) (snd x)) ms (children D)"
    and "leaf D k = None"
  shows "agrees L w R D k (map_of ms k)"
  using nested_loaded_map[OF assms(1), of k] assms(2) loaded_kind
  by (auto simp: agrees_def member_def split: option.splits)

lemma get_loaded:
  assumes "loaded L (node w) R a D" and "\<And>os vs rs. D \<noteq> EnumD os vs rs"
  shows "agrees L w R D k (get (st w) a k)"
  using assms(1)
proof cases
  case (namespace ob os ns)
  note o = node_sel[OF namespace(3)]
  have "get (st w) a k = map_of (nestedArray ob) k"
    using namespace(4) o(1) by (auto simp: get_map Let_def o(9))
  then show ?thesis using nested_agrees[of w L R "nestedArray ob" D k] namespace by simp
next
  case (type ob ext gr os rs fs ns)
  note o = node_sel[OF type(3)]
  have g: "get (st w) a k = (case map_of (o_fields ob) k of None \<Rightarrow> map_of (nestedArray ob) k | Some b \<Rightarrow> Some b)"
    using type(4) o(1,4) by (simp add: get_map Let_def o(9) split: option.split)
  show ?thesis
  proof (cases "map_of (o_fields ob) k")
    case None
    then have "leaf D k = None" using leaf_loaded_map[OF type(7), of k] by (simp add: type)
    then show ?thesis using nested_agrees[of w L R "nestedArray ob" D k] type None g by simp
  next
    case (Some b)
    then obtain F where "k \<in> fst ` set fs" "node w b = map_prod (\<lambda>x. x) FieldDecl (field_obj L k F)"
      using leaf_loaded_map[OF type(7), of k] by auto
    then have "leaf D k = Some CField" "o_class (objs (st w) b) = CField"
      using field_obj_new(2)[of L k F] node_sel(1)[of w b "fst (field_obj L k F)"] by (auto simp: type prod_eq_iff)
    then show ?thesis using Some g by (simp add: agrees_def member_def kind_of_def is_space_def)
  qed
next
  case (service ob os ms ns)
  note o = node_sel[OF service(3)]
  have g: "get (st w) a k = (case map_of (o_methods ob) k of None \<Rightarrow> map_of (nestedArray ob) k | Some b \<Rightarrow> Some b)"
    using service(4) o(1,5) by (simp add: get_map Let_def o(9) split: option.split)
  show ?thesis
  proof (cases "map_of (o_methods ob) k")
    case None
    then have "leaf D k = None" using leaf_loaded_map[OF service(6), of k] by (simp add: service)
    then show ?thesis using nested_agrees[of w L R "nestedArray ob" D k] service None g by simp
  next
    case (Some b)
    then obtain M where "k \<in> fst ` set ms" "node w b = method_obj k M"
      using leaf_loaded_map[OF service(6), of k] by auto
    then have "leaf D k = Some CMethod" "o_class (objs (st w) b) = CMethod"
      using method_obj_new(2)[of k M] node_sel(1)[of w b "fst (method_obj k M)"] by (auto simp: service prod_eq_iff)
    then show ?thesis using Some g by (simp add: agrees_def member_def kind_of_def is_space_def)
  qed
qed (use assms(2) in simp)

lemma children_ok:
  assumes "desc_ok D" and "(k, E) \<in> set (children D)"
  shows "map_of (children D) k = Some E \<and> leaf D k = None \<and> desc_ok E"
proof -
  have "distinct (map fst (children D))" "k \<in> fst ` set (children D) \<Longrightarrow> leaf D k = None" "desc_ok E"
    using assms by (cases D; auto)+
  then show ?thesis using assms(2) by (auto simp: rev_image_eqI)
qed

lemma part_ok: "desc_ok D \<Longrightarrow> part D p = Some E \<Longrightarrow> desc_ok E"
proof (induction p arbitrary: D)
  case (Cons k p)
  then obtain F where F: "map_of (children D) k = Some F" "part F p = Some E" by (auto split: option.splits)
  then show ?case using Cons.IH[OF _ F(2)] children_ok[OF Cons.prems(1) map_of_SomeD[OF F(1)]] by blast
qed simp

text \<open>A root that is loaded from a descriptor.\<close>

definition tree :: "bool \<Rightarrow> runtime \<Rightarrow> nat \<Rightarrow> desc \<Rightarrow> bool" where
  "tree L w r D \<longleftrightarrow>
     wf_store (st w) \<and> o_parent (objs (st w) r) = None \<and> desc_ok D \<and> is_space (class_of D) \<and> (\<exists>R. loaded L (node w) R r D)"

definition stands_for :: "bool \<Rightarrow> runtime \<Rightarrow> nat \<Rightarrow> string list \<Rightarrow> nat \<Rightarrow> desc \<Rightarrow> bool" where
  "stands_for L w r p a E \<longleftrightarrow>
     object_at (st w) r p = Some a \<and> obj_root (st w) a = Some r \<and> (\<exists>R. loaded L (node w) R a E) \<and> desc_ok E \<and>
     (p = [] \<longrightarrow> o_parent (objs (st w) a) = None) \<and>
     (p \<noteq> [] \<longrightarrow> (\<exists>b. object_at (st w) r (butlast p) = Some b \<and> o_parent (objs (st w) a) = Some b))"

lemma loaded_children:
  assumes "loaded L (node w) R a E"
  shows "list_all2 (\<lambda>m x. fst m = fst x \<and> loaded L (node w) R (snd m) (snd x)) (nestedArray (objs (st w) a)) (children E) \<or>
    (\<exists>os vs rs. E = EnumD os vs rs)"
  using assms
proof cases
  case (namespace ob os ns)
  then show ?thesis using node_sel(9)[OF namespace(3)] by (auto elim!: list_all2_mono)
next
  case (type ob ext gr os rs fs ns)
  then show ?thesis using node_sel(9)[OF type(3)] by (auto elim!: list_all2_mono)
next
  case (service ob os ms ns)
  then show ?thesis using node_sel(9)[OF service(3)] by (auto elim!: list_all2_mono)
qed simp

lemma stands_for_root: "tree L w r D \<Longrightarrow> stands_for L w r [] r D"
  by (auto simp: tree_def stands_for_def obj_root_eval)

lemma stands_for_child:
  assumes t: "tree L w r D" and a: "stands_for L w r p a E" and k: "(k, F) \<in> set (children E)"
  shows "\<exists>b. get (st w) a k = Some b \<and> stands_for L w r (p @ [k]) b F"
proof -
  have wf: "wf_store (st w)" using t by (simp add: tree_def)
  obtain R where l: "loaded L (node w) R a E" and ok: "desc_ok E" using a by (auto simp: stands_for_def)
  note c = children_ok[OF ok k]
  have ne: "E \<noteq> EnumD os vs rs" for os vs rs using k by auto
  have "member E k \<noteq> None" using c by (simp add: member_def)
  then obtain b where b: "get (st w) a k = Some b"
    using get_loaded[OF l ne, of k] by (cases "get (st w) a k") (auto simp: agrees_def)
  have "list_all2 (\<lambda>m x. fst m = fst x \<and> loaded L (node w) R (snd m) (snd x)) (nestedArray (objs (st w) a)) (children E)"
    using loaded_children[OF l] ne by blast
  from map_of_loaded[OF this, of k] c obtain b' where b': "map_of (nestedArray (objs (st w) a)) k = Some b'" "loaded L (node w) R b' F"
    by (auto split: option.splits)
  have n: "(k, b') \<in> set (nestedArray (objs (st w) a))" by (rule map_of_SomeD[OF b'(1)])
  have d: "distinct (map fst (nestedArray (objs (st w) a)))" using wf_distinct[OF wf] by simp
  have p: "o_parent (objs (st w) b') = Some a \<and> o_name (objs (st w) b') = k \<and> valid_nested (objs (st w) b')"
    by (rule wf_nested[OF wf n])
  have "o_class (objs (st w) b') \<noteq> CMethod" using p by (auto simp: valid_nested_def is_namespace_def)
  then have "get (st w) a k = Some b'" using get_iff_parent[OF wf] p by blast
  with b have "b' = b" by simp
  then show ?thesis
    using b b' p a c by (auto simp: stands_for_def object_at_append obj_root_parent)
qed

lemma part_stands_for:
  assumes t: "tree L w r D" 
  shows "part D p = Some E \<Longrightarrow> \<exists>a. stands_for L w r p a E"
proof (induction p arbitrary: E rule: rev_induct)
  case Nil
  then show ?case using stands_for_root[OF t] by auto
next
  case (snoc k p)
  then obtain F where F: "part D p = Some F" "map_of (children F) k = Some E"
    by (auto simp: part_append split: bind_splits option.splits)
  then obtain a where "stands_for L w r p a F" using snoc.IH by blast
  from stands_for_child[OF t this map_of_SomeD[OF F(2)]] show ?case by blast
qed

section \<open>Lookup\<close>

definition refines :: "store \<Rightarrow> nat \<Rightarrow> nat option option \<Rightarrow> string list option option \<Rightarrow> bool" where
  "refines s r x y \<longleftrightarrow>
     (case y of
        None \<Rightarrow> x = None
      | Some None \<Rightarrow> x = Some None
      | Some (Some q) \<Rightarrow> x = Some (object_at s r q) \<and> object_at s r q \<noteq> None)"

lemma refines_simps [simp]:
  "refines s r None None" "refines s r (Some None) (Some None)"
  "object_at s r q = Some b \<Longrightarrow> refines s r (Some (Some b)) (Some (Some q))"
  by (simp_all add: refines_def)

lemma refines_or_else: "refines s r x y \<Longrightarrow> refines s r x' y' \<Longrightarrow> refines s r (or_else x x') (or_else y y')"
  by (auto simp: refines_def or_else_def split: option.splits)

lemma nested_stand_for:
  assumes t: "tree L w r D" and a: "stands_for L w r p a E" and e: "is_space (class_of E)"
  shows "list_all2 (\<lambda>m x. x \<in> set (children E) \<and> stands_for L w r (p @ [fst x]) (snd m) (snd x))
    (nestedArray (objs (st w) a)) (children E)"
proof -
  have wf: "wf_store (st w)" using t by (simp add: tree_def)
  obtain R where l: "loaded L (node w) R a E" using a by (auto simp: stands_for_def)
  have "list_all2 (\<lambda>m x. fst m = fst x \<and> loaded L (node w) R (snd m) (snd x)) (nestedArray (objs (st w) a)) (children E)"
    using loaded_children[OF l] e by (auto simp: is_space_def)
  then show ?thesis
  proof (rule list.rel_mono_strong)
    fix m x assume m: "m \<in> set (nestedArray (objs (st w) a))" and x: "x \<in> set (children E)"
      and mx: "fst m = fst x \<and> loaded L (node w) R (snd m) (snd x)"
    obtain k b F where kb: "m = (k, b)" "x = (k, F)" using mx by (cases m; cases x) auto
    have p: "o_parent (objs (st w) b) = Some a \<and> o_name (objs (st w) b) = k \<and> valid_nested (objs (st w) b)"
      by (rule wf_nested[OF wf]) (use m kb in simp)
    then have "get (st w) a k = Some b"
      using get_iff_parent[OF wf, of b a] by (auto simp: valid_nested_def is_namespace_def)
    then show "x \<in> set (children E) \<and> stands_for L w r (p @ [fst x]) (snd m) (snd x)"
      using stands_for_child[OF t a, of k F] x kb by simp
  qed
qed

lemma butlast_stands_for:
  assumes t: "tree L w r D" and a: "stands_for L w r p a E" and p: "part D p = Some E" "p \<noteq> []"
  shows "\<exists>q F. o_parent (objs (st w) a) = Some q \<and> part D (butlast p) = Some F \<and> stands_for L w r (butlast p) q F \<and>
    is_space (class_of F)"
proof -
  obtain q where q: "object_at (st w) r (butlast p) = Some q" "o_parent (objs (st w) a) = Some q"
    using a p(2) by (auto simp: stands_for_def)
  have "part D (butlast p @ [last p]) = Some E" using p by simp
  then obtain F where F: "part D (butlast p) = Some F" "map_of (children F) (last p) = Some E"
    by (auto simp: part_append split: bind_splits option.splits)
  have "is_space (class_of F)" using F(2) by (cases F) (auto simp: is_space_def)
  moreover obtain q' where "stands_for L w r (butlast p) q' F" using part_stands_for[OF t F(1)] by blast
  moreover have "q' = q" using calculation(2) q(1) by (simp add: stands_for_def)
  ultimately show ?thesis using q F by blast
qed

lemma lookup_tree:
  assumes t: "tree L w r D" and f: "\<And>cs. f = Some cs \<Longrightarrow> CNamespace \<notin> set cs \<and> CRoot \<notin> set cs"
  shows "stands_for L w r p a E \<Longrightarrow> part D p = Some E \<Longrightarrow> is_space (class_of E) \<Longrightarrow>
    refines (st w) r (lookup n (st w) a path f c) (find_path n D p path f c)"
proof (induction n arbitrary: p a E path c)
  case (Suc n)
  note IH = Suc.IH and a = Suc.prems(1) and p = Suc.prems(2) and e = Suc.prems(3)
  have obj: "object_at (st w) r p = Some a" and ro: "obj_root (st w) a = Some r" using a by (simp_all add: stands_for_def)
  show ?case
  proof (cases "path = [] \<or> hd path = []")
    case True
    have "part D [] = Some D" "is_space (class_of D)" using t by (simp_all add: tree_def)
    from IH[OF stands_for_root[OF t] this] show ?thesis
      using True obj ro by (cases "path = []") (simp_all add: lookup_empty lookup_absolute)
  next
    case False
    define k where "k = hd path"
    have nested: "refines (st w) r (lookup_nested n (st w) (map snd ms) path f) (find_nested n D p xs path f)"
      if "list_all2 (\<lambda>m x. x \<in> set (children E) \<and> stands_for L w r (p @ [fst x]) (snd m) (snd x)) ms xs" for ms xs
      using that
    proof (induction rule: list_all2_induct)
      case (Cons m ms x xs)
      obtain j F where x: "x = (j, F)" by (cases x)
      have s: "stands_for L w r (p @ [j]) (snd m) F" and jF: "(j, F) \<in> set (children E)" using Cons.hyps x by simp_all
      have part: "part D (p @ [j]) = Some F"
        using p children_ok[OF part_ok[OF _ p] jF] t by (simp add: part_append tree_def)
      obtain R where "loaded L (node w) R (snd m) F" using s by (auto simp: stands_for_def)
      then have sp: "is_namespace (objs (st w) (snd m)) = is_space (class_of F)"
        using loaded_kind[of L w R "snd m" F] is_space_kind by metis
      show ?case
        using Cons.IH IH[OF s part] sp by (auto simp: x intro: refines_or_else)
    qed simp
    have below: "refines (st w) r (below n (st w) a path f)
        (case member E k of
            Some c' \<Rightarrow>
              if tl path = [] then Some (if f = None \<or> c' \<in> set (the f) then Some (p @ [k]) else None)
              else if is_space c' then find_path n D (p @ [k]) (tl path) f True else Some None
          | None \<Rightarrow> find_nested n D p (children E) path f)"
    proof -
      obtain R where l: "loaded L (node w) R a E" using a by (auto simp: stands_for_def)
      have ne: "E \<noteq> EnumD os vs rs" for os vs rs using e by (auto simp: is_space_def)
      note g = get_loaded[OF l ne, of k]
      show ?thesis
      proof (cases "get (st w) a k")
        case None
        then have "member E k = None" using g by (simp add: agrees_def)
        then show ?thesis using None nested[OF nested_stand_for[OF t a e]] by (simp add: below_def k_def)
      next
        case (Some b)
        let ?c = "o_class (objs (st w) b)"
        have m: "member E k = Some (kind_of ?c)"
          and sp: "is_space ?c \<Longrightarrow> \<exists>F. map_of (children E) k = Some F"
          using g Some by (auto simp: agrees_def)
        have ob: "object_at (st w) r (p @ [k]) = Some b" using obj Some by (simp add: object_at_append)
        have flt: "(?c \<in> set cs) = (kind_of ?c \<in> set cs)" if "f = Some cs" for cs
          using f[OF that] by (auto simp: kind_of_def)
        show ?thesis
        proof (cases "tl path = []")
          case True
          then show ?thesis
            using Some m ob flt by (cases f) (auto simp: below_def k_def filter_type_def)
        next
          case tl: False
          show ?thesis
          proof (cases "is_space ?c")
            case True
            then obtain F where F: "map_of (children E) k = Some F" using sp by blast
            have s: "stands_for L w r (p @ [k]) b F"
              using stands_for_child[OF t a map_of_SomeD[OF F]] Some by simp
            have "part D (p @ [k]) = Some F" using p F by (simp add: part_append)
            moreover have "is_space (class_of F)"
            proof -
              obtain R' where "loaded L (node w) R' b F" using s by (auto simp: stands_for_def)
              then show ?thesis using loaded_kind True is_space_kind by metis
            qed
            ultimately show ?thesis
              using IH[OF s, of "tl path" True] Some m tl True by (simp add: below_def k_def is_space_kind)
          next
            case False
            then show ?thesis using Some m tl by (simp add: below_def k_def is_space_kind)
          qed
        qed
      qed
    qed
    have above: "refines (st w) r (above n (st w) a path f c) (if p = [] \<or> c then Some None else find_path n D (butlast p) path f False)"
    proof (cases "p = []")
      case True
      then have "o_parent (objs (st w) a) = None" using a by (simp add: stands_for_def)
      then show ?thesis using True by (simp add: above_def)
    next
      case pn: False
      obtain q F where q: "o_parent (objs (st w) a) = Some q" "part D (butlast p) = Some F"
        "stands_for L w r (butlast p) q F" "is_space (class_of F)"
        using butlast_stands_for[OF t a p pn] by blast
      show ?thesis using IH[OF q(3,2,4)] q(1) pn by (simp add: above_def)
    qed
    have pn: "path \<noteq> []" "hd path \<noteq> []" using False by auto
    show ?thesis
      using refines_or_else[OF below above]
      unfolding k_def find_path.simps p option.case lookup_step[OF pn] by (simp only: pn if_False)
  qed
qed simp

section \<open>References\<close>

primrec field_type :: "field_desc \<Rightarrow> string" where
  "field_type (FieldD r t i os) = t"
| "field_type (MapD k t i os) = t"

primrec field_key :: "field_desc \<Rightarrow> string option" where
  "field_key (FieldD r t i os) = None"
| "field_key (MapD k t i os) = Some k"

text \<open>A type, or an enum without aliases, of which a repeated field can have no default twice.\<close>

definition type_or_enum :: "desc option \<Rightarrow> bool" where
  "type_or_enum D = (case D of Some (TypeD _ _ _ _ _ _) \<Rightarrow> True | Some (EnumD _ vs _) \<Rightarrow> distinct (map snd vs) | _ \<Rightarrow> False)"

definition field_resolves :: "nat \<Rightarrow> desc \<Rightarrow> string list \<Rightarrow> field_desc \<Rightarrow> bool" where
  "field_resolves n D p F \<longleftrightarrow>
     (case field_key F of None \<Rightarrow> True | Some k \<Rightarrow> types_mapKey k \<noteq> None) \<and>
     (types_defaults (field_type F) \<noteq> None \<or>
      field_type F \<noteq> [] \<and> field_type F \<noteq> ''.'' \<and>
      (case find_path n D p (split_dots (field_type F)) (Some [CType, CEnum]) False of
         Some (Some q) \<Rightarrow> type_or_enum (part D q)
       | _ \<Rightarrow> False))"

text \<open>All parts of a descriptor, with their paths.\<close>

fun parts :: "string list \<Rightarrow> desc \<Rightarrow> (string list \<times> desc) list" where
  "parts p (NamespaceD os ns) = (p, NamespaceD os ns) # concat (map (\<lambda>(k, E). parts (p @ [k]) E) ns)"
| "parts p (TypeD os fs ext rs gr ns) =
     (p, TypeD os fs ext rs gr ns) # concat (map (\<lambda>(k, E). parts (p @ [k]) E) ns)"
| "parts p (EnumD os vs rs) = [(p, EnumD os vs rs)]"
| "parts p (ServiceD os ms ns) = (p, ServiceD os ms ns) # concat (map (\<lambda>(k, E). parts (p @ [k]) E) ns)"

primrec fields_of :: "desc \<Rightarrow> (string \<times> field_desc) list" where
  "fields_of (NamespaceD os ns) = []"
| "fields_of (TypeD os fs ext rs gr ns) = fs"
| "fields_of (EnumD os vs rs) = []"
| "fields_of (ServiceD os ms ns) = []"

definition references_resolve :: "nat \<Rightarrow> desc \<Rightarrow> bool" where
  "references_resolve n D = list_all (\<lambda>(p, E). list_all (\<lambda>(k, F). field_resolves n D p F) (fields_of E)) (parts [] D)"

lemma part_in_parts: "part D p = Some E \<Longrightarrow> (q @ p, E) \<in> set (parts q D)"
proof (induction p arbitrary: D q)
  case Nil
  have "(q, D) \<in> set (parts q D)" by (cases D) simp_all
  with Nil show ?case by simp
next
  case (Cons k p)
  then obtain F where F: "(k, F) \<in> set (children D)" "part F p = Some E"
    by (auto dest: map_of_SomeD split: option.splits)
  have "(q @ k # p, E) \<in> set (parts (q @ [k]) F)" using Cons.IH[OF F(2), of "q @ [k]"] by simp
  moreover have "set (parts (q @ [k]) F) \<subseteq> set (parts q D)" using F(1) by (cases D) auto
  ultimately show ?case by blast
qed

lemma references_resolve_field:
  assumes "references_resolve n D" and "part D p = Some E" and "(k, F) \<in> set (fields_of E)"
  shows "field_resolves n D p F"
  using assms part_in_parts[OF assms(2), of "[]"] unfolding references_resolve_def list_all_iff by fastforce

text \<open>Everything in the store is in the tree.\<close>

lemma in_tree:
  assumes t: "tree L w 0 D" and pl: "placed 1 w"
  shows "ancestry (st w) a as \<Longrightarrow> is_namespace (objs (st w) a) \<Longrightarrow> a < free (st w) \<Longrightarrow>
    \<exists>p E. part D p = Some E \<and> stands_for L w 0 p a E"
proof (induction rule: ancestry.induct)
  case (top a)
  have "a = 0" using pl top by (cases a) (auto simp: placed_def)
  then show ?case using stands_for_root[OF t] by (intro exI[of _ "[]"]) auto
next
  case (child a q as)
  have wf: "wf_store (st w)" using t by (simp add: tree_def)
  note m = wf_parent[OF wf child.hyps(1)]
  have nf: "\<not> own_field (objs (st w) a)" "o_class (objs (st w) a) \<noteq> CMethod"
    using child.prems(1) by (auto simp: own_field_def is_namespace_def)
  then have n: "(o_name (objs (st w) a), a) \<in> set (nestedArray (objs (st w) q))" using m by (simp add: table_def)
  then have "o_nested (objs (st w) q) \<noteq> None" by (cases "o_nested (objs (st w) q)") (auto simp: nestedArray_def)
  then have "is_namespace (objs (st w) q)" using wf_classes[OF wf] by blast
  then obtain p F where F: "part D p = Some F" "stands_for L w 0 p q F"
    using child.IH wf_parent_free[OF wf child.hyps(1)] by blast
  obtain R where l: "loaded L (node w) R q F" using F(2) by (auto simp: stands_for_def)
  have e: "is_space (class_of F)" using loaded_kind[OF l] \<open>is_namespace (objs (st w) q)\<close> is_space_kind by metis
  obtain x where x: "x \<in> set (children F)" "stands_for L w 0 (p @ [fst x]) a (snd x)"
    using list_all2_member[OF nested_stand_for[OF t F(2) e] n] by auto
  obtain k E where kE: "x = (k, E)" by (cases x)
  have "part D (p @ [k]) = Some E"
    using F(1) children_ok[OF part_ok[OF _ F(1)], of k E] x(1) kE t by (simp add: part_append tree_def)
  then show ?case using x(2) kE by auto
qed

lemma lookup_type_tree:
  assumes t: "tree L w r D" and a: "stands_for L w r p a E" "part D p = Some E" "is_space (class_of E)"
    and ne: "str \<noteq> []" "str \<noteq> ''.''"
    and q: "find_path n D p (split_dots str) (Some [CType, CEnum]) False = Some (Some q)" "part D q = Some G"
  shows "\<exists>b. lookupTypeOrEnum n (st w) a str = Some (Inr b) \<and> stands_for L w r q b G"
proof -
  have "refines (st w) r (lookup n (st w) a (split_dots str) (Some [CType, CEnum]) False)
      (find_path n D p (split_dots str) (Some [CType, CEnum]) False)"
    by (rule lookup_tree[OF t _ a]) simp
  then obtain b where b: "lookup n (st w) a (split_dots str) (Some [CType, CEnum]) False = Some (Some b)"
    "object_at (st w) r q = Some b"
    using q(1) by (auto simp: refines_def)
  obtain b' where "stands_for L w r q b' G" using part_stands_for[OF t q(2)] by blast
  moreover from this have "b' = b" using b(2) by (simp add: stands_for_def)
  ultimately show ?thesis
    using b(1) ne by (auto simp: lookupTypeOrEnum_def lookup_string_def lookup_or_throw_def)
qed

lemma field_resolvable:
  assumes t: "tree L w r D" and a: "stands_for L w r p a E" "part D p = Some E" "is_space (class_of E)"
    and F: "field_resolves n D p F" and b: "node w b = map_prod (\<lambda>x. x) FieldDecl (field_obj L k F)"
    and pr: "o_parent (objs (st w) b) = Some a" and nr: "\<not> o_resolved (objs (st w) b)"
  shows "resolvable fromNum n w b" and "resolved_form fromNum n w b = Some (f', os) \<Longrightarrow> one_default w f'"
proof -
  let ?f = "snd (field_obj L k F)"
  have d: "decls w b = FieldDecl ?f" using b by (simp add: node_def prod_eq_iff)
  have f: "d_type ?f = field_type F" "d_keyType ?f = field_key F" by (cases F; simp add: Let_def)+
  have "\<not> bad_key ?f" using F by (auto simp: bad_key_def f field_resolves_def split: option.splits)
  moreover have td: "\<exists>v u. type_default n w b ?f = (Inr v, u) \<and>
      (\<forall>t vs ids. u = Some t \<longrightarrow> decls w t = EnumDecl vs ids \<longrightarrow> distinct (map snd vs))"
  proof (cases "types_defaults (field_type F)")
    case None
    then obtain q where q: "find_path n D p (split_dots (field_type F)) (Some [CType, CEnum]) False = Some (Some q)"
      "type_or_enum (part D q)" "field_type F \<noteq> []" "field_type F \<noteq> ''.''"
      using F by (auto simp: field_resolves_def split: option.splits)
    then obtain G where G: "part D q = Some G" by (auto simp: type_or_enum_def split: option.splits)
    obtain c where c: "lookupTypeOrEnum n (st w) a (field_type F) = Some (Inr c)" "stands_for L w r q c G"
      using lookup_type_tree[OF t a q(3,4,1) G] by blast
    obtain R where l: "loaded L (node w) R c G" using c(2) by (auto simp: stands_for_def)
    have "(o_class (objs (st w) c) = CType \<or> (\<exists>vs ids. decls w c = EnumDecl vs ids)) \<and>
        (\<forall>vs ids. decls w c = EnumDecl vs ids \<longrightarrow> distinct (map snd vs))"
      using l q(2) unfolding G
      by cases (auto simp: type_or_enum_def dest: node_sel)
    then show ?thesis using None c(1) pr f by (auto simp: type_default_def)
  next
    case (Some v)
    have "d_resolvedType ?f = None" by (cases F) (simp_all add: Let_def)
    then show ?thesis using f Some by (auto simp: type_default_def)
  qed
  ultimately have "resolved_form fromNum n w b \<noteq> None"
    using d by (auto simp: resolved_form_def)
  then show "resolvable fromNum n w b" using nr by (simp add: resolvable_def)
  show "resolved_form fromNum n w b = Some (f', os) \<Longrightarrow> one_default w f'"
    using td d by (auto simp: resolved_form_Some resolved_decl_def intro!: distinct_one_default)
qed

text \<open>A descriptor whose references resolve is a service that is ready for messages.\<close>

lemma service_loaded:
  assumes t: "tree L w 0 D" and pl: "placed 1 w" and re: "reachable (st w)" and r: "references_resolve n D"
  shows "service_ok fromNum n w"
proof -
  have wf: "wf_store (st w)" using t by (simp add: tree_def)
  have "type_ok fromNum n w a \<and> switches_ok fromNum n w a" if c: "o_class (objs (st w) a) = CType" for a
  proof -
    have "resolvable fromNum n w b \<and> (\<forall>f' os. resolved_form fromNum n w b = Some (f', os) \<longrightarrow> one_default w f')" if kb: "(k, b) \<in> set (o_fields (objs (st w) a))" for k b
    proof -
      have pb: "o_parent (objs (st w) b) = Some a" using wf_field[OF wf kb] by simp
      have lt: "a < free (st w)" "b < free (st w)" using wf_parent_free[OF wf pb] by simp_all
      obtain as where "ancestry (st w) a as" using wf_forest[OF wf] by (auto simp: forest_def)
      from in_tree[OF t pl this _ lt(1)] obtain p E where E: "part D p = Some E" "stands_for L w 0 p a E"
        using c by (auto simp: is_namespace_def)
      obtain R where l: "loaded L (node w) R a E" using E(2) by (auto simp: stands_for_def)
      have e: "class_of E = CType" using loaded_kind[OF l] c by (simp add: kind_of_def)
      have "leaf_members (\<lambda>F k. map_prod (\<lambda>x. x) FieldDecl (field_obj L k F)) (node w) R (o_fields (objs (st w) a)) (fields_of E)"
        using l by cases (use e in \<open>auto dest: node_sel(4)\<close>)
      then obtain F where F: "(k, F) \<in> set (fields_of E)" "node w b = map_prod (\<lambda>x. x) FieldDecl (field_obj L k F)"
        using list_all2_member[OF _ kb] by (fastforce simp: leaf_members_def)
      have "b \<noteq> 0" using pb t by (cases b) (simp_all add: tree_def)
      then have nr: "\<not> o_resolved (objs (st w) b)" using pl lt(2) by (simp add: placed_def)
      have "is_space (class_of E)" by (simp add: e is_space_def)
      from field_resolvable[OF t E(2,1) this references_resolve_field[OF r E(1) F(1)] F(2) pb nr]
      show ?thesis by blast
    qed
    then show ?thesis unfolding type_ok_def switches_ok_def by blast
  qed
  then show ?thesis using re by (simp add: service_ok_def)
qed

section \<open>The types of a service\<close>

text \<open>What the codec makes of a field, up to what resolving adds.\<close>

primrec codec_info :: "string \<Rightarrow> field_desc \<Rightarrow> string \<times> nat \<times> string \<times> bool \<times> bool \<times> string option" where
  "codec_info k (FieldD r t i os) = (k, i, t, r = Some ''required'', r = Some ''repeated'', None)"
| "codec_info k (MapD key t i os) = (k, i, t, False, False, Some key)"

primrec is_group :: "desc \<Rightarrow> bool" where
  "is_group (NamespaceD os ns) = False"
| "is_group (TypeD os fs ext rs gr ns) = gr"
| "is_group (EnumD os vs rs) = False"
| "is_group (ServiceD os ms ns) = False"

definition info_of :: "field \<Rightarrow> string \<times> nat \<times> string \<times> bool \<times> bool \<times> string option" where
  "info_of f = (f_name f, f_id f, f_type f, f_required f, f_repeated f, f_keyType f)"

lemma fieldsArray_info:
  assumes "list_all2 (\<lambda>m x. fst m = fst x \<and> o_name (objs s (snd m)) = fst x \<and> (\<exists>g. decls w (snd m) = FieldDecl g \<and>
      info_of (field_info w (objs s (snd m)) g) = codec_info (fst x) (snd x))) ms xs"
  shows "map info_of (List.map_filter (\<lambda>(k, b). case decls w b of FieldDecl f \<Rightarrow> Some (field_info w (objs s b) f) | _ \<Rightarrow> None) ms) =
    map (\<lambda>(k, F). codec_info k F) xs"
  using assms by (induction rule: list_all2_induct) (auto simp: map_filter_simps)

lemma type_of_service:
  assumes ok: "service_ok fromNum n w" and a: "o_class (objs (st w) a) = CType" and l: "loaded L (node w) R a E"
  shows "\<exists>T. schema_of fromNum n (Suc (Suc d)) w a = Some T \<and> mt_name T = o_name (objs (st w) a) \<and> mt_group T = is_group E \<and>
    map info_of (mt_fieldsArray T) = map (\<lambda>(k, F). codec_info k F) (fields_of E)"
proof -
  have wf: "wf_store (st w)" by (rule service_ok_wf[OF ok])
  have re: "reachable (st w)" and ty: "type_ok fromNum n w a" and sw: "switches_ok fromNum n w a" using ok a by (simp_all add: service_ok_def)
  obtain w1 where w1: "resolve_fields fromNum n (Suc (Suc d)) a w = (Inr (), w1)" "evolves fromNum n w w1"
    "\<forall>b \<in> snd ` set (o_fields (objs (st w) a)). in_form fromNum n w w1 b"
    using resolves_type[OF re ty, of d] by (auto simp: resolves_def)
  note s = same_treeD[OF evolves_tree[OF w1(2)]]
  have e: "class_of E = CType" using loaded_kind[OF l] a by (simp add: kind_of_def)
  have lm: "leaf_members (\<lambda>F k. map_prod (\<lambda>x. x) FieldDecl (field_obj L k F)) (node w) R (o_fields (objs (st w) a)) (fields_of E)"
    using l by cases (use e in \<open>auto dest: node_sel(4)\<close>)
  have "list_all2 (\<lambda>m x. fst m = fst x \<and> o_name (objs (st w1) (snd m)) = fst x \<and> (\<exists>g. decls w1 (snd m) = FieldDecl g \<and>
      info_of (field_info w1 (objs (st w1) (snd m)) g) = codec_info (fst x) (snd x))) (o_fields (objs (st w) a)) (fields_of E)"
    using lm unfolding leaf_members_def
  proof (rule list.rel_mono_strong)
    fix m x assume m: "m \<in> set (o_fields (objs (st w) a))"
      and mx: "fst m = fst x \<and> snd m \<in> R \<and> node w (snd m) = map_prod (\<lambda>x. x) FieldDecl (field_obj L (fst x) (snd x))"
    obtain k b F where kb: "m = (k, b)" "x = (k, F)" using mx by (cases m; cases x) auto
    have n: "node w b = (fst (field_obj L k F), FieldDecl (snd (field_obj L k F)))" using mx kb by (simp add: prod_eq_iff)
    have "in_form fromNum n w w1 b" using w1(3) m kb by force
    then obtain g where g: "decls w1 b = FieldDecl g" "resolved_form fromNum n w b = Some (g, o_options (objs (st w1) b))"
      by (auto simp: in_form_def)
    then have "\<exists>t v. g = resolved_decl (snd (field_obj L k F)) t v"
      using node_sel(10)[OF n] unfolding resolved_form_Some by auto
    then have "info_of (field_info w1 (objs (st w1) b) g) = codec_info k F"
      using s(3,8) node_sel(2,7)[OF n]
      by (cases F) (auto simp: info_of_def field_info_def resolved_decl_def ReflectionObject_def Let_def)
    then show "fst m = fst x \<and> o_name (objs (st w1) (snd m)) = fst x \<and> (\<exists>g. decls w1 (snd m) = FieldDecl g \<and>
      info_of (field_info w1 (objs (st w1) (snd m)) g) = codec_info (fst x) (snd x))"
      using g(1) kb s(3) node_sel(2)[OF n] field_obj_new(3)[of L k F] by simp
  qed
  from fieldsArray_info[OF this] have "map info_of (mt_fieldsArray (mtype_of w1 a)) = map (\<lambda>(k, F). codec_info k F) (fields_of E)"
    by (simp add: mtype_of_def s)
  moreover have "mt_name (mtype_of w1 a) = o_name (objs (st w) a)" by (simp add: mtype_of_def s)
  moreover have "mt_group (mtype_of w1 a) = is_group E"
  proof -
    have "\<exists>x. decls w a = TypeDecl x (is_group E)" using l by cases (use e in \<open>auto dest: node_sel(10)\<close>)
    then show ?thesis
      using evolves_type_case[OF w1(2), where h = "\<lambda>x g. g" and y = False and t = a] by (auto simp: mtype_of_def)
  qed
  ultimately show ?thesis using w1(1) a sources_ok_in_form[OF sw w1(2,3)] by (auto simp: schema_of_def)
qed

section \<open>Refinement\<close>

text \<open>C18 The objects of a loaded descriptor behave as the tree that it describes: from the object at any path,
  \<open>lookup\<close> of any relative or absolute path, with any filter that the callers use, finds exactly the object at
  the path that \<open>lookup\<close> on the descriptor finds, and \<open>null\<close> where that finds nothing.\<close>

theorem lookup_refines:
  assumes "tree L w r D" and "part D p = Some E" and "is_space (class_of E)" and "f \<in> {None, Some [CType], Some [CEnum], Some [CType, CEnum]}"
  shows "\<exists>a. object_at (st w) r p = Some a \<and> refines (st w) r (lookup n (st w) a path f c) (find_path n D p path f c)"
proof -
  obtain a where a: "stands_for L w r p a E" using part_stands_for[OF assms(1,2)] by blast
  have "refines (st w) r (lookup n (st w) a path f c) (find_path n D p path f c)"
    by (rule lookup_tree[OF assms(1) _ a assms(2,3)]) (use assms(4) in auto)
  then show ?thesis using a by (auto simp: stands_for_def)
qed

lemma small_tree: "tree True small_service 0 small_desc"
proof -
  have ok: "desc_ok small_desc" unfolding small_desc_def by code_simp
  then obtain w where "Root_fromJSON True (Suc 0) (json_of_desc small_desc) 0 start_runtime = (Inr 0, w)"
    "o_parent (objs (st w) 0) = None" "loaded True (node w) {0..<free (st w)} 0 small_desc"
    unfolding small_desc_def using root_loaded[of None _ True 0] by fastforce
  moreover from this(1) have "small_service = w" by (simp add: small_service_def del: json_of_desc.simps)
  ultimately show ?thesis
    using ok reachable_store_wf[OF small_service_reachable] by (auto simp: tree_def small_desc_def is_space_def)
qed

lemma lookup_refines_witness:
  "\<exists>a. object_at (st small_service) 0 [''network''] = Some a \<and>
     refines (st small_service) 0 (lookup 3 (st small_service) a [''ServerIdentity''] None False)
       (find_path 3 small_desc [''network''] [''ServerIdentity''] None False)"
  by (rule lookup_refines[OF small_tree]) (simp add: small_desc_def, simp_all add: is_space_def)

end
