(* ===== verification/Skeleton.thy ===== *)
theory Skeleton
  imports Trees
begin

text \<open>
  The service of the repository: \<open>skeleton.js\<close>, the descriptor of its messages, and the root that
  \<open>models/root.js\<close> loads from it.
\<close>

text \<open>\<open>skeleton.js\<close>, parsed.\<close>

definition skeleton :: json where
  "skeleton = JObj
     [(''nested'', JObj
        [(''cothority'', JObj []),
         (''dagacothority'', JObj
           [(''nested'', JObj
              [(''CreateContext'', JObj
                 [(''fields'', JObj
                    [(''serviceid'', JObj [(''rule'', JStr ''required''), (''type'', JStr ''bytes''), (''id'', JNum 1)]),
                     (''signature'', JObj [(''rule'', JStr ''required''), (''type'', JStr ''bytes''), (''id'', JNum 2)]),
                     (''subscriberskeys'', JObj [(''rule'', JStr ''repeated''), (''type'', JStr ''bytes''), (''id'', JNum 3)]),
                     (''daganodes'', JObj [(''type'', JStr ''onet.Roster''), (''id'', JNum 4)])])]),
               (''CreateContextReply'', JObj
                 [(''fields'', JObj [(''context'', JObj [(''rule'', JStr ''required''), (''type'', JStr ''Context''), (''id'', JNum 1)])])]),
               (''PKclientCommitments'', JObj
                 [(''fields'', JObj
                    [(''context'', JObj [(''rule'', JStr ''required''), (''type'', JStr ''Context''), (''id'', JNum 1)]),
                     (''commitments'', JObj [(''rule'', JStr ''repeated''), (''type'', JStr ''bytes''), (''id'', JNum 2)])])]),
               (''PKclientChallenge'', JObj
                 [(''fields'', JObj
                    [(''cs'', JObj [(''rule'', JStr ''required''), (''type'', JStr ''bytes''), (''id'', JNum 1)]),
                     (''sigs'', JObj
                       [(''rule'', JStr ''repeated''),
                        (''type'', JStr ''ServerSignature''),
                        (''id'', JNum 2),
                        (''options'', JObj [(''packed'', JBool False)])])])]),
               (''ServerSignature'', JObj
                 [(''fields'', JObj
                    [(''index'', JObj [(''rule'', JStr ''required''), (''type'', JStr ''sint32''), (''id'', JNum 1)]),
                     (''sig'', JObj [(''rule'', JStr ''required''), (''type'', JStr ''bytes''), (''id'', JNum 2)])])]),
               (''Auth'', JObj
                 [(''fields'', JObj
                    [(''context'', JObj [(''rule'', JStr ''required''), (''type'', JStr ''Context''), (''id'', JNum 1)]),
                     (''scommits'', JObj [(''rule'', JStr ''repeated''), (''type'', JStr ''bytes''), (''id'', JNum 2)]),
                     (''t0'', JObj [(''rule'', JStr ''required''), (''type'', JStr ''bytes''), (''id'', JNum 3)]),
                     (''proof'', JObj [(''rule'', JStr ''required''), (''type'', JStr ''ClientProof''), (''id'', JNum 4)])])]),
               (''AuthReply'', JObj
                 [(''fields'', JObj
                    [(''request'', JObj [(''rule'', JStr ''required''), (''type'', JStr ''Auth''), (''id'', JNum 1)]),
                     (''tags'', JObj [(''rule'', JStr ''repeated''), (''type'', JStr ''bytes''), (''id'', JNum 2)]),
                     (''proofs'', JObj
                       [(''rule'', JStr ''repeated''),
                        (''type'', JStr ''ServerProof''),
                        (''id'', JNum 3),
                        (''options'', JObj [(''packed'', JBool False)])]),
                     (''indexes'', JObj
                       [(''rule'', JStr ''repeated''),
                        (''type'', JStr ''sint32''),
                        (''id'', JNum 4),
                        (''options'', JObj [(''packed'', JBool False)])]),
                     (''sigs'', JObj
                       [(''rule'', JStr ''repeated''),
                        (''type'', JStr ''ServerSignature''),
                        (''id'', JNum 5),
                        (''options'', JObj [(''packed'', JBool False)])])])]),
               (''ServerProof'', JObj
                 [(''fields'', JObj
                    [(''t1'', JObj [(''rule'', JStr ''required''), (''type'', JStr ''bytes''), (''id'', JNum 1)]),
                     (''t2'', JObj [(''rule'', JStr ''required''), (''type'', JStr ''bytes''), (''id'', JNum 2)]),
                     (''t3'', JObj [(''rule'', JStr ''required''), (''type'', JStr ''bytes''), (''id'', JNum 3)]),
                     (''c'', JObj [(''rule'', JStr ''required''), (''type'', JStr ''bytes''), (''id'', JNum 4)]),
                     (''r1'', JObj [(''rule'', JStr ''required''), (''type'', JStr ''bytes''), (''id'', JNum 5)]),
                     (''r2'', JObj [(''rule'', JStr ''required''), (''type'', JStr ''bytes''), (''id'', JNum 6)])])]),
               (''Context'', JObj
                 [(''fields'', JObj
                    [(''contextid'', JObj [(''rule'', JStr ''required''), (''type'', JStr ''bytes''), (''id'', JNum 1)]),
                     (''serviceid'', JObj [(''rule'', JStr ''required''), (''type'', JStr ''bytes''), (''id'', JNum 2)]),
                     (''signatures'', JObj [(''rule'', JStr ''repeated''), (''type'', JStr ''bytes''), (''id'', JNum 3)]),
                     (''x'', JObj [(''rule'', JStr ''repeated''), (''type'', JStr ''bytes''), (''id'', JNum 4)]),
                     (''y'', JObj [(''rule'', JStr ''repeated''), (''type'', JStr ''bytes''), (''id'', JNum 5)]),
                     (''r'', JObj [(''rule'', JStr ''repeated''), (''type'', JStr ''bytes''), (''id'', JNum 6)]),
                     (''h'', JObj [(''rule'', JStr ''repeated''), (''type'', JStr ''bytes''), (''id'', JNum 7)]),
                     (''roster'', JObj [(''type'', JStr ''onet.Roster''), (''id'', JNum 8)])])]),
               (''ClientProof'', JObj
                 [(''fields'', JObj
                    [(''cs'', JObj [(''rule'', JStr ''required''), (''type'', JStr ''PKclientChallenge''), (''id'', JNum 1)]),
                     (''t'', JObj [(''rule'', JStr ''repeated''), (''type'', JStr ''bytes''), (''id'', JNum 2)]),
                     (''c'', JObj [(''rule'', JStr ''repeated''), (''type'', JStr ''bytes''), (''id'', JNum 3)]),
                     (''r'', JObj [(''rule'', JStr ''repeated''), (''type'', JStr ''bytes''), (''id'', JNum 4)])])])])]),
         (''onet'', JObj
           [(''nested'', JObj
              [(''Roster'', JObj
                 [(''fields'', JObj
                    [(''id'', JObj [(''rule'', JStr ''required''), (''type'', JStr ''bytes''), (''id'', JNum 1)]),
                     (''list'', JObj
                       [(''rule'', JStr ''repeated''),
                        (''type'', JStr ''network.ServerIdentity''),
                        (''id'', JNum 2),
                        (''options'', JObj [(''packed'', JBool False)])]),
                     (''aggregate'', JObj [(''rule'', JStr ''required''), (''type'', JStr ''bytes''), (''id'', JNum 3)])])])])]),
         (''network'', JObj
           [(''nested'', JObj
              [(''ServerIdentity'', JObj
                 [(''fields'', JObj
                    [(''public'', JObj [(''rule'', JStr ''required''), (''type'', JStr ''bytes''), (''id'', JNum 1)]),
                     (''id'', JObj [(''rule'', JStr ''required''), (''type'', JStr ''bytes''), (''id'', JNum 2)]),
                     (''address'', JObj [(''rule'', JStr ''required''), (''type'', JStr ''string''), (''id'', JNum 3)]),
                     (''description'', JObj [(''rule'', JStr ''required''), (''type'', JStr ''string''), (''id'', JNum 4)]),
                     (''url'', JObj [(''type'', JStr ''string''), (''id'', JNum 5)])])])])]),
         (''StatusRequest'', JObj [(''fields'', JObj [])]),
         (''StatusResponse'', JObj
           [(''fields'', JObj
              [(''system'', JObj [(''keyType'', JStr ''string''), (''type'', JStr ''Status''), (''id'', JNum 1)]),
               (''server'', JObj [(''type'', JStr ''network.ServerIdentity''), (''id'', JNum 2)])]),
            (''nested'', JObj
              [(''Status'', JObj
                 [(''fields'', JObj [(''field'', JObj [(''keyType'', JStr ''string''), (''type'', JStr ''string''), (''id'', JNum 1)])])])])])])]"

text \<open>The descriptor it stands for.\<close>

definition skeleton_desc :: desc where
  "skeleton_desc = NamespaceD None [(''cothority'', NamespaceD None []),
        (''dagacothority'', NamespaceD None [(''CreateContext'', TypeD None
               [(''serviceid'', FieldD (Some ''required'') ''bytes'' 1 None),
                (''signature'', FieldD (Some ''required'') ''bytes'' 2 None),
                (''subscriberskeys'', FieldD (Some ''repeated'') ''bytes'' 3 None),
                (''daganodes'', FieldD None ''onet.Roster'' 4 None)] None [] False []),
            (''CreateContextReply'', TypeD None
               [(''context'', FieldD (Some ''required'') ''Context'' 1 None)] None [] False []),
            (''PKclientCommitments'', TypeD None
               [(''context'', FieldD (Some ''required'') ''Context'' 1 None),
                (''commitments'', FieldD (Some ''repeated'') ''bytes'' 2 None)] None [] False []),
            (''PKclientChallenge'', TypeD None
               [(''cs'', FieldD (Some ''required'') ''bytes'' 1 None),
                (''sigs'', FieldD (Some ''repeated'') ''ServerSignature'' 2 (Some [(''packed'', JBool False)]))] None [] False []),
            (''ServerSignature'', TypeD None
               [(''index'', FieldD (Some ''required'') ''sint32'' 1 None),
                (''sig'', FieldD (Some ''required'') ''bytes'' 2 None)] None [] False []),
            (''Auth'', TypeD None
               [(''context'', FieldD (Some ''required'') ''Context'' 1 None),
                (''scommits'', FieldD (Some ''repeated'') ''bytes'' 2 None),
                (''t0'', FieldD (Some ''required'') ''bytes'' 3 None),
                (''proof'', FieldD (Some ''required'') ''ClientProof'' 4 None)] None [] False []),
            (''AuthReply'', TypeD None
               [(''request'', FieldD (Some ''required'') ''Auth'' 1 None),
                (''tags'', FieldD (Some ''repeated'') ''bytes'' 2 None),
                (''proofs'', FieldD (Some ''repeated'') ''ServerProof'' 3 (Some [(''packed'', JBool False)])),
                (''indexes'', FieldD (Some ''repeated'') ''sint32'' 4 (Some [(''packed'', JBool False)])),
                (''sigs'', FieldD (Some ''repeated'') ''ServerSignature'' 5 (Some [(''packed'', JBool False)]))] None [] False []),
            (''ServerProof'', TypeD None
               [(''t1'', FieldD (Some ''required'') ''bytes'' 1 None),
                (''t2'', FieldD (Some ''required'') ''bytes'' 2 None),
                (''t3'', FieldD (Some ''required'') ''bytes'' 3 None),
                (''c'', FieldD (Some ''required'') ''bytes'' 4 None),
                (''r1'', FieldD (Some ''required'') ''bytes'' 5 None),
                (''r2'', FieldD (Some ''required'') ''bytes'' 6 None)] None [] False []),
            (''Context'', TypeD None
               [(''contextid'', FieldD (Some ''required'') ''bytes'' 1 None),
                (''serviceid'', FieldD (Some ''required'') ''bytes'' 2 None),
                (''signatures'', FieldD (Some ''repeated'') ''bytes'' 3 None),
                (''x'', FieldD (Some ''repeated'') ''bytes'' 4 None),
                (''y'', FieldD (Some ''repeated'') ''bytes'' 5 None),
                (''r'', FieldD (Some ''repeated'') ''bytes'' 6 None),
                (''h'', FieldD (Some ''repeated'') ''bytes'' 7 None),
                (''roster'', FieldD None ''onet.Roster'' 8 None)] None [] False []),
            (''ClientProof'', TypeD None
               [(''cs'', FieldD (Some ''required'') ''PKclientChallenge'' 1 None),
                (''t'', FieldD (Some ''repeated'') ''bytes'' 2 None),
                (''c'', FieldD (Some ''repeated'') ''bytes'' 3 None),
                (''r'', FieldD (Some ''repeated'') ''bytes'' 4 None)] None [] False [])]),
        (''onet'', NamespaceD None [(''Roster'', TypeD None
               [(''id'', FieldD (Some ''required'') ''bytes'' 1 None),
                (''list'', FieldD (Some ''repeated'') ''network.ServerIdentity'' 2 (Some [(''packed'', JBool False)])),
                (''aggregate'', FieldD (Some ''required'') ''bytes'' 3 None)] None [] False [])]),
        (''network'', NamespaceD None [(''ServerIdentity'', TypeD None
               [(''public'', FieldD (Some ''required'') ''bytes'' 1 None),
                (''id'', FieldD (Some ''required'') ''bytes'' 2 None),
                (''address'', FieldD (Some ''required'') ''string'' 3 None),
                (''description'', FieldD (Some ''required'') ''string'' 4 None),
                (''url'', FieldD None ''string'' 5 None)] None [] False [])]),
        (''StatusRequest'', TypeD None [] None [] False []),
        (''StatusResponse'', TypeD None
           [(''system'', MapD ''string'' ''Status'' 1 None),
            (''server'', FieldD None ''network.ServerIdentity'' 2 None)] None [] False
           [(''Status'', TypeD None
               [(''field'', MapD ''string'' ''string'' 1 None)] None [] False [])])]"

lemma skeleton_desc: "skeleton = json_of_desc skeleton_desc"
  by (simp add: skeleton_def skeleton_desc_def some_object_def toObject_def map_filter_simps json_of_reserved_def)

text \<open>\<open>models/root.js\<close>\<close>

definition models_root :: "bool \<Rightarrow> nat \<Rightarrow> nat prog" where
  "models_root L d w = Root_fromJSON L d skeleton 0 w"

lemma skeleton_ok: "desc_ok skeleton_desc"
  unfolding skeleton_desc_def by code_simp

lemma skeleton_references: "references_resolve 12 skeleton_desc"
  unfolding skeleton_desc_def by code_simp

text \<open>The message types, with their paths.\<close>

definition message_types :: "(string list \<times> desc) list" where
  "message_types = filter (\<lambda>(p, E). class_of E = CType) (parts [] skeleton_desc)"

lemma message_types:
  "list_all (\<lambda>(p, E). join_dots p \<noteq> [] \<and> join_dots p \<noteq> ''.'' \<and> part skeleton_desc p = Some E \<and> \<not> is_group E \<and>
     find_path 12 skeleton_desc [] (split_dots (join_dots p)) None False = Some (Some p)) message_types"
  unfolding message_types_def skeleton_desc_def by code_simp

lemma no_signature_request:
  "find_path 12 skeleton_desc [] (split_dots ''SignatureRequest'') None False = Some None"
  unfolding skeleton_desc_def by code_simp

lemma skeleton_loaded:
  "\<exists>w. models_root L (Suc d) start_runtime = (Inr 0, w) \<and> reachable (st w) \<and> placed 1 w \<and> tree L w 0 skeleton_desc"
proof -
  obtain ns where D: "skeleton_desc = NamespaceD None ns" by (simp add: skeleton_desc_def)
  obtain w where w: "Root_fromJSON L (Suc d) (json_of_desc skeleton_desc) 0 start_runtime = (Inr 0, w)"
    "reachable (st w)" "placed 1 w" "o_parent (objs (st w) 0) = None"
    "loaded L (node w) {0..<free (st w)} 0 skeleton_desc"
    using root_loaded[of None ns L d] skeleton_ok unfolding D by auto
  then have "tree L w 0 skeleton_desc"
    using skeleton_ok reachable_store_wf[OF w(2)] by (auto simp: tree_def D is_space_def)
  then show ?thesis using w by (auto simp: models_root_def skeleton_desc)
qed

text \<open>C2 The shipped descriptor is a working service: \<open>skeleton.js\<close> loads without an error, every reference
  between its messages resolves, and \<open>getModel\<close> finds every message type under its full name, with the fields
  that the descriptor lists, so that \<open>service_ok\<close> and the schema hold for all of them. There is no message
  \<open>SignatureRequest\<close>, which \<open>cothority-protobuf.test.js\<close> decodes.\<close>

theorem skeleton_service:
  "\<exists>w. models_root L (Suc d) start_runtime = (Inr 0, w) \<and> service_ok fromNum 12 w \<and>
    list_all (\<lambda>(p, E). \<exists>a T. getModel 12 0 (join_dots p) w = Some (Some a) \<and>
        schema_of fromNum 12 (Suc (Suc e)) w a = Some T \<and> \<not> mt_group T \<and>
        map info_of (mt_fieldsArray T) = map (\<lambda>(k, F). codec_info k F) (fields_of E)) message_types \<and>
    getModel 12 0 ''SignatureRequest'' w = Some None"
proof -
  obtain w where w: "models_root L (Suc d) start_runtime = (Inr 0, w)" "reachable (st w)" "placed 1 w"
    "tree L w 0 skeleton_desc"
    using skeleton_loaded by blast
  have root: "stands_for L w 0 [] 0 skeleton_desc" "is_space (class_of skeleton_desc)"
    using stands_for_root[OF w(4)] w(4) by (simp_all add: tree_def)
  have ok: "service_ok fromNum 12 w" by (rule service_loaded[OF w(4,3,2) skeleton_references])
  have look: "refines (st w) 0 (getModel 12 0 name w) (find_path 12 skeleton_desc [] (split_dots name) None False)"
    if "name \<noteq> []" "name \<noteq> ''.''" for name
    using lookup_tree[OF w(4) _ root(1) _ root(2), of None 12 "split_dots name" False] that
    by (simp add: getModel_def lookup_string_def)
  have "\<exists>a T. getModel 12 0 (join_dots p) w = Some (Some a) \<and> schema_of fromNum 12 (Suc (Suc e)) w a = Some T \<and>
      \<not> mt_group T \<and> map info_of (mt_fieldsArray T) = map (\<lambda>(k, F). codec_info k F) (fields_of E)"
    if m: "(p, E) \<in> set message_types" for p E
  proof -
    have f: "join_dots p \<noteq> []" "join_dots p \<noteq> ''.''" "part skeleton_desc p = Some E" "\<not> is_group E"
      "find_path 12 skeleton_desc [] (split_dots (join_dots p)) None False = Some (Some p)"
      using message_types m unfolding list_all_iff by blast+
    obtain a where a: "stands_for L w 0 p a E" using part_stands_for[OF w(4) f(3)] by blast
    then have g: "getModel 12 0 (join_dots p) w = Some (Some a)"
      using look[OF f(1,2)] f(5) by (simp add: refines_def stands_for_def)
    obtain R where l: "loaded L (node w) R a E" using a by (auto simp: stands_for_def)
    have "class_of E = CType" using m by (simp add: message_types_def)
    then have "o_class (objs (st w) a) = CType" using loaded_kind[OF l] by (auto simp: kind_of_def split: if_splits)
    from type_of_service[OF ok this l, of e] g f(4) show ?thesis by auto
  qed
  moreover have "getModel 12 0 ''SignatureRequest'' w = Some None"
    using look[of "''SignatureRequest''"] no_signature_request by (simp add: refines_def)
  ultimately show ?thesis using w(1) ok by (auto simp: list_all_iff)
qed

end
