(* ===== verification/Verify.thy ===== *)
theory Verify
  imports Codec
begin

text \<open>
  The code that \<open>verifier\<close> generates for a message type: the reason why a value is not a valid
  message, or nothing. A field here also has the oneof it is part of and, when its type is an enum,
  the enum's values. A message is an instance, whose prototype has the fields' default values. A value is what the codec's messages are made of, or \<open>None\<close> for
  \<open>null\<close> and \<open>undefined\<close>; whether a floating point value is an integer is outside the model.
\<close>

section \<open>Types\<close>

record vfield = field +
  f_partOf :: "string option"
  f_values :: "(string \<times> int) list"

record vtype =
  vt_name :: string
  vt_fields :: "vfield list"
  vt_group :: bool

type_synonym vschema = "nat \<Rightarrow> vtype option"

text \<open>The result of a check: the error text, if any.\<close>

type_synonym check = "string option outcome"

abbreviation ok :: check where
  "ok \<equiv> Done None"

fun and_then :: "check \<Rightarrow> check \<Rightarrow> check" where
  "and_then (Done None) k = k"
| "and_then c k = c"

fun check_all :: "('a \<Rightarrow> check) \<Rightarrow> 'a list \<Rightarrow> check" where
  "check_all f [] = ok"
| "check_all f (x # xs) = and_then (f x) (check_all f xs)"

definition invalid :: "vfield \<Rightarrow> string \<Rightarrow> string" where
  "invalid f expected =
     f_name f @ '': '' @ expected @
     (if f_repeated f \<and> expected \<noteq> ''array'' then ''[]''
      else case f_keyType f of
          Some k \<Rightarrow> if expected \<noteq> ''object'' then ''{k:'' @ k @ ''}'' else []
        | None \<Rightarrow> []) @ '' expected''"

definition expect :: "bool \<Rightarrow> vfield \<Rightarrow> string \<Rightarrow> check" where
  "expect b f what = (if b then ok else Done (Some (invalid f what)))"

section \<open>Keys\<close>

definition is_digit16 :: "u16 \<Rightarrow> bool" where
  "is_digit16 c \<longleftrightarrow> 48 \<le> c \<and> c \<le> 57"

text \<open>\<open>key32Re\<close>: a decimal number without leading zeros.\<close>

definition key32Re :: "js_string \<Rightarrow> bool" where
  "key32Re k =
     (let d = (if k \<noteq> [] \<and> hd k = 45 then tl k else k)
      in d = [48] \<or> (d \<noteq> [] \<and> hd d \<noteq> 48 \<and> list_all is_digit16 d))"

text \<open>
  \<open>key64Re\<close>: the class \<open>[\\x00-\\xff]\<close> has its backslashes doubled, so it is the set of a
  backslash, \<open>x\<close>, \<open>f\<close>, \<open>0\<close> and the range from \<open>0\<close> to a backslash.
\<close>

definition key64_class :: "u16 \<Rightarrow> bool" where
  "key64_class c \<longleftrightarrow> (48 \<le> c \<and> c \<le> 92) \<or> c = 120 \<or> c = 102"

definition key64Re :: "js_string \<Rightarrow> bool" where
  "key64Re k \<longleftrightarrow> (length k = 8 \<and> list_all key64_class k) \<or> key32Re k"

text \<open>\<open>key2Re\<close>: the alternatives bind weaker than the anchors.\<close>

definition js_true :: js_string where
  "js_true = [116, 114, 117, 101]"

definition js_false :: js_string where
  "js_false = [102, 97, 108, 115, 101]"

fun has_substring :: "'a list \<Rightarrow> 'a list \<Rightarrow> bool" where
  "has_substring p [] \<longleftrightarrow> p = []"
| "has_substring p (x # xs) \<longleftrightarrow> take (length p) (x # xs) = p \<or> has_substring p xs"

definition key2Re :: "js_string \<Rightarrow> bool" where
  "key2Re k \<longleftrightarrow> take 4 k = js_true \<or> has_substring js_false k \<or> 48 \<in> set k \<or> (k \<noteq> [] \<and> last k = 49)"

definition ints32 :: "string list" where
  "ints32 = [''int32'', ''uint32'', ''sint32'', ''fixed32'', ''sfixed32'']"

definition ints64 :: "string list" where
  "ints64 = [''int64'', ''uint64'', ''sint64'', ''fixed64'', ''sfixed64'']"

definition verify_key :: "vfield \<Rightarrow> js_string \<Rightarrow> check" where
  "verify_key f k =
     (case f_keyType f of
        None \<Rightarrow> ok
      | Some t \<Rightarrow>
          if t \<in> set ints32 then expect (key32Re k) f ''integer key''
          else if t \<in> set ints64 then expect (key64Re k) f ''integer|Long key''
          else if t = ''bool'' then expect (key2Re k) f ''boolean key''
          else ok)"

section \<open>Values\<close>

definition verify_basic :: "vfield \<Rightarrow> val option \<Rightarrow> check" where
  "verify_basic f v =
     (let t = f_type f
      in if t \<in> set ints32 then
           (case v of
              Some (VInt n) \<Rightarrow> ok
            | Some (VFloat x) \<Rightarrow> Outside
            | Some (VDouble x) \<Rightarrow> Outside
            | _ \<Rightarrow> expect False f ''integer'')
         else if t \<in> set ints64 then
           (case v of
              Some (VInt n) \<Rightarrow> ok
            | Some (VLong l) \<Rightarrow> ok
            | Some (VFloat x) \<Rightarrow> Outside
            | Some (VDouble x) \<Rightarrow> Outside
            | Some (VMsg slots) \<Rightarrow> Outside
            | Some (VMap m) \<Rightarrow> Outside
            | _ \<Rightarrow> expect False f ''integer|Long'')
         else if t = ''float'' \<or> t = ''double'' then
           (case v of
              Some (VInt n) \<Rightarrow> ok
            | Some (VFloat x) \<Rightarrow> ok
            | Some (VDouble x) \<Rightarrow> ok
            | _ \<Rightarrow> expect False f ''number'')
         else if t = ''bool'' then
           (case v of Some (VBool b) \<Rightarrow> ok | _ \<Rightarrow> expect False f ''boolean'')
         else if t = ''string'' then
           (case v of Some (VString s) \<Rightarrow> ok | _ \<Rightarrow> expect False f ''string'')
         else if t = ''bytes'' then
           (case v of
              Some (VBytes b) \<Rightarrow> ok
            | Some (VString s) \<Rightarrow> ok
            | Some (VList vs) \<Rightarrow> ok
            | Some (VMsg slots) \<Rightarrow> Outside
            | Some (VMap m) \<Rightarrow> Outside
            | _ \<Rightarrow> expect False f ''buffer'')
         else ok)"

definition verify_enum :: "vfield \<Rightarrow> val option \<Rightarrow> check" where
  "verify_enum f v =
     (case v of
        Some (VInt n) \<Rightarrow> expect (n \<in> snd ` set (f_values f)) f ''enum value''
      | Some (VFloat x) \<Rightarrow> Outside
      | Some (VDouble x) \<Rightarrow> Outside
      | _ \<Rightarrow> expect False f ''enum value'')"

text \<open>\<open>genVerifyValue\<close>; \<open>rec\<close> is the \<open>verify\<close> of the field's type.\<close>

definition verify_value :: "vschema \<Rightarrow> (vtype \<Rightarrow> val option \<Rightarrow> check) \<Rightarrow> vfield \<Rightarrow> val option \<Rightarrow> check" where
  "verify_value S rec f v =
     (case f_resolvedType f of
        EnumType \<Rightarrow> verify_enum f v
      | MessageType n \<Rightarrow>
          (case S n of
             None \<Rightarrow> Outside
           | Some T \<Rightarrow>
               (case rec T v of
                  Done (Some e) \<Rightarrow> Done (Some (f_name f @ ''.'' @ e))
                | c \<Rightarrow> c))
      | Basic \<Rightarrow> verify_basic f v)"

section \<open>Messages\<close>

text \<open>What \<open>m.field\<close> reads: the message's own property or its prototype's.\<close>

definition field_value :: "vfield \<Rightarrow> val option \<Rightarrow> val option" where
  "field_value f slot = (case slot of None \<Rightarrow> f_defaultValue f | Some v \<Rightarrow> Some v)"

text \<open>
  The checks of one field; \<open>seen\<close> are the oneofs that have a member among the fields before
  (the properties of \<open>p\<close>).
\<close>

definition verify_field ::
  "vschema \<Rightarrow> (vtype \<Rightarrow> val option \<Rightarrow> check) \<Rightarrow> string list \<Rightarrow> vfield \<Rightarrow> val option \<Rightarrow> check" where
  "verify_field S rec seen f slot =
     (if \<not> f_required f \<and> slot = None then ok
      else if f_keyType f \<noteq> None then
        (case field_value f slot of
           Some (VMap m) \<Rightarrow> check_all (\<lambda>(k, v). and_then (verify_key f k) (verify_value S rec f (Some v))) m
         | Some (VMsg slots) \<Rightarrow> Outside
         | Some (VLong l) \<Rightarrow> Outside
         | Some (VBytes b) \<Rightarrow> Outside
         | Some (VList vs) \<Rightarrow> Outside
         | _ \<Rightarrow> expect False f ''object'')
      else if f_repeated f then
        (case field_value f slot of
           Some (VList vs) \<Rightarrow> check_all (\<lambda>v. verify_value S rec f (Some v)) vs
         | _ \<Rightarrow> expect False f ''array'')
      else
        (case f_partOf f of
           Some p \<Rightarrow>
             if p \<in> set seen then Done (Some (p @ '': multiple values''))
             else verify_value S rec f (field_value f slot)
         | None \<Rightarrow> verify_value S rec f (field_value f slot)))"

text \<open>The oneof that a field marks when it is looked at.\<close>

definition oneof_of :: "vfield \<Rightarrow> val option \<Rightarrow> string option" where
  "oneof_of f slot =
     (if (f_required f \<or> slot \<noteq> None) \<and> f_keyType f = None \<and> \<not> f_repeated f then f_partOf f else None)"

definition mark :: "string list \<Rightarrow> vfield \<Rightarrow> val option \<Rightarrow> string list" where
  "mark seen f slot = (case oneof_of f slot of Some p \<Rightarrow> p # seen | None \<Rightarrow> seen)"

fun verify_fields ::
  "vschema \<Rightarrow> (vtype \<Rightarrow> val option \<Rightarrow> check) \<Rightarrow> string list \<Rightarrow> (vfield \<times> val option) list \<Rightarrow> check" where
  "verify_fields S rec seen [] = ok"
| "verify_fields S rec seen ((f, slot) # fs) =
     and_then (verify_field S rec seen f slot) (verify_fields S rec (mark seen f slot) fs)"

text \<open>The first argument is the depth of calls that the stack has room for.\<close>

fun verify :: "nat \<Rightarrow> vschema \<Rightarrow> vtype \<Rightarrow> val option \<Rightarrow> check" where
  "verify 0 S T m = Thrown stack_overflow"
| "verify (Suc d) S T m =
     (case m of
        Some (VMsg slots) \<Rightarrow> verify_fields S (verify d S) [] (zip (vt_fields T) slots)
      | Some (VMap m) \<Rightarrow> Outside
      | Some (VList vs) \<Rightarrow> Outside
      | Some (VBytes b) \<Rightarrow> Outside
      | Some (VLong l) \<Rightarrow> Outside
      | _ \<Rightarrow> Done (Some ''object expected''))"

section \<open>Results of checks\<close>

lemma and_then_ok [simp]: "and_then c k = ok \<longleftrightarrow> c = ok \<and> k = ok"
proof (cases c)
  case (Done e)
  then show ?thesis by (cases e) simp_all
qed simp_all

lemma check_all_ok [simp]: "check_all f xs = ok \<longleftrightarrow> (\<forall>x \<in> set xs. f x = ok)"
  by (induction xs) auto

lemma expect_ok [simp]: "expect b f what = ok \<longleftrightarrow> b"
  by (simp add: expect_def)

section \<open>Oneofs\<close>

text \<open>The oneofs of the fields that are set, in order.\<close>

definition set_oneofs :: "(vfield \<times> val option) list \<Rightarrow> string list" where
  "set_oneofs fs = List.map_filter (\<lambda>(f, slot). oneof_of f slot) fs"

lemma set_oneofs_simps [simp]:
  "set_oneofs [] = []"
  "oneof_of f slot = None \<Longrightarrow> set_oneofs ((f, slot) # fs) = set_oneofs fs"
  "oneof_of f slot = Some p \<Longrightarrow> set_oneofs ((f, slot) # fs) = p # set_oneofs fs"
  by (simp_all add: set_oneofs_def map_filter_simps)

lemma verify_field_ok:
  "verify_field S rec seen f slot = ok \<longleftrightarrow>
     verify_field S rec [] f slot = ok \<and> (\<forall>p. oneof_of f slot = Some p \<longrightarrow> p \<notin> set seen)"
  by (cases "f_partOf f"; cases "field_value f slot") (auto simp: verify_field_def oneof_of_def split: val.split)

lemma verify_fields_ok:
  "verify_fields S rec seen fs = ok \<longleftrightarrow>
     (\<forall>(f, slot) \<in> set fs. verify_field S rec [] f slot = ok) \<and>
     distinct (set_oneofs fs) \<and> set (set_oneofs fs) \<inter> set seen = {}"
proof (induction S rec seen fs rule: verify_fields.induct)
  case (2 S rec seen f slot fs)
  show ?case
    using "2.IH" verify_field_ok[of S rec seen f slot] by (cases "oneof_of f slot") (auto simp: mark_def)
qed simp

text \<open>C15 A message is valid exactly if each of its fields is valid by itself and no oneof has two
  members set; in particular the order of the fields does not matter for the verdict.\<close>

theorem verify_spec:
  "verify (Suc d) S T (Some (VMsg slots)) = ok \<longleftrightarrow>
     list_all (\<lambda>(f, slot). verify_field S (verify d S) [] f slot = ok) (zip (vt_fields T) slots) \<and>
     distinct (set_oneofs (zip (vt_fields T) slots))"
  by (simp add: verify_fields_ok list_all_iff)

section \<open>Valid messages are encoded\<close>

definition mtype_of :: "vtype \<Rightarrow> mtype" where
  "mtype_of T = \<lparr>mt_name = vt_name T, mt_fieldsArray = map field.truncate (vt_fields T), mt_group = vt_group T\<rparr>"

definition schema_of :: "vschema \<Rightarrow> schema" where
  "schema_of S n = map_option mtype_of (S n)"

lemma truncate_simps [simp]:
  "f_name (field.truncate f) = f_name f" "f_id (field.truncate f) = f_id f" "f_type (field.truncate f) = f_type f"
  "f_required (field.truncate f) = f_required f" "f_repeated (field.truncate f) = f_repeated f"
  "f_keyType (field.truncate f) = f_keyType f" "f_packed (field.truncate f) = f_packed f"
  "f_resolvedType (field.truncate f) = f_resolvedType f" "f_defaultValue (field.truncate f) = f_defaultValue f"
  by (simp_all add: field.truncate_def)

text \<open>An encoding that does not throw, unless the stack is used up.\<close>

definition no_throw :: "'a outcome \<Rightarrow> bool" where
  "no_throw p \<longleftrightarrow> (case p of Thrown e \<Rightarrow> e = stack_overflow | _ \<Rightarrow> True)"

lemma no_throw_simps [simp]: "no_throw (Done x)" "no_throw Outside"
  by (simp_all add: no_throw_def)

lemma no_throw_bind: "no_throw p \<Longrightarrow> (\<And>x. p = Done x \<Longrightarrow> no_throw (g x)) \<Longrightarrow> no_throw (bind_outcome p g)"
  by (cases p) (simp_all add: no_throw_def)

lemma no_throw_fold: "(\<And>x w. x \<in> set xs \<Longrightarrow> no_throw (f x w)) \<Longrightarrow> no_throw (fold_outcome f xs w)"
  by (induction xs arbitrary: w) (auto intro: no_throw_bind)

lemma no_throw_method: "no_throw (write_method type v w)"
  by (simp add: write_method_def write_int_def write_long_def split: val.splits option.splits)

text \<open>The contract between the verifier and the encoder of nested messages.\<close>

locale verified_encoder =
  fixes S :: vschema
    and ver :: "vtype \<Rightarrow> val option \<Rightarrow> check"
    and enc :: "mtype \<Rightarrow> val option list \<Rightarrow> writer \<Rightarrow> writer outcome"
  assumes ver_msg: "ver T v = ok \<Longrightarrow> \<exists>x. v = Some x"
    and ver_enc: "ver T (Some (VMsg slots)) = ok \<Longrightarrow> no_throw (enc (mtype_of T) slots w)"
begin

lemma nested_no_throw:
  assumes "verify_value S ver f v = ok" and "f_resolvedType f = MessageType n"
  shows "no_throw (encode_nested (schema_of S) enc (field.truncate f) v w)"
proof (cases "S n")
  case (Some T)
  then have "ver T v = ok" using assms by (auto simp: verify_value_def split: outcome.splits option.splits)
  then show ?thesis
    using Some assms(2) ver_msg[of T v] ver_enc[of T]
    by (auto simp: encode_nested_def schema_of_def intro!: no_throw_bind split: val.splits option.splits)
qed (use assms in \<open>simp add: encode_nested_def schema_of_def\<close>)

lemma value_no_throw:
  assumes "verify_value S ver f v = ok"
  shows "no_throw (encode_value (schema_of S) enc (field.truncate f) v w)"
  using nested_no_throw[OF assms]
  by (cases "f_resolvedType f")
     (auto simp: encode_value_def codec_type_def encode_nested_def no_throw_method split: option.splits)

lemma entry_no_throw:
  assumes "verify_value S ver f (Some (snd kv)) = ok"
  shows "no_throw (encode_entry (schema_of S) enc (field.truncate f) kv w)"
proof (cases "f_resolvedType f")
  case (MessageType n)
  show ?thesis
  proof (cases "S n")
    case (Some T)
    then have "ver T (Some (snd kv)) = ok"
      using assms MessageType by (auto simp: verify_value_def split: outcome.splits option.splits)
    then show ?thesis
      using Some MessageType ver_enc[of T]
      by (auto simp: encode_entry_def schema_of_def Let_def no_throw_method intro!: no_throw_bind
          split: val.splits option.splits)
  qed (auto simp: encode_entry_def schema_of_def Let_def MessageType no_throw_method intro!: no_throw_bind split: option.splits)
qed (auto simp: encode_entry_def Let_def no_throw_method intro!: no_throw_bind split: option.splits)

lemma field_no_throw:
  assumes "verify_field S ver [] f slot = ok"
  shows "no_throw (encode_field (schema_of S) enc (field.truncate f, slot) w)"
proof (cases "\<not> f_required f \<and> slot = None")
  case False
  then have v: "f_keyType f \<noteq> None \<Longrightarrow> \<forall>m. slot = Some (VMap m) \<longrightarrow> (\<forall>kv \<in> set m. verify_value S ver f (Some (snd kv)) = ok)"
    "f_keyType f = None \<Longrightarrow> f_repeated f \<Longrightarrow> \<forall>vs. slot = Some (VList vs) \<longrightarrow> (\<forall>x \<in> set vs. verify_value S ver f (Some x) = ok)"
    "f_keyType f = None \<Longrightarrow> \<not> f_repeated f \<Longrightarrow> verify_value S ver f (field_value f slot) = ok"
    using assms by (auto simp: verify_field_def field_value_def split: option.splits val.splits)
  show ?thesis
    using v False
    by (auto simp: encode_field_def Let_def field_value_def no_throw_method
        intro!: no_throw_bind no_throw_fold entry_no_throw value_no_throw split: option.splits val.splits)
qed (auto simp: encode_field_def Let_def split: option.splits)

end

lemma verify_some: "verify d S T v = ok \<Longrightarrow> \<exists>x. v = Some x"
  by (cases d; cases v) simp_all

lemma zip_map_truncate: "zip (map g fs) slots = map (\<lambda>(f, s). (g f, s)) (zip fs slots)"
  by (simp add: zip_map1)

lemma verified_no_throw:
  "verify d' S T (Some (VMsg slots)) = ok \<Longrightarrow> no_throw (encode d (schema_of S) (mtype_of T) slots w)"
proof (induction d arbitrary: d' T slots w)
  case 0
  show ?case by (simp add: no_throw_def)
next
  case (Suc d)
  then obtain d2 where d': "d' = Suc d2" by (cases d') simp_all
  have l: "verified_encoder (verify d2 S) (encode d (schema_of S))"
    by unfold_locales (use Suc.IH verify_some in blast)+
  have "no_throw (encode_field (schema_of S) (encode d (schema_of S)) fs w)"
    if "fs \<in> set (zip (mt_fieldsArray (mtype_of T)) slots)" for fs w
  proof -
    obtain f slot where f: "fs = (field.truncate f, slot)" "(f, slot) \<in> set (zip (vt_fields T) slots)"
      using \<open>fs \<in> _\<close> by (auto simp: mtype_of_def zip_map_truncate)
    then have "verify_field S (verify d2 S) [] f slot = ok"
      using Suc.prems by (auto simp: d' verify_fields_ok)
    then show ?thesis using verified_encoder.field_no_throw[OF l] f(1) by simp
  qed
  then show ?case by (auto intro: no_throw_fold)
qed

interpretation checked: verified_encoder S "verify d' S" "encode d (schema_of S)" for S d' d
  by unfold_locales (use verified_no_throw verify_some in blast)+


definition point_type :: vtype where
  "point_type = \<lparr>vt_name = ''Point'', vt_fields =
     [\<lparr>f_name = ''x'', f_id = 1, f_type = ''int32'', f_required = True, f_repeated = False, f_keyType = None,
       f_packed = False, f_resolvedType = Basic, f_defaultValue = Some (VInt 0), f_partOf = None, f_values = []\<rparr>,
      \<lparr>f_name = ''label'', f_id = 2, f_type = ''string'', f_required = False, f_repeated = False, f_keyType = None,
       f_packed = False, f_resolvedType = Basic, f_defaultValue = Some (VString []), f_partOf = None, f_values = []\<rparr>],
     vt_group = False\<rparr>"


section \<open>Keys that the decoder makes\<close>

lemma drop_bit_small: "(x :: u32) < 2 ^ 24 \<Longrightarrow> drop_bit 24 x = 0"
  by (simp add: word_le_nat_alt word_less_nat_alt unat_drop_bit_eq flip: unat_eq_zero) (simp add: drop_bit_eq_div)

text \<open>The decoder names the entries of a map with 64-bit keys by the hashes of the keys, but the
  verifier rejects the hash of every key below \<open>2 ^ 56\<close>: a map that was just decoded is not
  valid.\<close>

theorem decoded_key_rejected:
  assumes "f_keyType f = Some t" and "t \<in> set ints64" and "hi b < 2 ^ 24"
  shows "\<exists>e. verify_key f (toHash b) = Done (Some e) \<and> fromHash (toHash b) = b"
proof -
  have l: "last (toHash b) = 0" "length (toHash b) = 8" "toHash b \<noteq> []"
    using assms(3) by (simp_all add: toHash_def drop_bit_small)
  then have z: "0 \<in> set (toHash b)" by (metis last_in_set)
  have "\<not> list_all key64_class (toHash b)" using z by (auto simp: list_all_iff key64_class_def intro!: bexI[of _ 0])
  moreover have "\<not> key32Re (toHash b)"
  proof -
    have "last (tl (toHash b)) = 0" "length (tl (toHash b)) = 7" using l by (simp_all add: last_tl toHash_def)
    then have "0 \<in> set (tl (toHash b))" by (metis last_in_set length_0_conv zero_neq_numeral)
    then show ?thesis
      using z l by (auto simp: key32Re_def Let_def list_all_iff is_digit16_def toHash_def split: if_splits)
  qed
  moreover have "t \<notin> set ints32" using assms(2) by (auto simp: ints64_def ints32_def)
  ultimately show ?thesis
    using assms(1,2) by (simp add: verify_key_def key64Re_def expect_def fromHash_toHash)
qed

theorem decoded_key_rejected_witness:
  "\<exists>e. verify_key ((hd (vt_fields point_type))\<lparr>f_keyType := Some ''int64''\<rparr>) (toHash (LongBits 5 0)) = Done (Some e) \<and>
    fromHash (toHash (LongBits 5 0)) = LongBits 5 0"
  by (rule decoded_key_rejected[where t = "''int64''"]) (simp_all add: point_type_def ints64_def LongBits_def)

end
