(* ===== verification/Sockets.thy ===== *)
theory Sockets
  imports Prelude
begin

text \<open>
  The part of the browser's \<open>WebSocket\<close> that the two web clients use: the ready state, which only
  moves forward, and \<open>send\<close>, which throws before the connection is open and silently discards
  after it has begun to close (both are the documented behaviour of the interface). Frames are byte
  lists.
\<close>

type_synonym frame = "byte list"

datatype ready_state = CONNECTING | OPEN | CLOSING | CLOSED

primrec ready_code :: "ready_state \<Rightarrow> nat" where
  "ready_code CONNECTING = 0"
| "ready_code OPEN = 1"
| "ready_code CLOSING = 2"
| "ready_code CLOSED = 3"

lemma ready_code_inj: "ready_code a = ready_code b \<Longrightarrow> a = b"
  by (cases a; cases b) simp_all

instantiation ready_state :: linorder
begin

definition less_eq_ready_state :: "ready_state \<Rightarrow> ready_state \<Rightarrow> bool" where
  "less_eq_ready_state a b \<longleftrightarrow> ready_code a \<le> ready_code b"

definition less_ready_state :: "ready_state \<Rightarrow> ready_state \<Rightarrow> bool" where
  "less_ready_state a b \<longleftrightarrow> ready_code a < ready_code b"

instance
  by standard (auto simp: less_eq_ready_state_def less_ready_state_def ready_code_inj)

end

lemmas ready_order = less_eq_ready_state_def less_ready_state_def

record socket =
  ws_url :: string
  ws_state :: ready_state
  ws_sent :: "frame list"

definition invalid_state :: js_error where
  "invalid_state = Error ''InvalidStateError''"

definition ws_send :: "frame \<Rightarrow> ('a socket_scheme) \<Rightarrow> js_error + 'a socket_scheme" where
  "ws_send m w =
     (case ws_state w of
        CONNECTING \<Rightarrow> Inl invalid_state
      | OPEN \<Rightarrow> Inr (w\<lparr>ws_sent := ws_sent w @ [m]\<rparr>)
      | _ \<Rightarrow> Inr w)"

text \<open>\<open>send\<close> as a statement of a listener: an exception is reported and the page goes on.\<close>

definition ws_try :: "frame \<Rightarrow> 'a socket_scheme \<Rightarrow> 'a socket_scheme" where
  "ws_try m w = (case ws_send m w of Inl e \<Rightarrow> w | Inr w' \<Rightarrow> w')"

lemma ws_try_simps [simp]:
  "ws_state w = OPEN \<Longrightarrow> ws_try m w = w\<lparr>ws_sent := ws_sent w @ [m]\<rparr>"
  "ws_state w \<noteq> OPEN \<Longrightarrow> ws_try m w = w"
  by (auto simp: ws_try_def ws_send_def split: ready_state.splits)

lemma ws_try_state [simp]: "ws_state (ws_try m w) = ws_state w"
  by (cases "ws_state w = OPEN") simp_all

lemma ws_try_url [simp]: "ws_url (ws_try m w) = ws_url w"
  by (cases "ws_state w = OPEN") simp_all

lemma ws_try_fold:
  "ws_state w = OPEN \<Longrightarrow> fold ws_try ms w = w\<lparr>ws_sent := ws_sent w @ ms\<rparr>"
  by (induction ms arbitrary: w) simp_all

end
