(* ===== verification/Daga.thy ===== *)
theory Daga
  imports Sockets "HOL-Library.Sublist"
begin

text \<open>
  \<open>createSocket\<close> of \<open>daga.js\<close> and the events of the sockets it makes. The object \<open>socket\<close> that
  the caller keeps maps addresses to sockets; a request adds its listeners to the socket of its
  address. Listeners are closures of their request, which a number names; the callbacks they make are
  logged. The listeners of one event run on the list as it was when the event was fired.
\<close>

section \<open>Sockets and their listeners\<close>

record client_socket = socket +
  l_open :: "frame list"
  l_message :: "nat list"
  l_error :: "nat list"

datatype call = Replied nat frame | Failed nat

record client =
  socks :: "client_socket list"
  calls :: "call list"

type_synonym sock_dict = "string \<Rightarrow> nat option"

definition new_sock :: "string \<Rightarrow> client_socket" where
  "new_sock address =
     \<lparr>ws_url = address, ws_state = CONNECTING, ws_sent = [], l_open = [], l_message = [], l_error = []\<rparr>"

definition on_sock :: "nat \<Rightarrow> (client_socket \<Rightarrow> client_socket) \<Rightarrow> client \<Rightarrow> client" where
  "on_sock i f c = c\<lparr>socks := (socks c)[i := f (socks c ! i)]\<rparr>"

text \<open>
  \<open>if (!sock || sock.readyState > 2) sock = new WebSocket(address)\<close>; the constructor throws on an
  address that is not a WebSocket URL.
\<close>

definition open_socket ::
  "(string \<Rightarrow> bool) \<Rightarrow> sock_dict \<Rightarrow> string \<Rightarrow> client \<Rightarrow> js_error + nat \<times> sock_dict \<times> client" where
  "open_socket valid_url dict address c =
     (case (case dict address of
              None \<Rightarrow> None
            | Some i \<Rightarrow> if ws_state (socks c ! i) > CLOSING then None else Some i) of
        Some i \<Rightarrow> Inr (i, dict, c)
      | None \<Rightarrow>
          if \<not> valid_url address then Inl (Error ''SyntaxError'')
          else Inr (length (socks c), dict(address \<mapsto> length (socks c)), c\<lparr>socks := socks c @ [new_sock address]\<rparr>))"

text \<open>The rest of \<open>createSocket\<close>: the listeners, and the message now or once open.\<close>

definition enqueue :: "frame \<Rightarrow> nat \<Rightarrow> client_socket \<Rightarrow> client_socket" where
  "enqueue message req w =
     (let w' = w\<lparr>l_error := l_error w @ [req], l_message := l_message w @ [req]\<rparr>
      in if ws_state w = CONNECTING then w'\<lparr>l_open := l_open w @ [message]\<rparr> else ws_try message w')"

definition createSocket ::
  "(string \<Rightarrow> bool) \<Rightarrow> sock_dict option \<Rightarrow> string \<Rightarrow> frame \<Rightarrow> nat \<Rightarrow> client \<Rightarrow> (js_error + sock_dict) \<times> client" where
  "createSocket valid_url socket address message req c =
     (case open_socket valid_url (case socket of None \<Rightarrow> Map.empty | Some d \<Rightarrow> d) address c of
        Inl e \<Rightarrow> (Inl e, c)
      | Inr (i, d, c') \<Rightarrow> (Inr d, on_sock i (enqueue message req) c'))"

section \<open>Events\<close>

definition sock_opened :: "nat \<Rightarrow> client \<Rightarrow> client" where
  "sock_opened i = on_sock i (\<lambda>w. fold ws_try (l_open w) (w\<lparr>ws_state := OPEN\<rparr>))"

definition onMessage :: "nat \<Rightarrow> frame \<Rightarrow> nat \<Rightarrow> client \<Rightarrow> client" where
  "onMessage i data req c =
     (on_sock i (\<lambda>w. w\<lparr>l_message := removeAll req (l_message w)\<rparr>) c)\<lparr>calls := calls c @ [Replied req data]\<rparr>"

definition onError :: "nat \<Rightarrow> nat \<Rightarrow> client \<Rightarrow> client" where
  "onError i req c =
     (on_sock i (\<lambda>w. w\<lparr>l_error := removeAll req (l_error w)\<rparr>) c)\<lparr>calls := calls c @ [Failed req]\<rparr>"

definition sock_message :: "nat \<Rightarrow> frame \<Rightarrow> client \<Rightarrow> client" where
  "sock_message i data c = fold (onMessage i data) (l_message (socks c ! i)) c"

definition sock_moves :: "nat \<Rightarrow> ready_state \<Rightarrow> client \<Rightarrow> client" where
  "sock_moves i st = on_sock i (\<lambda>w. w\<lparr>ws_state := st\<rparr>)"

text \<open>A connection that fails is closed before its listeners run.\<close>

definition sock_failed :: "nat \<Rightarrow> client \<Rightarrow> client" where
  "sock_failed i c = fold (onError i) (l_error (socks c ! i)) (sock_moves i CLOSED c)"

section \<open>Runs\<close>

text \<open>
  A page that keeps the object \<open>createSocket\<close> returns, the requests it has issued with the socket
  they went to (a request is named by its position), and the frames it has received. A request is
  issued when nothing forbids it (\<open>may\<close>); the events come when the browser sends them.
\<close>

record page =
  p_client :: client
  p_dict :: "sock_dict option"
  p_issued :: "(nat \<times> frame) list"
  p_received :: "(nat \<times> frame) list"

definition start_page :: page where
  "start_page = \<lparr>p_client = \<lparr>socks = [], calls = []\<rparr>, p_dict = None, p_issued = [], p_received = []\<rparr>"

definition sock :: "page \<Rightarrow> nat \<Rightarrow> client_socket" where
  "sock p i = socks (p_client p) ! i"

definition used_socket :: "sock_dict \<Rightarrow> string \<Rightarrow> nat" where
  "used_socket d address = the (d address)"

definition request_page :: "sock_dict \<Rightarrow> string \<Rightarrow> frame \<Rightarrow> client \<Rightarrow> page \<Rightarrow> page" where
  "request_page d address m c p =
     p\<lparr>p_client := c, p_dict := Some d, p_issued := p_issued p @ [(used_socket d address, m)]\<rparr>"

inductive page_step :: "(page \<Rightarrow> string \<Rightarrow> bool) \<Rightarrow> (string \<Rightarrow> bool) \<Rightarrow> page \<Rightarrow> page \<Rightarrow> bool"
  for may :: "page \<Rightarrow> string \<Rightarrow> bool" and valid_url :: "string \<Rightarrow> bool" where
  request: "may p address \<Longrightarrow>
    createSocket valid_url (p_dict p) address m (length (p_issued p)) (p_client p) = (Inr d, c) \<Longrightarrow>
    page_step may valid_url p (request_page d address m c p)"
| opened: "i < length (socks (p_client p)) \<Longrightarrow> ws_state (sock p i) = CONNECTING \<Longrightarrow>
    page_step may valid_url p (p\<lparr>p_client := sock_opened i (p_client p)\<rparr>)"
| message: "i < length (socks (p_client p)) \<Longrightarrow> ws_state (sock p i) = OPEN \<Longrightarrow>
    page_step may valid_url p
      (p\<lparr>p_client := sock_message i data (p_client p), p_received := p_received p @ [(i, data)]\<rparr>)"
| failed: "i < length (socks (p_client p)) \<Longrightarrow> ws_state (sock p i) < CLOSED \<Longrightarrow>
    page_step may valid_url p (p\<lparr>p_client := sock_failed i (p_client p)\<rparr>)"
| moves: "i < length (socks (p_client p)) \<Longrightarrow> ws_state (sock p i) < st \<Longrightarrow> CLOSING \<le> st \<Longrightarrow>
    page_step may valid_url p (p\<lparr>p_client := sock_moves i st (p_client p)\<rparr>)"

inductive page_reachable :: "(page \<Rightarrow> string \<Rightarrow> bool) \<Rightarrow> (string \<Rightarrow> bool) \<Rightarrow> page \<Rightarrow> bool"
  for may :: "page \<Rightarrow> string \<Rightarrow> bool" and valid_url :: "string \<Rightarrow> bool" where
  start: "page_reachable may valid_url start_page"
| step: "page_reachable may valid_url p \<Longrightarrow> page_step may valid_url p p' \<Longrightarrow> page_reachable may valid_url p'"

text \<open>Requests at any time, and one at a time for an address.\<close>

definition anytime :: "page \<Rightarrow> string \<Rightarrow> bool" where
  "anytime p address = True"

definition one_at_a_time :: "page \<Rightarrow> string \<Rightarrow> bool" where
  "one_at_a_time p address =
     (case p_dict p of
        None \<Rightarrow> True
      | Some d \<Rightarrow> (case d address of None \<Rightarrow> True | Some i \<Rightarrow> l_message (sock p i) = []))"

section \<open>The invariant of the runs\<close>

fun replies :: "call list \<Rightarrow> (nat \<times> frame) list" where
  "replies [] = []"
| "replies (Replied r d # cs) = (r, d) # replies cs"
| "replies (Failed r # cs) = replies cs"

fun failures :: "call list \<Rightarrow> nat list" where
  "failures [] = []"
| "failures (Replied r d # cs) = failures cs"
| "failures (Failed r # cs) = r # failures cs"

lemma replies_append [simp]: "replies (cs @ ds) = replies cs @ replies ds"
  by (induction cs rule: replies.induct) simp_all

lemma failures_append [simp]: "failures (cs @ ds) = failures cs @ failures ds"
  by (induction cs rule: failures.induct) simp_all

lemma replies_map [simp]:
  "replies (map (\<lambda>r. Replied r d) rs) = map (\<lambda>r. (r, d)) rs" "failures (map (\<lambda>r. Replied r d) rs) = []"
  "replies (map Failed rs) = []" "failures (map Failed rs) = rs"
  by (induction rs) simp_all

lemma on_sock_socks [simp]:
  "i < length (socks c) \<Longrightarrow> socks (on_sock i f c) ! j = (if j = i then f (socks c ! i) else socks c ! j)"
  "length (socks (on_sock i f c)) = length (socks c)" "calls (on_sock i f c) = calls c"
  by (auto simp: on_sock_def)

lemma messages_run:
  "i < length (socks c) \<Longrightarrow> fold (onMessage i data) rs c =
     c\<lparr>socks := (socks c)[i := (socks c ! i)\<lparr>l_message := filter (\<lambda>r. r \<notin> set rs) (l_message (socks c ! i))\<rparr>],
       calls := calls c @ map (\<lambda>r. Replied r data) rs\<rparr>"
proof (induction rs arbitrary: c)
  case (Cons r rs)
  have "filter (\<lambda>x. x \<notin> set rs) (removeAll r xs) = filter (\<lambda>x. x \<noteq> r \<and> x \<notin> set rs) xs" for xs
    by (induction xs) auto
  then show ?case
    using Cons.prems by (subst fold_simps, subst Cons.IH) (simp_all add: onMessage_def on_sock_def)
qed simp

lemma errors_run:
  "i < length (socks c) \<Longrightarrow> fold (onError i) rs c =
     c\<lparr>socks := (socks c)[i := (socks c ! i)\<lparr>l_error := filter (\<lambda>r. r \<notin> set rs) (l_error (socks c ! i))\<rparr>],
       calls := calls c @ map Failed rs\<rparr>"
proof (induction rs arbitrary: c)
  case (Cons r rs)
  have "filter (\<lambda>x. x \<notin> set rs) (removeAll r xs) = filter (\<lambda>x. x \<noteq> r \<and> x \<notin> set rs) xs" for xs
    by (induction xs) auto
  then show ?case
    using Cons.prems by (subst fold_simps, subst Cons.IH) (simp_all add: onError_def on_sock_def)
qed simp

lemma sock_message_eq:
  "i < length (socks c) \<Longrightarrow> sock_message i data c =
     (on_sock i (\<lambda>w. w\<lparr>l_message := []\<rparr>) c)\<lparr>calls := calls c @ map (\<lambda>r. Replied r data) (l_message (socks c ! i))\<rparr>"
  by (simp add: sock_message_def messages_run on_sock_def)

lemma sock_failed_eq:
  "i < length (socks c) \<Longrightarrow> sock_failed i c =
     (on_sock i (\<lambda>w. w\<lparr>ws_state := CLOSED, l_error := []\<rparr>) c)\<lparr>calls := calls c @ map Failed (l_error (socks c ! i))\<rparr>"
  by (simp add: sock_failed_def sock_moves_def errors_run on_sock_def)

text \<open>What was asked of socket \<open>i\<close>, and how much of it has been sent.\<close>

definition asked :: "(nat \<times> frame) list \<Rightarrow> nat \<Rightarrow> frame list" where
  "asked issued i = map snd (filter (\<lambda>(j, m). j = i) issued)"

definition delivered :: "frame list \<Rightarrow> client_socket \<Rightarrow> bool" where
  "delivered ms w \<longleftrightarrow>
     (case ws_state w of
        CONNECTING \<Rightarrow> ws_sent w = [] \<and> l_open w = ms
      | OPEN \<Rightarrow> ws_sent w = ms
      | _ \<Rightarrow> prefix (ws_sent w) ms)"

text \<open>The requests that listen on socket \<open>i\<close> were issued on it and have not been called back.\<close>

definition listening :: "(nat \<times> frame) list \<Rightarrow> nat list \<Rightarrow> nat \<Rightarrow> nat list \<Rightarrow> bool" where
  "listening issued over i rs \<longleftrightarrow>
     distinct rs \<and> (\<forall>r \<in> set rs. r < length issued \<and> fst (issued ! r) = i \<and> r \<notin> set over)"

definition sock_ok :: "(nat \<times> frame) list \<Rightarrow> call list \<Rightarrow> nat \<Rightarrow> client_socket \<Rightarrow> bool" where
  "sock_ok issued cs i w \<longleftrightarrow>
     delivered (asked issued i) w \<and> listening issued (map fst (replies cs)) i (l_message w) \<and>
     listening issued (failures cs) i (l_error w)"

definition dict_ok :: "page \<Rightarrow> bool" where
  "dict_ok p \<longleftrightarrow> (\<forall>d address i. p_dict p = Some d \<and> d address = Some i \<longrightarrow>
     i < length (socks (p_client p)) \<and> ws_url (sock p i) = address)"

definition calls_ok :: "(nat \<times> frame) list \<Rightarrow> call list \<Rightarrow> bool" where
  "calls_ok issued cs \<longleftrightarrow>
     distinct (map fst (replies cs)) \<and> distinct (failures cs) \<and>
     (\<forall>r \<in> set (map fst (replies cs)) \<union> set (failures cs). r < length issued)"

definition page_inv :: "page \<Rightarrow> bool" where
  "page_inv p \<longleftrightarrow>
     dict_ok p \<and> calls_ok (p_issued p) (calls (p_client p)) \<and>
     (\<forall>(i, m) \<in> set (p_issued p). i < length (socks (p_client p))) \<and>
     (\<forall>i < length (socks (p_client p)). sock_ok (p_issued p) (calls (p_client p)) i (sock p i))"

lemma asked_append: "asked (issued @ [(i, m)]) j = asked issued j @ (if j = i then [m] else [])"
  by (simp add: asked_def)

lemma asked_unused: "\<forall>(j, m) \<in> set issued. j < n \<Longrightarrow> asked issued n = []"
  by (auto simp: asked_def filter_empty_conv)

lemma listening_issued: "listening issued over i rs \<Longrightarrow> listening (issued @ xs) over i rs"
  by (auto simp: listening_def nth_append)

lemma listening_over:
  "listening issued over i rs \<Longrightarrow> (\<And>r. r \<in> set new \<Longrightarrow> r \<notin> set rs) \<Longrightarrow> listening issued (over @ new) i rs"
  by (auto simp: listening_def)

lemma listening_other:
  "listening issued over i rs \<Longrightarrow> listening issued over' j rs' \<Longrightarrow> i \<noteq> j \<Longrightarrow> set rs \<inter> set rs' = {}"
  by (auto simp: listening_def)

lemma sock_ok_issued: "sock_ok issued cs j w \<Longrightarrow> j \<noteq> i \<Longrightarrow> sock_ok (issued @ [(i, m)]) cs j w"
  by (simp add: sock_ok_def asked_append listening_issued)

lemma calls_ok_issued: "calls_ok issued cs \<Longrightarrow> calls_ok (issued @ xs) cs"
  unfolding calls_ok_def by (metis length_append trans_less_add1)

lemma enqueue_ok:
  assumes "sock_ok issued cs i w" and c: "calls_ok issued cs"
  shows "sock_ok (issued @ [(i, m)]) cs i (enqueue m (length issued) w)"
proof -
  have l: "listening (issued @ [(i, m)]) over i (rs @ [length issued])"
    if "listening issued over i rs" "\<forall>r \<in> set over. r < length issued" for over rs
    using that by (auto simp: listening_def nth_append)
  have "listening (issued @ [(i, m)]) (map fst (replies cs)) i (l_message w @ [length issued])"
    "listening (issued @ [(i, m)]) (failures cs) i (l_error w @ [length issued])"
    using assms by (auto intro!: l simp: sock_ok_def calls_ok_def)
  then show ?thesis
    using assms(1)
    by (cases "ws_state w") (auto simp: sock_ok_def delivered_def enqueue_def Let_def asked_append prefix_append)
qed

lemma enqueue_url [simp]: "ws_url (enqueue m r w) = ws_url w"
  by (simp add: enqueue_def Let_def)

lemma createSocket_cases:
  assumes "createSocket valid_url dict address m r c = (Inr d, c')"
  obtains (reuse) i where "(case dict of None \<Rightarrow> Map.empty | Some d \<Rightarrow> d) address = Some i"
      "ws_state (socks c ! i) \<le> CLOSING" "d = (case dict of None \<Rightarrow> Map.empty | Some d \<Rightarrow> d)"
      "c' = on_sock i (enqueue m r) c"
  | (fresh) "d = (case dict of None \<Rightarrow> Map.empty | Some d \<Rightarrow> d)(address \<mapsto> length (socks c))" "valid_url address"
      "c' = c\<lparr>socks := socks c @ [enqueue m r (new_sock address)]\<rparr>"
proof -
  let ?d = "case dict of None \<Rightarrow> Map.empty | Some d \<Rightarrow> d"
  show ?thesis
  proof (cases "\<exists>i. ?d address = Some i \<and> ws_state (socks c ! i) \<le> CLOSING")
    case True
    then obtain i where "?d address = Some i" "\<not> CLOSING < ws_state (socks c ! i)" by (auto simp: not_less)
    then have "open_socket valid_url ?d address c = Inr (i, ?d, c)" by (simp add: open_socket_def)
    then show ?thesis
      using assms \<open>?d address = Some i\<close> \<open>\<not> CLOSING < ws_state (socks c ! i)\<close>
      by (intro reuse[of i]) (simp_all add: createSocket_def not_less)
  next
    case False
    then have "(case ?d address of None \<Rightarrow> None | Some i \<Rightarrow> if ws_state (socks c ! i) > CLOSING then None else Some i) = None"
      by (auto split: option.splits)
    then show ?thesis
      using assms by (intro fresh) (auto simp: createSocket_def open_socket_def on_sock_def split: if_splits)
  qed
qed

lemma new_sock_ok: "\<forall>(j, m) \<in> set issued. j < n \<Longrightarrow> sock_ok issued cs n (new_sock address)"
  by (simp add: sock_ok_def delivered_def new_sock_def listening_def asked_unused)

lemma request_inv:
  assumes inv: "page_inv p"
    and cr: "createSocket valid_url (p_dict p) address m (length (p_issued p)) (p_client p) = (Inr d, c)"
  shows "page_inv (request_page d address m c p)"
  using cr
proof (cases rule: createSocket_cases)
  case (reuse i)
  then have pd: "p_dict p = Some d" "d address = Some i" by (auto split: option.splits)
  then have i: "i < length (socks (p_client p))" using inv by (auto simp: page_inv_def dict_ok_def)
  have q: "p_issued (request_page d address m c p) = p_issued p @ [(i, m)]" "p_dict (request_page d address m c p) = Some d"
    "p_client (request_page d address m c p) = c" "calls c = calls (p_client p)"
    "length (socks c) = length (socks (p_client p))"
    using reuse(4) pd by (simp_all add: request_page_def used_socket_def)
  have sk: "sock (request_page d address m c p) j = (if j = i then enqueue m (length (p_issued p)) (sock p i) else sock p j)" for j
    using reuse(4) i by (simp add: sock_def request_page_def)
  have ca: "calls_ok (p_issued p) (calls (p_client p))" using inv by (simp add: page_inv_def)
  have "sock_ok (p_issued p) (calls (p_client p)) j (sock p j)" if "j < length (socks (p_client p))" for j
    using inv that by (simp add: page_inv_def)
  then have "sock_ok (p_issued p @ [(i, m)]) (calls (p_client p)) j (sock (request_page d address m c p) j)"
    if "j < length (socks (p_client p))" for j
    using that sock_ok_issued enqueue_ok[OF _ ca] by (cases "j = i") (simp_all add: sk)
  moreover have "dict_ok (request_page d address m c p)"
    using inv pd by (auto simp: page_inv_def dict_ok_def q sk)
  moreover have "calls_ok (p_issued p @ [(i, m)]) (calls (p_client p))" by (rule calls_ok_issued[OF ca])
  ultimately show ?thesis using inv i unfolding page_inv_def q by auto
next
  case fresh
  let ?n = "length (socks (p_client p))"
  have u: "used_socket d address = ?n" using fresh(1) by (simp add: used_socket_def)
  have iss: "\<forall>(j, m) \<in> set (p_issued p). j < ?n" and ca: "calls_ok (p_issued p) (calls (p_client p))"
    using inv by (auto simp: page_inv_def)
  have "sock_ok (p_issued p @ [(?n, m)]) (calls (p_client p)) ?n (enqueue m (length (p_issued p)) (new_sock address))"
    by (rule enqueue_ok[OF new_sock_ok[OF iss] ca])
  moreover have "calls_ok (p_issued p @ xs) (calls (p_client p))" for xs by (rule calls_ok_issued[OF ca])
  moreover have "sock_ok (p_issued p @ [(?n, m)]) (calls (p_client p)) j (sock p j)" if "j < ?n" for j
    using inv that by (intro sock_ok_issued) (auto simp: page_inv_def)
  moreover have "dict_ok (request_page d address m c p)"
    using inv fresh(1,3)
    by (auto simp: page_inv_def dict_ok_def request_page_def sock_def nth_append new_sock_def less_Suc_eq split: if_splits option.splits)
  ultimately show ?thesis
    using iss fresh(3) by (auto simp: page_inv_def request_page_def u sock_def nth_append less_Suc_eq)
qed

lemma event_inv:
  assumes inv: "page_inv p" and i: "i < length (socks (p_client p))"
    and c: "p_client p' = (on_sock i f (p_client p))\<lparr>calls := calls (p_client p) @ new\<rparr>"
    and k: "p_issued p' = p_issued p" "p_dict p' = p_dict p" and u: "\<And>w. ws_url (f w) = ws_url w"
    and w: "sock_ok (p_issued p) (calls (p_client p) @ new) i (f (sock p i))"
    and new: "distinct (map fst (replies new))" "distinct (failures new)"
      "\<forall>r \<in> set (map fst (replies new)). r < length (p_issued p) \<and> fst (p_issued p ! r) = i \<and>
         r \<notin> set (map fst (replies (calls (p_client p))))"
      "\<forall>r \<in> set (failures new). r < length (p_issued p) \<and> fst (p_issued p ! r) = i \<and>
         r \<notin> set (failures (calls (p_client p)))"
  shows "page_inv p'"
proof -
  have sk: "sock p' j = (if j = i then f (sock p i) else sock p j)" for j
    using i by (simp add: sock_def c)
  have "sock_ok (p_issued p) (calls (p_client p) @ new) j (sock p j)"
    if "j < length (socks (p_client p))" "j \<noteq> i" for j
  proof -
    have "sock_ok (p_issued p) (calls (p_client p)) j (sock p j)" using inv that by (simp add: page_inv_def)
    then have l: "delivered (asked (p_issued p) j) (sock p j)"
      "listening (p_issued p) (map fst (replies (calls (p_client p)))) j (l_message (sock p j))"
      "listening (p_issued p) (failures (calls (p_client p))) j (l_error (sock p j))"
      by (simp_all add: sock_ok_def)
    have "r \<notin> set (l_message (sock p j))" if "r \<in> set (map fst (replies new))" for r
      using l(2) new(3) that \<open>j \<noteq> i\<close> unfolding listening_def by metis
    moreover have "r \<notin> set (l_error (sock p j))" if "r \<in> set (failures new)" for r
      using l(3) new(4) that \<open>j \<noteq> i\<close> unfolding listening_def by metis
    ultimately show ?thesis
      using l by (simp only: sock_ok_def replies_append failures_append map_append listening_over simp_thms)
  qed
  moreover have "dict_ok p'"
    using inv by (auto simp: page_inv_def dict_ok_def k sk c u)
  moreover have "calls_ok (p_issued p) (calls (p_client p) @ new)"
  proof -
    have "calls_ok (p_issued p) (calls (p_client p))" using inv by (simp add: page_inv_def)
    then show ?thesis
      using new unfolding calls_ok_def replies_append failures_append map_append set_append distinct_append
      by blast
  qed
  ultimately show ?thesis
    using inv w i unfolding page_inv_def by (auto simp: k c sk)
qed

lemma on_sock_same_calls: "on_sock i f c = (on_sock i f c)\<lparr>calls := calls c @ []\<rparr>"
  by (simp add: on_sock_def)

lemma page_step_inv:
  assumes "page_step may valid_url p p'" and inv: "page_inv p"
  shows "page_inv p'"
  using assms(1)
proof cases
  case (request address m d c)
  then show ?thesis using request_inv[OF inv] by simp
next
  case (opened i)
  have "sock_ok (p_issued p) (calls (p_client p)) i (sock p i)" using inv opened by (simp add: page_inv_def)
  then have "sock_ok (p_issued p) (calls (p_client p) @ []) i
      (fold ws_try (l_open (sock p i)) ((sock p i)\<lparr>ws_state := OPEN\<rparr>))"
    using opened by (simp add: sock_ok_def delivered_def ws_try_fold)
  then show ?thesis
    using opened(1,2)
    by (intro event_inv[OF inv opened(2), where f = "\<lambda>w. fold ws_try (l_open w) (w\<lparr>ws_state := OPEN\<rparr>)" and new = "[]"])
      (simp_all add: sock_opened_def ws_try_fold on_sock_same_calls[symmetric, simplified])
next
  case (message i data)
  have ok: "sock_ok (p_issued p) (calls (p_client p)) i (sock p i)" using inv message by (simp add: page_inv_def)
  let ?rs = "l_message (sock p i)"
  show ?thesis
    using message ok
    by (intro event_inv[OF inv message(2), where f = "\<lambda>w. w\<lparr>l_message := []\<rparr>" and new = "map (\<lambda>r. Replied r data) ?rs"])
      (auto simp: sock_message_eq sock_def sock_ok_def delivered_def listening_def comp_def)
next
  case (failed i)
  have ok: "sock_ok (p_issued p) (calls (p_client p)) i (sock p i)" using inv failed by (simp add: page_inv_def)
  show ?thesis
    using failed ok
    by (intro event_inv[OF inv failed(2), where f = "\<lambda>w. w\<lparr>ws_state := CLOSED, l_error := []\<rparr>" and
          new = "map Failed (l_error (sock p i))"])
      (auto simp: sock_failed_eq sock_def sock_ok_def delivered_def listening_def split: ready_state.splits)
next
  case (moves i st)
  have ok: "sock_ok (p_issued p) (calls (p_client p)) i (sock p i)" using inv moves by (simp add: page_inv_def)
  have "st = CLOSING \<or> st = CLOSED" using moves(4) by (cases st) (simp_all add: ready_order)
  then show ?thesis
    using moves(1-3) ok
    by (intro event_inv[OF inv moves(2), where f = "\<lambda>w. w\<lparr>ws_state := st\<rparr>" and new = "[]"])
      (auto simp: sock_moves_def on_sock_same_calls[symmetric, simplified] sock_ok_def delivered_def split: ready_state.splits)
qed

lemma start_inv: "page_inv start_page"
  by (simp add: page_inv_def start_page_def dict_ok_def calls_ok_def)

lemma reachable_inv: "page_reachable may valid_url p \<Longrightarrow> page_inv p"
  by (induction rule: page_reachable.induct) (blast intro: page_step_inv start_inv)+

section \<open>Properties of the runs\<close>

text \<open>The page of the witnesses: one request, its socket open.\<close>

definition asked_page :: page where
  "asked_page =
     request_page [''ws://a/s'' \<mapsto> 0] ''ws://a/s'' [1] \<lparr>socks = [enqueue [1] 0 (new_sock ''ws://a/s'')], calls = []\<rparr> start_page"

definition opened_page :: page where
  "opened_page = asked_page\<lparr>p_client := sock_opened 0 (p_client asked_page)\<rparr>"

lemmas page_eval = asked_page_def opened_page_def request_page_def start_page_def used_socket_def new_sock_def
  createSocket_def open_socket_def enqueue_def on_sock_def sock_def sock_opened_def sock_message_def sock_failed_def
  sock_moves_def onMessage_def onError_def ready_order ws_try_def ws_send_def Let_def

lemma asked_page_step: "may start_page ''ws://a/s'' \<Longrightarrow> page_step may (\<lambda>a. True) start_page asked_page"
  unfolding asked_page_def by (rule page_step.request) (simp_all add: page_eval fun_eq_iff)

lemma opened_page_step: "page_step may (\<lambda>a. True) asked_page opened_page"
  unfolding opened_page_def by (rule page_step.opened) (simp_all add: page_eval)

lemma opened_page_reachable: "may start_page ''ws://a/s'' \<Longrightarrow> page_reachable may (\<lambda>a. True) opened_page"
  by (rule page_reachable.step[OF page_reachable.step[OF page_reachable.start asked_page_step] opened_page_step])

lemma opened_page_anytime: "page_reachable anytime (\<lambda>a. True) opened_page"
  by (rule opened_page_reachable) (simp add: anytime_def)

text \<open>C11 The messages of a socket are sent in the order in which the requests were issued: nothing
  before it is open, all of them while it is open, and a prefix once it has begun to close.\<close>

theorem socket_traffic:
  assumes "page_reachable may valid_url p" and "i < length (socks (p_client p))"
  shows "case ws_state (sock p i) of
      CONNECTING \<Rightarrow> ws_sent (sock p i) = [] \<and> l_open (sock p i) = asked (p_issued p) i
    | OPEN \<Rightarrow> ws_sent (sock p i) = asked (p_issued p) i
    | _ \<Rightarrow> prefix (ws_sent (sock p i)) (asked (p_issued p) i)"
  using reachable_inv[OF assms(1)] assms(2) by (simp add: page_inv_def sock_ok_def delivered_def)

text \<open>C24 A request is called back with a reply at most once and with an error at most once, and
  only a request that was issued is; the socket the page keeps for an address is one to that
  address.\<close>

theorem called_back_once:
  assumes "page_reachable may valid_url p"
  shows "distinct (map fst (replies (calls (p_client p)))) \<and> distinct (failures (calls (p_client p))) \<and>
    set (map fst (replies (calls (p_client p)))) \<union> set (failures (calls (p_client p))) \<subseteq> {..<length (p_issued p)} \<and>
    {(ws_url (sock p i), address) | d address i. p_dict p = Some d \<and> d address = Some i} \<subseteq> Id"
  using reachable_inv[OF assms] by (auto simp: page_inv_def calls_ok_def dict_ok_def)

text \<open>The frames the replies came with, with the sockets of their requests.\<close>

definition reply_frames :: "page \<Rightarrow> (nat \<times> frame) list" where
  "reply_frames p = map (\<lambda>(r, data). (fst (p_issued p ! r), data)) (replies (calls (p_client p)))"

definition single :: "page \<Rightarrow> bool" where
  "single p \<longleftrightarrow> (\<forall>i < length (socks (p_client p)). length (l_message (sock p i)) \<le> 1) \<and>
     subseq (reply_frames p) (p_received p)"

lemma ws_try_listeners [simp]: "l_message (ws_try m w) = l_message w" "l_error (ws_try m w) = l_error w"
  by (cases "ws_state w = OPEN"; simp)+

lemma enqueue_listeners [simp]: "l_message (enqueue m r w) = l_message w @ [r]"
  by (simp add: enqueue_def Let_def)

lemma reply_frames_issued:
  "calls_ok (p_issued p) (calls (p_client p)) \<Longrightarrow> p_issued p' = p_issued p @ xs \<Longrightarrow>
   calls (p_client p') = calls (p_client p) \<Longrightarrow> reply_frames p' = reply_frames p"
  by (force simp: reply_frames_def calls_ok_def nth_append)

lemma single_step:
  assumes "page_step one_at_a_time valid_url p p'" and inv: "page_inv p" and "single p"
  shows "single p'"
proof -
  have le: "length (l_message (sock p i)) \<le> 1" if "i < length (socks (p_client p))" for i
    using assms(3) that by (simp add: single_def)
  have sub: "subseq (reply_frames p) (p_received p)" using assms(3) by (simp add: single_def)
  have ca: "calls_ok (p_issued p) (calls (p_client p))" using inv by (simp add: page_inv_def)
  show ?thesis
    using assms(1)
  proof cases
    case (request address m d c)
    have l: "length (l_message (socks c ! i)) \<le> 1" if "i < length (socks c)" for i
      using request(3)
    proof (cases rule: createSocket_cases)
      case (reuse j)
      then have "p_dict p = Some d" "d address = Some j" by (auto split: option.splits)
      then have "j < length (socks (p_client p))" "l_message (sock p j) = []"
        using inv request(2) by (auto simp: page_inv_def dict_ok_def one_at_a_time_def)
      then show "length (l_message (socks c ! i)) \<le> 1"
        using reuse(4) that le by (auto simp: sock_def)
    next
      case fresh
      then show "length (l_message (socks c ! i)) \<le> 1"
        using that le by (auto simp: sock_def nth_append new_sock_def less_Suc_eq)
    qed
    have "calls c = calls (p_client p)"
      using request(3) by (cases rule: createSocket_cases) simp_all
    then have "reply_frames p' = reply_frames p"
      using request(1) by (intro reply_frames_issued[OF ca]) (simp_all add: request_page_def)
    then show ?thesis
      using request(1) l sub by (simp add: single_def request_page_def sock_def)
  next
    case (opened i)
    then show ?thesis
      using le sub by (auto simp: single_def sock_def sock_opened_def ws_try_fold reply_frames_def)
  next
    case (message i data)
    have ok: "sock_ok (p_issued p) (calls (p_client p)) i (sock p i)" using inv message by (simp add: page_inv_def)
    have l: "length (l_message (sock p i)) \<le> 1" by (rule le[OF message(2)])
    have "subseq (map (\<lambda>(r, data). (fst (p_issued p ! r), data)) (map (\<lambda>r. (r, data)) (l_message (sock p i)))) [(i, data)]"
      using l ok by (cases "l_message (sock p i)") (auto simp: sock_ok_def listening_def)
    then have "subseq (reply_frames p') (p_received p')"
      using message sub by (simp add: reply_frames_def sock_message_eq sock_def list_emb_append_mono)
    then show ?thesis
      using message le by (auto simp: single_def sock_def sock_message_eq)
  next
    case (failed i)
    then show ?thesis
      using le sub by (auto simp: single_def sock_def sock_failed_eq reply_frames_def)
  next
    case (moves i st)
    then show ?thesis
      using le sub by (auto simp: single_def sock_def sock_moves_def reply_frames_def)
  qed
qed

text \<open>C25 A page that issues a request to an address only when no other request to it waits for its
  reply gives every frame it receives to at most one request, which was issued on the socket the
  frame came from, and in the order of the frames.\<close>

theorem replies_matched:
  assumes "page_reachable one_at_a_time valid_url p"
  shows "subseq (reply_frames p) (p_received p)"
proof -
  have "page_inv p \<and> single p"
    using assms
  proof (induction rule: page_reachable.induct)
    case start
    show ?case by (simp add: start_inv, simp add: single_def start_page_def reply_frames_def)
  next
    case (step p p')
    then show ?case using page_step_inv single_step by blast
  qed
  then show ?thesis by (simp add: single_def)
qed

theorem socket_traffic_witness:
  "case ws_state (sock opened_page 0) of
      CONNECTING \<Rightarrow> ws_sent (sock opened_page 0) = [] \<and> l_open (sock opened_page 0) = asked (p_issued opened_page) 0
    | OPEN \<Rightarrow> ws_sent (sock opened_page 0) = asked (p_issued opened_page) 0
    | _ \<Rightarrow> prefix (ws_sent (sock opened_page 0)) (asked (p_issued opened_page) 0)"
  by (rule socket_traffic[OF opened_page_anytime]) (simp add: page_eval)

theorem called_back_once_witness:
  "distinct (map fst (replies (calls (p_client opened_page)))) \<and> distinct (failures (calls (p_client opened_page))) \<and>
    set (map fst (replies (calls (p_client opened_page)))) \<union> set (failures (calls (p_client opened_page)))
      \<subseteq> {..<length (p_issued opened_page)} \<and>
    {(ws_url (sock opened_page i), address) | d address i. p_dict opened_page = Some d \<and> d address = Some i} \<subseteq> Id"
  by (rule called_back_once[OF opened_page_anytime])

definition answered_page :: page where
  "answered_page = opened_page\<lparr>p_client := sock_message 0 [7] (p_client opened_page), p_received := [(0, [7])]\<rparr>"

lemma answered_page_step: "page_step may (\<lambda>a. True) opened_page answered_page"
proof -
  have "p_received opened_page @ [(0, [7])] = [(0, [7])]" by (simp add: page_eval)
  then show ?thesis
    using page_step.message[of 0 opened_page may "\<lambda>a. True" "[7]"] by (simp add: answered_page_def page_eval)
qed

theorem replies_matched_witness:
  "subseq (reply_frames answered_page) (p_received answered_page)"
proof (rule replies_matched)
  have "one_at_a_time start_page ''ws://a/s''" by (simp add: one_at_a_time_def start_page_def)
  then show "page_reachable one_at_a_time (\<lambda>a. True) answered_page"
    by (rule page_reachable.step[OF opened_page_reachable answered_page_step])
qed

text \<open>Without that discipline replies are mixed up: two requests wait on a socket, and the first
  reply is given to both; nobody listens for the second one.\<close>

theorem shared_reply:
  "\<exists>p p'. page_reachable anytime (\<lambda>a. True) p \<and> page_step anytime (\<lambda>a. True) p p' \<and>
     length (p_issued p) = 2 \<and> length (p_received p) = 1 \<and> replies (calls (p_client p)) = [(0, [7]), (1, [7])] \<and>
     p_received p' = p_received p @ [(0, [8])] \<and> calls (p_client p') = calls (p_client p)"
proof -
  define p where "p = request_page [''ws://a/s'' \<mapsto> 0] ''ws://a/s'' [2] (on_sock 0 (enqueue [2] 1) (p_client opened_page)) opened_page"
  define q where "q = p\<lparr>p_client := sock_message 0 [7] (p_client p), p_received := p_received p @ [(0, [7])]\<rparr>"
  have 1: "page_step anytime (\<lambda>a. True) opened_page p"
    unfolding p_def by (rule page_step.request) (simp_all add: anytime_def page_eval fun_eq_iff)
  have 2: "page_step anytime (\<lambda>a. True) p q"
    unfolding q_def by (rule page_step.message) (simp_all add: p_def page_eval)
  have "page_reachable anytime (\<lambda>a. True) q"
    by (rule page_reachable.step[OF page_reachable.step[OF opened_page_anytime 1] 2])
  moreover have "page_step anytime (\<lambda>a. True) q
      (q\<lparr>p_client := sock_message 0 [8] (p_client q), p_received := p_received q @ [(0, [8])]\<rparr>)"
    by (rule page_step.message) (simp_all add: q_def p_def page_eval)
  moreover have "length (p_issued q) = 2 \<and> length (p_received q) = 1 \<and> replies (calls (p_client q)) = [(0, [7]), (1, [7])] \<and>
      calls (sock_message 0 [8] (p_client q)) = calls (p_client q)"
    by (simp add: q_def p_def page_eval)
  ultimately show ?thesis by fastforce
qed

text \<open>A request on a socket that is closing is lost: \<open>createSocket\<close> reuses the socket and returns
  normally, but the message is neither sent nor kept, and when the socket then closes no callback of
  the request is ever made.\<close>

theorem closing_request_lost:
  "\<exists>p q. page_reachable anytime (\<lambda>a. True) p \<and> page_reachable anytime (\<lambda>a. True) q \<and>
     p_issued q = p_issued p @ [(0, [2])] \<and> ws_state (sock q 0) = CLOSED \<and>
     ws_sent (sock q 0) = ws_sent (sock p 0) \<and> l_open (sock q 0) = l_open (sock p 0) \<and>
     length (socks (p_client q)) = 1 \<and> calls (p_client q) = []"
proof -
  define p where "p = opened_page\<lparr>p_client := sock_moves 0 CLOSING (p_client opened_page)\<rparr>"
  define r where "r = request_page [''ws://a/s'' \<mapsto> 0] ''ws://a/s'' [2] (on_sock 0 (enqueue [2] 1) (p_client p)) p"
  define q where "q = r\<lparr>p_client := sock_moves 0 CLOSED (p_client r)\<rparr>"
  have 1: "page_step anytime (\<lambda>a. True) opened_page p"
    unfolding p_def by (rule page_step.moves) (simp_all add: page_eval)
  have 2: "page_step anytime (\<lambda>a. True) p r"
    unfolding r_def by (rule page_step.request) (simp_all add: p_def anytime_def page_eval fun_eq_iff)
  have 3: "page_step anytime (\<lambda>a. True) r q"
    unfolding q_def by (rule page_step.moves) (simp_all add: r_def p_def page_eval)
  have r: "page_reachable anytime (\<lambda>a. True) p" by (rule page_reachable.step[OF opened_page_anytime 1])
  have "page_reachable anytime (\<lambda>a. True) q" by (rule page_reachable.step[OF page_reachable.step[OF r 2] 3])
  moreover note r
  moreover have "p_issued q = p_issued p @ [(0, [2])] \<and> ws_state (sock q 0) = CLOSED \<and>
      ws_sent (sock q 0) = ws_sent (sock p 0) \<and> l_open (sock q 0) = l_open (sock p 0) \<and>
      length (socks (p_client q)) = 1 \<and> calls (p_client q) = []"
    by (simp add: q_def r_def p_def page_eval)
  ultimately show ?thesis by blast
qed

text \<open>A request that has had its reply is still listening for errors: when its socket fails later,
  its error callback is made too.\<close>

theorem failed_after_reply:
  "\<exists>p. page_reachable anytime (\<lambda>a. True) p \<and> length (p_issued p) = 1 \<and>
     calls (p_client p) = [Replied 0 [7], Failed 0]"
proof -
  define p where "p = answered_page\<lparr>p_client := sock_failed 0 (p_client answered_page)\<rparr>"
  have "page_step anytime (\<lambda>a. True) answered_page p"
    unfolding p_def by (rule page_step.failed) (simp_all add: answered_page_def page_eval)
  then have "page_reachable anytime (\<lambda>a. True) p"
    by (rule page_reachable.step[OF page_reachable.step[OF opened_page_anytime answered_page_step]])
  moreover have "length (p_issued p) = 1 \<and> calls (p_client p) = [Replied 0 [7], Failed 0]"
    by (simp add: p_def answered_page_def page_eval)
  ultimately show ?thesis by blast
qed

end
