(* ===== verification/Roster.thy ===== *)
theory Roster
  imports Prelude
begin

text \<open>
  The helpers of \<open>daga.js\<close> that turn a roster file into addresses: \<open>buf2hex\<close>, \<open>toml_to_roster\<close> and
  \<open>si_to_ws\<close>. The TOML parser \<open>topl\<close> and the \<open>UUID\<close> constructor are globals that no file of the
  repository defines (the import of the first is commented out), so they are parameters, and
  \<open>None\<close> when the page has not loaded them; \<open>atob\<close> is the browser's. A number is an \<open>int\<close>, exact
  for ports below \<open>2 ^ 53\<close>; \<open>None\<close> is \<open>NaN\<close>.
\<close>

section \<open>Hexadecimal text\<close>

definition hex_digit :: "nat \<Rightarrow> char" where
  "hex_digit n = char_of (if n < 10 then 48 + n else 87 + n)"

text \<open>\<open>Number.prototype.toString(radix)\<close> for a natural number.\<close>

fun to_radix :: "nat \<Rightarrow> nat \<Rightarrow> string" where
  "to_radix radix n =
     (if n < radix \<or> radix < 2 then [hex_digit n] else to_radix radix (n div radix) @ [hex_digit (n mod radix)])"

declare to_radix.simps [simp del]

definition slice_last :: "nat \<Rightarrow> 'a list \<Rightarrow> 'a list" where
  "slice_last k xs = drop (length xs - k) xs"

definition buf2hex :: "byte list \<Rightarrow> string" where
  "buf2hex buffer = concat (map (\<lambda>x. slice_last 2 (''00'' @ to_radix 16 (unat x))) buffer)"

section \<open>Addresses\<close>

text \<open>\<open>s.replace(pat, rep)\<close> with a string pattern: the first occurrence.\<close>

fun replace_first :: "string \<Rightarrow> string \<Rightarrow> string \<Rightarrow> string" where
  "replace_first pat rep [] = (if pat = [] then rep else [])"
| "replace_first pat rep (c # cs) =
     (if take (length pat) (c # cs) = pat then rep @ drop (length pat) (c # cs)
      else c # replace_first pat rep cs)"

fun split_at :: "char \<Rightarrow> string \<Rightarrow> string list" where
  "split_at d [] = [[]]"
| "split_at d (c # cs) =
     (if c = d then [] # split_at d cs
      else (case split_at d cs of [] \<Rightarrow> [[c]] | p # ps \<Rightarrow> (c # p) # ps))"

fun join_with :: "string \<Rightarrow> string list \<Rightarrow> string" where
  "join_with d [] = []"
| "join_with d [x] = x"
| "join_with d (x # xs) = x @ d @ join_with d xs"

definition is_space :: "char \<Rightarrow> bool" where
  "is_space c \<longleftrightarrow> (of_char c :: nat) \<in> {9, 10, 11, 12, 13, 32, 160}"

text \<open>The value of a digit below the radix.\<close>

definition digit_value :: "nat \<Rightarrow> char \<Rightarrow> nat option" where
  "digit_value radix c =
     (let n = of_char c :: nat;
          v = (if 48 \<le> n \<and> n \<le> 57 then n - 48 else if 65 \<le> n \<and> n \<le> 90 then n - 55
               else if 97 \<le> n \<and> n \<le> 122 then n - 87 else 36)
      in if v < radix then Some v else None)"

text \<open>The value of the longest prefix of digits; \<open>None\<close> when there is none.\<close>

fun read_digits :: "nat \<Rightarrow> nat option \<Rightarrow> string \<Rightarrow> nat option" where
  "read_digits radix acc [] = acc"
| "read_digits radix acc (c # cs) =
     (case digit_value radix c of
        None \<Rightarrow> acc
      | Some v \<Rightarrow> read_digits radix (Some (radix * (case acc of None \<Rightarrow> 0 | Some a \<Rightarrow> a) + v)) cs)"

text \<open>\<open>parseInt\<close> with its default radix.\<close>

definition parseInt :: "string \<Rightarrow> int option" where
  "parseInt s =
     (let t = dropWhile is_space s;
          neg = (t \<noteq> [] \<and> hd t = CHR ''-'');
          u = (if t \<noteq> [] \<and> (hd t = CHR ''-'' \<or> hd t = CHR ''+'') then tl t else t);
          v = (if take 2 u = ''0x'' \<or> take 2 u = ''0X'' then read_digits 16 None (drop 2 u) else read_digits 10 None u)
      in map_option (\<lambda>n. if neg then - int n else int n) v)"

definition number_text :: "int option \<Rightarrow> string" where
  "number_text v =
     (case v of
        None \<Rightarrow> ''NaN''
      | Some n \<Rightarrow> (if n < 0 then ''-'' else []) @ to_radix 10 (nat \<bar>n\<bar>))"

text \<open>
  \<open>si_to_ws\<close>; the argument is the value of the property \<open>Address\<close>. \<open>parseInt(undefined)\<close> is
  \<open>NaN\<close>, and the assignment to index 1 extends an array of one part.
\<close>

definition si_to_ws :: "string option \<Rightarrow> string \<Rightarrow> js_error + string" where
  "si_to_ws Address path =
     (case Address of
        None \<Rightarrow> Inl (TypeError ''Cannot read property replace of undefined'')
      | Some a \<Rightarrow>
          let ip_port = split_at (CHR '':'') (replace_first ''tls://'' [] a);
              port = number_text (case js_get ip_port 1 of
                                    None \<Rightarrow> None
                                  | Some p \<Rightarrow> map_option (\<lambda>n. n + 1) (parseInt p))
          in Inr (''ws://'' @
               join_with '':'' (if 1 < length ip_port then ip_port[1 := port] else ip_port @ [port]) @ path))"

section \<open>Rosters\<close>

record server =
  Address :: "string option"
  Public :: "string option"
  Id :: "byte list option"

text \<open>The parsed file; \<open>servers\<close> may be missing.\<close>

record roster =
  servers :: "server list option"

definition no_roster :: roster where
  "no_roster = \<lparr>servers = None\<rparr>"

text \<open>\<open>atob\<close> turns a missing argument into the text \<open>undefined\<close>.\<close>

definition server_id ::
  "(string \<Rightarrow> js_error + byte list) \<Rightarrow> (nat \<Rightarrow> string \<Rightarrow> string \<Rightarrow> byte list) option \<Rightarrow> server \<Rightarrow>
   js_error + byte list" where
  "server_id atob UUID el =
     (case atob (case Public el of None \<Rightarrow> ''undefined'' | Some p \<Rightarrow> p) of
        Inl e \<Rightarrow> Inl e
      | Inr pubstr \<Rightarrow>
          (case UUID of
             None \<Rightarrow> Inl (Error ''UUID is not defined'')
           | Some new \<Rightarrow> Inr (new 5 ''ns:URL'' (''https://dedis.epfl.ch/id/'' @ buf2hex pubstr))))"

text \<open>The \<open>forEach\<close>: an exception leaves the servers from there on as they are.\<close>

fun set_ids :: "(server \<Rightarrow> js_error + byte list) \<Rightarrow> server list \<Rightarrow> server list" where
  "set_ids sid [] = []"
| "set_ids sid (el # els) =
     (case sid el of
        Inl e \<Rightarrow> el # els
      | Inr i \<Rightarrow> el\<lparr>Id := Some i\<rparr> # set_ids sid els)"

definition toml_to_roster ::
  "(string \<Rightarrow> js_error + roster) option \<Rightarrow> (string \<Rightarrow> js_error + byte list) \<Rightarrow>
   (nat \<Rightarrow> string \<Rightarrow> string \<Rightarrow> byte list) option \<Rightarrow> string \<Rightarrow> roster" where
  "toml_to_roster topl atob UUID toml =
     (case topl of
        None \<Rightarrow> no_roster
      | Some parse \<Rightarrow>
          (case parse toml of
             Inl e \<Rightarrow> no_roster
           | Inr parsed \<Rightarrow> parsed\<lparr>servers := map_option (set_ids (server_id atob UUID)) (servers parsed)\<rparr>))"

section \<open>Properties\<close>

lemma hex_digit_zero: "hex_digit 0 = CHR ''0''"
  by (simp add: hex_digit_def char_of_def bit_0)

lemma digit_value_hex: "n < radix \<Longrightarrow> radix \<le> 36 \<Longrightarrow> digit_value radix (hex_digit n) = Some n"
  by (auto simp: digit_value_def hex_digit_def Let_def)

lemma to_radix_byte: "n < 256 \<Longrightarrow> slice_last 2 (''00'' @ to_radix 16 n) = [hex_digit (n div 16), hex_digit (n mod 16)]"
proof (cases "n < 16")
  case True
  then show ?thesis by (subst to_radix.simps) (simp add: slice_last_def hex_digit_zero)
next
  case False
  assume "n < 256"
  then have "n div 16 < 16" by simp
  then have "to_radix 16 (n div 16) = [hex_digit (n div 16)]" by (subst to_radix.simps) simp
  then show ?thesis using False by (subst to_radix.simps) (simp add: slice_last_def)
qed

lemma buf2hex_Cons: "buf2hex (b # bs) = hex_digit (unat b div 16) # hex_digit (unat b mod 16) # buf2hex bs"
  using to_radix_byte[OF unat_u8_lt[of b]] by (simp add: buf2hex_def)

text \<open>The bytes that a text of hexadecimal digits stands for.\<close>

fun hex_bytes :: "string \<Rightarrow> byte list option" where
  "hex_bytes [] = Some []"
| "hex_bytes (c # d # cs) =
     (case (digit_value 16 c, digit_value 16 d, hex_bytes cs) of
        (Some h, Some l, Some bs) \<Rightarrow> Some (word_of_nat (16 * h + l) # bs)
      | _ \<Rightarrow> None)"
| "hex_bytes [c] = None"

text \<open>\<open>buf2hex\<close> writes every byte as two hexadecimal digits, and no two buffers get the same
  text: the bytes can be read back.\<close>

theorem buf2hex_reads_back: "hex_bytes (buf2hex bs) = Some bs \<and> length (buf2hex bs) = 2 * length bs"
proof (induction bs)
  case (Cons b bs)
  have "unat b div 16 < 16" "unat b mod 16 < 16" using unat_u8_lt[of b] by simp_all
  then show ?case using Cons by (simp add: buf2hex_Cons digit_value_hex)
qed (simp add: buf2hex_def)

lemma read_digits_append:
  "\<forall>c \<in> set s. digit_value radix c \<noteq> None \<Longrightarrow> s \<noteq> [] \<or> acc \<noteq> None \<Longrightarrow>
   read_digits radix acc (s @ t) = read_digits radix (read_digits radix acc s) t \<and> read_digits radix acc s \<noteq> None"
  by (induction radix acc s rule: read_digits.induct) (auto split: option.splits)

lemma to_radix_digits: "2 \<le> radix \<Longrightarrow> radix \<le> 36 \<Longrightarrow> c \<in> set (to_radix radix n) \<Longrightarrow> \<exists>v < radix. c = hex_digit v"
proof (induction radix n rule: to_radix.induct)
  case (1 radix n)
  show ?case
  proof (cases "n < radix")
    case True
    then show ?thesis using "1.prems" by (subst (asm) to_radix.simps) auto
  next
    case False
    then have "c \<in> set (to_radix radix (n div radix)) \<or> c = hex_digit (n mod radix)"
      using "1.prems" by (subst (asm) to_radix.simps) auto
    then show ?thesis
    proof
      assume "c \<in> set (to_radix radix (n div radix))"
      then show ?thesis using "1.IH" "1.prems" False by simp
    qed (use "1.prems" in \<open>auto intro!: exI[of _ "n mod radix"]\<close>)
  qed
qed

lemma read_to_radix: "2 \<le> radix \<Longrightarrow> radix \<le> 36 \<Longrightarrow> read_digits radix None (to_radix radix n) = Some n"
proof (induction radix n rule: to_radix.induct)
  case (1 radix n)
  show ?case
  proof (cases "n < radix")
    case True
    then show ?thesis using "1.prems" by (subst to_radix.simps) (simp add: digit_value_hex)
  next
    case False
    have ds: "\<forall>c \<in> set (to_radix radix (n div radix)). digit_value radix c \<noteq> None"
      using to_radix_digits[OF "1.prems"] digit_value_hex "1.prems" by force
    have "to_radix radix (n div radix) \<noteq> []" by (subst to_radix.simps) simp
    then show ?thesis
      using False "1.prems" "1.IH" read_digits_append[OF ds, of None "[hex_digit (n mod radix)]"]
      by (subst to_radix.simps) (simp add: digit_value_hex mult.commute)
  qed
qed

lemma hex_digit_chars: "v < 10 \<Longrightarrow> \<not> is_space (hex_digit v) \<and> hex_digit v \<notin> {CHR ''-'', CHR ''+'', CHR '':'', CHR ''x'', CHR ''X''}"
proof -
  assume "v < 10"
  then have "v \<in> {0, 1, 2, 3, 4, 5, 6, 7, 8, 9}" by auto
  then show ?thesis by (elim insertE) (simp_all add: hex_digit_def is_space_def, simp_all add: char_of_def)
qed

lemma parseInt_decimal: "parseInt (to_radix 10 n) = Some (int n)"
proof -
  let ?s = "to_radix 10 n"
  have c: "\<not> is_space c \<and> c \<notin> {CHR ''-'', CHR ''+'', CHR '':'', CHR ''x'', CHR ''X''}" if "c \<in> set ?s" for c
    using to_radix_digits[of 10 c n] hex_digit_chars that by fastforce
  have ne: "?s \<noteq> []" by (subst to_radix.simps) simp
  have "dropWhile is_space ?s = ?s" using c ne by (cases ?s) auto
  moreover have "take 2 ?s \<noteq> ''0x''" "take 2 ?s \<noteq> ''0X''"
    using c set_take_subset[of 2 ?s] by force+
  moreover have "hd ?s \<noteq> CHR ''-''" "hd ?s \<noteq> CHR ''+''" using c hd_in_set[OF ne] by auto
  ultimately show ?thesis by (simp add: parseInt_def Let_def read_to_radix)
qed

lemma split_at_none: "d \<notin> set s \<Longrightarrow> split_at d s = [s]"
  by (induction s) auto

lemma split_at_append: "d \<notin> set s \<Longrightarrow> split_at d (s @ d # t) = s # split_at d t"
  by (induction s) auto

text \<open>\<open>si_to_ws\<close> maps the address of a server to the WebSocket address one port higher:
  \<open>tls://host:port\<close> becomes \<open>ws://host:(port + 1)\<close> with the path at its end.\<close>

theorem si_to_ws_next_port:
  assumes "CHR '':'' \<notin> set host"
  shows "si_to_ws (Some (''tls://'' @ host @ '':'' @ to_radix 10 port)) path =
    Inr (''ws://'' @ host @ '':'' @ to_radix 10 (port + 1) @ path)"
proof -
  have "CHR '':'' \<notin> set (to_radix 10 port)"
    using to_radix_digits[of 10 "CHR '':''" port] hex_digit_chars by force
  then have "split_at (CHR '':'') (host @ CHR '':'' # to_radix 10 port) = [host, to_radix 10 port]"
    using assms by (simp add: split_at_append split_at_none)
  then show ?thesis
    by (simp add: si_to_ws_def parseInt_decimal number_text_def Let_def nat_add_distrib)
qed

theorem si_to_ws_next_port_witness:
  "si_to_ws (Some (''tls://'' @ ''127.0.0.1'' @ '':'' @ to_radix 10 7770)) ''/Status/Request'' =
    Inr (''ws://'' @ ''127.0.0.1'' @ '':'' @ to_radix 10 (7770 + 1) @ ''/Status/Request'')"
  by (rule si_to_ws_next_port) simp

text \<open>An address without a port, or an IPv6 address in brackets, gets \<open>NaN\<close> for its port.\<close>

theorem si_to_ws_not_a_number:
  assumes "CHR '':'' \<notin> set host"
  shows "si_to_ws (Some (''tls://'' @ host)) path = Inr (''ws://'' @ host @ '':NaN'' @ path) \<and>
   si_to_ws (Some ''tls://[::1]:7770'') path = Inr (''ws://[:NaN:1]:7770'' @ path)"
proof -
  have "si_to_ws (Some ''tls://[::1]:7770'') path = Inr (''ws://[:NaN:1]:7770'' @ path)"
    by (simp add: si_to_ws_def parseInt_def number_text_def Let_def js_get_def)
  then show ?thesis
    using assms by (simp add: si_to_ws_def split_at_none number_text_def Let_def js_get_def)
qed

theorem si_to_ws_not_a_number_witness:
  "si_to_ws (Some (''tls://'' @ ''localhost'')) ''/'' = Inr (''ws://'' @ ''localhost'' @ '':NaN'' @ ''/'') \<and>
   si_to_ws (Some ''tls://[::1]:7770'') ''/'' = Inr (''ws://[:NaN:1]:7770'' @ ''/'')"
  by (rule si_to_ws_not_a_number) simp

lemma set_ids_prefix:
  "\<exists>n. set_ids sid els = map (\<lambda>el. el\<lparr>Id := Some (case sid el of Inr i \<Rightarrow> i)\<rparr>) (take n els) @ drop n els \<and>
     list_all (\<lambda>el. \<exists>i. sid el = Inr i) (take n els) \<and> (n = length els \<or> (\<exists>e. sid (els ! n) = Inl e))"
proof (induction els)
  case (Cons el els)
  then obtain n where n: "set_ids sid els = map (\<lambda>el. el\<lparr>Id := Some (case sid el of Inr i \<Rightarrow> i)\<rparr>) (take n els) @ drop n els"
    "list_all (\<lambda>el. \<exists>i. sid el = Inr i) (take n els)" "n = length els \<or> (\<exists>e. sid (els ! n) = Inl e)"
    by blast
  show ?case
  proof (cases "sid el")
    case (Inl e)
    then show ?thesis by (intro exI[of _ 0]) simp
  next
    case (Inr i)
    then show ?thesis using n by (intro exI[of _ "Suc n"]) simp
  qed
qed (intro exI[of _ 0], simp)

text \<open>\<open>toml_to_roster\<close> gives an id to every server before the first whose key it cannot decode,
  and changes nothing else; in a page that has not loaded \<open>topl\<close> it returns an empty object for
  every file.\<close>

theorem toml_to_roster_ids:
  assumes "parse toml = Inr parsed" and "servers parsed = Some els"
  shows "toml_to_roster None atob UUID toml = no_roster \<and>
    (\<exists>n. servers (toml_to_roster (Some parse) atob UUID toml) =
           Some (map (\<lambda>el. el\<lparr>Id := Some (case server_id atob UUID el of Inr i \<Rightarrow> i)\<rparr>) (take n els) @ drop n els) \<and>
         list_all (\<lambda>el. \<exists>i. server_id atob UUID el = Inr i) (take n els) \<and>
         (n = length els \<or> (\<exists>e. server_id atob UUID (els ! n) = Inl e)))"
  using set_ids_prefix[of "server_id atob UUID" els] assms by (auto simp: toml_to_roster_def)

definition example_parse :: "string \<Rightarrow> js_error + roster" where
  "example_parse toml = Inr \<lparr>servers = Some [\<lparr>Address = Some ''tls://h:1'', Public = Some ''AA'', Id = None\<rparr>]\<rparr>"

theorem toml_to_roster_ids_witness:
  "toml_to_roster None (\<lambda>s. Inr [0]) (Some (\<lambda>v ns url. [1])) ''x'' = no_roster \<and>
    (\<exists>n. servers (toml_to_roster (Some example_parse) (\<lambda>s. Inr [0]) (Some (\<lambda>v ns url. [1])) ''x'') =
           Some (map (\<lambda>el. el\<lparr>Id := Some (case server_id (\<lambda>s. Inr [0]) (Some (\<lambda>v ns url. [1])) el of Inr i \<Rightarrow> i)\<rparr>)
             (take n [\<lparr>Address = Some ''tls://h:1'', Public = Some ''AA'', Id = None\<rparr>]) @
             drop n [\<lparr>Address = Some ''tls://h:1'', Public = Some ''AA'', Id = None\<rparr>]) \<and>
         list_all (\<lambda>el. \<exists>i. server_id (\<lambda>s. Inr [0]) (Some (\<lambda>v ns url. [1])) el = Inr i)
           (take n [\<lparr>Address = Some ''tls://h:1'', Public = Some ''AA'', Id = None\<rparr>]) \<and>
         (n = length [\<lparr>Address = Some ''tls://h:1'', Public = Some ''AA'', Id = None\<rparr>] \<or>
           (\<exists>e. server_id (\<lambda>s. Inr [0]) (Some (\<lambda>v ns url. [1]))
              ([\<lparr>Address = Some ''tls://h:1'', Public = Some ''AA'', Id = None\<rparr>] ! n) = Inl e)))"
  by (rule toml_to_roster_ids[where parse = example_parse and toml = "''x''"]) (rule example_parse_def, simp)

end
