(* ===== verification/OpApp.thy ===== *)
theory OpApp
  imports Sockets
begin

text \<open>
  The page of the OpenID provider (\<open>main.js\<close>): two file selectors, a button that asks the local daga
  daemon for an authentication message, and the POST of the message. A handler is a function on the
  page; \<open>handle\<close> is the handler of an event and \<open>enabled\<close> says when the browser can send it. What
  the page writes to the console is left out, an exception a handler lets out is logged as \<open>Raised\<close>.
\<close>

section \<open>The page\<close>

text \<open>
  A connection to the daemon with the two files its \<open>onopen\<close> has captured. \<open>reads\<close> are the
  \<open>FileReader\<close>s at work, with the field they will save under, in the order in which they were
  started; they may finish in any order. \<open>pending\<close> counts the POSTs without a response.
\<close>

record connection = socket +
  c_context :: frame
  c_client :: frame

datatype effect = Alert string | Raised js_error | Post frame | Navigate string

record op_page =
  contextFile :: "frame option"
  clientFile :: "frame option"
  reads :: "(string \<times> frame) list"
  conns :: "connection list"
  pending :: nat
  effects :: "effect list"

definition start_op :: op_page where
  "start_op = \<lparr>contextFile = None, clientFile = None, reads = [], conns = [], pending = 0, effects = []\<rparr>"

definition effect :: "effect \<Rightarrow> op_page \<Rightarrow> op_page" where
  "effect e p = p\<lparr>effects := effects p @ [e]\<rparr>"

section \<open>Selecting files\<close>

text \<open>\<open>thenSaveUnder(fieldName)(data)\<close>\<close>

definition thenSaveUnder :: "string \<Rightarrow> frame \<Rightarrow> op_page \<Rightarrow> op_page" where
  "thenSaveUnder fieldName data p =
     (if fieldName = ''context'' then p\<lparr>contextFile := Some data\<rparr>
      else if fieldName = ''client'' then p\<lparr>clientFile := Some data\<rparr>
      else p)"

text \<open>\<open>readFile\<close>: reading starts; without a file \<open>readAsArrayBuffer\<close> gets \<open>undefined\<close>.\<close>

definition readFile :: "string \<Rightarrow> frame option \<Rightarrow> op_page \<Rightarrow> op_page" where
  "readFile fieldName file p =
     (case file of
        None \<Rightarrow> effect (Raised (TypeError ''parameter 1 is not of type Blob'')) p
      | Some content \<Rightarrow> p\<lparr>reads := reads p @ [(fieldName, content)]\<rparr>)"

definition reader_onload :: "nat \<Rightarrow> op_page \<Rightarrow> op_page" where
  "reader_onload j p =
     (case reads p ! j of
        (fieldName, content) \<Rightarrow>
          thenSaveUnder fieldName content (p\<lparr>reads := take j (reads p) @ drop (j + 1) (reads p)\<rparr>))"

section \<open>Authenticating\<close>

definition daemon_url :: string where
  "daemon_url = ''ws://127.0.0.1:9999/dagadaemon/ws''"

text \<open>
  \<open>thenPostIt\<close>; for a missing message the source logs a variable \<open>error\<close> that does not exist.
\<close>

definition thenPostIt :: "frame option \<Rightarrow> op_page \<Rightarrow> op_page" where
  "thenPostIt authMsg p =
     (case authMsg of
        None \<Rightarrow> effect (Raised (Error ''error is not defined'')) p
      | Some m \<Rightarrow> effect (Post m) (p\<lparr>pending := pending p + 1\<rparr>))"

definition post_success :: "string \<Rightarrow> op_page \<Rightarrow> op_page" where
  "post_success redirect p = effect (Navigate redirect) (p\<lparr>pending := pending p - 1\<rparr>)"

definition post_error :: "op_page \<Rightarrow> op_page" where
  "post_error p = p\<lparr>pending := pending p - 1\<rparr>"

text \<open>\<open>buildAuthMsg()(next)\<close>, the handler of the button; \<open>has_next\<close>: \<open>next\<close> is defined.\<close>

definition buildAuthMsg :: "bool \<Rightarrow> op_page \<Rightarrow> op_page" where
  "buildAuthMsg has_next p =
     (if \<not> has_next then p
      else (case contextFile p of
        None \<Rightarrow> effect (Alert ''Please load a daga context, under which you want to authenticate'') p
      | Some context \<Rightarrow>
          (case clientFile p of
             None \<Rightarrow> effect (Alert ''Please load the daga client you want to authenticate, TODO/later or just (index, privatekey)'') p
           | Some client \<Rightarrow>
               p\<lparr>conns := conns p @
                 [\<lparr>ws_url = daemon_url, ws_state = CONNECTING, ws_sent = [], c_context = context, c_client = client\<rparr>]\<rparr>)))"

definition on_conn :: "nat \<Rightarrow> (connection \<Rightarrow> connection) \<Rightarrow> op_page \<Rightarrow> op_page" where
  "on_conn i f p = p\<lparr>conns := (conns p)[i := f (conns p ! i)]\<rparr>"

definition conn_onopen :: "nat \<Rightarrow> op_page \<Rightarrow> op_page" where
  "conn_onopen i = on_conn i (\<lambda>w. ws_try (c_client w) (ws_try (c_context w) (w\<lparr>ws_state := OPEN\<rparr>)))"

definition conn_onmessage :: "nat \<Rightarrow> frame \<Rightarrow> op_page \<Rightarrow> op_page" where
  "conn_onmessage i data = thenPostIt (Some data)"

text \<open>The connection begins to close or is closed; \<open>onclose\<close> only logs it.\<close>

definition conn_moves :: "nat \<Rightarrow> ready_state \<Rightarrow> op_page \<Rightarrow> op_page" where
  "conn_moves i st = on_conn i (\<lambda>w. w\<lparr>ws_state := st\<rparr>)"

section \<open>Events\<close>

datatype op_event =
    SelectContext "frame option"
  | SelectClient "frame option"
  | Loaded nat
  | Click
  | Opened nat
  | Received nat frame
  | Moves nat ready_state
  | PostDone string
  | PostFailed

fun handle :: "op_event \<Rightarrow> op_page \<Rightarrow> op_page" where
  "handle (SelectContext file) = readFile ''context'' file"
| "handle (SelectClient file) = readFile ''client'' file"
| "handle (Loaded j) = reader_onload j"
| "handle Click = buildAuthMsg True"
| "handle (Opened i) = conn_onopen i"
| "handle (Received i data) = conn_onmessage i data"
| "handle (Moves i st) = conn_moves i st"
| "handle (PostDone redirect) = post_success redirect"
| "handle PostFailed = post_error"

fun enabled :: "op_event \<Rightarrow> op_page \<Rightarrow> bool" where
  "enabled (Loaded j) p \<longleftrightarrow> j < length (reads p)"
| "enabled (Opened i) p \<longleftrightarrow> i < length (conns p) \<and> ws_state (conns p ! i) = CONNECTING"
| "enabled (Received i data) p \<longleftrightarrow> i < length (conns p) \<and> ws_state (conns p ! i) = OPEN"
| "enabled (Moves i st) p \<longleftrightarrow> i < length (conns p) \<and> ws_state (conns p ! i) < st \<and> CLOSING \<le> st"
| "enabled (PostDone redirect) p \<longleftrightarrow> 0 < pending p"
| "enabled PostFailed p \<longleftrightarrow> 0 < pending p"
| "enabled _ p \<longleftrightarrow> True"

inductive op_step :: "op_page \<Rightarrow> op_event \<Rightarrow> op_page \<Rightarrow> bool" where
  "enabled e p \<Longrightarrow> op_step p e (handle e p)"

inductive_simps op_step_iff: "op_step p e p'"

text \<open>The runs of the page, with the events that have happened.\<close>

inductive op_run :: "op_event list \<Rightarrow> op_page \<Rightarrow> bool" where
  start: "op_run [] start_op"
| step: "op_run es p \<Longrightarrow> op_step p e p' \<Longrightarrow> op_run (es @ [e]) p'"

inductive_cases op_run_snoc: "op_run (es @ [e]) p"

section \<open>What is posted\<close>

fun posts :: "effect list \<Rightarrow> frame list" where
  "posts [] = []"
| "posts (Post m # es) = m # posts es"
| "posts (_ # es) = posts es"

fun navigations :: "effect list \<Rightarrow> string list" where
  "navigations [] = []"
| "navigations (Navigate u # es) = u # navigations es"
| "navigations (_ # es) = navigations es"

fun received :: "op_event list \<Rightarrow> frame list" where
  "received [] = []"
| "received (Received i m # es) = m # received es"
| "received (_ # es) = received es"

fun redirects :: "op_event list \<Rightarrow> string list" where
  "redirects [] = []"
| "redirects (PostDone u # es) = u # redirects es"
| "redirects (_ # es) = redirects es"

lemma effects_append [simp]:
  "posts (xs @ ys) = posts xs @ posts ys" "navigations (xs @ ys) = navigations xs @ navigations ys"
  by (induction xs rule: posts.induct) simp_all

lemma events_append [simp]:
  "received (es @ es') = received es @ received es'" "redirects (es @ es') = redirects es @ redirects es'"
  by (induction es rule: received.induct) simp_all

lemmas handler_defs = readFile_def reader_onload_def thenSaveUnder_def buildAuthMsg_def conn_onopen_def
  conn_onmessage_def conn_moves_def thenPostIt_def post_success_def post_error_def on_conn_def effect_def

lemma handle_posts:
  "posts (effects (handle e p)) = posts (effects p) @ received [e]"
  "navigations (effects (handle e p)) = navigations (effects p) @ redirects [e]"
  by (cases e; simp add: handler_defs split: option.splits prod.splits)+

definition answered :: "op_event list \<Rightarrow> nat" where
  "answered es = length (redirects es) + length (filter (\<lambda>e. e = PostFailed) es)"

lemma answered_append [simp]: "answered (es @ es') = answered es + answered es'"
  by (simp add: answered_def)

lemma handle_pending:
  "enabled e p \<Longrightarrow> pending (handle e p) + answered [e] = pending p + length (received [e])"
  by (cases e) (auto simp: handler_defs answered_def split: option.splits prod.splits)

text \<open>The page posts every authentication message it receives, in order and once, and posts
  nothing else; it navigates only where an answer to a POST tells it to, and never more often than
  it has posted.\<close>

theorem posts_what_it_receives:
  assumes "op_run es p"
  shows "posts (effects p) = received es \<and> navigations (effects p) = redirects es \<and>
    pending p + answered es = length (posts (effects p))"
  using assms
proof (induction rule: op_run.induct)
  case (step es p e p')
  then have "enabled e p" "p' = handle e p" by (simp_all add: op_step_iff)
  then show ?case using step.IH handle_posts[of e p] handle_pending[of e p] by auto
qed (simp add: start_op_def answered_def)

section \<open>What is sent to the daemon\<close>

text \<open>Where the files of a connection come from: the click that opened it.\<close>

definition clicked_with :: "op_event list \<Rightarrow> frame \<Rightarrow> frame \<Rightarrow> bool" where
  "clicked_with es context client \<longleftrightarrow>
     (\<exists>es1 es2 q. es = es1 @ Click # es2 \<and> op_run es1 q \<and> contextFile q = Some context \<and> clientFile q = Some client)"

definition conn_ok :: "op_event list \<Rightarrow> connection \<Rightarrow> bool" where
  "conn_ok es w \<longleftrightarrow>
     clicked_with es (c_context w) (c_client w) \<and> ws_url w = daemon_url \<and>
     (case ws_state w of
        CONNECTING \<Rightarrow> ws_sent w = []
      | OPEN \<Rightarrow> ws_sent w = [c_context w, c_client w]
      | _ \<Rightarrow> ws_sent w = [] \<or> ws_sent w = [c_context w, c_client w])"

lemma clicked_with_snoc: "clicked_with es x y \<Longrightarrow> clicked_with (es @ [e]) x y"
  by (fastforce simp: clicked_with_def)

lemma conn_ok_snoc: "conn_ok es w \<Longrightarrow> conn_ok (es @ [e]) w"
  by (simp add: conn_ok_def clicked_with_snoc split: ready_state.splits)

lemma conns_on_conn [simp]:
  "conns (on_conn i f p) = (conns p)[i := f (conns p ! i)]"
  by (simp add: on_conn_def)

lemma all_conns_update:
  "\<forall>w \<in> set ws. P w \<Longrightarrow> P x \<Longrightarrow> \<forall>w \<in> set (ws[i := x]). P w"
  using set_update_subset_insert[of ws i x] by blast

lemma other_conns:
  "(\<forall>i. e \<noteq> Opened i) \<Longrightarrow> (\<forall>i st. e \<noteq> Moves i st) \<Longrightarrow> e \<noteq> Click \<Longrightarrow> conns (handle e p) = conns p"
  by (cases e) (auto simp: handler_defs split: option.splits prod.splits)

lemma conn_ok_new:
  "clicked_with es x y \<Longrightarrow>
   conn_ok es \<lparr>ws_url = daemon_url, ws_state = CONNECTING, ws_sent = [], c_context = x, c_client = y\<rparr>"
  by (simp add: conn_ok_def)

lemma run_conns: "op_run es p \<Longrightarrow> \<forall>w \<in> set (conns p). conn_ok es w"
proof (induction rule: op_run.induct)
  case (step es p e p')
  then have e: "enabled e p" and p': "p' = handle e p" by (simp_all add: op_step_iff)
  have old: "\<forall>w \<in> set (conns p). conn_ok (es @ [e]) w" using step.IH by (blast intro: conn_ok_snoc)
  consider (opened) i where "e = Opened i" | (moves) i st where "e = Moves i st" | (click) "e = Click"
    | (other) "conns p' = conns p"
    using other_conns[of e p] p' by blast
  then show ?case
  proof cases
    case opened
    then have "conn_ok (es @ [e]) (conns p ! i)" "ws_state (conns p ! i) = CONNECTING" using old e by simp_all
    then have "conn_ok (es @ [e]) (ws_try (c_client (conns p ! i)) (ws_try (c_context (conns p ! i)) ((conns p ! i)\<lparr>ws_state := OPEN\<rparr>)))"
      by (simp add: conn_ok_def)
    from all_conns_update[OF old this, of i] show ?thesis
      unfolding p' conn_onopen_def conns_on_conn opened handle.simps .
  next
    case moves
    then have ok: "conn_ok (es @ [e]) (conns p ! i)" "CLOSING \<le> st" using old e by simp_all
    then have "conn_ok (es @ [e]) ((conns p ! i)\<lparr>ws_state := st\<rparr>)"
      by (cases st) (auto simp: conn_ok_def ready_order split: ready_state.splits)
    from all_conns_update[OF old this, of i] show ?thesis
      unfolding p' conn_moves_def conns_on_conn moves handle.simps .
  next
    case click
    have "clicked_with (es @ [Click]) x y" if "contextFile p = Some x" "clientFile p = Some y" for x y
      unfolding clicked_with_def
      using step.hyps(1) that by (intro exI[of _ es] exI[of _ "[]"] exI[of _ p]) simp
    then show ?thesis
      using old
      by (cases "contextFile p"; cases "clientFile p") (simp_all add: p' click buildAuthMsg_def effect_def conn_ok_new)
  qed (use old in simp)
qed (simp add: start_op_def)


text \<open>A run for the witnesses: two files, a click, the connection, a message.\<close>

definition run_of :: "op_event list \<Rightarrow> op_page" where
  "run_of es = fold handle es start_op"

fun all_enabled :: "op_event list \<Rightarrow> op_page \<Rightarrow> bool" where
  "all_enabled [] p \<longleftrightarrow> True"
| "all_enabled (e # es) p \<longleftrightarrow> enabled e p \<and> all_enabled es (handle e p)"

lemma run_append: "op_run es p \<Longrightarrow> all_enabled es' p \<Longrightarrow> op_run (es @ es') (fold handle es' p)"
proof (induction es' arbitrary: es p)
  case (Cons e es')
  have "op_run (es @ [e]) (handle e p)"
    by (rule op_run.step[OF Cons.prems(1)]) (use Cons.prems(2) in \<open>simp add: op_step_iff\<close>)
  from Cons.IH[OF this] Cons.prems(2) show ?case by simp
qed simp

lemma run_of_run: "all_enabled es start_op \<Longrightarrow> op_run es (run_of es)"
  using run_append[OF op_run.start] by (simp add: run_of_def)

definition login_events :: "op_event list" where
  "login_events = [SelectContext (Some [1]), SelectClient (Some [2]), Loaded 0, Loaded 0, Click, Opened 0]"

lemmas run_eval = login_events_def run_of_def start_op_def handler_defs ready_order

theorem posts_what_it_receives_witness:
  "posts (effects (run_of login_events)) = received login_events \<and>
    navigations (effects (run_of login_events)) = redirects login_events \<and>
    pending (run_of login_events) + answered login_events = length (posts (effects (run_of login_events)))"
  by (rule posts_what_it_receives[OF run_of_run]) (simp add: run_eval)


text \<open>A click without both files asks for the first missing one and opens no connection: nothing
  but the alert is added.\<close>

theorem click_needs_files:
  assumes "op_run es p" and "contextFile p = None \<or> clientFile p = None"
  shows "\<exists>m. handle Click p = p\<lparr>effects := effects p @ [Alert m]\<rparr> \<and>
    received (es @ [Click]) = posts (effects (handle Click p))"
proof -
  have "\<exists>m. handle Click p = p\<lparr>effects := effects p @ [Alert m]\<rparr>"
    using assms(2) by (auto simp: buildAuthMsg_def effect_def split: option.splits)
  moreover have "posts (effects p) = received es"
    using assms(1)
    by (induction rule: op_run.induct) (simp_all add: start_op_def op_step_iff handle_posts)
  ultimately show ?thesis using handle_posts(1)[of Click p] by auto
qed

theorem click_needs_files_witness:
  "\<exists>m. handle Click start_op = start_op\<lparr>effects := effects start_op @ [Alert m]\<rparr> \<and>
    received ([] @ [Click]) = posts (effects (handle Click start_op))"
  by (rule click_needs_files[OF op_run.start]) (simp add: start_op_def)

text \<open>Nothing ties a loaded file to the last selection: a user who selects one context and then
  another can be left with the first one, when its reader finishes last, and the daemon is sent that
  one.\<close>

theorem stale_selection:
  "\<exists>es p. op_run (SelectContext (Some [1]) # SelectContext (Some [9]) # es) p \<and>
     (\<forall>f. SelectContext f \<notin> set es) \<and> reads p = [] \<and> contextFile p = Some [1] \<and>
     map ws_sent (conns p) = [[[1], [2]]]"
proof -
  let ?es = "[SelectClient (Some [2]), Loaded 1, Loaded 0, Loaded 0, Click, Opened 0]"
  have "op_run (SelectContext (Some [1]) # SelectContext (Some [9]) # ?es)
      (run_of (SelectContext (Some [1]) # SelectContext (Some [9]) # ?es))"
    by (rule run_of_run) (simp add: run_eval)
  moreover have "reads (run_of (SelectContext (Some [1]) # SelectContext (Some [9]) # ?es)) = [] \<and>
      contextFile (run_of (SelectContext (Some [1]) # SelectContext (Some [9]) # ?es)) = Some [1] \<and>
      map ws_sent (conns (run_of (SelectContext (Some [1]) # SelectContext (Some [9]) # ?es))) = [[[1], [2]]]"
    by (simp add: run_eval)
  ultimately show ?thesis by (intro exI[of _ ?es] exI conjI) (assumption, simp_all)
qed

text \<open>The button is not disabled while an authentication is under way: a second click opens a
  second connection, and both answers are posted.\<close>

theorem second_click_posts_again:
  "\<exists>p. op_run (login_events @ [Click, Opened 1, Received 0 [3], Received 1 [4]]) p \<and>
     posts (effects p) = [[3], [4]] \<and> pending p = 2"
proof -
  have "op_run (login_events @ [Click, Opened 1, Received 0 [3], Received 1 [4]])
      (run_of (login_events @ [Click, Opened 1, Received 0 [3], Received 1 [4]]))"
    by (rule run_of_run) (simp add: run_eval)
  moreover have "posts (effects (run_of (login_events @ [Click, Opened 1, Received 0 [3], Received 1 [4]]))) = [[3], [4]] \<and>
      pending (run_of (login_events @ [Click, Opened 1, Received 0 [3], Received 1 [4]])) = 2"
    by (simp add: run_eval)
  ultimately show ?thesis by blast
qed

end
