(* ===== verification/RpApp.thy ===== *)
theory RpApp
  imports Prelude
begin

text \<open>
  The relying party (\<open>app.js\<close> and its routes): which response each request gets and what becomes of
  the sessions. Express, the session store and passport are not in the repository: how a path is
  matched, which files are static and what the OpenID exchange with the provider comes to are the
  parameters of \<open>env\<close>. A layer of the application answers, passes on (\<open>next()\<close>) or fails
  (\<open>next(err)\<close>); a session holds the user passport has serialized into it.
\<close>

section \<open>Requests and responses\<close>

record request =
  req_get :: bool
  req_path :: string
  req_session :: nat

datatype response =
    Rendered string "(string \<times> string) list"
  | Redirect string
  | Sent string
  | File string
  | Unauthorized
  | ErrorPage nat string "string option"

type_synonym sessions = "nat \<Rightarrow> string option"

text \<open>The outcome of the exchange with the provider, before the application's own callback.\<close>

datatype exchange = Verified string string | Challenge string | Refused | Failed string

record env =
  mounted :: "string \<Rightarrow> string \<Rightarrow> bool"
  exact :: "string \<Rightarrow> string \<Rightarrow> bool"
  static_file :: "string \<Rightarrow> string option"
  oidc :: "request \<Rightarrow> exchange"
  development :: bool
  SESSION_SECRET :: string

datatype layer_result = Next | NextError nat string | Respond response

type_synonym layer = "env \<Rightarrow> request \<Rightarrow> sessions \<Rightarrow> layer_result \<times> sessions"

section \<open>The routes\<close>

text \<open>\<open>router.get(path, handler)\<close> and \<open>app.use(path, layer)\<close>\<close>

definition route_get :: "string \<Rightarrow> layer \<Rightarrow> layer" where
  "route_get path l E req s =
     (if req_get req \<and> exact E path (req_path req) then l E req s else (Next, s))"

definition route_use :: "string \<Rightarrow> layer \<Rightarrow> layer" where
  "route_use path l E req s =
     (if mounted E path (req_path req) then l E req s else (Next, s))"

text \<open>Several handlers of one route, and the layers of the application, in order.\<close>

fun in_order :: "layer list \<Rightarrow> layer" where
  "in_order [] E req s = (Next, s)"
| "in_order (l # ls) E req s =
     (case l E req s of
        (Next, s') \<Rightarrow> in_order ls E req s'
      | (r, s') \<Rightarrow> (r, s'))"

definition static_files :: layer where
  "static_files E req s =
     (case static_file E (req_path req) of
        None \<Rightarrow> (Next, s)
      | Some f \<Rightarrow> if req_get req then (Respond (File f), s) else (Next, s))"

definition indexRouter :: layer where
  "indexRouter = route_get ''/'' (\<lambda>E req s. (Respond (Rendered ''index'' [(''title'', ''Express'')]), s))"

definition usersRouter :: layer where
  "usersRouter = route_get ''/users'' (\<lambda>E req s. (Respond (Sent ''respond with a resource''), s))"

text \<open>\<open>req.isAuthenticated()\<close>: the session has a user, which is then \<open>req.user\<close>.\<close>

definition deserializeUser :: "string \<Rightarrow> string" where
  "deserializeUser u = u"

definition req_user :: "request \<Rightarrow> sessions \<Rightarrow> string option" where
  "req_user req s = map_option deserializeUser (s (req_session req))"

definition ensureLoggedIn :: layer where
  "ensureLoggedIn E req s =
     (if req_user req s \<noteq> None then (Next, s) else (Respond (Redirect ''/login''), s))"

definition render_profile :: layer where
  "render_profile E req s =
     (Respond (Rendered ''profile''
        ([(''title'', ''Express'')] @ (case req_user req s of None \<Rightarrow> [] | Some u \<Rightarrow> [(''user'', u)]) @
         [(''secret'', SESSION_SECRET E)])), s)"

definition profileRouter :: layer where
  "profileRouter = route_get ''/profile'' (in_order [ensureLoggedIn, render_profile])"

section \<open>Logging in and out\<close>

text \<open>The callback of the strategy, and what of a user goes into the session.\<close>

definition verify :: "string \<Rightarrow> string \<Rightarrow> string" where
  "verify issuer sub = sub"

definition serializeUser :: "string \<Rightarrow> string" where
  "serializeUser user = user"

definition authenticate :: "string option \<Rightarrow> layer" where
  "authenticate failureRedirect E req s =
     (case oidc E req of
        Verified issuer sub \<Rightarrow> (Next, s(req_session req \<mapsto> serializeUser (verify issuer sub)))
      | Challenge url \<Rightarrow> (Respond (Redirect url), s)
      | Refused \<Rightarrow> (Respond (case failureRedirect of None \<Rightarrow> Unauthorized | Some u \<Rightarrow> Redirect u), s)
      | Failed m \<Rightarrow> (NextError 500 m, s))"

definition callback_layer :: layer where
  "callback_layer = in_order [authenticate (Some ''/error''), \<lambda>E req s. (Respond (Redirect ''/profile''), s)]"

definition logout_layer :: layer where
  "logout_layer E req s = (Respond (Redirect ''/''), s(req_session req := None))"

section \<open>The application\<close>

definition not_found :: layer where
  "not_found E req s = (NextError 404 ''Not Found'', s)"

definition app_layers :: "layer list" where
  "app_layers =
     [static_files, indexRouter, usersRouter, profileRouter,
      route_use ''/login'' (authenticate None),
      route_use ''/authorization-code/callback'' callback_layer,
      route_get ''/logout'' logout_layer,
      not_found]"

text \<open>The error handler: details only in development.\<close>

definition error_handler :: "env \<Rightarrow> nat \<Rightarrow> string \<Rightarrow> response" where
  "error_handler E status message =
     ErrorPage status message (if development E then Some message else None)"

definition app :: "env \<Rightarrow> request \<Rightarrow> sessions \<Rightarrow> response \<times> sessions" where
  "app E req s =
     (case in_order app_layers E req s of
        (Respond r, s') \<Rightarrow> (r, s')
      | (NextError status m, s') \<Rightarrow> (error_handler E status m, s')
      | (Next, s') \<Rightarrow> (error_handler E 404 ''Not Found'', s'))"

text \<open>The requests of a run, each with its environment, from empty sessions.\<close>

inductive served :: "(env \<times> request) list \<Rightarrow> sessions \<Rightarrow> bool" where
  start: "served [] Map.empty"
| serve: "served rs s \<Longrightarrow> served (rs @ [(E, req)]) (snd (app E req s))"

section \<open>Properties\<close>

lemmas layer_defs = route_get_def route_use_def static_files_def indexRouter_def usersRouter_def
  ensureLoggedIn_def render_profile_def profileRouter_def authenticate_def callback_layer_def logout_layer_def
  not_found_def

text \<open>What a layer may do: answer with the profile only for a user, and put a user into the session
  of its own request only after a verified exchange.\<close>

definition careful :: "layer \<Rightarrow> bool" where
  "careful l \<longleftrightarrow> (\<forall>E req s r s'. l E req s = (r, s') \<longrightarrow>
     (\<forall>i. i \<noteq> req_session req \<longrightarrow> s' i = s i) \<and>
     (\<forall>u. s' (req_session req) = Some u \<longrightarrow> s (req_session req) = Some u \<or> (\<exists>iss. oidc E req = Verified iss u)))"

lemma careful_in_order: "\<forall>l \<in> set ls. careful l \<Longrightarrow> careful (in_order ls)"
proof (induction ls)
  case (Cons l ls)
  have l: "careful l" and ls: "careful (in_order ls)" using Cons by simp_all
  show ?case
    unfolding careful_def
  proof (intro allI impI)
    fix E req s r s'
    assume "in_order (l # ls) E req s = (r, s')"
    moreover obtain r1 s1 where 1: "l E req s = (r1, s1)" by force
    ultimately have "in_order ls E req s1 = (r, s') \<or> s' = s1" by (cases r1) auto
    then show "(\<forall>i. i \<noteq> req_session req \<longrightarrow> s' i = s i) \<and>
        (\<forall>u. s' (req_session req) = Some u \<longrightarrow> s (req_session req) = Some u \<or> (\<exists>iss. oidc E req = Verified iss u))"
      using l[unfolded careful_def, rule_format, OF 1] ls unfolding careful_def by metis
  qed
qed (simp add: careful_def)

lemma careful_routes:
  "careful l \<Longrightarrow> careful (route_get p l)" "careful l \<Longrightarrow> careful (route_use p l)"
  by (auto simp: careful_def route_get_def route_use_def)

lemma careful_steps:
  "careful (authenticate f)" "careful logout_layer" "careful not_found" "careful static_files"
  "careful ensureLoggedIn" "careful render_profile"
  "careful (\<lambda>E req s. (Respond r, s))"
  by (auto simp: careful_def layer_defs verify_def serializeUser_def split: exchange.splits option.splits if_splits)

lemma careful_app: "careful (in_order app_layers)"
  by (auto simp: app_layers_def indexRouter_def usersRouter_def profileRouter_def callback_layer_def
      intro!: careful_in_order careful_routes careful_steps)


text \<open>Documented matching, without static files.\<close>

definition plain_env :: "(request \<Rightarrow> exchange) \<Rightarrow> string \<Rightarrow> env" where
  "plain_env ex secret =
     \<lparr>mounted = (\<lambda>p q. q = p \<or> take (length p + 1) q = p @ ''/''), exact = (\<lambda>p q. q = p), static_file = (\<lambda>q. None),
      oidc = ex, development = False, SESSION_SECRET = secret\<rparr>"

definition login_example :: "(env \<times> request) list" where
  "login_example =
     [(plain_env (\<lambda>r. Verified ''op'' ''alice'') ''s'',
       \<lparr>req_get = True, req_path = ''/authorization-code/callback'', req_session = 1\<rparr>)]"

lemma login_example_served: "served login_example [1 \<mapsto> ''alice'']"
proof -
  have "snd (app (plain_env (\<lambda>r. Verified ''op'' ''alice'') ''s'')
      \<lparr>req_get = True, req_path = ''/authorization-code/callback'', req_session = 1\<rparr> Map.empty) = [1 \<mapsto> ''alice'']"
    by (simp add: app_def app_layers_def layer_defs plain_env_def verify_def serializeUser_def fun_eq_iff)
  then show ?thesis using served.serve[OF served.start] by (metis append_Nil login_example_def)
qed


text \<open>The profile is rendered exactly for a GET of its path, not taken by a static file or an
  earlier route, in a session that has a user, and it is that user's profile.\<close>

theorem profile_needs_user:
  "fst (app E req s) = Rendered ''profile'' x \<longleftrightarrow>
     (\<exists>u. x = [(''title'', ''Express''), (''user'', u), (''secret'', SESSION_SECRET E)] \<and>
        s (req_session req) = Some u \<and> req_get req \<and> exact E ''/profile'' (req_path req) \<and>
        static_file E (req_path req) = None \<and> \<not> exact E ''/'' (req_path req) \<and> \<not> exact E ''/users'' (req_path req))"
  by (auto simp: app_def app_layers_def layer_defs error_handler_def req_user_def deserializeUser_def
      split: option.splits exchange.splits if_splits)

text \<open>With the documented matching of paths: \<open>/profile\<close> sends a visitor to the login and shows a
  logged-in user the page, the server's session secret included; after \<open>/logout\<close> the session is a
  visitor's again; and the page a refused login is sent to does not exist.\<close>

theorem profile_and_logout:
  "app (plain_env ex secret) \<lparr>req_get = True, req_path = ''/profile'', req_session = i\<rparr> s =
     ((case s i of
         None \<Rightarrow> Redirect ''/login''
       | Some u \<Rightarrow> Rendered ''profile'' [(''title'', ''Express''), (''user'', u), (''secret'', secret)]), s) \<and>
   app (plain_env ex secret) \<lparr>req_get = True, req_path = ''/logout'', req_session = i\<rparr> s = (Redirect ''/'', s(i := None)) \<and>
   fst (app (plain_env ex secret) \<lparr>req_get = True, req_path = ''/error'', req_session = i\<rparr> s) =
     ErrorPage 404 ''Not Found'' None"
  by (simp add: app_def app_layers_def layer_defs plain_env_def error_handler_def req_user_def deserializeUser_def
      split: option.splits)

end
