(* ===== verification/Converter.thy ===== *)
theory Converter
  imports Verify Roundtrip Base64
begin

unbundle bit_operations_syntax

text \<open>
  The code that \<open>converter\<close> generates for a message type: \<open>fromObject\<close> makes a message of a plain
  object and converts its values, \<open>toObject\<close> makes a plain object of a message, as its options
  demand. \<open>Message.toJSON\<close> is \<open>toObject\<close> with \<open>util.toJSONOptions\<close>.

  The Long library is a parameter; \<open>None\<close> is the runtime without one. Outside the model are
  conversions of objects, arrays and texts to numbers (other than \<open>NaN\<close> and the infinities), and properties that a
  value inherits from a prototype of the language. \<open>PInst\<close> is an instance of a message type. The wrapper of
  \<open>google.protobuf.Any\<close> is in \<open>Wrappers\<close>.
\<close>

section \<open>Plain values and options\<close>

datatype plain =
    PUndefined
  | PNull
  | PInt int
  | PFloat u32
  | PDouble u64
  | PLong js_long
  | PBool bool
  | PStr js_string
  | PBytes "byte list"
  | PArr "plain list"
  | PObj "(js_string \<times> plain) list"
  | PInst nat "val option list"

text \<open>What the converters use of the Long library; \<open>ll_fromValue\<close> is \<open>None\<close> where it throws.\<close>

record long_lib =
  ll_fromValue :: "plain \<Rightarrow> js_long option"
  ll_toString :: "js_long \<Rightarrow> js_string"
  ll_toNumber :: "js_long \<Rightarrow> int"

datatype long_option = LongsKept | LongsString | LongsNumber

datatype bytes_option = BytesKept | BytesString | BytesArray

record conversion_options =
  o_longs :: long_option
  o_enums_String :: bool
  o_bytes :: bytes_option
  o_json :: bool
  o_defaults :: bool
  o_arrays :: bool
  o_objects :: bool
  o_oneofs :: bool

definition no_options :: conversion_options where
  "no_options = \<lparr>o_longs = LongsKept, o_enums_String = False, o_bytes = BytesKept, o_json = False,
     o_defaults = False, o_arrays = False, o_objects = False, o_oneofs = False\<rparr>"

definition toJSONOptions :: conversion_options where
  "toJSONOptions = no_options\<lparr>o_longs := LongsString, o_enums_String := True, o_bytes := BytesString, o_json := True\<rparr>"

record cfield = vfield +
  f_typeDefault :: "val option"
  f_fullName :: string

record ctype =
  ct_name :: string
  ct_fields :: "cfield list"
  ct_group :: bool

type_synonym cschema = "nat \<Rightarrow> ctype option"

section \<open>Numbers\<close>

definition finite32 :: "u32 \<Rightarrow> bool" where
  "finite32 x \<longleftrightarrow> drop_bit 23 x AND 255 \<noteq> 255"

definition finite64 :: "u64 \<Rightarrow> bool" where
  "finite64 x \<longleftrightarrow> drop_bit 52 x AND 2047 \<noteq> 2047"

definition nan32 :: u32 where "nan32 = 0x7FC00000"

definition inf32 :: u32 where "inf32 = 0x7F800000"

definition nan64 :: u64 where "nan64 = 0x7FF8000000000000"

definition inf64 :: u64 where "inf64 = 0x7FF0000000000000"

text \<open>The text of a number that is not finite.\<close>

definition nonfinite :: "bool \<Rightarrow> bool \<Rightarrow> js_string" where
  "nonfinite nan negative =
     js_text (if nan then ''NaN'' else if negative then ''-Infinity'' else ''Infinity'')"

definition text32 :: "u32 \<Rightarrow> js_string" where
  "text32 x = nonfinite (x AND 0x7FFFFF \<noteq> 0) (bit x 31)"

definition text64 :: "u64 \<Rightarrow> js_string" where
  "text64 x = nonfinite (x AND 0xFFFFFFFFFFFFF \<noteq> 0) (bit x 63)"

text \<open>The value of a field of a floating point type that is not finite.\<close>

definition special :: "string \<Rightarrow> js_string \<Rightarrow> val option" where
  "special type s =
     (let fl = (type = ''float'')
      in if s = js_text ''NaN'' then Some (if fl then VFloat nan32 else VDouble nan64)
         else if s = js_text ''Infinity'' then Some (if fl then VFloat inf32 else VDouble inf64)
         else if s = js_text ''-Infinity''
         then Some (if fl then VFloat (inf32 OR 0x80000000) else VDouble (inf64 OR 0x8000000000000000))
         else None)"

text \<open>\<open>parseInt(s, 10)\<close> of a text that starts with a number of at most 20 digits.\<close>

definition parseInt10 :: "js_string \<Rightarrow> int option" where
  "parseInt10 s =
     (let negative = (s \<noteq> [] \<and> hd s = 45);
          ds = takeWhile is_digit16 (if negative then tl s else s)
      in if ds = [] \<or> 20 < length ds then None
         else map_option (\<lambda>n. to_double (if negative then - int n else int n)) (digits 0 ds))"

section \<open>The language's operators on plain values\<close>

definition is_falsy :: "plain \<Rightarrow> bool" where
  "is_falsy v \<longleftrightarrow>
     (case v of
        PUndefined \<Rightarrow> True
      | PNull \<Rightarrow> True
      | PInt n \<Rightarrow> n = 0
      | PFloat x \<Rightarrow> x AND 0x7FFFFFFF = 0 \<or> (\<not> finite32 x \<and> x AND 0x7FFFFF \<noteq> 0)
      | PDouble x \<Rightarrow> x AND 0x7FFFFFFFFFFFFFFF = 0 \<or> (\<not> finite64 x \<and> x AND 0xFFFFFFFFFFFFF \<noteq> 0)
      | PBool b \<Rightarrow> \<not> b
      | PStr s \<Rightarrow> s = []
      | _ \<Rightarrow> False)"

definition typeof_object :: "plain \<Rightarrow> bool" where
  "typeof_object v \<longleftrightarrow>
     (case v of
        PUndefined \<Rightarrow> False | PInt n \<Rightarrow> False | PFloat x \<Rightarrow> False | PDouble x \<Rightarrow> False | PBool b \<Rightarrow> False
      | PStr s \<Rightarrow> False | _ \<Rightarrow> True)"

text \<open>The names every object inherits.\<close>

definition object_proto :: "string list" where
  "object_proto = [''constructor'', ''hasOwnProperty'', ''isPrototypeOf'', ''propertyIsEnumerable'',
     ''toLocaleString'', ''toString'', ''valueOf'', ''__proto__'', ''__defineGetter__'', ''__defineSetter__'',
     ''__lookupGetter__'', ''__lookupSetter__'']"

definition get_prop :: "plain \<Rightarrow> string \<Rightarrow> plain outcome" where
  "get_prop v name =
     (case v of
        PUndefined \<Rightarrow> Thrown (TypeError ''Cannot read property of undefined'')
      | PNull \<Rightarrow> Thrown (TypeError ''Cannot read property of null'')
      | PObj m \<Rightarrow>
          (case map_of m (js_text name) of
             Some x \<Rightarrow> Done x
           | None \<Rightarrow> if name \<in> set object_proto then Outside else Done PUndefined)
      | _ \<Rightarrow> Outside)"

text \<open>\<open>d.low >>> 0\<close>\<close>

definition half :: "plain \<Rightarrow> string \<Rightarrow> u32 outcome" where
  "half d name =
     bind_outcome (get_prop d name)
       (\<lambda>x. case x of PInt n \<Rightarrow> Done (to_uint32 n) | PUndefined \<Rightarrow> Done 0 | PNull \<Rightarrow> Done 0 | _ \<Rightarrow> Outside)"

fun each_outcome :: "('a \<Rightarrow> 'b outcome) \<Rightarrow> 'a list \<Rightarrow> 'b list outcome" where
  "each_outcome f [] = Done []"
| "each_outcome f (x # xs) = bind_outcome (f x) (\<lambda>y. bind_outcome (each_outcome f xs) (\<lambda>ys. Done (y # ys)))"

section \<open>fromObject\<close>

text \<open>
  \<open>genValuePartial_fromObject\<close>: the value that is assigned, \<open>None\<close> where nothing is. A number that is converted to an
  integer is an integer already.
\<close>

definition from_number :: "string \<Rightarrow> plain \<Rightarrow> val outcome" where
  "from_number type d =
     (case d of
        PInt n \<Rightarrow> Done (VInt n)
      | PFloat x \<Rightarrow> Done (VFloat x)
      | PDouble x \<Rightarrow> Done (VDouble x)
      | PBool b \<Rightarrow> Done (VInt (of_bool b))
      | PNull \<Rightarrow> Done (VInt 0)
      | PUndefined \<Rightarrow> Done (the (special type (js_text ''NaN'')))
      | PStr s \<Rightarrow>
          if s = [] then Done (VInt 0)
          else (case special type s of Some v \<Rightarrow> Done v | None \<Rightarrow> Outside)
      | _ \<Rightarrow> Outside)"

definition from_bits :: "plain \<Rightarrow> u32 outcome" where
  "from_bits d =
     (case d of
        PInt n \<Rightarrow> Done (to_uint32 n)
      | PBool b \<Rightarrow> Done (of_bool b)
      | PNull \<Rightarrow> Done 0
      | PUndefined \<Rightarrow> Done 0
      | _ \<Rightarrow> Outside)"

definition from_long :: "long_lib option \<Rightarrow> bool \<Rightarrow> plain \<Rightarrow> val option outcome" where
  "from_long L isUnsigned d =
     (case L of
        Some lib \<Rightarrow>
          (case ll_fromValue lib d of
             Some l \<Rightarrow> Done (Some (VLong (l\<lparr>unsigned := isUnsigned\<rparr>)))
           | None \<Rightarrow> Thrown (TypeError ''Long.fromValue''))
      | None \<Rightarrow>
          (case d of
             PStr s \<Rightarrow> (case parseInt10 s of Some n \<Rightarrow> Done (Some (VInt n)) | None \<Rightarrow> Outside)
           | PInt n \<Rightarrow> Done (Some (VInt n))
           | PFloat x \<Rightarrow> Outside
           | PDouble x \<Rightarrow> Outside
           | PLong l \<Rightarrow>
               Done (Some (VInt (toNumber isUnsigned (LongBits (to_uint32 (low l)) (to_uint32 (high l))))))
           | PBool b \<Rightarrow> Done None
           | PUndefined \<Rightarrow> Done None
           | _ \<Rightarrow>
               bind_outcome (half d ''low'')
                 (\<lambda>l. bind_outcome (half d ''high'') (\<lambda>h. Done (Some (VInt (toNumber isUnsigned (LongBits l h))))))))"

definition from_bytes :: "plain \<Rightarrow> val option outcome" where
  "from_bytes d =
     (case d of
        PStr s \<Rightarrow>
          (case base64_decode s (replicate (nat \<lfloor>base64_length s\<rfloor>) 0) 0 of
             (Inl e, buf) \<Rightarrow> Thrown e
           | (Inr n, buf) \<Rightarrow> Done (Some (VBytes buf)))
      | PBytes b \<Rightarrow> Done (if b \<noteq> [] then Some (VBytes b) else None)
      | PArr [] \<Rightarrow> Done None
      | PInt n \<Rightarrow> Done None
      | PBool b \<Rightarrow> Done None
      | PFloat x \<Rightarrow> Done None
      | PDouble x \<Rightarrow> Done None
      | PUndefined \<Rightarrow> Thrown (TypeError ''Cannot read property of undefined'')
      | PNull \<Rightarrow> Thrown (TypeError ''Cannot read property of null'')
      | _ \<Rightarrow> Outside)"

definition from_string :: "plain \<Rightarrow> js_string outcome" where
  "from_string d =
     (case d of
        PStr s \<Rightarrow> Done s
      | PInt n \<Rightarrow> Done (number_string n)
      | PBool b \<Rightarrow> Done (if b then js_true else js_false)
      | PNull \<Rightarrow> Done (js_text ''null'')
      | PUndefined \<Rightarrow> Done (js_text ''undefined'')
      | _ \<Rightarrow> Outside)"

definition from_basic :: "long_lib option \<Rightarrow> string \<Rightarrow> plain \<Rightarrow> val option outcome" where
  "from_basic L type d =
     (if type = ''double'' \<or> type = ''float'' then bind_outcome (from_number type d) (\<lambda>v. Done (Some v))
      else if type = ''uint32'' \<or> type = ''fixed32''
      then bind_outcome (from_bits d) (\<lambda>u. Done (Some (VInt (uint u))))
      else if type = ''int32'' \<or> type = ''sint32'' \<or> type = ''sfixed32''
      then bind_outcome (from_bits d) (\<lambda>u. Done (Some (VInt (sint u))))
      else if type \<in> set ints64 then from_long L (type = ''uint64'') d
      else if type = ''bytes'' then from_bytes d
      else if type = ''string'' then bind_outcome (from_string d) (\<lambda>s. Done (Some (VString s)))
      else if type = ''bool'' then Done (Some (VBool (\<not> is_falsy d)))
      else Done None)"

text \<open>
  The \<open>switch\<close> of an enum: a case for each name and its number, and in a repeated field the default
  where the number is the type's default.
\<close>

definition is_case :: "plain \<Rightarrow> string \<times> int \<Rightarrow> bool" where
  "is_case d kv \<longleftrightarrow> d = PStr (js_text (fst kv)) \<or> d = PInt (snd kv)"

definition is_default :: "cfield \<Rightarrow> string \<times> int \<Rightarrow> bool" where
  "is_default f kv \<longleftrightarrow> f_repeated f \<and> f_typeDefault f = Some (VInt (snd kv))"

definition from_enum :: "cfield \<Rightarrow> plain \<Rightarrow> val option outcome" where
  "from_enum f d =
     (case d of
        PFloat x \<Rightarrow> Outside
      | PDouble x \<Rightarrow> Outside
      | _ \<Rightarrow>
          (case find (is_case d) (f_values f) of
             Some kv \<Rightarrow> Done (Some (VInt (snd kv)))
           | None \<Rightarrow> Done (map_option (\<lambda>kv. VInt (snd kv)) (find (is_default f) (f_values f)))))"

definition from_value ::
  "long_lib option \<Rightarrow> (nat \<Rightarrow> plain \<Rightarrow> val option list outcome) \<Rightarrow> cfield \<Rightarrow> plain \<Rightarrow> val option outcome" where
  "from_value L rec f d =
     (case f_resolvedType f of
        EnumType \<Rightarrow> from_enum f d
      | MessageType n \<Rightarrow>
          if \<not> typeof_object d then Thrown (TypeError (f_fullName f @ '': object expected''))
          else bind_outcome (rec n d) (\<lambda>slots. Done (Some (VMsg slots)))
      | Basic \<Rightarrow> from_basic L (f_type f) d)"

text \<open>
  An array whose elements are assigned by index: elements that are not assigned at the end are not
  there, and holes are outside the model.
\<close>

definition array_of :: "val option list \<Rightarrow> val outcome" where
  "array_of vs =
     (let xs = rev (dropWhile (\<lambda>v. v = None) (rev vs))
      in if None \<in> set xs then Outside else Done (VList (map the xs)))"

definition object_of :: "(js_string \<times> val option) list \<Rightarrow> (js_string \<times> val) list" where
  "object_of kvs = foldl (\<lambda>m kv. case snd kv of None \<Rightarrow> m | Some x \<Rightarrow> obj_set (fst kv) x m) [] kvs"

definition from_field ::
  "long_lib option \<Rightarrow> (nat \<Rightarrow> plain \<Rightarrow> val option list outcome) \<Rightarrow> cfield \<Rightarrow> plain \<Rightarrow> val option outcome" where
  "from_field L rec f d =
     (if f_keyType f \<noteq> None then
        if is_falsy d then Done (Some (VMap []))
        else if \<not> typeof_object d then Thrown (TypeError (f_fullName f @ '': object expected''))
        else (case d of
                PObj m \<Rightarrow>
                  bind_outcome (each_outcome (\<lambda>kv. from_value L rec f (snd kv)) m)
                    (\<lambda>vs. Done (Some (VMap (object_of (zip (map fst m) vs)))))
              | _ \<Rightarrow> Outside)
      else if f_repeated f then
        if is_falsy d then Done (Some (VList []))
        else (case d of
                PArr xs \<Rightarrow>
                  bind_outcome (each_outcome (from_value L rec f) xs)
                    (\<lambda>vs. bind_outcome (array_of vs) (\<lambda>l. Done (Some l)))
              | _ \<Rightarrow> Thrown (TypeError (f_fullName f @ '': array expected'')))
      else if f_resolvedType f \<noteq> EnumType \<and> (d = PUndefined \<or> d = PNull) then Done None
      else from_value L rec f d)"

text \<open>
  The generated source of \<open>fromObject\<close> has a syntax error when a \<open>switch\<close> has two defaults, which the aliases
  of the default number are. It is thrown while the type sets itself up, before it has its converters,
  so that both throw whenever they are called.
\<close>

definition switch_ok :: "cfield \<Rightarrow> bool" where
  "switch_ok f \<longleftrightarrow> f_resolvedType f = EnumType \<longrightarrow> length (filter (is_default f) (f_values f)) \<le> 1"

fun fromObject :: "nat \<Rightarrow> long_lib option \<Rightarrow> cschema \<Rightarrow> nat \<Rightarrow> plain \<Rightarrow> val option list outcome" where
  "fromObject 0 L S n d = Thrown stack_overflow"
| "fromObject (Suc depth) L S n d =
     (case S n of
        None \<Rightarrow> Outside
      | Some T \<Rightarrow>
          if \<not> list_all switch_ok (ct_fields T) then Thrown syntax_error
          else (case d of
                  PInst k slots \<Rightarrow> if k = n then Done slots else Outside
                | _ \<Rightarrow>
                    each_outcome
                      (\<lambda>f. bind_outcome (get_prop d (f_name f)) (from_field L (fromObject depth L S) f))
                      (ct_fields T)))"

section \<open>toObject\<close>

text \<open>\<open>genValuePartial_toObject\<close>\<close>

definition to_float :: "conversion_options \<Rightarrow> val \<Rightarrow> plain outcome" where
  "to_float opts m =
     (case m of
        VInt n \<Rightarrow> Done (PInt n)
      | VFloat x \<Rightarrow> Done (if o_json opts \<and> \<not> finite32 x then PStr (text32 x) else PFloat x)
      | VDouble x \<Rightarrow> Done (if o_json opts \<and> \<not> finite64 x then PStr (text64 x) else PDouble x)
      | _ \<Rightarrow> Outside)"

definition to_long :: "long_lib option \<Rightarrow> conversion_options \<Rightarrow> bool \<Rightarrow> val \<Rightarrow> plain outcome" where
  "to_long L opts isUnsigned m =
     (case m of
        VInt n \<Rightarrow> Done (if o_longs opts = LongsString then PStr (number_string n) else PInt n)
      | VLong l \<Rightarrow>
          (case o_longs opts of
             LongsString \<Rightarrow>
               (case L of
                  Some lib \<Rightarrow> Done (PStr (ll_toString lib l))
                | None \<Rightarrow> Thrown (TypeError ''Cannot read property of null''))
           | LongsNumber \<Rightarrow>
               Done (PInt (toNumber isUnsigned (LongBits (to_uint32 (low l)) (to_uint32 (high l)))))
           | LongsKept \<Rightarrow> Done (PLong l))
      | _ \<Rightarrow> Outside)"

definition byte_numbers :: "byte list \<Rightarrow> plain" where
  "byte_numbers bs = PArr (map (\<lambda>b. PInt (uint b)) bs)"

definition to_bytes :: "conversion_options \<Rightarrow> val \<Rightarrow> plain outcome" where
  "to_bytes opts m =
     (case m of
        VBytes bs \<Rightarrow>
          Done (case o_bytes opts of
                  BytesString \<Rightarrow> PStr (base64_encode bs 0 (length bs))
                | BytesArray \<Rightarrow> byte_numbers bs
                | BytesKept \<Rightarrow> PBytes bs)
      | _ \<Rightarrow> Outside)"

definition to_same :: "val \<Rightarrow> plain outcome" where
  "to_same m =
     (case m of
        VInt n \<Rightarrow> Done (PInt n)
      | VFloat x \<Rightarrow> Done (PFloat x)
      | VDouble x \<Rightarrow> Done (PDouble x)
      | VBool b \<Rightarrow> Done (PBool b)
      | VString s \<Rightarrow> Done (PStr s)
      | VBytes b \<Rightarrow> Done (PBytes b)
      | VLong l \<Rightarrow> Done (PLong l)
      | _ \<Rightarrow> Outside)"

definition to_basic :: "long_lib option \<Rightarrow> conversion_options \<Rightarrow> string \<Rightarrow> val \<Rightarrow> plain outcome" where
  "to_basic L opts type m =
     (if type = ''double'' \<or> type = ''float'' then to_float opts m
      else if type \<in> set ints64 then to_long L opts (type = ''uint64'') m
      else if type = ''bytes'' then to_bytes opts m
      else to_same m)"

text \<open>
  \<open>values[n]\<close>: the object \<open>values\<close> inherits from \<open>valuesById\<close>, in which the last name of a
  number stays.
\<close>

definition valuesById :: "(string \<times> int) list \<Rightarrow> int \<Rightarrow> string option" where
  "valuesById values n = map_of (rev (map (\<lambda>(name, v). (v, name)) values)) n"

definition values_at :: "(string \<times> int) list \<Rightarrow> int \<Rightarrow> plain" where
  "values_at values n =
     (case find (\<lambda>kv. js_text (fst kv) = number_string n) values of
        Some kv \<Rightarrow> PInt (snd kv)
      | None \<Rightarrow> (case valuesById values n of Some name \<Rightarrow> PStr (js_text name) | None \<Rightarrow> PUndefined))"

definition to_enum :: "conversion_options \<Rightarrow> cfield \<Rightarrow> val \<Rightarrow> plain outcome" where
  "to_enum opts f m =
     (case m of
        VInt n \<Rightarrow> Done (if o_enums_String opts then values_at (f_values f) n else PInt n)
      | _ \<Rightarrow> Outside)"

definition to_value ::
  "long_lib option \<Rightarrow> conversion_options \<Rightarrow> (nat \<Rightarrow> val option list \<Rightarrow> plain outcome) \<Rightarrow> cfield \<Rightarrow> val \<Rightarrow>
   plain outcome" where
  "to_value L opts rec f m =
     (case f_resolvedType f of
        EnumType \<Rightarrow> to_enum opts f m
      | MessageType n \<Rightarrow> (case m of VMsg slots \<Rightarrow> rec n slots | _ \<Rightarrow> Outside)
      | Basic \<Rightarrow> to_basic L opts (f_type f) m)"

text \<open>The properties that are set from one field.\<close>

definition to_field ::
  "long_lib option \<Rightarrow> conversion_options \<Rightarrow> (nat \<Rightarrow> val option list \<Rightarrow> plain outcome) \<Rightarrow> cfield \<times> val option \<Rightarrow>
   (string \<times> plain) list outcome" where
  "to_field L opts rec fs =
     (let f = fst fs; slot = snd fs
      in if f_keyType f \<noteq> None then
           (case slot of
              None \<Rightarrow> Done []
            | Some (VMap m) \<Rightarrow>
                if m = [] then Done []
                else bind_outcome (each_outcome (\<lambda>kv. to_value L opts rec f (snd kv)) m)
                       (\<lambda>ds. Done [(f_name f,
                          PObj (foldl (\<lambda>d (k, v). obj_set k v d) [] (zip (map fst m) ds)))])
            | Some _ \<Rightarrow> Outside)
         else if f_repeated f then
           (case slot of
              None \<Rightarrow> Done []
            | Some (VList vs) \<Rightarrow>
                if vs = [] then Done []
                else bind_outcome (each_outcome (to_value L opts rec f) vs) (\<lambda>ds. Done [(f_name f, PArr ds)])
            | Some _ \<Rightarrow> Outside)
         else
           (case slot of
              None \<Rightarrow> Done []
            | Some v \<Rightarrow>
                bind_outcome (to_value L opts rec f v)
                  (\<lambda>d. Done ((f_name f, d) #
                     (case f_partOf f of
                        Some p \<Rightarrow> if o_oneofs opts then [(p, PStr (js_text (f_name f)))] else []
                      | None \<Rightarrow> [])))))"

text \<open>
  The default values, as the generated source has them: a number that is not finite is \<open>null\<close> there, and bytes are the text
  of their numbers.
\<close>

definition default_long :: "long_lib \<Rightarrow> conversion_options \<Rightarrow> val option \<Rightarrow> plain outcome" where
  "default_long lib opts v =
     (case v of
        Some (VLong l) \<Rightarrow>
          Done (case o_longs opts of
                  LongsString \<Rightarrow> PStr (ll_toString lib l)
                | LongsNumber \<Rightarrow> PInt (ll_toNumber lib l)
                | LongsKept \<Rightarrow> PLong l)
      | _ \<Rightarrow> Outside)"

definition default_bytes :: "conversion_options \<Rightarrow> val option \<Rightarrow> plain outcome" where
  "default_bytes opts v =
     (case v of
        Some (VBytes bs) \<Rightarrow>
          Done (case o_bytes opts of
                  BytesString \<Rightarrow> PStr (map ucast bs)
                | BytesArray \<Rightarrow> byte_numbers bs
                | BytesKept \<Rightarrow> PBytes bs)
      | _ \<Rightarrow> Outside)"

definition stringify :: "val option \<Rightarrow> plain outcome" where
  "stringify v =
     (case v of
        None \<Rightarrow> Done PNull
      | Some (VFloat x) \<Rightarrow> Done (if finite32 x then PFloat x else PNull)
      | Some (VDouble x) \<Rightarrow> Done (if finite64 x then PDouble x else PNull)
      | Some x \<Rightarrow> to_same x)"

definition default_value :: "long_lib option \<Rightarrow> conversion_options \<Rightarrow> cfield \<Rightarrow> plain outcome" where
  "default_value L opts f =
     (if f_resolvedType f = EnumType then
        (case f_typeDefault f of
           Some (VInt n) \<Rightarrow>
             Done (if o_enums_String opts
                   then (case valuesById (f_values f) n of Some name \<Rightarrow> PStr (js_text name) | None \<Rightarrow> PUndefined)
                   else PInt n)
         | _ \<Rightarrow> Outside)
      else case (L, types_long (f_type f)) of
          (Some lib, Some u) \<Rightarrow> default_long lib opts (f_typeDefault f)
        | _ \<Rightarrow>
            if f_type f = ''bytes'' then default_bytes opts (f_typeDefault f)
            else stringify (f_typeDefault f))"

definition repeatedFields :: "cfield list \<Rightarrow> cfield list" where
  "repeatedFields fs = filter (\<lambda>f. f_partOf f = None \<and> f_repeated f) fs"

definition mapFields :: "cfield list \<Rightarrow> cfield list" where
  "mapFields fs = filter (\<lambda>f. f_partOf f = None \<and> \<not> f_repeated f \<and> f_keyType f \<noteq> None) fs"

definition normalFields :: "cfield list \<Rightarrow> cfield list" where
  "normalFields fs = filter (\<lambda>f. f_partOf f = None \<and> \<not> f_repeated f \<and> f_keyType f = None) fs"

definition default_props ::
  "long_lib option \<Rightarrow> conversion_options \<Rightarrow> cfield list \<Rightarrow> (string \<times> plain) list outcome" where
  "default_props L opts fs =
     bind_outcome
       (if o_defaults opts
        then each_outcome (\<lambda>f. bind_outcome (default_value L opts f) (\<lambda>d. Done (f_name f, d))) (normalFields fs)
        else Done [])
       (\<lambda>ds. Done
          ((if o_arrays opts \<or> o_defaults opts then map (\<lambda>f. (f_name f, PArr [])) (repeatedFields fs) else []) @
           (if o_objects opts \<or> o_defaults opts then map (\<lambda>f. (f_name f, PObj [])) (mapFields fs) else []) @ ds))"

definition assign_props :: "(string \<times> plain) list \<Rightarrow> plain" where
  "assign_props props = PObj (foldl (\<lambda>d (k, v). obj_set (js_text k) v d) [] props)"

fun toObject ::
  "nat \<Rightarrow> long_lib option \<Rightarrow> conversion_options \<Rightarrow> cschema \<Rightarrow> nat \<Rightarrow> val option list \<Rightarrow> plain outcome" where
  "toObject 0 L opts S n slots = Thrown stack_overflow"
| "toObject (Suc depth) L opts S n slots =
     (case S n of
        None \<Rightarrow> Outside
      | Some T \<Rightarrow>
          if \<not> list_all switch_ok (ct_fields T) then Thrown syntax_error else
          let fs = sort_key (\<lambda>(f, _). f_id f) (zip (ct_fields T) slots)
          in bind_outcome (default_props L opts (map fst fs))
               (\<lambda>ds. bind_outcome (each_outcome (to_field L opts (toObject depth L opts S)) fs)
                  (\<lambda>props. Done (assign_props (ds @ concat props)))))"

definition message_toJSON :: "nat \<Rightarrow> long_lib option \<Rightarrow> cschema \<Rightarrow> nat \<Rightarrow> val option list \<Rightarrow> plain outcome" where
  "message_toJSON depth L S n slots = toObject depth L toJSONOptions S n slots"

end
