(* ===== verification/Conversion.thy ===== *)
theory Conversion
  imports Converter
begin

unbundle bit_operations_syntax

text \<open>
  What the converters of \<open>Converter\<close> guarantee: a message comes back from its plain object
  (\<open>msg_kept\<close> says which, \<open>nested_conversion\<close> is the contract of the nested types), and what \<open>fromObject\<close> returns
  is a valid message of its type (\<open>nested_fromObject\<close>). The last section shows what is lost.
\<close>

section \<open>Lists of outcomes\<close>

lemma each_outcome_Done:
  "length xs = length ys \<Longrightarrow> (\<And>x y. (x, y) \<in> set (zip xs ys) \<Longrightarrow> f x = Done y) \<Longrightarrow> each_outcome f xs = Done ys"
proof (induction xs ys rule: list_induct2)
  case (Cons x xs y ys)
  have "f x = Done y" "each_outcome f xs = Done ys" using Cons by simp_all
  then show ?case by simp
qed simp

lemma each_outcome_pairs:
  "each_outcome f xs = Done ys \<Longrightarrow> length ys = length xs \<and> (\<forall>(x, y) \<in> set (zip xs ys). f x = Done y)"
proof (induction xs arbitrary: ys)
  case (Cons x xs)
  obtain y ys' where "f x = Done y" "each_outcome f xs = Done ys'" "ys = y # ys'"
    using Cons.prems by (cases "f x"; cases "each_outcome f xs") auto
  then show ?case using Cons.IH[of ys'] by simp
qed simp

lemma each_outcome_ex:
  "(\<And>x. x \<in> set xs \<Longrightarrow> \<exists>y. f x = Done y) \<Longrightarrow> \<exists>ys. each_outcome f xs = Done ys"
proof (induction xs)
  case (Cons x xs)
  then obtain y ys where "f x = Done y" "each_outcome f xs = Done ys" by fastforce
  then show ?case by simp
qed simp

lemma each_outcome_nth:
  assumes "each_outcome f xs = Done ys" and "i < length ys"
  shows "f (xs ! i) = Done (ys ! i) \<and> xs ! i \<in> set xs"
proof -
  have "(xs ! i, ys ! i) \<in> set (zip xs ys)" using each_outcome_pairs[OF assms(1)] assms(2) by (force simp: set_zip)
  then show ?thesis using each_outcome_pairs[OF assms(1)] by (auto dest: set_zip_leftD)
qed

lemma each_outcome_inverse:
  assumes "\<And>x. x \<in> set xs \<Longrightarrow> \<exists>y. f x = Done y \<and> g y = Done (h x)"
  shows "\<exists>ys. each_outcome f xs = Done ys \<and> each_outcome g ys = Done (map h xs) \<and> length ys = length xs"
  using assms
proof (induction xs)
  case (Cons x xs)
  then obtain y ys where "f x = Done y" "g y = Done (h x)" "each_outcome f xs = Done ys"
    "each_outcome g ys = Done (map h xs)" "length ys = length xs"
    by (metis list.set_intros)
  then show ?case by simp
qed simp

section \<open>Objects\<close>

lemma map_of_obj_insert: "k \<notin> fst ` set m \<Longrightarrow> map_of (obj_insert k v m) = (map_of m)(k \<mapsto> v)"
  by (induction k v m rule: obj_insert.induct) auto

lemma map_of_update: "k \<in> fst ` set m \<Longrightarrow> map_of (map (\<lambda>(k', v'). (k', if k' = k then v else v')) m) = (map_of m)(k \<mapsto> v)"
proof (induction m)
  case (Cons kv m)
  obtain k0 v0 where kv: "kv = (k0, v0)" by force
  show ?case
  proof (cases "k \<in> fst ` set m")
    case True
    then show ?thesis using Cons.IH kv by (auto simp: fun_eq_iff)
  next
    case False
    then have "map (\<lambda>(k', v'). (k', if k' = k then v else v')) m = m" by (intro map_idI) force
    then show ?thesis using Cons.prems False kv by (auto simp: fun_eq_iff)
  qed
qed simp

lemma map_of_obj_set [simp]: "map_of (obj_set k v m) = (map_of m)(k \<mapsto> v)"
  by (simp add: obj_set_def map_of_update map_of_obj_insert)

lemma map_of_assigns:
  "map_of (foldl (\<lambda>d (k, v). obj_set (js_text k) v d) m props) (js_text k) =
     (case map_of (rev props) k of Some v \<Rightarrow> Some v | None \<Rightarrow> map_of m (js_text k))"
  by (induction props arbitrary: m) (auto split: option.splits simp: map_add_def)

lemma object_of_some: "object_of (map (\<lambda>(k, v). (k, Some v)) m) = foldl (\<lambda>m (k, v). obj_set k v m) [] m"
proof -
  have "foldl (\<lambda>m kv. case snd kv of None \<Rightarrow> m | Some x \<Rightarrow> obj_set (fst kv) x m) m0 (map (\<lambda>(k, v). (k, Some v)) m) =
      foldl (\<lambda>m (k, v). obj_set k v m) m0 m" for m0
    by (induction m arbitrary: m0) auto
  then show ?thesis by (simp add: object_of_def)
qed

text \<open>Setting the properties in their order gives the object again, whatever the values are.\<close>

lemma obj_insert_keys: "map fst m = map fst m' \<Longrightarrow> map fst (obj_insert k v m) = map fst (obj_insert k v' m')"
proof (induction k v m arbitrary: m' rule: obj_insert.induct)
  case (2 k v k1 v1 m)
  then show ?case by (cases m') auto
qed simp

lemma update_keys: "map fst (map (\<lambda>(k', v'). (k', if k' = k then v else v')) m) = map fst m"
  by (induction m) auto

lemma obj_set_keys:
  assumes "map fst m = map fst m'"
  shows "map fst (obj_set k v m) = map fst (obj_set k v' m')"
proof -
  have k: "fst ` set m = fst ` set m'" using assms by (metis set_map)
  show ?thesis
  proof (cases "k \<in> fst ` set m")
    case True
    then show ?thesis using assms k unfolding obj_set_def by (simp only: if_True update_keys)
  next
    case False
    then show ?thesis using obj_insert_keys[OF assms] k unfolding obj_set_def by (simp only: if_False)
  qed
qed

definition in_order :: "js_string list \<Rightarrow> bool" where
  "in_order ks \<longleftrightarrow> map fst (foldl (\<lambda>m k. obj_set k () m) [] ks) = ks"

lemma foldl_obj_keys:
  "map fst m = map fst m' \<Longrightarrow> map fst kvs = ks \<Longrightarrow>
   map fst (foldl (\<lambda>m (k, v). obj_set k v m) m kvs) = map fst (foldl (\<lambda>m k. obj_set k () m) m' ks)"
proof (induction kvs arbitrary: m m' ks)
  case (Cons kv kvs)
  obtain k v where kv: "kv = (k, v)" by force
  have "map fst (obj_set k v m) = map fst (obj_set k () m')" by (rule obj_set_keys[OF Cons.prems(1)])
  from Cons.IH[OF this, of "map fst kvs"] Cons.prems(2) show ?case by (auto simp: kv)
qed simp

lemma obj_insert_elems: "set (obj_insert k v m) = insert (k, v) (set m)"
  by (induction k v m rule: obj_insert.induct) (simp_all add: insert_commute)

lemma obj_insert_set: "fst ` set (obj_insert k v m) = insert k (fst ` set m)"
  by (simp add: obj_insert_elems)

lemma obj_insert_distinct: "k \<notin> fst ` set m \<Longrightarrow> distinct (map fst m) \<Longrightarrow> distinct (map fst (obj_insert k v m))"
proof (induction k v m rule: obj_insert.induct)
  case (2 k v k1 v1 m)
  then show ?case using obj_insert_set[of k v m] by (auto simp: set_map[symmetric] simp del: set_map)
qed simp

lemma obj_set_distinct: "distinct (map fst m) \<Longrightarrow> distinct (map fst (obj_set k v m))"
  using obj_insert_distinct[of k m v] unfolding obj_set_def
  by (cases "k \<in> fst ` set m") (simp_all only: update_keys if_True if_False not_False_eq_True simp_thms)

lemma foldl_obj_distinct:
  "distinct (map fst m) \<Longrightarrow> distinct (map fst (foldl (\<lambda>m (k, v). obj_set k v m) m kvs))"
  by (induction kvs arbitrary: m) (auto intro: obj_set_distinct)

lemma foldl_obj_map_of:
  "map_of (foldl (\<lambda>m (k, v). obj_set k v m) m kvs) = map_of m ++ map_of (rev kvs)"
  by (induction kvs arbitrary: m) (auto simp: fun_eq_iff map_add_def split: option.splits)

lemma assoc_as_map: "distinct (map fst xs) \<Longrightarrow> xs = map (\<lambda>k. (k, the (map_of xs k))) (map fst xs)"
  by (rule sym) (auto intro!: map_idI simp: comp_def)

lemma assoc_eqI:
  "map fst xs = map fst ys \<Longrightarrow> distinct (map fst xs) \<Longrightarrow> map_of xs = map_of ys \<Longrightarrow> xs = ys"
  using assoc_as_map[of xs] assoc_as_map[of ys] by metis

lemma map_of_rev_distinct: "distinct (map fst xs) \<Longrightarrow> map_of (rev xs) = map_of xs"
proof (induction xs)
  case (Cons x xs)
  then have "map_of xs (fst x) = None" by (simp add: map_of_eq_None_iff)
  then show ?case using Cons by (auto simp: fun_eq_iff map_add_def split: option.splits)
qed simp

lemma in_order_foldl:
  assumes "in_order (map fst kvs)"
  shows "foldl (\<lambda>m (k, v). obj_set k v m) [] kvs = kvs"
proof (rule assoc_eqI)
  let ?l = "foldl (\<lambda>m (k, v). obj_set k v m) [] kvs"
  show k: "map fst ?l = map fst kvs"
    using foldl_obj_keys[of "[]" "[]" kvs "map fst kvs"] assms by (simp add: in_order_def)
  show d: "distinct (map fst ?l)" by (rule foldl_obj_distinct) simp
  show "map_of ?l = map_of kvs"
    using d k by (simp add: foldl_obj_map_of map_of_rev_distinct)
qed

lemma map_ok_in_order: "map_ok m \<Longrightarrow> in_order (map fst m)"
  using foldl_obj_keys[of "[]" "[]" m "map fst m"] by (simp add: map_ok_def in_order_def)

section \<open>Numbers as texts\<close>

lemma digits_append: "digits n (xs @ ys) = (case digits n xs of None \<Rightarrow> None | Some k \<Rightarrow> digits k ys)"
  by (induction n xs rule: digits.induct) (auto split: option.splits)

lemma decimal_char:
  "k < 10 \<Longrightarrow> digit (word_of_nat (48 + k)) = Some k \<and> is_digit16 (word_of_nat (48 + k))"
proof -
  assume k: "k < 10"
  have u: "unat (word_of_nat (48 + k) :: u16) = 48 + k" using k by (simp only: unat_of_nat take_bit_eq_mod) simp
  then have "48 \<le> (word_of_nat (48 + k) :: u16)" "(word_of_nat (48 + k) :: u16) \<le> 57"
    using k by (simp_all only: word_le_nat_alt) simp_all
  then show ?thesis using u by (simp add: digit_def is_digit16_def)
qed

lemma decimal_digits:
  "digits 0 (decimal n) = Some n \<and> list_all is_digit16 (decimal n) \<and> decimal n \<noteq> []"
proof (induction n rule: decimal.induct)
  case (1 n)
  show ?case
  proof (cases "n < 10")
    case True
    then show ?thesis using decimal_char[of n] by (subst (1 2 3) decimal.simps) simp
  next
    case False
    have "n mod 10 < 10" by simp
    then show ?thesis using False "1.IH"[OF False] decimal_char[of "n mod 10"]
      by (subst (1 2 3) decimal.simps) (simp add: digits_append)
  qed
qed

lemma decimal_length: "n < 10 ^ k \<Longrightarrow> 0 < k \<Longrightarrow> length (decimal n) \<le> k"
proof (induction k arbitrary: n)
  case (Suc k)
  show ?case
  proof (cases "n < 10")
    case True
    then show ?thesis by (subst decimal.simps) simp
  next
    case False
    then have "0 < k" using Suc.prems by (cases k) simp_all
    moreover have "n div 10 < 10 ^ k" using Suc.prems by (simp add: less_mult_imp_div_less mult.commute)
    ultimately show ?thesis using Suc.IH[of "n div 10"] False by (subst decimal.simps) simp
  qed
qed simp

lemma to_double_large:
  assumes "2 ^ 53 \<le> a"
  shows "2 ^ 53 \<le> to_double (int a)"
proof -
  define s where "s = floorlog 2 a - 53"
  define q where "q = a div 2 ^ s"
  have a0: "0 < a" using assms by (rule less_le_trans[rotated]) simp
  have f: "53 < floorlog 2 a"
  proof (rule ccontr)
    assume "\<not> 53 < floorlog 2 a"
    then have "a < 2 ^ 53" using floorlog_bounds[of a 2] a0
      by (meson le_less_trans less_le_trans linorder_not_less one_less_numeral_iff power_increasing semiring_norm(76) one_le_numeral)
    then show False using assms by simp
  qed
  then have "2 ^ (52 + s) \<le> a"
    using floorlog_bounds[of a 2] a0 by (simp add: s_def)
  then have "2 ^ 52 \<le> q" by (simp add: q_def power_add div_le_mono less_eq_div_iff_mult_less_eq)
  then have "2 ^ 53 \<le> q * 2 ^ s"
  proof -
    assume q: "2 ^ 52 \<le> q"
    have "s \<ge> 1" using f by (simp add: s_def)
    then have "(2::nat) ^ 1 \<le> 2 ^ s" by (intro power_increasing) simp_all
    then have "2 ^ 52 * 2 ^ 1 \<le> q * 2 ^ s" using q by (rule mult_le_mono[rotated])
    then show ?thesis by simp
  qed
  also have "int (q * 2 ^ s) \<le> to_double (int a)"
    using a0 by (simp add: to_double_def Let_def q_def s_def sgn_if)
  finally show ?thesis by simp
qed

lemma number_string_safe:
  assumes "\<bar>v\<bar> < 2 ^ 53"
  shows "number_string v = (if v < 0 then [45] else []) @ decimal (nat \<bar>v\<bar>)"
proof -
  let ?n = "nat \<bar>v\<bar>"
  have n: "int ?n < 2 ^ 53" using assms by simp
  have "round_to ?n p = ?n" if "to_double (int (round_to ?n p)) = int ?n" for p
  proof (cases "round_to ?n p < 2 ^ 53")
    case True
    then have "to_double (int (round_to ?n p)) = int (round_to ?n p)" by (intro to_double_exact) simp
    then show ?thesis using that by simp
  next
    case False
    then show ?thesis using to_double_large[of "round_to ?n p"] that n by simp
  qed
  then have "(case find (\<lambda>p. 0 < round_to ?n p \<and> to_double (int (round_to ?n p)) = int ?n) ps of
      None \<Rightarrow> ?n | Some p \<Rightarrow> round_to ?n p) = ?n" for ps
  proof (cases "find (\<lambda>p. 0 < round_to ?n p \<and> to_double (int (round_to ?n p)) = int ?n) ps")
    case (Some p)
    then have "to_double (int (round_to ?n p)) = int ?n" by (blast dest: find_Some_iff[THEN iffD1])
    with Some \<open>\<And>p. to_double (int (round_to ?n p)) = int ?n \<Longrightarrow> _ p\<close> show ?thesis by (simp only: option.case)
  qed simp
  then show ?thesis unfolding number_string_def Let_def by simp
qed

lemma parseInt_number_string:
  assumes "\<bar>v\<bar> < 2 ^ 53"
  shows "parseInt10 (number_string v) = Some v"
proof -
  let ?n = "nat \<bar>v\<bar>"
  note d = decimal_digits[of ?n]
  have "?n < 10 ^ 20" using assms by simp
  then have len: "length (decimal ?n) \<le> 20" by (rule decimal_length) simp
  have t: "takeWhile is_digit16 (decimal ?n) = decimal ?n" using d by (simp add: takeWhile_eq_all_conv list_all_iff)
  have h: "hd (decimal ?n) \<noteq> 45"
    using d by (cases "decimal ?n") (auto simp: is_digit16_def)
  have e: "to_double v = v" using assms by (rule to_double_exact)
  have "parseInt10 ((if v < 0 then [45] else []) @ decimal ?n) =
      map_option (\<lambda>n. to_double (if v < 0 then - int n else int n)) (digits 0 (decimal ?n))"
    using t h len d by (cases "v < 0") (simp_all only: parseInt10_def Let_def if_True if_False append_Cons append_Nil
        list.sel list.distinct simp_thms not_less[symmetric] HOL.if_cancel)
  then show ?thesis using d e by (cases "v < 0") (simp_all add: number_string_safe[OF assms])
qed

section \<open>Messages that a plain object keeps\<close>

text \<open>
  What the Long library is relied on for: a Long is its own value, and the text of a Long is read back
  with the same bits.
\<close>

definition long_ok :: "js_long \<Rightarrow> bool" where
  "long_ok l \<longleftrightarrow> int32_ok (low l) \<and> int32_ok (high l)"

definition long_laws :: "long_lib \<Rightarrow> bool" where
  "long_laws lib \<longleftrightarrow>
     (\<forall>l. ll_fromValue lib (PLong l) = Some l) \<and>
     (\<forall>l. long_ok l \<longrightarrow>
        (\<exists>l'. ll_fromValue lib (PStr (ll_toString lib l)) = Some l' \<and> low l' = low l \<and> high l' = high l))"

definition float_ok :: "conversion_options \<Rightarrow> string \<Rightarrow> val \<Rightarrow> bool" where
  "float_ok opts type v \<longleftrightarrow>
     (case v of
        VInt n \<Rightarrow> True
      | VFloat x \<Rightarrow>
          o_json opts \<longrightarrow> finite32 x \<or> (type = ''float'' \<and> x \<in> {nan32, inf32, inf32 OR 0x80000000})
      | VDouble x \<Rightarrow>
          o_json opts \<longrightarrow> finite64 x \<or> (type = ''double'' \<and> x \<in> {nan64, inf64, inf64 OR 0x8000000000000000})
      | _ \<Rightarrow> False)"

definition long_kept :: "long_lib option \<Rightarrow> conversion_options \<Rightarrow> string \<Rightarrow> val \<Rightarrow> bool" where
  "long_kept L opts type v \<longleftrightarrow>
     (case (L, v) of
        (Some lib, VLong l) \<Rightarrow> long_ok l \<and> unsigned l = (type = ''uint64'') \<and> o_longs opts \<noteq> LongsNumber
      | (None, VInt n) \<Rightarrow> o_longs opts = LongsString \<longrightarrow> \<bar>n\<bar> < 2 ^ 53
      | _ \<Rightarrow> False)"

definition basic_kept :: "long_lib option \<Rightarrow> conversion_options \<Rightarrow> string \<Rightarrow> val \<Rightarrow> bool" where
  "basic_kept L opts type v \<longleftrightarrow>
     (if type = ''double'' \<or> type = ''float'' then float_ok opts type v
      else if type = ''uint32'' \<or> type = ''fixed32'' then (case v of VInt n \<Rightarrow> 0 \<le> n \<and> n < 2 ^ 32 | _ \<Rightarrow> False)
      else if type = ''int32'' \<or> type = ''sint32'' \<or> type = ''sfixed32''
      then (case v of VInt n \<Rightarrow> int32_ok n | _ \<Rightarrow> False)
      else if type \<in> set ints64 then long_kept L opts type v
      else if type = ''bytes''
      then (case v of
              VBytes bs \<Rightarrow> o_bytes opts = BytesString \<or> (o_bytes opts = BytesKept \<and> bs \<noteq> [])
            | _ \<Rightarrow> False)
      else if type = ''string'' then (case v of VString s \<Rightarrow> True | _ \<Rightarrow> False)
      else if type = ''bool'' then (case v of VBool b \<Rightarrow> True | _ \<Rightarrow> False)
      else False)"

definition enum_kept :: "conversion_options \<Rightarrow> (string \<times> int) list \<Rightarrow> val \<Rightarrow> bool" where
  "enum_kept opts values v \<longleftrightarrow>
     (case v of
        VInt n \<Rightarrow>
          n \<in> snd ` set values \<and>
          (o_enums_String opts \<longrightarrow>
             distinct (map fst values) \<and> list_all (\<lambda>kv. js_text (fst kv) \<noteq> number_string n) values)
      | _ \<Rightarrow> False)"

definition value_kept ::
  "long_lib option \<Rightarrow> conversion_options \<Rightarrow> (nat \<Rightarrow> val option list \<Rightarrow> bool) \<Rightarrow> cfield \<Rightarrow> val \<Rightarrow> bool" where
  "value_kept L opts rec f v \<longleftrightarrow>
     (case f_resolvedType f of
        EnumType \<Rightarrow> enum_kept opts (f_values f) v
      | MessageType n \<Rightarrow> (case v of VMsg slots \<Rightarrow> rec n slots | _ \<Rightarrow> False)
      | Basic \<Rightarrow> basic_kept L opts (f_type f) v)"

definition slot_kept ::
  "long_lib option \<Rightarrow> conversion_options \<Rightarrow> (nat \<Rightarrow> val option list \<Rightarrow> bool) \<Rightarrow> cfield \<Rightarrow> val option \<Rightarrow> bool" where
  "slot_kept L opts rec f slot \<longleftrightarrow>
     (if f_keyType f \<noteq> None
      then (case slot of Some (VMap m) \<Rightarrow> map_ok m \<and> (\<forall>kv \<in> set m. value_kept L opts rec f (snd kv)) | _ \<Rightarrow> False)
      else if f_repeated f
      then (case slot of Some (VList vs) \<Rightarrow> (\<forall>v \<in> set vs. value_kept L opts rec f v) | _ \<Rightarrow> False)
      else (case slot of None \<Rightarrow> True | Some v \<Rightarrow> value_kept L opts rec f v))"

definition fields_ok :: "conversion_options \<Rightarrow> cfield list \<Rightarrow> bool" where
  "fields_ok opts fs \<longleftrightarrow>
     distinct (map f_name fs) \<and> list_all switch_ok fs \<and>
     list_all (\<lambda>f. f_name f \<notin> set object_proto \<and> \<not> (f_keyType f \<noteq> None \<and> f_repeated f)) fs \<and>
     (o_oneofs opts \<longrightarrow> list_all (\<lambda>f. \<forall>p. f_partOf f = Some p \<longrightarrow> p \<notin> set (map f_name fs)) fs)"

primrec msg_kept :: "nat \<Rightarrow> long_lib option \<Rightarrow> conversion_options \<Rightarrow> cschema \<Rightarrow> nat \<Rightarrow> val option list \<Rightarrow> bool" where
  "msg_kept 0 L opts S n slots = False"
| "msg_kept (Suc d) L opts S n slots =
     (case S n of
        None \<Rightarrow> False
      | Some T \<Rightarrow>
          fields_ok opts (ct_fields T) \<and> length slots = length (ct_fields T) \<and>
          (\<forall>(f, slot) \<in> set (zip (ct_fields T) slots). slot_kept L opts (msg_kept d L opts S) f slot))"

section \<open>Values there and back\<close>

lemma special_text:
  "x \<in> {nan32, inf32, inf32 OR 0x80000000} \<Longrightarrow> special ''float'' (text32 x) = Some (VFloat x)"
  "y \<in> {nan64, inf64, inf64 OR 0x8000000000000000} \<Longrightarrow> special ''double'' (text64 y) = Some (VDouble y)"
  by (auto simp: special_def text32_def text64_def nonfinite_def nan32_def inf32_def nan64_def inf64_def Let_def)

lemma text_nonempty: "text32 x \<noteq> []" "text64 y \<noteq> []"
  by (simp_all add: text32_def text64_def nonfinite_def js_text_def)

abbreviation kept_as :: "(val \<Rightarrow> plain outcome) \<Rightarrow> (plain \<Rightarrow> val option outcome) \<Rightarrow> val \<Rightarrow> bool" where
  "kept_as to from v \<equiv> \<exists>d. to v = Done d \<and> d \<noteq> PUndefined \<and> d \<noteq> PNull \<and> from d = Done (Some v)"

lemma float_kept:
  assumes "float_ok opts type v" and "type = ''double'' \<or> type = ''float''"
  shows "kept_as (to_basic L opts type) (from_basic L type) v"
  using assms special_text text_nonempty
  by (cases v) (auto simp: float_ok_def to_basic_def from_basic_def to_float_def from_number_def)

lemma long_is_kept:
  assumes "long_kept L opts type v" and "type \<in> set ints64" and "\<forall>lib. L = Some lib \<longrightarrow> long_laws lib"
  shows "kept_as (to_basic L opts type) (from_basic L type) v"
proof -
  have t: "type \<noteq> ''double''" "type \<noteq> ''float''" "type \<noteq> ''uint32''" "type \<noteq> ''fixed32''" "type \<noteq> ''int32''"
    "type \<noteq> ''sint32''" "type \<noteq> ''sfixed32''"
    using assms(2) by (auto simp: ints64_def)
  show ?thesis
  proof (cases L)
    case None
    then obtain n where v: "v = VInt n" "o_longs opts = LongsString \<longrightarrow> \<bar>n\<bar> < 2 ^ 53"
      using assms(1) by (auto simp: long_kept_def split: val.splits)
    then show ?thesis using assms(2) t None parseInt_number_string[of n]
      by (auto simp: to_basic_def from_basic_def to_long_def from_long_def)
  next
    case (Some lib)
    then obtain l where v: "v = VLong l" "long_ok l" "unsigned l = (type = ''uint64'')" "o_longs opts \<noteq> LongsNumber"
      using assms(1) by (auto simp: long_kept_def split: val.splits)
    have laws: "long_laws lib" using assms(3) Some by blast
    have same: "l'\<lparr>unsigned := (type = ''uint64'')\<rparr> = l" if "low l' = low l" "high l' = high l" for l'
      using that v(3) by (cases l; cases l') simp
    show ?thesis
    proof (cases "o_longs opts")
      case LongsString
      obtain l' where "ll_fromValue lib (PStr (ll_toString lib l)) = Some l'" "low l' = low l" "high l' = high l"
        using laws v(2) by (auto simp: long_laws_def)
      then show ?thesis using same[of l'] assms(2) t Some LongsString v(1)
        by (auto simp: to_basic_def from_basic_def to_long_def from_long_def)
    next
      case LongsKept
      then show ?thesis using same[of l] assms(2) t Some v(1) laws
        by (auto simp: to_basic_def from_basic_def to_long_def from_long_def long_laws_def)
    qed (use v(4) in simp)
  qed
qed

lemma from_bytes_text: "from_bytes (PStr (base64_encode bs 0 (length bs))) = Done (Some (VBytes bs))"
proof -
  have "base64_decode (base64_encode bs 0 (length bs)) (replicate (length bs) 0) 0 =
      (Inr (length bs), blit (replicate (length bs) 0) 0 bs)"
    using base64_decode_enc[of 0 bs "replicate (length bs) 0"] by (simp add: base64_encode_enc)
  moreover have "blit (replicate (length bs) 0) 0 bs = bs" by (simp add: blit_split)
  moreover have "base64_length (base64_encode bs 0 (length bs)) = of_nat (length bs)"
    by (simp add: base64_encode_enc base64_length_enc)
  ultimately show ?thesis by (simp add: from_bytes_def)
qed

lemma basic_is_kept:
  assumes "basic_kept L opts type v" and "\<forall>lib. L = Some lib \<longrightarrow> long_laws lib"
  shows "kept_as (to_basic L opts type) (from_basic L type) v"
proof -
  consider "type = ''double'' \<or> type = ''float''" | "type \<in> set ints64" | "type = ''bytes''"
    | "type = ''uint32'' \<or> type = ''fixed32''" | "type = ''int32'' \<or> type = ''sint32'' \<or> type = ''sfixed32''"
    | "type = ''string''" | "type = ''bool''"
    using assms(1) by (auto simp: basic_kept_def split: if_splits)
  then show ?thesis
  proof cases
    case 1
    then have "float_ok opts type v" using assms(1) by (auto simp: basic_kept_def)
    from float_kept[OF this 1] show ?thesis .
  next
    case 2
    then have "long_kept L opts type v" using assms(1) by (auto simp: basic_kept_def ints64_def)
    from long_is_kept[OF this 2 assms(2)] show ?thesis .
  next
    case 3
    then obtain bs where "v = VBytes bs" "o_bytes opts = BytesString \<or> (o_bytes opts = BytesKept \<and> bs \<noteq> [])"
      using assms(1) by (cases v) (simp_all add: basic_kept_def ints64_def)
    then show ?thesis using 3 from_bytes_text[of bs]
      by (elim disjE) (simp_all add: ints64_def to_basic_def from_basic_def to_bytes_def from_bytes_def)
  next
    case 4
    then obtain n where "v = VInt n" "0 \<le> n" "n < 2 ^ 32"
      using assms(1) by (cases v) (auto simp: basic_kept_def)
    then show ?thesis using 4
      by (elim disjE) (simp_all add: ints64_def to_basic_def from_basic_def to_same_def from_bits_def uint_to_uint32)
  next
    case 5
    then obtain n where "v = VInt n" "int32_ok n"
      using assms(1) by (cases v) (auto simp: basic_kept_def)
    then show ?thesis using 5
      by (elim disjE) (simp_all add: ints64_def to_basic_def from_basic_def to_same_def from_bits_def sint_to_uint32)
  next
    case 6
    then obtain s where "v = VString s" using assms(1) by (cases v) (simp_all add: basic_kept_def ints64_def)
    then show ?thesis using 6
      by (simp add: ints64_def to_basic_def from_basic_def to_same_def from_string_def)
  next
    case 7
    then obtain b where "v = VBool b" using assms(1) by (cases v) (simp_all add: basic_kept_def ints64_def)
    then show ?thesis using 7
      by (simp add: ints64_def to_basic_def from_basic_def to_same_def is_falsy_def)
  qed
qed

lemma enum_is_kept:
  assumes "enum_kept opts (f_values f) v"
  shows "kept_as (to_enum opts f) (from_enum f) v"
proof -
  obtain n where v: "v = VInt n" "n \<in> snd ` set (f_values f)" using assms by (auto simp: enum_kept_def split: val.splits)
  show ?thesis
  proof (cases "o_enums_String opts")
    case False
    obtain kv where "find (is_case (PInt n)) (f_values f) = Some kv" "snd kv = n"
    proof (cases "find (is_case (PInt n)) (f_values f)")
      case None
      then show ?thesis using v(2) by (auto simp: find_None_iff is_case_def)
    next
      case (Some kv)
      then have "is_case (PInt n) kv" by (blast dest: find_Some_iff[THEN iffD1])
      then show ?thesis using that[OF Some] by (simp add: is_case_def)
    qed
    then show ?thesis using False v(1) by (simp add: to_enum_def from_enum_def)
  next
    case True
    then have d: "distinct (map fst (f_values f))" "\<forall>kv \<in> set (f_values f). js_text (fst kv) \<noteq> number_string n"
      using assms v(1) by (auto simp: enum_kept_def list_all_iff)
    have "n \<in> fst ` set (map (\<lambda>(name, v). (v, name)) (f_values f))" using v(2) by force
    then obtain name where name: "valuesById (f_values f) n = Some name"
      by (metis map_of_eq_None_iff not_None_eq set_rev valuesById_def)
    then have "(name, n) \<in> set (f_values f)" by (auto simp: valuesById_def dest: map_of_SomeD)
    moreover have "find (\<lambda>kv. js_text (fst kv) = number_string n) (f_values f) = None"
      using d(2) by (auto simp: find_None_iff)
    ultimately have to: "to_enum opts f v = Done (PStr (js_text name))"
      using True v(1) name by (simp add: to_enum_def values_at_def)
    obtain kv where "find (is_case (PStr (js_text name))) (f_values f) = Some kv" "kv = (name, n)"
    proof (cases "find (is_case (PStr (js_text name))) (f_values f)")
      case None
      then show ?thesis using \<open>(name, n) \<in> _\<close> by (auto simp: find_None_iff is_case_def)
    next
      case (Some kv)
      then have "kv \<in> set (f_values f)" "fst kv = name" by (auto simp: find_Some_iff is_case_def)
      then have "kv = (name, n)" using \<open>(name, n) \<in> _\<close> d(1) by (metis eq_key_imp_eq_value prod.collapse)
      then show ?thesis using Some that by blast
    qed
    then show ?thesis using to v(1) by (simp add: from_enum_def)
  qed
qed

section \<open>Fields there and back\<close>

definition ctor_slot :: "cfield \<Rightarrow> val option" where
  "ctor_slot f =
     (if f_keyType f \<noteq> None then Some (VMap []) else if f_repeated f then Some (VList []) else None)"

lemma from_field_missing:
  "from_field L rec f PUndefined = Done (ctor_slot f)"
  "f_keyType f = None \<Longrightarrow> f_repeated f \<Longrightarrow> from_field L rec f (PArr []) = Done (ctor_slot f)"
  "f_keyType f \<noteq> None \<Longrightarrow> from_field L rec f (PObj []) = Done (ctor_slot f)"
proof -
  have "find (is_case PUndefined) xs = None" for xs by (simp add: find_None_iff is_case_def)
  moreover have "\<not> f_repeated f \<Longrightarrow> find (is_default f) xs = None" for xs
    by (simp add: find_None_iff is_default_def)
  ultimately show "from_field L rec f PUndefined = Done (ctor_slot f)"
    by (auto simp: from_field_def ctor_slot_def is_falsy_def from_value_def from_enum_def)
qed (auto simp: from_field_def ctor_slot_def is_falsy_def array_of_def object_of_def typeof_object_def)

lemma array_of_some [simp]: "array_of (map Some vs) = Done (VList vs)"
proof -
  have "dropWhile (\<lambda>v. v = None) (map Some xs) = map Some xs" for xs :: "val list" by (cases xs) simp_all
  then have "rev (dropWhile (\<lambda>v. v = None) (rev (map Some vs))) = map Some vs" by (simp add: rev_map)
  then show ?thesis by (simp add: array_of_def comp_def)
qed

definition lossless :: "long_lib option \<Rightarrow> conversion_options \<Rightarrow> bool" where
  "lossless L opts \<longleftrightarrow> \<not> o_defaults opts \<and> (\<forall>lib. L = Some lib \<longrightarrow> long_laws lib)"

text \<open>
  The contract of the converters of the nested types: a message that is kept becomes an object, and
  that object the message.
\<close>

locale nested_conversion =
  fixes L :: "long_lib option"
    and opts :: conversion_options
    and to_rec :: "nat \<Rightarrow> val option list \<Rightarrow> plain outcome"
    and from_rec :: "nat \<Rightarrow> plain \<Rightarrow> val option list outcome"
    and kept :: "nat \<Rightarrow> val option list \<Rightarrow> bool"
  assumes rec_back: "lossless L opts \<Longrightarrow> kept n slots \<Longrightarrow> \<exists>m. to_rec n slots = Done (PObj m) \<and> from_rec n (PObj m) = Done slots"
begin

lemma value_is_kept:
  assumes "lossless L opts" and "value_kept L opts kept f v"
  shows "kept_as (to_value L opts to_rec f) (from_value L from_rec f) v"
proof (cases "f_resolvedType f")
  case Basic
  then show ?thesis using assms basic_is_kept[of L opts "f_type f" v]
    by (auto simp: value_kept_def to_value_def from_value_def lossless_def)
next
  case (MessageType n)
  then obtain slots where "v = VMsg slots" "kept n slots" using assms(2) by (cases v) (simp_all add: value_kept_def)
  then show ?thesis using rec_back[OF assms(1), of n slots] MessageType
    by (fastforce simp: to_value_def from_value_def typeof_object_def split: plain.splits)
next
  case EnumType
  then show ?thesis using assms(2) enum_is_kept[of opts f v]
    by (auto simp: value_kept_def to_value_def from_value_def)
qed

lemma map_is_kept:
  assumes all: "lossless L opts"
  assumes "f_keyType f \<noteq> None" and "map_ok m" and "\<And>kv. kv \<in> set m \<Longrightarrow> value_kept L opts kept f (snd kv)" and "m \<noteq> []"
  shows "\<exists>d. to_field L opts to_rec (f, Some (VMap m)) = Done [(f_name f, d)] \<and>
    from_field L from_rec f d = Done (Some (VMap m))"
proof -
  have "\<exists>y. to_value L opts to_rec f (snd kv) = Done y \<and> from_value L from_rec f y = Done (Some (snd kv))"
    if "kv \<in> set m" for kv using value_is_kept[OF assms(1) assms(4)[OF that]] by blast
  from each_outcome_inverse[where f = "\<lambda>kv. to_value L opts to_rec f (snd kv)" and xs = m, OF this] obtain ds where
    ds: "each_outcome (\<lambda>kv. to_value L opts to_rec f (snd kv)) m = Done ds"
      "each_outcome (from_value L from_rec f) ds = Done (map (\<lambda>kv. Some (snd kv)) m)" "length ds = length m" by blast
  let ?o = "zip (map fst m) ds"
  have keys: "map fst ?o = map fst m" using ds(3) by simp
  have o: "foldl (\<lambda>d (k, v). obj_set k v d) [] ?o = ?o"
    by (rule in_order_foldl) (simp add: keys map_ok_in_order[OF assms(3)])
  have snds: "map snd ?o = ds" using ds(3) by simp
  have each: "each_outcome (\<lambda>kv. from_value L from_rec f (snd kv)) xs = each_outcome (from_value L from_rec f) (map snd xs)"
    for xs :: "(js_string \<times> plain) list" by (induction xs) simp_all
  have vals: "zip (map fst m) (map (\<lambda>kv. Some (snd kv)) m) = map (\<lambda>(k, v). (k, Some v)) m"
    by (induction m) auto
  have "object_of (map (\<lambda>(k, v). (k, Some v)) m) = m"
    using assms(3) by (simp add: object_of_some map_ok_def)
  then have "from_field L from_rec f (PObj ?o) = Done (Some (VMap m))"
    using assms(2) ds(2) unfolding from_field_def is_falsy_def typeof_object_def
    by (simp add: each snds vals keys)
  moreover have "to_field L opts to_rec (f, Some (VMap m)) = Done [(f_name f, PObj ?o)]"
    using assms(2,5) ds(1) o by (simp add: to_field_def)
  ultimately show ?thesis by blast
qed

lemma list_is_kept:
  assumes all: "lossless L opts"
  assumes "f_keyType f = None" and "f_repeated f" and "\<And>v. v \<in> set vs \<Longrightarrow> value_kept L opts kept f v" and "vs \<noteq> []"
  shows "\<exists>d. to_field L opts to_rec (f, Some (VList vs)) = Done [(f_name f, d)] \<and>
    from_field L from_rec f d = Done (Some (VList vs))"
proof -
  have "\<exists>y. to_value L opts to_rec f v = Done y \<and> from_value L from_rec f y = Done (Some v)"
    if "v \<in> set vs" for v using value_is_kept[OF assms(1) assms(4)[OF that]] by blast
  from each_outcome_inverse[where f = "to_value L opts to_rec f" and xs = vs, OF this] obtain ds where
    ds: "each_outcome (to_value L opts to_rec f) vs = Done ds"
      "each_outcome (from_value L from_rec f) ds = Done (map Some vs)" by blast
  then have "from_field L from_rec f (PArr ds) = Done (Some (VList vs))"
    using assms(2,3) unfolding from_field_def is_falsy_def by simp
  moreover have "to_field L opts to_rec (f, Some (VList vs)) = Done [(f_name f, PArr ds)]"
    using assms(2,3,5) ds(1) by (simp add: to_field_def)
  ultimately show ?thesis by blast
qed

lemma slot_is_kept:
  assumes "lossless L opts" and "slot_kept L opts kept f slot"
  shows "\<exists>props. to_field L opts to_rec (f, slot) = Done props \<and>
    (if props = [] then slot = ctor_slot f
     else fst (hd props) = f_name f \<and> from_field L from_rec f (snd (hd props)) = Done slot \<and>
       (\<forall>kv \<in> set (tl props). o_oneofs opts \<and> f_partOf f = Some (fst kv)))"
proof (cases "f_keyType f = None")
  case False
  then obtain m where m: "slot = Some (VMap m)" "map_ok m" "\<And>kv. kv \<in> set m \<Longrightarrow> value_kept L opts kept f (snd kv)"
    using assms(2) by (auto simp: slot_kept_def split: option.splits val.splits)
  show ?thesis
  proof (cases "m = []")
    case True
    then show ?thesis using False m(1) by (simp add: to_field_def ctor_slot_def)
  qed (use map_is_kept[OF assms(1) False m(2,3)] m(1) in fastforce)
next
  case key: True
  show ?thesis
  proof (cases "f_repeated f")
    case True
    then obtain vs where vs: "slot = Some (VList vs)" "\<And>v. v \<in> set vs \<Longrightarrow> value_kept L opts kept f v"
      using assms(2) key by (auto simp: slot_kept_def split: option.splits val.splits)
    show ?thesis
    proof (cases "vs = []")
      case t: True
      then show ?thesis using True key vs(1) by (simp add: to_field_def ctor_slot_def)
    qed (use list_is_kept[OF assms(1) key True vs(2)] vs(1) in fastforce)
  next
    case False
    show ?thesis
    proof (cases slot)
      case None
      then show ?thesis using key False by (simp add: to_field_def ctor_slot_def)
    next
      case (Some v)
      then have "value_kept L opts kept f v" using assms(2) key False by (simp add: slot_kept_def)
      from value_is_kept[OF assms(1) this] obtain d where
        d: "to_value L opts to_rec f v = Done d" "d \<noteq> PUndefined" "d \<noteq> PNull" "from_value L from_rec f d = Done (Some v)"
        by blast
      have "from_field L from_rec f d = Done (Some v)" using key False d(2-4) by (simp add: from_field_def)
      then show ?thesis using key False Some d(1)
        by (simp add: to_field_def split: option.splits)
    qed
  qed
qed

end

section \<open>Messages there and back\<close>

lemma map_of_rev_unique:
  assumes "(k, x) \<in> set xs" and "\<And>y. (k, y) \<in> set xs \<Longrightarrow> y = x"
  shows "map_of (rev (ds @ xs)) k = Some x"
proof -
  have "map_of (rev xs) k \<noteq> None" using assms(1) unfolding map_of_eq_None_iff by force
  then obtain y where "map_of (rev xs) k = Some y" by blast
  moreover from this have "y = x" by (intro assms(2)) (auto dest: map_of_SomeD)
  ultimately show ?thesis by (simp add: map_add_def)
qed

lemma zip_by_name:
  assumes "distinct (map f_name fs)" and "(f, s) \<in> set (zip fs slots)" and "(g, t) \<in> set (zip fs slots)"
    and "f_name f = f_name g"
  shows "(f, s) = (g, t)"
proof -
  obtain i j where i: "i < length fs" "fs ! i = f" "slots ! i = s" and j: "j < length fs" "fs ! j = g" "slots ! j = t"
    using assms(2,3) by (auto simp: set_zip)
  then have "i = j" using assms(1,4) by (metis distinct_conv_nth length_map nth_map)
  then show ?thesis using i j by simp
qed

text \<open>The defaults of the converter without \<open>defaults\<close>: empty arrays and objects.\<close>

lemma default_props_empty:
  assumes "\<not> o_defaults opts" and "\<And>f. f \<in> set fs \<Longrightarrow> \<not> (f_keyType f \<noteq> None \<and> f_repeated f)"
  shows "\<exists>ds. default_props L opts fs = Done ds \<and>
    (\<forall>(k, d) \<in> set ds. \<exists>f \<in> set fs. f_name f = k \<and> from_field L rec f d = Done (ctor_slot f))"
  using assms from_field_missing(2,3)[of _ L rec]
  by (fastforce simp: default_props_def repeatedFields_def mapFields_def)

lemma field_back:
  assumes T: "fields_ok opts fs" "length slots = length fs" "(f, slot) \<in> set (zip fs slots)"
    and P: "\<And>g t. (g, t) \<in> set (zip fs slots) \<Longrightarrow>
      (if P (g, t) = [] then t = ctor_slot g
       else fst (hd (P (g, t))) = f_name g \<and> from_field L rec g (snd (hd (P (g, t)))) = Done t \<and>
         (\<forall>kv \<in> set (tl (P (g, t))). o_oneofs opts \<and> f_partOf g = Some (fst kv)))"
    and ds: "\<forall>(k, d) \<in> set ds. \<exists>g \<in> set fs. f_name g = k \<and> from_field L rec g d = Done (ctor_slot g)"
    and xs: "set xs = (\<Union>(g, t) \<in> set (zip fs slots). set (P (g, t)))"
  shows "bind_outcome (get_prop (assign_props (ds @ xs)) (f_name f)) (from_field L rec f) = Done slot"
proof -
  let ?k = "f_name f"
  have names: "distinct (map f_name fs)" and k: "?k \<notin> set object_proto" and f: "f \<in> set fs"
    using T by (auto simp: fields_ok_def list_all_iff dest: set_zip_leftD)
  have own: "P (f, slot) \<noteq> [] \<and> kv = hd (P (f, slot))" if kv: "kv \<in> set xs" "fst kv = ?k" for kv
  proof -
    obtain g t where g: "(g, t) \<in> set (zip fs slots)" "kv \<in> set (P (g, t))" using kv(1) xs by auto
    then have ne: "P (g, t) \<noteq> []" by auto
    have "kv \<notin> set (tl (P (g, t)))"
    proof
      assume "kv \<in> set (tl (P (g, t)))"
      then have "o_oneofs opts" "f_partOf g = Some ?k" using P[OF g(1)] ne kv(2) by auto
      moreover have "g \<in> set fs" using g(1) by (rule set_zip_leftD)
      ultimately show False using T(1) f by (auto simp: fields_ok_def list_all_iff)
    qed
    then have "kv = hd (P (g, t))" using g(2) ne by (cases "P (g, t)") auto
    moreover from this have "(g, t) = (f, slot)" using P[OF g(1)] ne kv(2) by (intro zip_by_name[OF names g(1) T(3)]) auto
    ultimately show ?thesis using ne by simp
  qed
  have got: "get_prop (assign_props (ds @ xs)) ?k =
      Done (case map_of (rev (ds @ xs)) ?k of Some d \<Rightarrow> d | None \<Rightarrow> PUndefined)"
    using k unfolding get_prop_def assign_props_def plain.case map_of_assigns by (cases "map_of (rev (ds @ xs)) ?k") (simp_all del: rev_append map_of_append)
  show ?thesis
  proof (cases "P (f, slot) = []")
    case False
    then have "hd (P (f, slot)) \<in> set xs" using T(3) xs by (auto intro!: bexI[of _ "(f, slot)"])
    moreover have p: "fst (hd (P (f, slot))) = ?k" "from_field L rec f (snd (hd (P (f, slot)))) = Done slot"
      using P[OF T(3)] False by simp_all
    ultimately have "map_of (rev (ds @ xs)) ?k = Some (snd (hd (P (f, slot))))"
      using own by (intro map_of_rev_unique) (metis prod.collapse, (metis fst_conv snd_conv))
    then show ?thesis using got p(2) by simp
  next
    case True
    then have "?k \<notin> fst ` set xs" using own by force
    then have "map_of (rev xs) ?k = None" by (simp add: map_of_eq_None_iff)
    then have m: "map_of (rev (ds @ xs)) ?k = map_of (rev ds) ?k" by (simp add: map_add_def)
    have slot: "slot = ctor_slot f" using P[OF T(3)] True by simp
    show ?thesis
    proof (cases "map_of (rev ds) ?k")
      case None
      then show ?thesis using got unfolding m slot by (simp add: from_field_missing(1))
    next
      case (Some d)
      then have "(?k, d) \<in> set ds" by (auto dest: map_of_SomeD)
      then obtain g where "g \<in> set fs" "f_name g = ?k" "from_field L rec g d = Done (ctor_slot g)" using ds by fast
      moreover from this have "g = f" using names f by (metis distinct_map inj_onD)
      ultimately show ?thesis using got Some unfolding m slot by simp
    qed
  qed
qed

lemma conversion_back:
  assumes "lossless L opts"
  shows "msg_kept depth L opts S n slots \<Longrightarrow>
    \<exists>m. toObject depth L opts S n slots = Done (PObj m) \<and> fromObject depth L S n (PObj m) = Done slots"
proof (induction depth arbitrary: n slots)
  case (Suc depth)
  let ?to = "toObject depth L opts S" and ?from = "fromObject depth L S"
  have "nested_conversion L opts ?to ?from (msg_kept depth L opts S)"
    by unfold_locales (use Suc.IH in blast)
  note slot = nested_conversion.slot_is_kept[OF this assms]
  obtain T where T: "S n = Some T" "fields_ok opts (ct_fields T)" "length slots = length (ct_fields T)"
    "\<And>f s. (f, s) \<in> set (zip (ct_fields T) slots) \<Longrightarrow> slot_kept L opts (msg_kept depth L opts S) f s"
    using Suc.prems by (auto split: option.splits)
  let ?fs = "sort_key (\<lambda>(f, _). f_id f) (zip (ct_fields T) slots)"
  define P where "P fs = (case to_field L opts ?to fs of Done p \<Rightarrow> p | _ \<Rightarrow> [])" for fs
  have P: "to_field L opts ?to (g, t) = Done (P (g, t)) \<and>
      (if P (g, t) = [] then t = ctor_slot g
       else fst (hd (P (g, t))) = f_name g \<and> from_field L ?from g (snd (hd (P (g, t)))) = Done t \<and>
         (\<forall>kv \<in> set (tl (P (g, t))). o_oneofs opts \<and> f_partOf g = Some (fst kv)))"
    if "(g, t) \<in> set (zip (ct_fields T) slots)" for g t
    using slot[OF T(4)[OF that]] by (auto simp: P_def)
  have "each_outcome (to_field L opts ?to) ?fs = Done (map P ?fs)"
  proof (rule each_outcome_Done)
    fix x y assume "(x, y) \<in> set (zip ?fs (map P ?fs))"
    then have "x \<in> set (zip (ct_fields T) slots)" "y = P x"
      by (auto simp: zip_map2 zip_same dest: set_zip_leftD)
    then show "to_field L opts ?to x = Done y" using P[of "fst x" "snd x"] by simp
  qed simp
  moreover have set: "set (map fst ?fs) = set (ct_fields T)" 
  proof -
    have "set (map fst ?fs) = set (map fst (zip (ct_fields T) slots))" by simp
    then show ?thesis using T(3) by (simp only: map_fst_zip)
  qed
  have "\<not> (f_keyType f \<noteq> None \<and> f_repeated f)" if "f \<in> set (map fst ?fs)" for f
    using that T(2) unfolding set by (simp add: fields_ok_def list_all_iff)
  from default_props_empty[where opts = opts and fs = "map fst ?fs" and L = L and rec = ?from, OF _ this] obtain ds where
    ds: "default_props L opts (map fst ?fs) = Done ds"
      "\<forall>(k, d) \<in> set ds. \<exists>g \<in> set (ct_fields T). f_name g = k \<and> from_field L ?from g d = Done (ctor_slot g)"
    using assms unfolding set lossless_def by blast
  moreover have sw: "list_all switch_ok (ct_fields T)" using T(2) by (simp add: fields_ok_def)
  ultimately have to: "toObject (Suc depth) L opts S n slots = Done (assign_props (ds @ concat (map P ?fs)))"
    using T(1) by (simp add: Let_def)
  have xs: "set (concat (map P ?fs)) = (\<Union>(g, t) \<in> set (zip (ct_fields T) slots). set (P (g, t)))" by auto
  have "bind_outcome (get_prop (assign_props (ds @ concat (map P ?fs))) (f_name f)) (from_field L ?from f) = Done s"
    if "(f, s) \<in> set (zip (ct_fields T) slots)" for f s
    by (rule field_back[OF T(2,3) that _ ds(2) xs]) (use P in blast)
  then have "each_outcome (\<lambda>f. bind_outcome (get_prop (assign_props (ds @ concat (map P ?fs))) (f_name f)) (from_field L ?from f))
      (ct_fields T) = Done slots"
    using T(3) by (intro each_outcome_Done) simp_all
  then have "fromObject (Suc depth) L S n (assign_props (ds @ concat (map P ?fs))) = Done slots"
    using T(1) sw by (simp add: assign_props_def)
  then show ?case using to by (auto simp: assign_props_def)
qed simp

interpretation conversions: nested_conversion L opts "toObject depth L opts S" "fromObject depth L S"
    "msg_kept depth L opts S" for depth L opts S
  by unfold_locales (rule conversion_back)

section \<open>What fromObject makes has the types of the fields\<close>

text \<open>A type as the verifier and the codec see it.\<close>

definition vtype_of :: "ctype \<Rightarrow> vtype" where
  "vtype_of T = \<lparr>vt_name = ct_name T, vt_fields = map vfield.truncate (ct_fields T), vt_group = ct_group T\<rparr>"

definition vschema_of :: "cschema \<Rightarrow> vschema" where
  "vschema_of S n = map_option vtype_of (S n)"

lemma vtruncate_simps [simp]:
  "f_name (vfield.truncate f) = f_name f" "f_id (vfield.truncate f) = f_id f" "f_type (vfield.truncate f) = f_type f"
  "f_required (vfield.truncate f) = f_required f" "f_repeated (vfield.truncate f) = f_repeated f"
  "f_keyType (vfield.truncate f) = f_keyType f" "f_packed (vfield.truncate f) = f_packed f"
  "f_resolvedType (vfield.truncate f) = f_resolvedType f" "f_defaultValue (vfield.truncate f) = f_defaultValue f"
  "f_partOf (vfield.truncate f) = f_partOf f" "f_values (vfield.truncate f) = f_values f"
  by (simp_all add: vfield.truncate_def)

text \<open>Types whose fields are optional, without oneofs, and maps with keys that are texts.\<close>

definition free_field :: "cfield \<Rightarrow> bool" where
  "free_field f \<longleftrightarrow> \<not> f_required f \<and> f_partOf f = None \<and> (f_keyType f = None \<or> f_keyType f = Some ''string'')"

definition free_schema :: "cschema \<Rightarrow> bool" where
  "free_schema S \<longleftrightarrow> (\<forall>n T. S n = Some T \<longrightarrow> list_all free_field (ct_fields T))"

text \<open>Plain values all the way down: no instances, which are taken as they are.\<close>

fun no_instance :: "plain \<Rightarrow> bool" where
  "no_instance (PInst n slots) = False"
| "no_instance (PArr xs) = (\<forall>x \<in> set xs. no_instance x)"
| "no_instance (PObj m) = (\<forall>kv \<in> set m. no_instance (snd kv))"
| "no_instance _ = True"

lemma bind_Done: "bind_outcome p f = Done y \<longleftrightarrow> (\<exists>x. p = Done x \<and> f x = Done y)"
  by (cases p) simp_all

lemma from_number_typed: "from_number type d = Done v \<Longrightarrow> (\<exists>n. v = VInt n) \<or> (\<exists>x. v = VFloat x) \<or> (\<exists>x. v = VDouble x)"
  by (auto simp: from_number_def special_def Let_def split: plain.splits if_splits option.splits)

lemma from_long_typed: "from_long L u d = Done (Some v) \<Longrightarrow> (\<exists>n. v = VInt n) \<or> (\<exists>l. v = VLong l)"
  by (auto simp: from_long_def bind_Done split: option.splits plain.splits)

lemma from_bytes_typed: "from_bytes d = Done (Some v) \<Longrightarrow> \<exists>b. v = VBytes b"
  by (cases d) (auto simp: from_bytes_def split: prod.splits sum.splits if_splits list.splits)

lemma basic_typed:
  assumes "from_basic L (f_type f) d = Done (Some v)"
  shows "verify_basic (vfield.truncate f) (Some v) = ok"
proof -
  consider "f_type f = ''double'' \<or> f_type f = ''float''" | "f_type f \<in> set ints64" | "f_type f = ''bytes''"
    | "f_type f = ''uint32'' \<or> f_type f = ''fixed32'' \<or> f_type f = ''int32'' \<or> f_type f = ''sint32'' \<or> f_type f = ''sfixed32''"
    | "f_type f = ''string''" | "f_type f = ''bool''"
    using assms by (auto simp: from_basic_def split: if_splits)
  then show ?thesis
  proof cases
    case 1
    then have "from_number (f_type f) d = Done v" using assms by (auto simp: from_basic_def bind_Done)
    from from_number_typed[OF this] 1 show ?thesis
      by (elim disjE exE) (simp_all add: verify_basic_def Let_def ints32_def ints64_def)
  next
    case 2
    then have "from_long L (f_type f = ''uint64'') d = Done (Some v)"
      using assms by (auto simp: from_basic_def ints64_def)
    moreover have "f_type f \<notin> set ints32" using 2 by (auto simp: ints32_def ints64_def)
    ultimately show ?thesis using from_long_typed 2 by (fastforce simp: verify_basic_def Let_def)
  next
    case 3
    then have "from_bytes d = Done (Some v)" using assms by (simp add: from_basic_def ints64_def)
    from from_bytes_typed[OF this] 3 show ?thesis by (auto simp: verify_basic_def ints32_def ints64_def)
  next
    case 4
    then have "f_type f \<in> set ints32" by (auto simp: ints32_def)
    moreover obtain n where "v = VInt n" using assms 4 by (auto simp: from_basic_def bind_Done)
    ultimately show ?thesis by (simp add: verify_basic_def Let_def)
  next
    case 5
    then obtain s where "v = VString s" using assms by (auto simp: from_basic_def bind_Done ints64_def)
    then show ?thesis using 5 by (simp add: verify_basic_def Let_def ints32_def ints64_def)
  next
    case 6
    then obtain b where "v = VBool b" using assms by (auto simp: from_basic_def ints64_def)
    then show ?thesis using 6 by (simp add: verify_basic_def Let_def ints32_def ints64_def)
  qed
qed

lemma find_member: "find P xs = Some x \<Longrightarrow> x \<in> set xs"
  by (metis find_Some_iff nth_mem)

lemma enum_typed:
  assumes "from_enum f d = Done (Some v)"
  shows "verify_enum (vfield.truncate f) (Some v) = ok"
proof -
  obtain kv where "kv \<in> set (f_values f)" "v = VInt (snd kv)"
    using assms by (cases d) (fastforce simp: from_enum_def dest: find_member split: option.splits)+
  then show ?thesis by (simp add: verify_enum_def)
qed

lemma verify_key_string: "f_keyType f = Some ''string'' \<Longrightarrow> verify_key f k = ok"
  by (simp add: verify_key_def ints32_def ints64_def)

lemma array_of_elements:
  assumes "array_of vs = Done l" and "\<And>v. Some v \<in> set vs \<Longrightarrow> Q v"
  shows "\<exists>xs. l = VList xs \<and> (\<forall>v \<in> set xs. Q v)"
proof -
  let ?xs = "rev (dropWhile (\<lambda>v. v = None) (rev vs))"
  have sub: "set ?xs \<subseteq> set vs" by (auto dest: set_dropWhileD)
  have n: "None \<notin> set ?xs" "l = VList (map the ?xs)"
    using assms(1) unfolding array_of_def Let_def by (simp_all split: if_splits)
  have "Q v" if v: "v \<in> set (map the ?xs)" for v
  proof -
    obtain x where "x \<in> set ?xs" "v = the x" using v by (auto simp only: set_map)
    moreover from this have "x \<noteq> None" using n(1) by metis
    ultimately show ?thesis using sub assms(2) by auto
  qed
  then show ?thesis using n(2) by blast
qed

lemma object_of_elements:
  assumes "\<And>k v. (k, Some v) \<in> set kvs \<Longrightarrow> Q v"
  shows "\<forall>kv \<in> set (object_of kvs). Q (snd kv)"
proof -
  have s: "\<forall>kv \<in> set (obj_set k v m). Q (snd kv)" if "Q v" "\<forall>kv \<in> set m. Q (snd kv)" for k v m
    using that by (auto simp: obj_set_def obj_insert_elems)
  have "\<forall>kv \<in> set (foldl (\<lambda>m kv. case snd kv of None \<Rightarrow> m | Some x \<Rightarrow> obj_set (fst kv) x m) m kvs). Q (snd kv)"
    if "\<forall>kv \<in> set m. Q (snd kv)" for m
    using that assms
  proof (induction kvs arbitrary: m)
    case (Cons kv kvs)
    obtain k v where kv: "kv = (k, v)" by force
    have "\<forall>x \<in> set (case snd kv of None \<Rightarrow> m | Some x \<Rightarrow> obj_set (fst kv) x m). Q (snd x)"
    proof (cases v)
      case (Some x)
      then have "Q x" using Cons.prems(2)[of k x] kv by simp
      then show ?thesis using s Cons.prems(1) Some kv by simp
    qed (use Cons.prems(1) kv in simp)
    from Cons.IH[OF this] have "\<forall>kv \<in> set (foldl (\<lambda>m kv. case snd kv of None \<Rightarrow> m | Some x \<Rightarrow> obj_set (fst kv) x m)
        (case snd kv of None \<Rightarrow> m | Some x \<Rightarrow> obj_set (fst kv) x m) kvs). Q (snd kv)"
      using Cons.prems(2) by (meson list.set_intros(2))
    then show ?case by (simp only: foldl_Cons)
  qed simp
  from this[of "[]"] show ?thesis unfolding object_of_def by simp
qed

text \<open>The contract of the nested \<open>fromObject\<close>: its results are valid messages of their types.\<close>

locale nested_fromObject =
  fixes S :: cschema
    and L :: "long_lib option"
    and from_rec :: "nat \<Rightarrow> plain \<Rightarrow> val option list outcome"
    and ver :: "vtype \<Rightarrow> val option \<Rightarrow> check"
  assumes rec_valid: "free_schema S \<Longrightarrow> no_instance d \<Longrightarrow> from_rec n d = Done slots \<Longrightarrow>
    \<exists>T. S n = Some T \<and> ver (vtype_of T) (Some (VMsg slots)) = ok"
begin

lemma value_typed:
  assumes "no_instance d" and "from_value L from_rec f d = Done (Some v)" and "free_schema S"
  shows "verify_value (vschema_of S) ver (vfield.truncate f) (Some v) = ok"
proof (cases "f_resolvedType f")
  case Basic
  then show ?thesis using assms(2) basic_typed[of L f d v] by (simp add: from_value_def verify_value_def)
next
  case EnumType
  then show ?thesis using assms(2) enum_typed[of f d v] by (simp add: from_value_def verify_value_def)
next
  case (MessageType n)
  then obtain slots where s: "from_rec n d = Done slots" "v = VMsg slots"
    using assms(2) by (auto simp: from_value_def bind_Done split: if_splits)
  from rec_valid[OF assms(3,1) s(1)] show ?thesis
    using s(2) MessageType by (auto simp: verify_value_def vschema_of_def)
qed

lemma field_typed:
  assumes "no_instance d" and "from_field L from_rec f d = Done slot" and "free_field f" and "free_schema S"
  shows "verify_field (vschema_of S) ver seen (vfield.truncate f) slot = ok"
proof -
  have free: "\<not> f_required f" "f_partOf f = None" "f_keyType f = None \<or> f_keyType f = Some ''string''"
    using assms(3) by (auto simp: free_field_def)
  show ?thesis
  proof (cases "f_keyType f = None")
    case False
    then have key: "f_keyType f = Some ''string''" using free(3) by auto
    have "\<exists>m. slot = Some (VMap m) \<and> (\<forall>kv \<in> set m. verify_value (vschema_of S) ver (vfield.truncate f) (Some (snd kv)) = ok)"
    proof (cases "is_falsy d")
      case True
      then show ?thesis using assms(2) False by (auto simp: from_field_def)
    next
      case d: False
      then obtain m vs where m: "d = PObj m" "each_outcome (\<lambda>kv. from_value L from_rec f (snd kv)) m = Done vs"
        "slot = Some (VMap (object_of (zip (map fst m) vs)))"
        using assms(2) False by (auto simp: from_field_def bind_Done split: if_splits plain.splits)
      have "verify_value (vschema_of S) ver (vfield.truncate f) (Some v) = ok"
        if "(k, Some v) \<in> set (zip (map fst m) vs)" for k v
      proof -
        obtain i where "i < length vs" "vs ! i = Some v" using \<open>(k, Some v) \<in> _\<close> by (auto simp: set_zip)
        then have "from_value L from_rec f (snd (m ! i)) = Done (Some v)" "m ! i \<in> set m"
          using each_outcome_nth[OF m(2), of i] by simp_all
        then show ?thesis using assms(1,4) m(1) by (auto intro!: value_typed)
      qed
      then have "\<forall>kv \<in> set (object_of (zip (map fst m) vs)).
          verify_value (vschema_of S) ver (vfield.truncate f) (Some (snd kv)) = ok"
        by (rule object_of_elements[where Q = "\<lambda>v. verify_value (vschema_of S) ver (vfield.truncate f) (Some v) = ok"])
      then show ?thesis using m(3) by simp
    qed
    then obtain m where m: "slot = Some (VMap m)"
      "\<forall>kv \<in> set m. verify_value (vschema_of S) ver (vfield.truncate f) (Some (snd kv)) = ok" by blast
    have "verify_key (vfield.truncate f) k = ok" for k by (rule verify_key_string) (simp add: key)
    then show ?thesis using m key free(1) by (simp add: verify_field_def field_value_def case_prod_beta)
  next
    case key: True
    show ?thesis
    proof (cases "f_repeated f")
      case True
      have "\<exists>xs. slot = Some (VList xs) \<and> (\<forall>v \<in> set xs. verify_value (vschema_of S) ver (vfield.truncate f) (Some v) = ok)"
      proof (cases "is_falsy d")
        case t: True
        then show ?thesis using assms(2) True key by (auto simp: from_field_def)
      next
        case d: False
        then obtain ds vs l where m: "d = PArr ds" "each_outcome (from_value L from_rec f) ds = Done vs"
          "array_of vs = Done l" "slot = Some l"
          using assms(2) True key by (auto simp: from_field_def bind_Done split: if_splits plain.splits)
        have "verify_value (vschema_of S) ver (vfield.truncate f) (Some v) = ok" if "Some v \<in> set vs" for v
        proof -
          obtain i where "i < length vs" "vs ! i = Some v"
            using \<open>Some v \<in> _\<close> by (auto simp: in_set_conv_nth)
          then have "from_value L from_rec f (ds ! i) = Done (Some v)" "ds ! i \<in> set ds"
            using each_outcome_nth[OF m(2), of i] by simp_all
          then show ?thesis using assms(1,4) m(1) by (auto intro!: value_typed)
        qed
        from array_of_elements[where Q = "\<lambda>v. verify_value (vschema_of S) ver (vfield.truncate f) (Some v) = ok", OF m(3) this]
        show ?thesis using m(4) by blast
      qed
      then show ?thesis using True key free(1) by (auto simp: verify_field_def field_value_def)
    next
      case False
      show ?thesis
      proof (cases slot)
        case (Some v)
        then have "from_value L from_rec f d = Done (Some v)"
          using assms(2) False key by (auto simp: from_field_def split: if_splits)
        from value_typed[OF assms(1) this assms(4)] show ?thesis
          using Some False key free by (simp add: verify_field_def field_value_def)
      qed (use free(1) in \<open>simp add: verify_field_def\<close>)
    qed
  qed
qed

end

lemma get_prop_plain: "no_instance d \<Longrightarrow> get_prop d k = Done x \<Longrightarrow> no_instance x"
  by (cases d) (auto simp: get_prop_def split: option.splits if_splits dest!: map_of_SomeD)

lemma from_object_valid:
  assumes "free_schema S"
  shows "no_instance d \<Longrightarrow> fromObject depth L S n d = Done slots \<Longrightarrow>
    \<exists>T. S n = Some T \<and> verify depth (vschema_of S) (vtype_of T) (Some (VMsg slots)) = ok"
proof (induction depth arbitrary: d n slots)
  case (Suc depth)
  have "nested_fromObject S (fromObject depth L S) (verify depth (vschema_of S))"
    by unfold_locales (rule Suc.IH)
  note typed = nested_fromObject.field_typed[OF this]
  obtain T where T: "S n = Some T" "each_outcome
      (\<lambda>f. bind_outcome (get_prop d (f_name f)) (from_field L (fromObject depth L S) f)) (ct_fields T) = Done slots"
    using Suc.prems by (cases d) (auto split: option.splits if_splits)
  have free: "list_all free_field (ct_fields T)" using assms T(1) by (auto simp: free_schema_def)
  have "verify_field (vschema_of S) (verify depth (vschema_of S)) [] (vfield.truncate f) slot = ok"
    if "(f, slot) \<in> set (zip (ct_fields T) slots)" for f slot
  proof -
    have "bind_outcome (get_prop d (f_name f)) (from_field L (fromObject depth L S) f) = Done slot"
      using each_outcome_pairs[OF T(2)] that by blast
    then obtain x where "get_prop d (f_name f) = Done x" "from_field L (fromObject depth L S) f x = Done slot"
      by (auto simp: bind_Done)
    moreover have "free_field f" using free that by (auto simp: list_all_iff dest: set_zip_leftD)
    ultimately show ?thesis using typed get_prop_plain[OF Suc.prems(1)] assms by blast
  qed
  moreover have "oneof_of (vfield.truncate f) slot = None" if "(f, slot) \<in> set (zip (ct_fields T) slots)" for f slot
    using free that by (auto simp: oneof_of_def list_all_iff free_field_def dest: set_zip_leftD)
  then have "set_oneofs (map (\<lambda>(f, s). (vfield.truncate f, s)) (zip (ct_fields T) slots)) = []"
    by (auto simp: set_oneofs_def List.map_filter_def filter_empty_conv)
  ultimately show ?case using T(1)
    by (auto simp: verify_fields_ok vtype_of_def zip_map_truncate)
qed simp

interpretation conversion_results: nested_fromObject S L "fromObject depth L S" "verify depth (vschema_of S)" for S L depth
  by unfold_locales (rule from_object_valid)

section \<open>The properties\<close>


text \<open>A runtime whose Long library writes a Long as its eight bytes.\<close>

definition hash_lib :: long_lib where
  "hash_lib =
     \<lparr>ll_fromValue =
        (\<lambda>d. case d of
           PLong l \<Rightarrow> Some l
         | PStr s \<Rightarrow> Some (toLong False (fromHash s))
         | _ \<Rightarrow> None),
      ll_toString = (\<lambda>l. toHash (LongBits (to_uint32 (low l)) (to_uint32 (high l)))),
      ll_toNumber = (\<lambda>l. toNumber (unsigned l) (LongBits (to_uint32 (low l)) (to_uint32 (high l))))\<rparr>"

lemma hash_lib_laws: "long_laws hash_lib"
  by (auto simp: long_laws_def hash_lib_def long_ok_def fromHash_toHash toLong_def LongBits_def sint_to_uint32)

definition vote_fields :: "cfield list" where
  "vote_fields =
     [\<lparr>f_name = ''serial'', f_id = 2, f_type = ''uint64'', f_required = False, f_repeated = False, f_keyType = None,
       f_packed = False, f_resolvedType = Basic, f_defaultValue = Some (VLong \<lparr>low = 0, high = 0, unsigned = True\<rparr>),
       f_partOf = None, f_values = [],
       f_typeDefault = Some (VLong \<lparr>low = 0, high = 0, unsigned = True\<rparr>), f_fullName = ''.Vote.serial''\<rparr>,
      \<lparr>f_name = ''tags'', f_id = 1, f_type = ''bytes'', f_required = False, f_repeated = True, f_keyType = None,
       f_packed = False, f_resolvedType = Basic, f_defaultValue = None,
       f_partOf = None, f_values = [], f_typeDefault = Some (VBytes []), f_fullName = ''.Vote.tags''\<rparr>]"

definition vote_schema :: cschema where
  "vote_schema n = (if n = 0 then Some \<lparr>ct_name = ''Vote'', ct_fields = vote_fields, ct_group = False\<rparr> else None)"

definition vote :: "val option list" where
  "vote = [Some (VLong \<lparr>low = 7, high = - 1, unsigned = True\<rparr>), Some (VList [VBytes [1, 2], VBytes []])]"

lemma vote_kept: "msg_kept 1 (Some hash_lib) toJSONOptions vote_schema 0 vote"
  by (simp add: vote_schema_def vote_def vote_fields_def fields_ok_def switch_ok_def object_proto_def
      toJSONOptions_def no_options_def slot_kept_def value_kept_def basic_kept_def ints64_def long_kept_def
      long_ok_def int32_ok_def)



lemma vote_free: "free_schema vote_schema"
  by (simp add: free_schema_def vote_schema_def vote_fields_def free_field_def)


section \<open>What is not kept\<close>

text \<open>
  A repeated field of bytes loses its empty elements at the end: an empty array counts as no bytes.
\<close>

lemma empty_bytes_lost:
  assumes "f_keyType f = None" and "f_repeated f" and "f_resolvedType f = Basic" and "f_type f = ''bytes''"
    and "[] \<notin> set bs" and "bs \<noteq> []"
  shows "\<exists>d. to_field L no_options to_rec (f, Some (VList (map VBytes bs @ [VBytes []]))) = Done [(f_name f, d)] \<and>
    from_field L from_rec f d = Done (Some (VList (map VBytes bs)))"
proof (intro exI conjI)
  have t: "to_value L no_options to_rec f (VBytes b) = Done (PBytes b)" for b
    using assms(3,4) by (simp add: to_value_def to_basic_def ints64_def to_bytes_def no_options_def)
  have "each_outcome (to_value L no_options to_rec f) (map VBytes xs) = Done (map PBytes xs)" for xs
    by (induction xs) (simp_all add: t)
  from this[of "bs @ [[]]"]
  show "to_field L no_options to_rec (f, Some (VList (map VBytes bs @ [VBytes []]))) = Done [(f_name f, PArr (map PBytes (bs @ [[]])))]"
    using assms(1,2) by (simp add: to_field_def)
  have f: "from_value L from_rec f (PBytes b) = Done (if b = [] then None else Some (VBytes b))" for b
    using assms(3,4) by (simp add: from_value_def from_basic_def ints64_def from_bytes_def)
  have e: "each_outcome (from_value L from_rec f) (map PBytes xs) = Done (map (\<lambda>b. if b = [] then None else Some (VBytes b)) xs)"
    for xs by (induction xs) (simp_all add: f)
  have m: "map (\<lambda>b. if b = [] then None else Some (VBytes b)) bs = map Some (map VBytes bs)"
    using assms(5) by auto
  have "array_of (map Some vs @ [None]) = array_of (map Some vs)" for vs :: "val list"
    by (simp add: array_of_def)
  then have a: "array_of (map Some (map VBytes bs) @ [None]) = Done (VList (map VBytes bs))" by (simp only: array_of_some)
  have "each_outcome (from_value L from_rec f) (map PBytes (bs @ [[]])) = Done (map Some (map VBytes bs) @ [None])"
    unfolding e by (simp only: map_append m list.map if_True simp_thms)
  then show "from_field L from_rec f (PArr (map PBytes (bs @ [[]]))) = Done (Some (VList (map VBytes bs)))"
    using assms(1,2) a by (simp add: from_field_def is_falsy_def del: map_append map_map)
qed

text \<open>
  The value of a \<open>fixed64\<close> field is unsigned, and so the reader makes it; the converter makes it signed.
\<close>

lemma fixed64_sign:
  assumes "long_laws lib"
  shows "from_basic (Some lib) ''fixed64'' (PLong (toLong True b)) = Done (Some (VLong (toLong False b)))"
  using assms by (simp add: from_basic_def ints64_def from_long_def long_laws_def toLong_def)

text \<open>
  With the options \<open>defaults\<close> and \<open>bytes: String\<close> a default value is written as a binary text, which is
  not what \<open>fromObject\<close> reads.
\<close>

lemma default_bytes_not_base64:
  assumes "f_resolvedType f = Basic" and "f_type f = ''bytes''" and "f_typeDefault f = Some (VBytes [200])"
    and "o_bytes opts = BytesString"
  shows "default_value L opts f = Done (PStr [200]) \<and>
    from_basic L ''bytes'' (PStr [200]) = Thrown (Error ''invalid encoding'')"
proof -
  have "s64 200 = None" by code_simp
  then have "base64_decode_loop [200] buf 0 0 0 = (Inl (Error ''invalid encoding''), buf)" for buf by simp
  then show ?thesis using assms
    by (simp add: default_value_def default_bytes_def from_basic_def ints64_def from_bytes_def base64_decode_def
        types_long_def bake_def types_s_def upt_rec js_get_def split: option.splits)
qed

text \<open>An enum with an alias of its default: no message of a type that has a repeated field of it can be converted.\<close>

lemma aliased_default:
  assumes "S n = Some T" and "f \<in> set (ct_fields T)" and "f_resolvedType f = EnumType" and "f_repeated f"
    and "f_typeDefault f = Some (VInt k)" and "f_values f = (a, k) # (b, k) # vs"
  shows "fromObject (Suc depth) L S n d = Thrown syntax_error \<and> toObject (Suc depth) L opts S n slots = Thrown syntax_error"
proof -
  have "\<not> switch_ok f" using assms(3-6) by (simp add: switch_ok_def is_default_def)
  then have "\<not> list_all switch_ok (ct_fields T)" using assms(2) by (auto simp: list_all_iff)
  then show ?thesis using assms(1) by simp
qed

end
