(* ===== verification/Pool.thy ===== *)
theory Pool
  imports Prelude
begin

text \<open>
  \<open>util.pool\<close>: an allocator that cuts small buffers from slabs. \<open>Writer.alloc\<close> is such an allocator over
  \<open>Uint8Array\<close>, with \<open>subarray\<close> as the slicer, so that the buffers of finished writers lie side by side in one slab.
  A slab is its number; a buffer is a part of a slab or an array of its own. \<open>ops\<close> below are the calls
  of one pool, in order.
\<close>

record pool =
  p_size :: nat
  p_max :: nat
  p_slab :: "nat option"
  p_offset :: nat
  p_allocated :: nat   \<comment> \<open>calls of \<open>alloc\<close> so far: the number of the next array\<close>

datatype buffer =
    Own nat nat             \<comment> \<open>the array and its length\<close>
  | Slice nat nat nat       \<comment> \<open>the slab, the start and the end\<close>

definition new_pool :: "nat option \<Rightarrow> pool" where
  "new_pool slab =
     (let SIZE = (case slab of None \<Rightarrow> 8192 | Some n \<Rightarrow> if n = 0 then 8192 else n)
      in \<lparr>p_size = SIZE, p_max = SIZE div 2, p_slab = None, p_offset = SIZE, p_allocated = 0\<rparr>)"

definition align8 :: "nat \<Rightarrow> nat" where
  "align8 n = (if n mod 8 \<noteq> 0 then n div 8 * 8 + 7 + 1 else n)"

definition pool_alloc :: "nat \<Rightarrow> pool \<Rightarrow> buffer \<times> pool" where
  "pool_alloc n p =
     (if n < 1 \<or> n > p_max p
      then (Own (p_allocated p) n, p\<lparr>p_allocated := p_allocated p + 1\<rparr>)
      else
        let p1 = (if p_offset p + n > p_size p
                  then p\<lparr>p_slab := Some (p_allocated p), p_offset := 0, p_allocated := p_allocated p + 1\<rparr>
                  else p);
            start = p_offset p1
        in (Slice (the (p_slab p1)) start (start + n), p1\<lparr>p_offset := align8 (start + n)\<rparr>))"

primrec pool_allocs :: "nat list \<Rightarrow> pool \<Rightarrow> buffer list \<times> pool" where
  "pool_allocs [] p = ([], p)"
| "pool_allocs (n # ns) p =
     (case pool_alloc n p of (b, p1) \<Rightarrow> case pool_allocs ns p1 of (bs, p2) \<Rightarrow> (b # bs, p2))"

section \<open>Buffers do not overlap\<close>

definition buffer_array :: "buffer \<Rightarrow> nat" where
  "buffer_array b = (case b of Own a n \<Rightarrow> a | Slice a i j \<Rightarrow> a)"

definition buffer_range :: "buffer \<Rightarrow> nat set" where
  "buffer_range b = (case b of Own a n \<Rightarrow> {0..<n} | Slice a i j \<Rightarrow> {i..<j})"

definition apart :: "buffer \<Rightarrow> buffer \<Rightarrow> bool" where
  "apart b c \<longleftrightarrow> buffer_array b \<noteq> buffer_array c \<or> buffer_range b \<inter> buffer_range c = {}"

lemma align8: "n \<le> align8 n" "align8 n mod 8 = 0" "align8 n < n + 8"
proof -
  have "n = 8 * (n div 8) + n mod 8" by simp
  then show "n \<le> align8 n" "align8 n mod 8 = 0" "align8 n < n + 8"
    by (simp_all add: align8_def) presburger+
qed

text \<open>The invariant: what has been handed out lies before the offset, and in older arrays.\<close>

definition pool_ok :: "pool \<Rightarrow> buffer list \<Rightarrow> bool" where
  "pool_ok p bs \<longleftrightarrow>
     (p_slab p = None \<longrightarrow> p_size p \<le> p_offset p) \<and>
     (p_size p \<le> p_offset p \<or> p_offset p mod 8 = 0) \<and>
     (\<forall>a. p_slab p = Some a \<longrightarrow> a < p_allocated p) \<and>
     (\<forall>b \<in> set bs. buffer_array b < p_allocated p \<and>
        (p_slab p = Some (buffer_array b) \<longrightarrow> (\<forall>i \<in> buffer_range b. i < p_offset p)))"

text \<open>A buffer of a request: it has the size, lies in its slab and starts at a multiple of eight.\<close>

definition fits :: "nat \<Rightarrow> nat \<Rightarrow> buffer \<Rightarrow> bool" where
  "fits SIZE n b \<longleftrightarrow>
     (case b of
        Own a m \<Rightarrow> m = n
      | Slice a i j \<Rightarrow> j = i + n \<and> j \<le> SIZE \<and> i mod 8 = 0)"

lemma pool_alloc_ok:
  assumes "pool_ok p bs" and "pool_alloc n p = (b, p')" and "p_max p = p_size p div 2"
  shows "pool_ok p' (b # bs) \<and> fits (p_size p) n b \<and> (\<forall>c \<in> set bs. apart b c) \<and>
    p_size p' = p_size p \<and> p_max p' = p_max p"
proof (cases "n < 1 \<or> n > p_max p")
  case True
  then have b: "b = Own (p_allocated p) n" "p' = p\<lparr>p_allocated := p_allocated p + 1\<rparr>"
    using assms(2) by (auto simp: pool_alloc_def)
  have older: "buffer_array c < p_allocated p" if "c \<in> set bs" for c using assms(1) that by (simp add: pool_ok_def)
  have "pool_ok p' (b # bs)"
    using assms(1) b by (auto simp: pool_ok_def buffer_array_def less_Suc_eq)
  then show ?thesis using b older by (fastforce simp: fits_def apart_def buffer_array_def)
next
  case False
  show ?thesis
  proof (cases "p_offset p + n > p_size p")
    case True
    then have b: "b = Slice (p_allocated p) 0 n"
      "p' = p\<lparr>p_slab := Some (p_allocated p), p_offset := align8 n, p_allocated := p_allocated p + 1\<rparr>"
      using assms(2) False by (auto simp: pool_alloc_def Let_def)
    have older: "buffer_array c < p_allocated p" if "c \<in> set bs" for c using assms(1) that by (simp add: pool_ok_def)
    have "n \<le> p_size p" using False assms(3) by linarith
    moreover have "pool_ok p' (b # bs)"
      using b older align8[of n] by (fastforce simp: pool_ok_def buffer_array_def buffer_range_def)
    ultimately show ?thesis using b older by (fastforce simp: fits_def apart_def buffer_array_def)
  next
    case fit: False
    then have "p_slab p \<noteq> None" using assms(1) False by (auto simp: pool_ok_def)
    then obtain a where a: "p_slab p = Some a" by blast
    then have b: "b = Slice a (p_offset p) (p_offset p + n)" "p' = p\<lparr>p_offset := align8 (p_offset p + n)\<rparr>"
      using assms(2) False fit by (auto simp: pool_alloc_def Let_def)
    have ok: "pool_ok p' (b # bs)"
      using assms(1) b a align8[of "p_offset p + n"]
      by (fastforce simp: pool_ok_def buffer_array_def buffer_range_def)
    have "apart b c" if "c \<in> set bs" for c
      using assms(1) that b a by (fastforce simp: pool_ok_def apart_def buffer_array_def buffer_range_def)
    moreover have "p_offset p mod 8 = 0" using assms(1) fit False by (auto simp: pool_ok_def)
    ultimately show ?thesis using ok b fit by (simp add: fits_def)
  qed
qed

lemma pool_allocs_ok:
  "pool_ok p bs \<Longrightarrow> p_max p = p_size p div 2 \<Longrightarrow> pool_allocs ns p = (cs, p') \<Longrightarrow>
   list_all2 (fits (p_size p)) ns cs \<and> (\<forall>i j. i < j \<longrightarrow> j < length cs \<longrightarrow> apart (cs ! j) (cs ! i)) \<and>
   (\<forall>c \<in> set cs. \<forall>b \<in> set bs. apart c b)"
proof (induction ns arbitrary: p bs cs)
  case (Cons n ns)
  obtain b p1 where b: "pool_alloc n p = (b, p1)" by force
  obtain cs1 where cs: "pool_allocs ns p1 = (cs1, p')" "cs = b # cs1"
    using Cons.prems(3) b by (auto split: prod.splits)
  have ok: "pool_ok p1 (b # bs)" "fits (p_size p) n b" "\<forall>c \<in> set bs. apart b c" "p_size p1 = p_size p" "p_max p1 = p_max p"
    using pool_alloc_ok[OF Cons.prems(1) b Cons.prems(2)] by simp_all
  have m: "p_max p1 = p_size p1 div 2" using ok(4,5) Cons.prems(2) by simp
  note IH = Cons.IH[OF ok(1) m cs(1)]
  have "apart (cs ! j) (cs ! i)" if ij: "i < j" "j < length cs" for i j
  proof (cases i)
    case 0
    then have "cs ! j \<in> set cs1" "cs ! i = b" using ij cs(2) by (cases j; simp)+
    then show ?thesis using IH by simp
  next
    case (Suc i')
    then obtain j' where "j = Suc j'" using ij(1) Suc by (cases j) simp_all
    then show ?thesis using ij Suc cs(2) IH by simp
  qed
  then show ?case using IH ok cs(2) by auto
qed simp

text \<open>C33 The buffers a pool hands out are safe: each has the size asked for, lies within its slab and starts at a
  multiple of eight, and no two of them share a byte, whatever is asked for in whatever order.\<close>

theorem pool_disjoint:
  "case pool_allocs ns (new_pool slab) of (bs, p) \<Rightarrow>
     list_all2 (fits (p_size (new_pool slab))) ns bs \<and>
     (\<forall>i < length bs. \<forall>j < length bs. i \<noteq> j \<longrightarrow> apart (bs ! i) (bs ! j))"
proof -
  obtain bs p where bs: "pool_allocs ns (new_pool slab) = (bs, p)" by force
  have "pool_ok (new_pool slab) []" "p_max (new_pool slab) = p_size (new_pool slab) div 2"
    by (simp_all add: pool_ok_def new_pool_def Let_def)
  note ok = pool_allocs_ok[OF this bs]
  have "apart (bs ! i) (bs ! j)" if "i < length bs" "j < length bs" "i \<noteq> j" for i j
    using ok that apart_def by (metis inf_commute linorder_neqE_nat)
  then show ?thesis using ok bs by simp
qed

theorem pool_disjoint_witness:
  "case pool_allocs [5, 3, 0, 9] (new_pool (Some 16)) of (bs, p) \<Rightarrow>
     list_all2 (fits 16) [5, 3, 0, 9] bs \<and> length bs = 4 \<and> apart (bs ! 0) (bs ! 1)"
proof -
  obtain bs p where bs: "pool_allocs [5, 3, 0, 9] (new_pool (Some 16)) = (bs, p)" by force
  then have "length bs = 4" by (auto simp: new_pool_def pool_alloc_def align8_def Let_def)
  with pool_disjoint[of "Some 16" "[5, 3, 0, 9]"] bs show ?thesis by (simp add: new_pool_def)
qed

end
