(* ===== verification/FilePath.thy ===== *)
theory FilePath
  imports Prelude
begin

text \<open>
  \<open>util.path\<close>: \<open>isAbsolute\<close>, \<open>normalize\<close> and \<open>resolve\<close>, with which \<open>Root.load\<close> finds the files that a file
  imports. The specification is where a path leads: \<open>walk\<close> follows its parts from a directory, which is
  the list of the names above it, the innermost first. Names are ASCII strings.
\<close>

definition slash :: char where "slash = CHR 0x2F"

definition backslash :: char where "backslash = CHR 0x5C"

section \<open>The operations\<close>

text \<open>A slash, or a drive or protocol.\<close>

definition isAbsolute :: "string \<Rightarrow> bool" where
  "isAbsolute path \<longleftrightarrow>
     take 1 path = [slash] \<or>
     takeWhile word_char path \<noteq> [] \<and> take 1 (dropWhile word_char path) = '':''"

definition unix_slashes :: "string \<Rightarrow> string" where
  "unix_slashes path = map (\<lambda>c. if c = backslash then slash else c) path"

fun single_slashes :: "string \<Rightarrow> string" where
  "single_slashes (c # d # cs) =
     (if c = slash \<and> d = slash then single_slashes (d # cs) else c # single_slashes (d # cs))"
| "single_slashes cs = cs"

fun split_path :: "string \<Rightarrow> string list" where
  "split_path [] = [[]]"
| "split_path (c # cs) =
     (if c = slash then [] # split_path cs
      else (case split_path cs of [] \<Rightarrow> [[c]] | p # ps \<Rightarrow> (c # p) # ps))"

fun join_path :: "string list \<Rightarrow> string" where
  "join_path [] = []"
| "join_path [p] = p"
| "join_path (p # ps) = p @ slash # join_path ps"

text \<open>The loop of \<open>normalize\<close>, with the index into the list that it cuts from.\<close>

definition cut :: "nat \<Rightarrow> nat \<Rightarrow> 'a list \<Rightarrow> 'a list" where
  "cut i n xs = take i xs @ drop (i + n) xs"

function normalize_loop :: "bool \<Rightarrow> nat \<Rightarrow> string list \<Rightarrow> string list" where
  "normalize_loop absolute i parts =
     (if i < length parts then
        if parts ! i = ''..'' then
          if i > 0 \<and> parts ! (i - 1) \<noteq> ''..'' then normalize_loop absolute (i - 1) (cut (i - 1) 2 parts)
          else if absolute then normalize_loop absolute i (cut i 1 parts)
          else normalize_loop absolute (i + 1) parts
        else if parts ! i = ''.'' then normalize_loop absolute i (cut i 1 parts)
        else normalize_loop absolute (i + 1) parts
      else parts)"
  by pat_completeness auto
termination
  by (relation "measure (\<lambda>(absolute, i, parts). 2 * length parts - i)") (auto simp: cut_def)

declare normalize_loop.simps [simp del]

definition normalize :: "string \<Rightarrow> string" where
  "normalize path =
     (let path1 = single_slashes (unix_slashes path);
          parts = split_path path1
      in if isAbsolute path1
         then hd parts @ slash # join_path (normalize_loop True 0 (tl parts))
         else join_path (normalize_loop False 0 parts))"

text \<open>\<open>originPath.replace(/(?:\\/|^)[^/]+$/, "")\<close>\<close>

definition directory :: "string \<Rightarrow> string" where
  "directory path =
     (let name = rev (takeWhile (\<lambda>c. c \<noteq> slash) (rev path));
          before = take (length path - length name) path
      in if name = [] then path else butlast before)"

definition resolve_path :: "string \<Rightarrow> string \<Rightarrow> bool \<Rightarrow> string" where
  "resolve_path originPath includePath alreadyNormalized =
     (let include = (if alreadyNormalized then includePath else normalize includePath)
      in if isAbsolute include then include
         else
           let origin = directory (if alreadyNormalized then originPath else normalize originPath)
           in if origin \<noteq> [] then normalize (origin @ slash # include) else include)"

section \<open>Where a path leads\<close>

text \<open>The root is above itself, and an empty part is where it is.\<close>

fun enter :: "string list \<Rightarrow> string \<Rightarrow> string list" where
  "enter dir part =
     (if part = ''.'' \<or> part = [] then dir
      else if part = ''..'' then tl dir
      else part # dir)"

definition walk :: "string list \<Rightarrow> string list \<Rightarrow> string list" where
  "walk parts dir = fold (\<lambda>p d. enter d p) parts dir"

declare enter.simps [simp del]

lemma walk_simps [simp]:
  "walk [] dir = dir" "walk (p # ps) dir = walk ps (enter dir p)" "walk (ps @ qs) dir = walk qs (walk ps dir)"
  by (simp_all add: walk_def)

text \<open>The loop as a fold: it keeps the parts before the index as a stack.\<close>

fun push_part :: "bool \<Rightarrow> string list \<Rightarrow> string \<Rightarrow> string list" where
  "push_part absolute st p =
     (if p = ''..'' then
        (case st of
           q # qs \<Rightarrow> if q \<noteq> ''..'' then qs else if absolute then st else p # st
         | [] \<Rightarrow> if absolute then [] else [p])
      else if p = ''.'' then st
      else p # st)"

declare push_part.simps [simp del]

lemma normalize_loop_fold:
  "normalize_loop absolute (length st) (rev st @ ps) = rev (fold (\<lambda>p st. push_part absolute st p) ps st)"
proof (induction ps arbitrary: st)
  case Nil
  show ?case by (subst normalize_loop.simps) simp
next
  case (Cons p ps)
  have up: "normalize_loop absolute (length st + 1) (rev st @ p # ps) =
      rev (fold (\<lambda>p st. push_part absolute st p) ps (p # st))"
    using Cons.IH[of "p # st"] by simp
  have drop: "cut (length st) 1 (rev st @ p # ps) = rev st @ ps" by (simp add: cut_def)
  show ?case
  proof (cases "p = ''..'' \<and> st \<noteq> [] \<and> hd st \<noteq> ''..''")
    case True
    then obtain q qs where st: "st = q # qs" "q \<noteq> ''..''" by (cases st) auto
    have "(rev st @ p # ps) ! (length st - 1) = q" using st by (simp add: nth_append)
    moreover have "cut (length st - 1) 2 (rev st @ p # ps) = rev qs @ ps" using st by (simp add: cut_def)
    ultimately show ?thesis
      using True Cons.IH[of qs] st by (subst normalize_loop.simps) (simp add: nth_append push_part.simps)
  next
    case False
    have "(rev st @ p # ps) ! (length st - 1) = hd st" if "st \<noteq> []"
      using that by (cases st) (simp_all add: nth_append)
    then show ?thesis
      using False up drop Cons.IH[of st]
      by (subst normalize_loop.simps) (cases st; auto simp: nth_append push_part.simps)
  qed
qed

text \<open>The stack of the loop: names over the steps upwards that are left.\<close>

definition stack_ok :: "bool \<Rightarrow> string list \<Rightarrow> bool" where
  "stack_ok absolute st \<longleftrightarrow>
     (\<exists>names k. st = names @ replicate k ''..'' \<and> set names \<inter> {[], ''.'', ''..''} = {} \<and> (absolute \<longrightarrow> k = 0))"

lemma stack_ok_Nil: "stack_ok absolute []"
  by (simp add: stack_ok_def)

lemma stack_ok_cases:
  assumes "stack_ok absolute st"
  obtains "st = []" | q qs where "st = q # qs" "q \<notin> {[], ''.'', ''..''}" "stack_ok absolute qs"
    | qs where "st = ''..'' # qs" "\<not> absolute" "stack_ok absolute (''..'' # ''..'' # qs)"
proof -
  obtain names k where st: "st = names @ replicate k ''..''" "set names \<inter> {[], ''.'', ''..''} = {}" "absolute \<longrightarrow> k = 0"
    using assms by (auto simp: stack_ok_def)
  show ?thesis
  proof (cases names)
    case (Cons q qs)
    have "stack_ok absolute (qs @ replicate k ''..'')" using st(2,3) Cons unfolding stack_ok_def by auto
    moreover have "q \<notin> {[], ''.'', ''..''}" using st(2) Cons by auto
    ultimately show ?thesis using that(2)[of q "qs @ replicate k ''..''"] st(1) Cons by simp
  next
    case Nil
    show ?thesis
    proof (cases k)
      case 0
      then show ?thesis using that(1) st(1) Nil by simp
    next
      case (Suc j)
      have "''..'' # ''..'' # replicate j ''..'' = [] @ replicate (Suc (Suc j)) ''..''" by simp
      then have "stack_ok absolute (''..'' # ''..'' # replicate j ''..'')"
        using st(3) Suc unfolding stack_ok_def by (metis Int_empty_left list.set(1) old.nat.distinct(2))
      then show ?thesis using that(3)[of "replicate j ''..''"] st(1,3) Nil Suc by simp
    qed
  qed
qed

lemma push_part_ok:
  assumes "stack_ok absolute st" and "p \<noteq> []" and "absolute \<longrightarrow> dir = []"
  shows "stack_ok absolute (push_part absolute st p) \<and>
    walk (rev (push_part absolute st p)) dir = enter (walk (rev st) dir) p"
proof (cases "p = ''..''")
  case True
  have one: "stack_ok False [''..'']" unfolding stack_ok_def by (rule exI[of _ "[]"], rule exI[of _ 1]) simp
  from assms(1) show ?thesis
  proof (cases rule: stack_ok_cases)
    case 1
    then show ?thesis using True one assms(3) by (cases absolute) (simp_all add: push_part.simps enter.simps stack_ok_Nil)
  next
    case (2 q qs)
    then show ?thesis using True by (simp add: push_part.simps enter.simps)
  next
    case (3 qs)
    then show ?thesis using True by (simp add: push_part.simps)
  qed
next
  case False
  have "stack_ok absolute (p # st)" if "p \<noteq> ''.''"
  proof -
    obtain names k where st: "st = names @ replicate k ''..''" "set names \<inter> {[], ''.'', ''..''} = {}" "absolute \<longrightarrow> k = 0"
      using assms(1) by (auto simp: stack_ok_def)
    then show ?thesis using False that assms(2) unfolding stack_ok_def
      by (intro exI[of _ "p # names"] exI[of _ k]) simp
  qed
  then show ?thesis using False assms(1,2) by (simp add: push_part.simps enter.simps)
qed

lemma fold_push_ok:
  assumes "absolute \<longrightarrow> dir = []"
  shows "stack_ok absolute st \<Longrightarrow> [] \<notin> set ps \<Longrightarrow>
    stack_ok absolute (fold (\<lambda>p st. push_part absolute st p) ps st) \<and>
    walk (rev (fold (\<lambda>p st. push_part absolute st p) ps st)) dir = walk ps (walk (rev st) dir)"
proof (induction ps arbitrary: st)
  case (Cons p ps)
  then have "p \<noteq> []" "[] \<notin> set ps" by auto
  then show ?case using push_part_ok[OF Cons.prems(1) _ assms, of p] Cons.IH[of "push_part absolute st p"] by simp
qed simp

text \<open>The result of the loop, when only the last part may be empty.\<close>

definition normal_parts :: "bool \<Rightarrow> string list \<Rightarrow> bool" where
  "normal_parts absolute ps \<longleftrightarrow>
     (\<exists>k names. ps = replicate k ''..'' @ names \<and> ''.'' \<notin> set names \<and> ''..'' \<notin> set names \<and> (absolute \<longrightarrow> k = 0))"

lemma stack_ok_normal: "stack_ok absolute st \<Longrightarrow> normal_parts absolute (rev st) \<and> normal_parts absolute (rev st @ [[]])"
proof -
  assume "stack_ok absolute st"
  then obtain names k where st: "st = names @ replicate k ''..''" "set names \<inter> {[], ''.'', ''..''} = {}" "absolute \<longrightarrow> k = 0"
    by (auto simp: stack_ok_def)
  then show ?thesis unfolding normal_parts_def
    by (intro conjI exI[of _ k]) (rule exI[of _ "rev names"] exI[of _ "rev names @ [[]]"], force)+
qed

lemma normalize_loop_ok:
  assumes "absolute \<longrightarrow> dir = []" and "[] \<notin> set (butlast ps)"
  shows "normal_parts absolute (normalize_loop absolute 0 ps) \<and>
    walk (normalize_loop absolute 0 ps) dir = walk ps dir"
proof -
  let ?f = "\<lambda>p st. push_part absolute st p"
  have l: "normalize_loop absolute 0 ps = rev (fold ?f ps [])" using normalize_loop_fold[of absolute "[]" ps] by simp
  show ?thesis
  proof (cases "[] \<in> set ps")
    case False
    then show ?thesis using fold_push_ok[OF assms(1) stack_ok_Nil False] stack_ok_normal l by simp
  next
    case True
    then have ps: "ps = butlast ps @ [[]]"
      by (metis UnE append_butlast_last_id assms(2) empty_iff empty_set set_ConsD set_append)
    note f = fold_push_ok[OF assms(1) stack_ok_Nil assms(2)]
    have "fold ?f ps [] = [] # fold ?f (butlast ps) []" by (subst ps) (simp add: push_part.simps)
    then show ?thesis using f stack_ok_normal l by (subst (3) ps) (simp add: enter.simps)
  qed
qed

section \<open>Splitting and joining\<close>

lemma split_path_ne [simp]: "split_path p \<noteq> []"
  by (cases p) (auto split: list.split)

lemma split_path_no_slash: "x \<in> set (split_path p) \<Longrightarrow> slash \<notin> set x"
  by (induction p arbitrary: x) (auto split: if_splits list.splits)

lemma split_append: "slash \<notin> set p \<Longrightarrow> split_path (p @ slash # q) = p # split_path q"
  by (induction p) (auto split: list.split)

lemma split_word: "slash \<notin> set p \<Longrightarrow> split_path p = [p]"
  by (induction p) auto

lemma split_join: "ps \<noteq> [] \<Longrightarrow> (\<And>p. p \<in> set ps \<Longrightarrow> slash \<notin> set p) \<Longrightarrow> split_path (join_path ps) = ps"
  by (induction ps rule: join_path.induct) (simp_all add: split_append split_word)

text \<open>Collapsing slashes drops empty parts in the middle.\<close>

lemma single_slashes_split:
  "hd (split_path (single_slashes p)) = hd (split_path p) \<and>
   walk (tl (split_path (single_slashes p))) dir = walk (tl (split_path p)) dir"
proof (induction p arbitrary: dir rule: single_slashes.induct)
  case (1 c d cs)
  have w: "walk (split_path q) dir = walk (tl (split_path q)) (enter dir (hd (split_path q)))" for q dir
    by (cases "split_path q") auto
  show ?case
  proof (cases "c = slash \<and> d = slash")
    case True
    then show ?thesis using "1.IH"(1)[OF True] by (simp add: enter.simps)
  next
    case False
    note IH = "1.IH"(2)[OF False]
    show ?thesis
    proof (cases "c = slash")
      case True
      have "walk (split_path (single_slashes (d # cs))) dir = walk (split_path (d # cs)) dir"
        using IH by (simp only: w)
      then show ?thesis using True False by simp
    next
      case c: False
      then show ?thesis using IH[of dir]
        by (cases "split_path (d # cs)"; cases "split_path (single_slashes (d # cs))")
           (simp_all add: split_path.simps(2)[of c] del: split_path.simps)
    qed
  qed
qed simp_all

lemma single_slashes_first: "take 1 (single_slashes p) = take 1 p"
  by (induction p rule: single_slashes.induct) auto

lemma single_slashes_middle: "[] \<notin> set (butlast (tl (split_path (single_slashes p))))"
proof (induction p rule: single_slashes.induct)
  case (1 c d cs)
  show ?case
  proof (cases "c = slash \<and> d = slash")
    case True
    then show ?thesis using "1.IH"(1)[OF True] by simp
  next
    case False
    note IH = "1.IH"(2)[OF False]
    let ?q = "single_slashes (d # cs)"
    show ?thesis
    proof (cases "c = slash")
      case True
      then have "d \<noteq> slash" using False by simp
      moreover have "take 1 ?q = [d]" using single_slashes_first[of "d # cs"] by simp
      then obtain r where "?q = d # r" by (cases ?q) auto
      ultimately have "hd (split_path ?q) \<noteq> []" by (auto split: list.split)
      then have "[] \<notin> set (butlast (split_path ?q))" using IH by (cases "split_path ?q") (auto split: if_splits)
      then show ?thesis using True False by simp
    next
      case c: False
      then show ?thesis using IH by (cases "split_path ?q") (auto split: if_splits)
    qed
  qed
qed simp_all

section \<open>The property\<close>

text \<open>The parts of a path below its root.\<close>

definition relative_parts :: "bool \<Rightarrow> string \<Rightarrow> string list" where
  "relative_parts absolute p = (if absolute then tl (split_path p) else split_path p)"

lemma isAbsolute_single: "isAbsolute (single_slashes p) = isAbsolute p"
proof -
  have n: "\<not> word_char slash" by (simp add: word_char_def slash_def)
  have "takeWhile word_char (single_slashes p) = takeWhile word_char p \<and>
      take 1 (dropWhile word_char (single_slashes p)) = take 1 (dropWhile word_char p)"
    by (induction p rule: single_slashes.induct) (auto simp: n)
  then show ?thesis by (simp add: isAbsolute_def single_slashes_first del: One_nat_def)
qed

lemma normalize_loop_set: "set (normalize_loop absolute 0 ps) \<subseteq> set ps"
proof -
  have push: "set (push_part absolute st p) \<subseteq> insert p (set st)" for st p
    by (cases st) (auto simp: push_part.simps)
  have "set (fold (\<lambda>p st. push_part absolute st p) ps st) \<subseteq> set ps \<union> set st" for st
  proof (induction ps arbitrary: st)
    case (Cons p ps)
    then show ?case using Cons.IH[of "push_part absolute st p"] push[of st p] by auto
  qed simp
  from this[of "[]"] show ?thesis using normalize_loop_fold[of absolute "[]" ps] by simp
qed

lemma normalize_split:
  fixes path
  defines "p \<equiv> single_slashes (unix_slashes path)"
  defines "r \<equiv> normalize_loop (isAbsolute p) 0 (relative_parts (isAbsolute p) p)"
  shows "split_path (normalize path) = (if isAbsolute p then [hd (split_path p)] else []) @ (if r = [] then [[]] else r)"
proof -
  have r: "slash \<notin> set x" if "x \<in> set r" for x
  proof -
    have "x \<in> set (split_path p)"
      using that normalize_loop_set[of "isAbsolute p" "relative_parts (isAbsolute p) p"]
      by (auto simp: r_def relative_parts_def split: if_splits) (meson list.set_sel(2) split_path_ne subsetD)
    then show ?thesis by (rule split_path_no_slash)
  qed
  have j: "split_path (join_path r) = (if r = [] then [[]] else r)" using split_join[of r] r by auto
  have "slash \<notin> set (hd (split_path p))" by (rule split_path_no_slash[of _ p]) (rule hd_in_set, simp)
  note h = split_append[OF this]
  show ?thesis
    using j h by (simp add: normalize_def Let_def p_def[symmetric] r_def relative_parts_def split: if_splits)
qed

lemma relative_parts_middle:
  "[] \<notin> set (butlast (relative_parts (isAbsolute (single_slashes p)) (single_slashes p)))"
proof (cases "isAbsolute (single_slashes p)")
  case True
  then show ?thesis using single_slashes_middle[of p] by (simp add: relative_parts_def)
next
  case False
  let ?q = "single_slashes p"
  have "hd (split_path ?q) \<noteq> [] \<or> split_path ?q = [[]]"
  proof (cases ?q)
    case (Cons c cs)
    then have "c \<noteq> slash" using False by (auto simp: isAbsolute_def)
    then show ?thesis using Cons by (auto split: list.split)
  qed simp
  then show ?thesis using single_slashes_middle[of p] False
    by (cases "split_path ?q") (auto simp: relative_parts_def split: if_splits)
qed



text \<open>Slashes are collapsed after a protocol, too.\<close>

lemma normalize_url: "normalize ''http://conode/a'' = ''http:/conode/a''"
  by code_simp

text \<open>A path that becomes absolute is not normal yet.\<close>

lemma normalize_twice: "normalize ''./c:'' = ''c:''" "normalize ''c:'' = ''c:/''"
  by code_simp+

end
