(* ===== verification/Rpc.thy ===== *)
theory Rpc
  imports Roundtrip
begin

text \<open>
  \<open>util.EventEmitter\<close> and \<open>rpc.Service\<close>.

  The listeners of an event are an array that \<open>emit\<close> goes through while the listeners run, which may
  change it; so the arrays are objects of a store. What a listener does is a parameter, its call is
  logged.

  A call of a service method passes the encoded request to \<open>rpcImpl\<close>, the network layer, which is a parameter: it may
  reply while it is called, and throw; later replies are events. The listeners of a service are not part of its model: the
  events it emits are logged, and its listeners return without calling the service again. Event names are not the names
  of members of \<open>Object.prototype\<close>, which the table of listeners inherits.
\<close>

section \<open>EventEmitter\<close>

type_synonym listener = "nat \<times> nat"   \<comment> \<open>the function and its context; 0 is the emitter itself\<close>

record emitter =
  e_arrays :: "nat \<Rightarrow> listener list"
  e_next :: nat
  e_listeners :: "string \<Rightarrow> nat option"
  e_calls :: "listener list"

definition EventEmitter :: emitter where
  "EventEmitter = \<lparr>e_arrays = (\<lambda>a. []), e_next = 0, e_listeners = (\<lambda>evt. None), e_calls = []\<rparr>"

definition new_array :: "string \<Rightarrow> emitter \<Rightarrow> emitter" where
  "new_array evt e =
     e\<lparr>e_arrays := (e_arrays e)(e_next e := []), e_listeners := (e_listeners e)(evt := Some (e_next e)),
       e_next := e_next e + 1\<rparr>"

definition on_event :: "string \<Rightarrow> nat \<Rightarrow> nat option \<Rightarrow> emitter \<Rightarrow> emitter" where
  "on_event evt fn ctx e =
     (let e1 = (if e_listeners e evt = None then new_array evt e else e);
          a = the (e_listeners e1 evt)
      in e1\<lparr>e_arrays := (e_arrays e1)(a := e_arrays e1 a @ [(fn, case ctx of None \<Rightarrow> 0 | Some c \<Rightarrow> c)])\<rparr>)"

definition off_event :: "string option \<Rightarrow> nat option \<Rightarrow> emitter \<Rightarrow> (js_error + unit) \<times> emitter" where
  "off_event evt fn e =
     (case evt of
        None \<Rightarrow> (Inr (), e\<lparr>e_listeners := (\<lambda>evt. None)\<rparr>)
      | Some v \<Rightarrow>
          (case fn of
             None \<Rightarrow> (Inr (), new_array v e)
           | Some f \<Rightarrow>
               (case e_listeners e v of
                  None \<Rightarrow> (Inl (TypeError ''Cannot read property of undefined''), e)
                | Some a \<Rightarrow> (Inr (), e\<lparr>e_arrays := (e_arrays e)(a := filter (\<lambda>l. fst l \<noteq> f) (e_arrays e a))\<rparr>))))"

text \<open>
  The loop of \<open>emit\<close> over the array \<open>a\<close>. Listeners that keep adding listeners never let it end: \<open>None\<close> is the
  loop that has used up its turns.
\<close>

fun emit_loop ::
  "nat \<Rightarrow> (nat \<Rightarrow> nat \<Rightarrow> emitter \<Rightarrow> (js_error + unit) \<times> emitter) \<Rightarrow> nat \<Rightarrow> nat \<Rightarrow> emitter \<Rightarrow>
   ((js_error + unit) \<times> emitter) option" where
  "emit_loop 0 act a i e = (if i < length (e_arrays e a) then None else Some (Inr (), e))"
| "emit_loop (Suc turns) act a i e =
     (if i < length (e_arrays e a) then
        (let l = e_arrays e a ! i
         in case act (fst l) (snd l) (e\<lparr>e_calls := e_calls e @ [l]\<rparr>) of
              (Inl err, e') \<Rightarrow> Some (Inl err, e')
            | (Inr _, e') \<Rightarrow> emit_loop turns act a (i + 1) e')
      else Some (Inr (), e))"

definition emit_event ::
  "nat \<Rightarrow> (nat \<Rightarrow> nat \<Rightarrow> emitter \<Rightarrow> (js_error + unit) \<times> emitter) \<Rightarrow> string \<Rightarrow> emitter \<Rightarrow>
   ((js_error + unit) \<times> emitter) option" where
  "emit_event turns act evt e =
     (case e_listeners e evt of
        None \<Rightarrow> Some (Inr (), e)
      | Some a \<Rightarrow> emit_loop turns act a 0 e)"

text \<open>The listeners of an event, in the order in which they were registered.\<close>

definition listeners_of :: "emitter \<Rightarrow> string \<Rightarrow> listener list" where
  "listeners_of e evt = (case e_listeners e evt of None \<Rightarrow> [] | Some a \<Rightarrow> e_arrays e a)"

definition emitter_ok :: "emitter \<Rightarrow> bool" where
  "emitter_ok e \<longleftrightarrow>
     (\<forall>evt a. e_listeners e evt = Some a \<longrightarrow> a < e_next e \<and> (\<forall>evt'. e_listeners e evt' = Some a \<longrightarrow> evt' = evt))"

lemma new_array_ok: "emitter_ok e \<Longrightarrow> emitter_ok (new_array evt e)"
proof -
  assume e: "emitter_ok e"
  have lt: "a < e_next e" if "e_listeners e x = Some a" for x a using e that by (simp add: emitter_ok_def)
  have un: "y = x" if "e_listeners e x = Some a" "e_listeners e y = Some a" for x y a
    using e that by (simp add: emitter_ok_def)
  show ?thesis unfolding emitter_ok_def
  proof (intro allI impI conjI)
    fix x a assume l: "e_listeners (new_array evt e) x = Some a"
    then show "a < e_next (new_array evt e)"
      using lt[of x a] by (cases "x = evt") (simp_all add: new_array_def less_Suc_eq)
    fix y assume "e_listeners (new_array evt e) y = Some a"
    then show "y = x"
      using l lt[of x a] lt[of y a] un[of x a y] by (cases "x = evt"; cases "y = evt") (simp_all add: new_array_def)
  qed
qed

lemma on_event_listeners:
  assumes "emitter_ok e"
  shows "listeners_of (on_event evt fn ctx e) evt' =
    listeners_of e evt' @ (if evt' = evt then [(fn, case ctx of None \<Rightarrow> 0 | Some c \<Rightarrow> c)] else [])"
proof (cases "evt' = evt")
  case True
  then show ?thesis by (cases "e_listeners e evt") (simp_all add: listeners_of_def on_event_def new_array_def Let_def)
next
  case False
  have lt: "a < e_next e" if "e_listeners e evt' = Some a" for a using assms that by (simp add: emitter_ok_def)
  have ne: "a \<noteq> b" if "e_listeners e evt' = Some a" "e_listeners e evt = Some b" for a b
    using assms that False unfolding emitter_ok_def by metis
  show ?thesis using False lt ne
    by (cases "e_listeners e evt"; cases "e_listeners e evt'")
      (simp_all add: listeners_of_def on_event_def new_array_def Let_def nat_neq_iff)
qed

lemma on_event_ok: "emitter_ok e \<Longrightarrow> emitter_ok (on_event evt fn ctx e)"
proof -
  have upd: "emitter_ok (e\<lparr>e_arrays := f\<rparr>) \<longleftrightarrow> emitter_ok e" for e f by (simp add: emitter_ok_def)
  show "emitter_ok e \<Longrightarrow> emitter_ok (on_event evt fn ctx e)"
    using new_array_ok[of e evt] by (simp add: on_event_def Let_def upd)
qed

lemma off_event_listeners:
  assumes "emitter_ok e" and "off_event (Some evt) (Some fn) e = (Inr (), e')"
  shows "listeners_of e' evt' = (if evt' = evt then filter (\<lambda>l. fst l \<noteq> fn) (listeners_of e evt') else listeners_of e evt')"
  using assms by (fastforce simp: listeners_of_def off_event_def emitter_ok_def split: option.splits)

text \<open>Listeners that leave the emitter alone are called once each, in order.\<close>

lemma emit_loop_all:
  assumes "\<And>fn ctx e. act fn ctx e = (Inr (), e)"
  shows "length (e_arrays e a) \<le> i + turns \<Longrightarrow>
    emit_loop turns act a i e = Some (Inr (), e\<lparr>e_calls := e_calls e @ drop i (e_arrays e a)\<rparr>)"
proof (induction turns arbitrary: i e)
  case (Suc turns)
  show ?case
  proof (cases "i < length (e_arrays e a)")
    case True
    then show ?thesis
      using Suc.IH[of "e\<lparr>e_calls := e_calls e @ [e_arrays e a ! i]\<rparr>" "i + 1"] Suc.prems assms
      by (simp add: Let_def Cons_nth_drop_Suc)
  qed simp
qed simp

lemma emit_event_all:
  assumes "\<And>fn ctx e. act fn ctx e = (Inr (), e)"
  shows "emit_event (length (listeners_of e evt)) act evt e =
    Some (Inr (), e\<lparr>e_calls := e_calls e @ listeners_of e evt\<rparr>)"
  using emit_loop_all[of act e _ 0 "length (listeners_of e evt)", OF assms]
  by (cases "e_listeners e evt") (simp_all add: emit_event_def listeners_of_def)

text \<open>A listener that removes itself makes \<open>emit\<close> pass over the next one.\<close>

definition once :: "nat \<Rightarrow> nat \<Rightarrow> emitter \<Rightarrow> (js_error + unit) \<times> emitter" where
  "once fn ctx e = (if fn = 1 then off_event (Some ''data'') (Some 1) e else (Inr (), e))"

lemma emit_skips:
  "map_option (\<lambda>(r, e). e_calls e)
     (emit_event 3 once ''data'' (on_event ''data'' 2 None (on_event ''data'' 1 None EventEmitter))) = Some [(1, 0)]"
  by (simp add: emit_event_def on_event_def new_array_def EventEmitter_def once_def off_event_def eval_nat_numeral Let_def)

section \<open>asPromise\<close>

text \<open>
  \<open>asPromise\<close> calls a function with a callback of its own: the function calls it any number of times, while it is called
  (\<open>calls\<close>, before it returns or throws) or later. What is kept of the promise is the calls of \<open>resolve\<close> and \<open>reject\<close>.
\<close>

datatype 'a settle = Resolve "'a list" | Reject js_error

record 'a promise =
  p_pending :: bool
  p_settle :: "'a settle list"

definition promise_callback :: "js_error option \<times> 'a list \<Rightarrow> 'a promise \<Rightarrow> 'a promise" where
  "promise_callback args p =
     (if p_pending p
      then p\<lparr>p_pending := False,
             p_settle := p_settle p @ [case fst args of Some err \<Rightarrow> Reject err | None \<Rightarrow> Resolve (snd args)]\<rparr>
      else p)"

definition asPromise :: "(js_error option \<times> 'a list) list \<Rightarrow> js_error option \<Rightarrow> 'a promise" where
  "asPromise calls thrown =
     (let p = fold promise_callback calls \<lparr>p_pending = True, p_settle = []\<rparr>
      in case thrown of
           None \<Rightarrow> p
         | Some err \<Rightarrow>
             if p_pending p then p\<lparr>p_pending := False, p_settle := p_settle p @ [Reject err]\<rparr> else p)"

text \<open>However often the callback is called, and whatever is thrown: the first of them settles the promise, the others are lost.\<close>

lemma promise_settled: "\<not> p_pending p \<Longrightarrow> fold promise_callback calls p = p"
  by (induction calls) (simp_all add: promise_callback_def)

lemma asPromise_first:
  "p_settle (fold promise_callback later (asPromise calls thrown)) =
     (case (calls, thrown, later) of
        (c # cs, _, _) \<Rightarrow> [case fst c of Some err \<Rightarrow> Reject err | None \<Rightarrow> Resolve (snd c)]
      | ([], Some err, _) \<Rightarrow> [Reject err]
      | ([], None, c # cs) \<Rightarrow> [case fst c of Some err \<Rightarrow> Reject err | None \<Rightarrow> Resolve (snd c)]
      | ([], None, []) \<Rightarrow> [])"
  by (cases calls; cases thrown; cases later)
    (simp_all add: asPromise_def promise_callback_def promise_settled Let_def)

section \<open>rpc.Service\<close>

datatype action =
    CallImpl nat "byte list"                       \<comment> \<open>\<open>rpcImpl\<close> is called with the request data\<close>
  | SignalEnd                                      \<comment> \<open>\<open>rpcImpl(null, null, null)\<close>\<close>
  | EmitError js_error nat
  | EmitData "val option list" nat
  | EmitEnd
  | Callback nat "js_error + val option list"
  | Timer nat js_error                             \<comment> \<open>the callback is set for the next turn\<close>

record rpc =
  s_rpcImpl :: bool
  s_requestDelimited :: bool
  s_responseDelimited :: bool
  s_log :: "action list"

record rpc_call =
  c_id :: nat
  c_method :: nat
  c_requestType :: mtype
  c_responseType :: mtype

datatype rpc_response = RMessage "val option list" | RBytes "byte list"

text \<open>The runtime of the codec, and the callbacks that throw.\<close>

record rpc_env =
  v_depth :: nat
  v_Long :: bool
  v_schema :: schema
  v_throws :: "nat \<Rightarrow> js_error + val option list \<Rightarrow> js_error option"

definition rpc_Service :: "bool \<Rightarrow> bool \<Rightarrow> rpc" where
  "rpc_Service requestDelimited responseDelimited =
     \<lparr>s_rpcImpl = True, s_requestDelimited = requestDelimited, s_responseDelimited = responseDelimited, s_log = []\<rparr>"

definition log_action :: "action \<Rightarrow> rpc \<Rightarrow> rpc" where
  "log_action a s = s\<lparr>s_log := s_log s @ [a]\<rparr>"

definition call_back :: "rpc_env \<Rightarrow> rpc_call \<Rightarrow> js_error + val option list \<Rightarrow> rpc \<Rightarrow> js_error option \<times> rpc" where
  "call_back v c res s = (v_throws v (c_id c) res, log_action (Callback (c_id c) res) s)"

definition end_service :: "bool \<Rightarrow> rpc \<Rightarrow> rpc" where
  "end_service endedByRPC s =
     (if s_rpcImpl s
      then log_action EmitEnd ((if endedByRPC then s else log_action SignalEnd s)\<lparr>s_rpcImpl := False\<rparr>)
      else s)"

text \<open>The decoder always returns (\<open>decode_total\<close>).\<close>

definition decode_response :: "rpc_env \<Rightarrow> rpc_call \<Rightarrow> bool \<Rightarrow> byte list \<Rightarrow> js_error + val option list" where
  "decode_response v c del bs =
     (case (if del then decodeDelimited (v_depth v) (v_Long v) (v_schema v) (c_responseType c) (Reader bs)
            else decode (v_depth v) (v_Long v) (v_schema v) (c_responseType c) None (Reader bs)) of
        None \<Rightarrow> Inl stack_overflow
      | Some (res, r) \<Rightarrow> res)"

definition rpcCallback ::
  "rpc_env \<Rightarrow> rpc_call \<Rightarrow> js_error option \<Rightarrow> rpc_response option \<Rightarrow> rpc \<Rightarrow> js_error option \<times> rpc" where
  "rpcCallback v c err response s =
     (case err of
        Some e \<Rightarrow> call_back v c (Inl e) (log_action (EmitError e (c_method c)) s)
      | None \<Rightarrow>
          (case response of
             None \<Rightarrow> (None, end_service True s)
           | Some r \<Rightarrow>
               (case (case r of
                        RMessage m \<Rightarrow> Inr m
                      | RBytes bs \<Rightarrow> decode_response v c (s_responseDelimited s) bs) of
                  Inl e \<Rightarrow> call_back v c (Inl e) (log_action (EmitError e (c_method c)) s)
                | Inr m \<Rightarrow> call_back v c (Inr m) (log_action (EmitData m (c_method c)) s))))"

text \<open>What \<open>rpcImpl\<close> does while it is called: it replies, and a callback's exception goes through it.\<close>

fun run_impl ::
  "rpc_env \<Rightarrow> rpc_call \<Rightarrow> (js_error option \<times> rpc_response option) list \<Rightarrow> js_error option \<Rightarrow> rpc \<Rightarrow>
   js_error option \<times> rpc" where
  "run_impl v c [] thrown s = (thrown, s)"
| "run_impl v c ((err, response) # rs) thrown s =
     (case rpcCallback v c err response s of
        (Some e, s') \<Rightarrow> (Some e, s')
      | (None, s') \<Rightarrow> run_impl v c rs thrown s')"

type_synonym rpc_impl = "rpc_call \<Rightarrow> byte list \<Rightarrow> (js_error option \<times> rpc_response option) list \<times> js_error option"

definition encode_request :: "rpc_env \<Rightarrow> rpc_call \<Rightarrow> bool \<Rightarrow> val option list \<Rightarrow> byte list outcome" where
  "encode_request v c del request =
     bind_outcome
       (if del then encodeDelimited (v_depth v) (v_schema v) (c_requestType c) request None
        else encode (v_depth v) (v_schema v) (c_requestType c) request writer_create)
       (\<lambda>w. Done (fst (finish w)))"

text \<open>
  \<open>rpcCall\<close> with a callback; without one \<open>asPromise\<close> passes its own. A request that has to be coerced is outside the
  model and changes nothing here.
\<close>

definition rpcCall :: "rpc_env \<Rightarrow> rpc_impl \<Rightarrow> rpc_call \<Rightarrow> val option list option \<Rightarrow> rpc \<Rightarrow> (js_error + unit) \<times> rpc" where
  "rpcCall v impl c request s =
     (case request of
        None \<Rightarrow> (Inl (TypeError ''request must be specified''), s)
      | Some req \<Rightarrow>
          if \<not> s_rpcImpl s then (Inr (), log_action (Timer (c_id c) (Error ''already ended'')) s)
          else
            (let failed = (\<lambda>e s. (Inr (), log_action (Timer (c_id c) e) (log_action (EmitError e (c_method c)) s)))
             in case encode_request v c (s_requestDelimited s) req of
                  Outside \<Rightarrow> (Inr (), s)
                | Thrown e \<Rightarrow> failed e s
                | Done data \<Rightarrow>
                    (case impl c data of
                       (replies, thrown) \<Rightarrow>
                         (case run_impl v c replies thrown (log_action (CallImpl (c_id c) data) s) of
                            (Some e, s') \<Rightarrow> failed e s'
                          | (None, s') \<Rightarrow> (Inr (), s')))))"

text \<open>The life of a service: calls, replies that come later, and its end by the client.\<close>

datatype rpc_event =
    Call rpc_call "val option list option"
  | Reply rpc_call "js_error option" "rpc_response option"
  | End

definition rpc_step :: "rpc_env \<Rightarrow> rpc_impl \<Rightarrow> rpc_event \<Rightarrow> rpc \<Rightarrow> rpc" where
  "rpc_step v impl ev s =
     (case ev of
        Call c request \<Rightarrow> snd (rpcCall v impl c request s)
      | Reply c err response \<Rightarrow> snd (rpcCallback v c err response s)
      | End \<Rightarrow> end_service False s)"

definition rpc_run :: "rpc_env \<Rightarrow> rpc_impl \<Rightarrow> rpc_event list \<Rightarrow> rpc \<Rightarrow> rpc" where
  "rpc_run v impl evs s = fold (rpc_step v impl) evs s"

section \<open>The end of a service\<close>

definition ends_once :: "rpc \<Rightarrow> bool" where
  "ends_once s \<longleftrightarrow>
     (if s_rpcImpl s then EmitEnd \<notin> set (s_log s)
      else \<exists>before after. s_log s = before @ EmitEnd # after \<and> EmitEnd \<notin> set before \<and> EmitEnd \<notin> set after \<and>
             SignalEnd \<notin> set after \<and> (\<forall>i data. CallImpl i data \<notin> set after))"

lemma ends_onceI:
  assumes "\<not> s_rpcImpl s" and "s_log s = before @ EmitEnd # after" and "EmitEnd \<notin> set before" and "EmitEnd \<notin> set after"
    and "SignalEnd \<notin> set after" and "\<And>i data. CallImpl i data \<notin> set after"
  shows "ends_once s"
proof -
  have "\<exists>before after. s_log s = before @ EmitEnd # after \<and> EmitEnd \<notin> set before \<and> EmitEnd \<notin> set after \<and>
      SignalEnd \<notin> set after \<and> (\<forall>i data. CallImpl i data \<notin> set after)"
    by (rule exI[of _ before], rule exI[of _ after]) (use assms in simp)
  then show ?thesis using assms(1) by (simp add: ends_once_def)
qed

lemma ends_once_log:
  assumes "ends_once s" and "a \<noteq> EmitEnd" and "s_rpcImpl s \<or> (a \<noteq> SignalEnd \<and> (\<forall>i data. a \<noteq> CallImpl i data))"
  shows "ends_once (log_action a s)"
proof (cases "s_rpcImpl s")
  case False
  then obtain xs ys where "s_log s = xs @ EmitEnd # ys" "EmitEnd \<notin> set xs" "EmitEnd \<notin> set ys" "SignalEnd \<notin> set ys"
    "\<forall>i data. CallImpl i data \<notin> set ys"
    using assms(1) by (auto simp: ends_once_def)
  then show ?thesis using assms(2,3) False
    by (intro ends_onceI[where before = xs and after = "ys @ [a]"]) (auto simp: log_action_def)
qed (use assms in \<open>simp add: ends_once_def log_action_def\<close>)

lemma log_action_rpcImpl [simp]: "s_rpcImpl (log_action a s) = s_rpcImpl s"
  by (simp add: log_action_def)

lemma ends_once_end: "ends_once s \<Longrightarrow> ends_once (end_service byRPC s)"
proof -
  assume s: "ends_once s"
  show ?thesis
  proof (cases "s_rpcImpl s")
    case True
    have "ends_once (log_action EmitEnd (t\<lparr>s_rpcImpl := False\<rparr>))" if "EmitEnd \<notin> set (s_log t)" for t :: rpc
      by (rule ends_onceI[where before = "s_log t" and after = "[]"]) (use that in \<open>simp_all add: log_action_def\<close>)
    then show ?thesis using s True by (simp add: end_service_def ends_once_def log_action_def)
  qed (use s in \<open>simp add: end_service_def\<close>)
qed

lemma ends_once_callback: "ends_once s \<Longrightarrow> ends_once (snd (rpcCallback v c err response s))"
  by (auto simp: rpcCallback_def call_back_def intro!: ends_once_log ends_once_end split: option.split sum.split)

lemma ends_once_impl: "ends_once s \<Longrightarrow> ends_once (snd (run_impl v c rs thrown s))"
proof (induction v c rs thrown s rule: run_impl.induct)
  case (2 v c err response rs thrown s)
  then show ?case using ends_once_callback[OF "2.prems", of v c err response]
    by (auto split: prod.split option.split)
qed simp

lemma ends_once_step: "ends_once s \<Longrightarrow> ends_once (rpc_step v impl ev s)"
proof (cases ev)
  case (Call c request)
  assume s: "ends_once s"
  show ?thesis
  proof (cases request)
    case None
    then show ?thesis using s Call by (simp add: rpc_step_def rpcCall_def)
  next
    case (Some req)
    show ?thesis
    proof (cases "s_rpcImpl s")
      case False
      then show ?thesis using s Call Some by (auto simp: rpc_step_def rpcCall_def intro!: ends_once_log)
    next
      case True
      show ?thesis
      proof (cases "encode_request v c (s_requestDelimited s) req")
        case (Done data)
        obtain rs thrown where impl: "impl c data = (rs, thrown)" by force
        have "ends_once (log_action (CallImpl (c_id c) data) s)" using s True by (intro ends_once_log) simp_all
        note r = ends_once_impl[OF this, of v c rs thrown]
        obtain e s' where e: "run_impl v c rs thrown (log_action (CallImpl (c_id c) data) s) = (e, s')" by force
        then have "ends_once s'" using r by simp
        then show ?thesis using Call Some True Done impl e
          by (cases e) (auto simp: rpc_step_def rpcCall_def Let_def intro!: ends_once_log)
      qed (use s Call Some True in \<open>auto simp: rpc_step_def rpcCall_def Let_def intro!: ends_once_log\<close>)
    qed
  qed
qed (auto simp: rpc_step_def intro: ends_once_callback ends_once_end)


section \<open>Requests and responses\<close>

text \<open>A server that sends the request data back answers with the request itself.\<close>

lemma rpc_echo:
  assumes "wf_msg (v_depth v) (v_Long v) (v_schema v) (c_requestType c) request" and "\<not> mt_group (c_requestType c)"
    and "c_responseType c = c_requestType c" and "s_rpcImpl s" and "\<not> s_requestDelimited s" and "\<not> s_responseDelimited t"
    and "\<And>data. impl c data = ([], None)"
  shows "\<exists>data. rpc_step v impl (Call c (Some request)) s = log_action (CallImpl (c_id c) data) s \<and>
    s_log (rpc_step v impl (Reply c None (Some (RBytes data))) t) =
      s_log t @ [EmitData request (c_method c), Callback (c_id c) (Inr request)]"
proof -
  obtain w r where w: "encode (v_depth v) (v_schema v) (c_requestType c) request writer_create = Done w"
    "decode (v_depth v) (v_Long v) (v_schema v) (c_requestType c) None (Reader (fst (finish w))) = Some (Inr request, r)"
    using encode_decode[OF assms(1,2)] by blast
  show ?thesis
    using w assms(3-7) by (intro exI[of _ "fst (finish w)"])
      (simp add: rpc_step_def rpcCall_def encode_request_def Let_def rpcCallback_def decode_response_def call_back_def log_action_def)
qed

text \<open>A callback that throws while \<open>rpcImpl\<close> is called is called again, with its own exception as the error.\<close>

lemma callback_twice:
  assumes "s_rpcImpl s" and "encode_request v c (s_requestDelimited s) req = Done data"
    and "impl c data = ([(None, Some (RMessage m))], None)" and "v_throws v (c_id c) (Inr m) = Some e"
  shows "s_log (rpc_step v impl (Call c (Some req)) s) =
    s_log s @ [CallImpl (c_id c) data, EmitData m (c_method c), Callback (c_id c) (Inr m), EmitError e (c_method c), Timer (c_id c) e]"
  using assms by (simp add: rpc_step_def rpcCall_def Let_def rpcCallback_def call_back_def log_action_def)

text \<open>When the network layer ends the service, the call it answers with \<open>null\<close> is never called back.\<close>

lemma null_never_called_back:
  "snd (rpcCallback v c None None s) = end_service True s"
  by (simp add: rpcCallback_def)

end
