(* ===== verification/Enums.thy ===== *)
theory Enums
  imports Resolve Conversion
begin

text \<open>
  \<open>add\<close>, \<open>remove\<close>, \<open>isReservedId\<close> and \<open>isReservedName\<close> of an enum. An enum keeps its values twice, by name and by id, and
  the table by id is the prototype of the table by name, so that a name that looks like an id is found there. An
  argument of the wrong type is \<open>None\<close>. The comments of the values are left out, as everywhere.
\<close>

section \<open>The operations\<close>

definition val_truthy :: "val \<Rightarrow> bool" where
  "val_truthy v \<longleftrightarrow> (case v of VBool b \<Rightarrow> b | VInt n \<Rightarrow> n \<noteq> 0 | VString s \<Rightarrow> s \<noteq> [] | _ \<Rightarrow> True)"

definition allow_alias :: "robj \<Rightarrow> bool" where
  "allow_alias ob \<longleftrightarrow> (case getOption ''allow_alias'' ob of None \<Rightarrow> False | Some v \<Rightarrow> val_truthy v)"

definition id_del :: "int \<Rightarrow> (int \<times> 'v) list \<Rightarrow> (int \<times> 'v) list" where
  "id_del i m = filter (\<lambda>(j, v). j \<noteq> i) m"

definition enum_isReservedId :: "nat \<Rightarrow> int \<Rightarrow> runtime \<Rightarrow> bool" where
  "enum_isReservedId this i w = isReservedId (o_reserved (objs (st w) this)) i"

definition enum_isReservedName :: "nat \<Rightarrow> string \<Rightarrow> runtime \<Rightarrow> bool" where
  "enum_isReservedName this name w = isReservedName (o_reserved (objs (st w) this)) name"

definition enum_add :: "nat \<Rightarrow> string option \<Rightarrow> int option \<Rightarrow> unit prog" where
  "enum_add this name i w =
     (case (decls w this, name, i) of
        (EnumDecl vs ids, Some n, Some v) \<Rightarrow>
          if enum_value vs ids (js_text n) \<noteq> None then (Inl (Error ''duplicate name''), w)
          else if enum_isReservedId this v w then (Inl (Error ''id is reserved''), w)
          else if enum_isReservedName this n w then (Inl (Error ''name is reserved''), w)
          else if map_of ids v \<noteq> None then
            if \<not> allow_alias (objs (st w) this) then (Inl (Error ''duplicate id''), w)
            else (Inr (), set_decl this (EnumDecl (assoc_set n v vs) ids) w)
          else (Inr (), set_decl this (EnumDecl (assoc_set n v vs) (id_set v n ids)) w)
      | (EnumDecl vs ids, None, _) \<Rightarrow> (Inl (TypeError ''name must be a string''), w)
      | (EnumDecl vs ids, _, None) \<Rightarrow> (Inl (TypeError ''id must be an integer''), w)
      | _ \<Rightarrow> (Inl outside, w))"

text \<open>
  A name that is found in the prototype has a name as its value; then the key of the deletion by id is this name.
\<close>

definition enum_remove :: "nat \<Rightarrow> string option \<Rightarrow> unit prog" where
  "enum_remove this name w =
     (case (decls w this, name) of
        (EnumDecl vs ids, Some n) \<Rightarrow>
          (case enum_value vs ids (js_text n) of
             None \<Rightarrow> (Inl (Error ''name does not exist''), w)
           | Some (VInt v) \<Rightarrow> (Inr (), set_decl this (EnumDecl (assoc_del n vs) (id_del v ids)) w)
           | Some (VString s) \<Rightarrow>
               (Inr (), set_decl this
                  (EnumDecl (assoc_del n vs)
                     (case find (\<lambda>(i, k). number_string i = s) ids of None \<Rightarrow> ids | Some (i, k) \<Rightarrow> id_del i ids)) w)
           | Some _ \<Rightarrow> (Inl outside, w))
      | (EnumDecl vs ids, None) \<Rightarrow> (Inl (TypeError ''name must be a string''), w)
      | _ \<Rightarrow> (Inl outside, w))"

section \<open>Both tables agree\<close>

definition enum_ok :: "nat \<Rightarrow> runtime \<Rightarrow> bool" where
  "enum_ok this w \<longleftrightarrow>
     (\<exists>vs ids. decls w this = EnumDecl vs ids \<and> distinct (map fst vs) \<and> distinct (map fst ids) \<and>
        (\<forall>n i. (i, n) \<in> set ids \<longleftrightarrow> (n, i) \<in> set vs) \<and>
        (\<forall>(n, i) \<in> set vs. \<not> enum_isReservedId this i w \<and> \<not> enum_isReservedName this n w))"

text \<open>Names are as in a \<open>.proto\<close> file: they do not look like numbers.\<close>

definition proper_name :: "string \<Rightarrow> bool" where
  "proper_name n \<longleftrightarrow>
     n \<noteq> [] \<and> (let c = (of_char (hd n) :: nat) in 65 \<le> c \<and> c \<le> 90 \<or> c = 95 \<or> 97 \<le> c \<and> c \<le> 122)"

lemma decimal_first: "decimal n \<noteq> [] \<and> unat (hd (decimal n)) < 58"
proof (induction n rule: decimal.induct)
  case (1 n)
  show ?case
  proof (cases "n < 10")
    case True
    then show ?thesis by (subst (1 2) decimal.simps) (simp add: unat_word_ariths unat_of_nat)
  next
    case False
    then show ?thesis using 1 by (subst (1 2) decimal.simps) simp
  qed
qed

lemma number_string_first: "number_string i \<noteq> [] \<and> unat (hd (number_string i)) < 58"
  using decimal_first by (simp add: number_string_def Let_def)

lemma identifier_no_number: "proper_name n \<Longrightarrow> js_text n \<noteq> number_string i"
proof
  assume n: "proper_name n" "js_text n = number_string i"
  then obtain c cs where c: "n = c # cs" by (cases n) (simp_all add: proper_name_def)
  have "unat (hd (js_text n)) = of_char c" using c by (simp add: js_text_def unat_of_char)
  then show False using n number_string_first[of i] c by (auto simp: proper_name_def Let_def)
qed

lemma find_number_none: "proper_name n \<Longrightarrow> find (\<lambda>(i, name). number_string i = js_text n) ids = None"
  using identifier_no_number by (auto simp: find_None_iff) metis

lemma enum_value_identifier: "proper_name n \<Longrightarrow> enum_value vs ids (js_text n) = map_option VInt (map_of vs n)"
  by (cases "map_of vs n") (simp_all add: enum_value_def find_number_none)

text \<open>A call on another enum, or one that throws, changes nothing; the objects themselves are never changed.\<close>

lemma enum_add_cases:
  assumes "enum_ok this w" and "enum_add this name i w = (r, w')"
  obtains (threw) e where "r = Inl e" "w' = w"
  | (added) n v vs ids where "r = Inr ()" "name = Some n" "i = Some v" "decls w this = EnumDecl vs ids"
      "map_of vs n = None" "\<not> enum_isReservedId this v w" "\<not> enum_isReservedName this n w"
      "w' = set_decl this (EnumDecl (vs @ [(n, v)]) (if map_of ids v = None then ids @ [(v, n)] else ids)) w"
      "map_of ids v = None \<or> allow_alias (objs (st w) this)"
proof -
  obtain vs ids where e: "decls w this = EnumDecl vs ids" using assms(1) by (auto simp: enum_ok_def)
  show thesis
  proof (cases "\<exists>n v. name = Some n \<and> i = Some v")
    case False
    then show ?thesis using assms(2) e threw by (auto simp: enum_add_def split: option.splits)
  next
    case True
    then obtain n v where nv: "name = Some n" "i = Some v" by blast
    show ?thesis
    proof (cases "enum_value vs ids (js_text n) \<noteq> None \<or> enum_isReservedId this v w \<or> enum_isReservedName this n w \<or>
        map_of ids v \<noteq> None \<and> \<not> allow_alias (objs (st w) this)")
      case True
      then show ?thesis using assms(2) e nv threw by (auto simp: enum_add_def split: if_splits)
    next
      case ok: False
      then have n: "map_of vs n = None" by (cases "map_of vs n") (auto simp: enum_value_def)
      then have "assoc_set n v vs = vs @ [(n, v)]" by (simp add: assoc_set_def map_of_eq_None_iff)
      moreover have "map_of ids v = None \<Longrightarrow> id_set v n ids = ids @ [(v, n)]"
        by (simp add: id_set_def map_of_eq_None_iff)
      ultimately show ?thesis using assms(2) e nv ok n by (intro added[of n v vs ids]) (auto simp: enum_add_def split: if_splits)
    qed
  qed
qed

lemma enum_remove_cases:
  assumes "enum_ok this w" and "enum_remove this name w = (r, w')" and "\<forall>n. name = Some n \<longrightarrow> proper_name n"
  obtains (threw) e where "r = Inl e" "w' = w"
  | (removed) n v vs ids where "r = Inr ()" "name = Some n" "decls w this = EnumDecl vs ids" "map_of vs n = Some v"
      "w' = set_decl this (EnumDecl (assoc_del n vs) (id_del v ids)) w"
proof -
  obtain vs ids where e: "decls w this = EnumDecl vs ids" using assms(1) by (auto simp: enum_ok_def)
  show thesis
  proof (cases name)
    case None
    then show ?thesis using assms(2) e threw by (auto simp: enum_remove_def)
  next
    case (Some n)
    then have v: "enum_value vs ids (js_text n) = map_option VInt (map_of vs n)"
      using assms(3) by (simp add: enum_value_identifier)
    show ?thesis
    proof (cases "map_of vs n")
      case None
      then show ?thesis using assms(2) e Some v threw by (auto simp: enum_remove_def)
    next
      case (Some i)
      then show ?thesis using assms(2) e \<open>name = Some n\<close> v by (intro removed[of n vs ids i]) (simp_all add: enum_remove_def)
    qed
  qed
qed

lemma enum_ok_map_of:
  "enum_ok this w \<Longrightarrow> decls w this = EnumDecl vs ids \<Longrightarrow> map_of ids i = Some n \<longleftrightarrow> map_of vs n = Some i"
  by (auto simp: enum_ok_def)

lemma reserved_set_decl [simp]:
  "enum_isReservedId this i (set_decl a x w) = enum_isReservedId this i w"
  "enum_isReservedName this n (set_decl a x w) = enum_isReservedName this n w"
  "st (set_decl a x w) = st w" "decls (set_decl a x w) = (decls w)(a := x)"
  by (simp_all add: enum_isReservedId_def enum_isReservedName_def set_decl_def)

lemma enum_add_ok:
  assumes "enum_ok this w" and "\<not> allow_alias (objs (st w) this)" and "enum_add this name i w = (r, w')"
  shows "enum_ok this w' \<and> st w' = st w"
  using assms(1,3)
proof (cases rule: enum_add_cases)
  case (added n v vs ids)
  have ok: "distinct (map fst vs)" "distinct (map fst ids)" "\<forall>n i. (i, n) \<in> set ids \<longleftrightarrow> (n, i) \<in> set vs"
    "\<forall>(n, i) \<in> set vs. \<not> enum_isReservedId this i w \<and> \<not> enum_isReservedName this n w"
    using assms(1) added(4) by (auto simp: enum_ok_def)
  have new: "map_of ids v = None" using added(9) assms(2) by blast
  then show ?thesis using ok added(5-8)
    by (simp add: enum_ok_def map_of_eq_None_iff) fastforce
qed (use assms in simp)

lemma enum_remove_ok:
  assumes "enum_ok this w" and "enum_remove this name w = (r, w')" and "\<forall>n. name = Some n \<longrightarrow> proper_name n"
  shows "enum_ok this w' \<and> st w' = st w"
  using assms
proof (cases rule: enum_remove_cases)
  case (removed n v vs ids)
  have ok: "distinct (map fst vs)" "distinct (map fst ids)" "\<forall>n i. (i, n) \<in> set ids \<longleftrightarrow> (n, i) \<in> set vs"
    "\<forall>(n, i) \<in> set vs. \<not> enum_isReservedId this i w \<and> \<not> enum_isReservedName this n w"
    using assms(1) removed(3) by (auto simp: enum_ok_def)
  have d: "distinct (map fst (assoc_del n vs))" "distinct (map fst (id_del v ids))"
    using ok(1,2) by (auto simp: assoc_del_def id_del_def distinct_map_filter)
  have "(v, n) \<in> set ids" using ok(3) map_of_SomeD[OF removed(4)] by blast
  then have "(i, m) \<in> set (id_del v ids) \<longleftrightarrow> (m, i) \<in> set (assoc_del n vs)" for i m
    using ok map_of_SomeD[OF removed(4)] by (auto simp: assoc_del_def id_del_def) (metis eq_key_imp_eq_value)+
  then show ?thesis using ok(4) d removed(5) by (auto simp: enum_ok_def assoc_del_def)
qed (use assms in simp)

section \<open>Programs\<close>

datatype enum_op = EnumAdd "string option" "int option" | EnumRemove "string option"

definition enum_op :: "nat \<Rightarrow> enum_op \<Rightarrow> unit prog" where
  "enum_op this x = (case x of EnumAdd name i \<Rightarrow> enum_add this name i | EnumRemove name \<Rightarrow> enum_remove this name)"

definition enum_run :: "nat \<Rightarrow> enum_op list \<Rightarrow> runtime \<Rightarrow> runtime" where
  "enum_run this xs w = fold (\<lambda>x w. snd (enum_op this x w)) xs w"

definition proper_op :: "enum_op \<Rightarrow> bool" where
  "proper_op x \<longleftrightarrow> (case x of EnumRemove (Some n) \<Rightarrow> proper_name n | _ \<Rightarrow> True)"

lemma enum_run_ok:
  assumes "enum_ok this w" and "\<not> allow_alias (objs (st w) this)" and "list_all proper_op xs"
  shows "enum_ok this (enum_run this xs w) \<and> st (enum_run this xs w) = st w"
  using assms
proof (induction xs arbitrary: w)
  case (Cons x xs)
  obtain r w' where op: "enum_op this x w = (r, w')" by force
  have "enum_ok this w' \<and> st w' = st w"
  proof (cases x)
    case (EnumAdd name i)
    then show ?thesis using enum_add_ok[OF Cons.prems(1,2)] op by (simp add: enum_op_def)
  next
    case (EnumRemove name)
    have "\<forall>n. name = Some n \<longrightarrow> proper_name n" using Cons.prems(3) EnumRemove by (auto simp: proper_op_def split: option.splits)
    then show ?thesis using enum_remove_ok[OF Cons.prems(1)] op EnumRemove by (simp add: enum_op_def)
  qed
  then show ?case using Cons.IH[of w'] Cons.prems op by (simp add: enum_run_def)
qed (simp add: enum_run_def)

text \<open>C27 An enum that is built by \<open>add\<close> and \<open>remove\<close> keeps its two tables inverse to each other, whatever calls fail: without
  \<open>allow_alias\<close> a name has an id exactly if the id has this name, and no value of it is reserved.\<close>

theorem enum_tables_agree:
  assumes "new_Enum name None options = Inr (ob, e)" and "\<not> allow_alias ob"
    and "new_object (ob\<lparr>o_reserved := rs\<rparr>, e) w = (Inr this, w1)" and "list_all proper_op xs"
  shows "\<exists>vs ids. decls (enum_run this xs w1) this = EnumDecl vs ids \<and>
    (\<forall>n i. map_of vs n = Some i \<longleftrightarrow> map_of ids i = Some n) \<and>
    list_all (\<lambda>(n, i). \<not> isReservedId rs i \<and> \<not> isReservedName rs n) vs"
proof -
  have e: "decls w1 this = EnumDecl [] []" "objs (st w1) this = ob\<lparr>o_reserved := rs\<rparr>"
    using assms(1,3)
    by (auto simp: new_Enum_def bind_sum_def entries_def forward_def new_object_def alloc_def Let_def map_filter_simps
        truthy_def split: sum.splits)
  have "enum_ok this w1" by (simp add: enum_ok_def e)
  moreover have "\<not> allow_alias (objs (st w1) this)" using assms(2) by (simp add: e allow_alias_def getOption_def)
  ultimately have run: "enum_ok this (enum_run this xs w1)" "st (enum_run this xs w1) = st w1"
    using enum_run_ok assms(4) by blast+
  then obtain vs ids where d: "decls (enum_run this xs w1) this = EnumDecl vs ids" by (auto simp: enum_ok_def)
  moreover have "list_all (\<lambda>(n, i). \<not> isReservedId rs i \<and> \<not> isReservedName rs n) vs"
    using run d e by (auto simp: enum_ok_def enum_isReservedId_def enum_isReservedName_def list_all_iff)
  ultimately show ?thesis using enum_ok_map_of[OF run(1) d] by blast
qed

definition color_ops :: "enum_op list" where
  "color_ops = [EnumAdd (Some ''RED'') (Some 0), EnumAdd (Some ''BLUE'') (Some 0), EnumAdd (Some ''BLUE'') (Some 7),
     EnumRemove (Some ''RED''), EnumAdd (Some ''GREEN'') (Some 0), EnumRemove None]"

definition color_start :: runtime where
  "color_start = \<lparr>st = \<lparr>objs = (\<lambda>a. Namespace [] None), free = 0\<rparr>, decls = (\<lambda>a. NoDecl), ctors = (\<lambda>a. None)\<rparr>"

theorem enum_tables_agree_witness:
  "\<exists>ob w1. new_object (ob\<lparr>o_reserved := Some [Range 5 9]\<rparr>, EnumDecl [] []) color_start = (Inr 0, w1) \<and>
    (\<exists>vs ids. decls (enum_run 0 color_ops w1) 0 = EnumDecl vs ids \<and>
      (\<forall>n i. map_of vs n = Some i \<longleftrightarrow> map_of ids i = Some n) \<and>
      list_all (\<lambda>(n, i). \<not> isReservedId (Some [Range 5 9]) i \<and> \<not> isReservedName (Some [Range 5 9]) n) vs)"
proof -
  let ?ob = "ReflectionObject CEnum ''Color'' None"
  have new: "new_Enum ''Color'' None None = Inr (?ob, EnumDecl [] [])" by code_simp
  have no_alias: "\<not> allow_alias ?ob" by (simp add: allow_alias_def getOption_def ReflectionObject_def)
  obtain w1 where w1: "new_object (?ob\<lparr>o_reserved := Some [Range 5 9]\<rparr>, EnumDecl [] []) color_start = (Inr 0, w1)"
    by (simp add: new_object_def alloc_def color_start_def)
  have ops: "list_all proper_op color_ops" by code_simp
  from enum_tables_agree[OF new no_alias w1 ops] w1 show ?thesis by blast
qed

text \<open>What \<open>add\<close> adds \<open>remove\<close> takes away.\<close>

lemma enum_add_remove:
  assumes "enum_ok this w" and "\<not> allow_alias (objs (st w) this)" and "proper_name n"
    and "enum_add this (Some n) i w = (Inr (), w')"
  shows "enum_remove this (Some n) w' = (Inr (), w)"
  using assms(1,4)
proof (cases rule: enum_add_cases)
  case (added m v vs ids)
  have new: "map_of ids v = None" "map_of vs n = None" using added assms(2) by auto
  then have "assoc_del n (vs @ [(n, v)]) = vs" "id_del v (ids @ [(v, n)]) = ids"
    by (force simp: assoc_del_def id_del_def map_of_eq_None_iff intro!: filter_True)+
  moreover have "map_of (vs @ [(n, v)]) n = Some v" using new(2) by (simp add: map_add_Some_iff)
  moreover have "set_decl this (EnumDecl vs ids) (set_decl this x w) = w" for x
    using added(4) by (simp add: set_decl_def fun_upd_idem)
  ultimately show ?thesis using added new assms(3) by (simp add: enum_remove_def enum_value_identifier)
qed simp

section \<open>What does not agree\<close>

text \<open>With \<open>allow_alias\<close> the id of a removed name is lost, though another name has it.\<close>

lemma alias_id_lost:
  assumes "decls w this = EnumDecl [(''A'', 1), (''B'', 1)] [(1, ''A'')]"
  shows "enum_remove this (Some ''B'') w = (Inr (), set_decl this (EnumDecl [(''A'', 1)] []) w)"
proof -
  have "proper_name ''B''" by code_simp
  then show ?thesis using assms by (simp add: enum_remove_def enum_value_identifier assoc_del_def id_del_def)
qed

text \<open>A name that looks like an id is found in the table by id: it cannot be added, and removing it removes nothing.\<close>

lemma number_as_name:
  assumes "decls w this = EnumDecl [(''A'', 1)] [(1, ''A'')]"
  shows "enum_add this (Some ''1'') (Some 2) w = (Inl (Error ''duplicate name''), w)"
    and "enum_remove this (Some ''1'') w = (Inr (), w)"
proof -
  have one: "number_string 1 = [49]" by (simp add: number_string_safe decimal.simps)
  have "js_text ''1'' = [49]" "js_text ''A'' = [65]" by (simp_all add: js_text_def)
  then have v: "enum_value [(''A'', 1)] [(1, ''A'')] (js_text ''1'') = Some (VString (js_text ''A''))"
    and none: "find (\<lambda>(i, k). number_string i = js_text ''A'') [(1, ''A'')] = None"
    using one of_text[of "''1''"] by (simp_all add: enum_value_def)
  then show "enum_add this (Some ''1'') (Some 2) w = (Inl (Error ''duplicate name''), w)"
    using assms by (simp add: enum_add_def)
  show "enum_remove this (Some ''1'') w = (Inr (), w)"
    using assms v none by (simp add: enum_remove_def assoc_del_def set_decl_def fun_upd_idem)
qed

end
