(* ===== verification/Loader.thy ===== *)
theory Loader
  imports Descriptors FilePath
begin

text \<open>
  \<open>Root.load\<close> and \<open>loadSync\<close>: a root is assembled from files that import each other. What is fetched comes back
  later, in any order; so a load is a state with the requests that are pending, and their answers are events. \<open>load_env\<close> has
  what the source takes from outside: the bundled files \<open>common\<close> and the parser, which \<open>Root._configure\<close> may leave
  undefined, \<open>JSON.parse\<close>, reading a file at once, and the exception with which \<open>util.fetch\<close> refuses a request, if it does.
  The caller's callback returns, and \<open>resolvePath\<close> is not overridden.
\<close>

section \<open>util.fetch\<close>

datatype contents = Binary "byte list" | Contents string

text \<open>What is known of an \<open>XMLHttpRequest\<close> when its state changes; \<open>response\<close> is there if array buffers are supported.\<close>

record xhr =
  x_readyState :: nat
  x_status :: nat
  x_response :: "byte list option"
  x_responseText :: string

text \<open>The argument of the callback, if it is called.\<close>

definition fetchOnReadyStateChange :: "bool \<Rightarrow> xhr \<Rightarrow> (js_error + contents) option" where
  "fetchOnReadyStateChange binary x =
     (if x_readyState x \<noteq> 4 then None
      else if x_status x \<noteq> 0 \<and> x_status x \<noteq> 200 then Some (Inl (Error ''status''))
      else if binary then
        Some (Inr (Binary (case x_response x of
          Some bs \<Rightarrow> bs
        | None \<Rightarrow> map (\<lambda>c. word_of_nat (of_char c) AND 255) (x_responseText x))))
      else Some (Inr (Contents (x_responseText x))))"

definition fetch_xhr :: "bool \<Rightarrow> xhr list \<Rightarrow> (js_error + contents) list" where
  "fetch_xhr binary xs = List.map_filter (fetchOnReadyStateChange binary) xs"

text \<open>
  The calls of the callback: \<open>fs\<close> is what \<open>fs.readFile\<close> answers, if there is such a module, and \<open>xs\<close> the states
  of the request, if there is \<open>XMLHttpRequest\<close>; \<open>utf8\<close> is \<open>toString\<close> of a node buffer.
\<close>

definition util_fetch ::
  "(byte list \<Rightarrow> string) \<Rightarrow> bool \<Rightarrow> bool \<Rightarrow> (js_error + byte list) option \<Rightarrow> xhr list option \<Rightarrow> js_error + (js_error + contents) list" where
  "util_fetch utf8 binary force_xhr fs xs =
     (let use_xhr = (case xs of
            Some states \<Rightarrow> Inr (fetch_xhr binary states)
          | None \<Rightarrow> Inl (Error ''XMLHttpRequest is not defined''))
      in case (if force_xhr then None else fs) of
           None \<Rightarrow> use_xhr
         | Some (Inl err) \<Rightarrow> if xs \<noteq> None then use_xhr else Inr [Inl err]
         | Some (Inr bs) \<Rightarrow> Inr [Inr (if binary then Binary bs else Contents (utf8 bs))])"

section \<open>The state of a load\<close>

datatype source = Text string | Descriptor json

record load_env =
  le_self :: nat                                              \<comment> \<open>the root\<close>
  le_Long :: bool
  le_depth :: nat
  le_common :: "(string \<Rightarrow> source option) option"
  le_parse :: "(string \<Rightarrow> string \<Rightarrow> runtime \<Rightarrow> (js_error + string list \<times> string list) \<times> runtime) option"
  le_JSON_parse :: "string \<Rightarrow> js_error + json"
  le_readFileSync :: "string \<Rightarrow> js_error + string"
  le_refused :: "string \<Rightarrow> js_error option"

datatype request = Bundled string | Fetching string bool

record loader =
  l_root :: runtime
  l_files :: "string list"
  l_queued :: nat
  l_callback :: bool                      \<comment> \<open>the callback has not been taken yet\<close>
  l_calls :: "js_error option list"       \<comment> \<open>its calls: the error, or none\<close>
  l_pending :: "request list"

text \<open>The exception of a call, if it throws.\<close>

type_synonym load_result = "js_error option \<times> loader"

definition load_start :: "runtime \<Rightarrow> string list \<Rightarrow> loader" where
  "load_start w files =
     \<lparr>l_root = w, l_files = files, l_queued = 0, l_callback = True, l_calls = [], l_pending = []\<rparr>"

section \<open>load\<close>

definition finish_load :: "bool \<Rightarrow> js_error option \<Rightarrow> loader \<Rightarrow> load_result" where
  "finish_load sync err s =
     (if \<not> l_callback s then (None, s)
      else
        let s1 = s\<lparr>l_callback := False\<rparr>
        in if sync then (err, s1) else (None, s1\<lparr>l_calls := l_calls s @ [err]\<rparr>))"

definition parse_JSON :: "load_env \<Rightarrow> source \<Rightarrow> js_error + source" where
  "parse_JSON env source =
     (case source of
        Text t \<Rightarrow> if take 1 t = ''{'' then map_sum (\<lambda>e. e) Descriptor (le_JSON_parse env t) else Inr source
      | Descriptor j \<Rightarrow> Inr source)"

text \<open>The imports and the weak imports of a file, when it has been added to the root.\<close>

definition read_source :: "load_env \<Rightarrow> string \<Rightarrow> source \<Rightarrow> loader \<Rightarrow> (js_error + string list \<times> string list) \<times> loader" where
  "read_source env filename source s =
     (case parse_JSON env source of
        Inl e \<Rightarrow> (Inl e, s)
      | Inr (Descriptor j) \<Rightarrow>
          (case Root_fromJSON (le_Long env) (le_depth env) j (le_self env) (l_root s) of
             (r, w) \<Rightarrow> (map_sum (\<lambda>e. e) (\<lambda>a. ([], [])) r, s\<lparr>l_root := w\<rparr>))
      | Inr (Text t) \<Rightarrow>
          (case le_parse env of
             None \<Rightarrow> (Inl (TypeError ''Cannot set property filename of undefined''), s)
           | Some p \<Rightarrow> (case p filename t (l_root s) of (r, w) \<Rightarrow> (r, s\<lparr>l_root := w\<rparr>))))"

fun fetch_imports :: "(string \<Rightarrow> loader \<Rightarrow> load_result) \<Rightarrow> string \<Rightarrow> string list \<Rightarrow> loader \<Rightarrow> load_result" where
  "fetch_imports fetch origin [] s = (None, s)"
| "fetch_imports fetch origin (target # targets) s =
     (let resolved = resolve_path origin target False
      in if resolved = [] then fetch_imports fetch origin targets s
         else (case fetch resolved s of
                 (Some e, s1) \<Rightarrow> (Some e, s1)
               | (None, s1) \<Rightarrow> fetch_imports fetch origin targets s1))"

text \<open>\<open>fetch\<close> is the call of \<open>fetch\<close>, with the file and whether its import is weak.\<close>

definition process_body ::
  "(string \<Rightarrow> bool \<Rightarrow> loader \<Rightarrow> load_result) \<Rightarrow> load_env \<Rightarrow> string \<Rightarrow> source \<Rightarrow> loader \<Rightarrow> load_result" where
  "process_body fetch env filename source s =
     (case read_source env filename source s of
        (Inl e, s1) \<Rightarrow> (Some e, s1)
      | (Inr (imports, weakImports), s1) \<Rightarrow>
          (case fetch_imports (\<lambda>f. fetch f False) filename imports s1 of
             (Some e, s2) \<Rightarrow> (Some e, s2)
           | (None, s2) \<Rightarrow> fetch_imports (\<lambda>f. fetch f True) filename weakImports s2))"

definition process_file ::
  "(string \<Rightarrow> bool \<Rightarrow> loader \<Rightarrow> load_result) \<Rightarrow> load_env \<Rightarrow> bool \<Rightarrow> string \<Rightarrow> source \<Rightarrow> loader \<Rightarrow> load_result" where
  "process_file fetch env sync filename source s =
     (case (case process_body fetch env filename source s of
              (Some e, s1) \<Rightarrow> finish_load sync (Some e) s1
            | (None, s1) \<Rightarrow> (None, s1)) of
        (Some e, s2) \<Rightarrow> (Some e, s2)
      | (None, s2) \<Rightarrow> if \<not> sync \<and> l_queued s2 = 0 then finish_load sync None s2 else (None, s2))"

text \<open>The suffix from the last occurrence of a text, if there is one.\<close>

fun from_last :: "string \<Rightarrow> string \<Rightarrow> string option" where
  "from_last t [] = None"
| "from_last t (c # cs) =
     (case from_last t cs of
        Some r \<Rightarrow> Some r
      | None \<Rightarrow> if take (length t) (c # cs) = t then Some (c # cs) else None)"

definition no_common :: js_error where
  "no_common = TypeError ''Cannot use in operator to search in undefined''"

definition bundled_name :: "load_env \<Rightarrow> string \<Rightarrow> js_error + string" where
  "bundled_name env filename =
     (case from_last ''google/protobuf/'' filename of
        None \<Rightarrow> Inr filename
      | Some altname \<Rightarrow>
          (case le_common env of
             None \<Rightarrow> Inl no_common
           | Some common \<Rightarrow> Inr (if common altname \<noteq> None then altname else filename)))"

text \<open>\<open>d\<close> is the depth of calls there is room for: a synchronous \<open>fetch\<close> processes the file, which fetches its imports.\<close>

fun fetch_file :: "nat \<Rightarrow> load_env \<Rightarrow> bool \<Rightarrow> string \<Rightarrow> bool \<Rightarrow> loader \<Rightarrow> load_result" where
  "fetch_file 0 env sync filename0 weak s = (Some stack_overflow, s)"
| "fetch_file (Suc d) env sync filename0 weak s =
     (case bundled_name env filename0 of
        Inl e \<Rightarrow> (Some e, s)
      | Inr filename \<Rightarrow>
          if filename \<in> set (l_files s) then (None, s)
          else
            let s1 = s\<lparr>l_files := l_files s @ [filename]\<rparr>
            in case le_common env of
                 None \<Rightarrow> (Some no_common, s1)
               | Some common \<Rightarrow>
                   (case common filename of
                      Some source \<Rightarrow>
                        if sync then process_file (fetch_file d env sync) env sync filename source s1
                        else (None, s1\<lparr>l_queued := l_queued s1 + 1, l_pending := l_pending s1 @ [Bundled filename]\<rparr>)
                    | None \<Rightarrow>
                        if sync then
                          (case le_readFileSync env filename of
                             Inl err \<Rightarrow> if weak then (None, s1) else finish_load sync (Some err) s1
                           | Inr text \<Rightarrow> process_file (fetch_file d env sync) env sync filename (Text text) s1)
                        else
                          (case le_refused env filename of
                             Some err \<Rightarrow> (Some err, s1\<lparr>l_queued := l_queued s1 + 1\<rparr>)
                           | None \<Rightarrow>
                               (None, s1\<lparr>l_queued := l_queued s1 + 1,
                                         l_pending := l_pending s1 @ [Fetching filename weak]\<rparr>))))"

definition load :: "nat \<Rightarrow> load_env \<Rightarrow> bool \<Rightarrow> string list \<Rightarrow> loader \<Rightarrow> load_result" where
  "load d env sync filenames s =
     (case fetch_imports (\<lambda>f. fetch_file d env sync f False) [] filenames s of
        (Some e, s1) \<Rightarrow> (Some e, s1)
      | (None, s1) \<Rightarrow> if \<not> sync \<and> l_queued s1 = 0 then finish_load sync None s1 else (None, s1))"

definition loadSync :: "nat \<Rightarrow> load_env \<Rightarrow> bool \<Rightarrow> string list \<Rightarrow> loader \<Rightarrow> load_result" where
  "loadSync d env isNode filenames s =
     (if \<not> isNode then (Some (Error ''not supported''), s) else load d env True filenames s)"

definition take_out :: "nat \<Rightarrow> loader \<Rightarrow> loader" where
  "take_out i s = s\<lparr>l_queued := l_queued s - 1, l_pending := take i (l_pending s) @ drop (i + 1) (l_pending s)\<rparr>"

text \<open>The answer to the \<open>i\<close>-th of the pending requests; a bundled file needs none.\<close>

definition answer :: "nat \<Rightarrow> load_env \<Rightarrow> nat \<Rightarrow> js_error + string \<Rightarrow> loader \<Rightarrow> loader" where
  "answer d env i r s =
     (if i < length (l_pending s) then
        let s1 = take_out i s
        in case l_pending s ! i of
             Bundled f \<Rightarrow>
               (case Option.bind (le_common env) (\<lambda>common. common f) of
                  Some source \<Rightarrow> snd (process_file (fetch_file d env False) env False f source s1)
                | None \<Rightarrow> s1)
           | Fetching f weak \<Rightarrow>
               if \<not> l_callback s1 then s1
               else
                 (case r of
                    Inl err \<Rightarrow>
                      if \<not> weak then snd (finish_load False (Some err) s1)
                      else if l_queued s1 = 0 then snd (finish_load False None s1)
                      else s1
                  | Inr text \<Rightarrow> snd (process_file (fetch_file d env False) env False f (Text text) s1))
      else s)"

definition answers :: "nat \<Rightarrow> load_env \<Rightarrow> (nat \<times> (js_error + string)) list \<Rightarrow> loader \<Rightarrow> loader" where
  "answers d env xs s = fold (\<lambda>(i, r) s. answer d env i r s) xs s"

section \<open>The callback is called once\<close>

definition once_ok :: "loader \<Rightarrow> bool" where
  "once_ok s \<longleftrightarrow> (if l_callback s then l_calls s = [] else length (l_calls s) = 1) \<and> distinct (l_files s)"

definition counted :: "loader \<Rightarrow> bool" where
  "counted s \<longleftrightarrow> l_queued s = length (l_pending s)"

definition waiting :: "loader \<Rightarrow> bool" where
  "waiting s \<longleftrightarrow> l_callback s \<longrightarrow> counted s \<and> l_pending s \<noteq> []"

definition bundled_only :: "load_env \<Rightarrow> loader \<Rightarrow> bool" where
  "bundled_only env s \<longleftrightarrow> (\<forall>f. Bundled f \<in> set (l_pending s) \<longrightarrow> Option.bind (le_common env) (\<lambda>common. common f) \<noteq> None)"

definition keeps :: "load_env \<Rightarrow> loader \<Rightarrow> load_result \<Rightarrow> bool" where
  "keeps env s p \<longleftrightarrow>
     (case p of (e, s') \<Rightarrow>
        (once_ok s \<longrightarrow> once_ok s') \<and> (bundled_only env s \<longrightarrow> bundled_only env s') \<and> l_callback s' = l_callback s \<and>
        (e = None \<longrightarrow> counted s \<longrightarrow> counted s'))"

lemma keepsI:
  "(once_ok s \<Longrightarrow> once_ok s') \<Longrightarrow> (bundled_only env s \<Longrightarrow> bundled_only env s') \<Longrightarrow> l_callback s' = l_callback s \<Longrightarrow>
   (e = None \<Longrightarrow> counted s \<Longrightarrow> counted s') \<Longrightarrow> keeps env s (e, s')"
  by (simp add: keeps_def)

lemma fetch_file_keeps: "keeps env s (fetch_file d env False f weak s)"
proof (cases d)
  case (Suc k)
  show ?thesis
    unfolding Suc
    by (auto simp: Let_def once_ok_def counted_def bundled_only_def keeps_def split: sum.split option.split)
qed (simp add: keeps_def)

lemma fetch_imports_keeps:
  assumes "\<And>f s. keeps env s (fetch f s)"
  shows "keeps env s (fetch_imports fetch origin targets s)"
proof (induction targets arbitrary: s)
  case (Cons t ts)
  obtain e s1 where f: "fetch (resolve_path origin t False) s = (e, s1)" by force
  show ?case
    using Cons.IH[of s] Cons.IH[of s1] assms[of s "resolve_path origin t False"] f
    by (cases e) (auto simp: Let_def keeps_def split: prod.splits)
qed (simp add: keeps_def)

lemma read_source_keeps:
  "read_source env f source s = (r, s1) \<Longrightarrow>
   once_ok s1 = once_ok s \<and> bundled_only env s1 = bundled_only env s \<and> l_callback s1 = l_callback s \<and> counted s1 = counted s"
  by (auto simp: read_source_def once_ok_def bundled_only_def counted_def split: sum.splits source.splits option.splits prod.splits)

lemma process_body_keeps: "keeps env s (process_body (fetch_file d env False) env f source s)"
proof -
  obtain r s1 where r: "read_source env f source s = (r, s1)" by force
  note s1 = read_source_keeps[OF r]
  show ?thesis
  proof (cases r)
    case (Inl e)
    then show ?thesis using r s1 by (simp add: process_body_def keeps_def)
  next
    case (Inr iw)
    obtain imps ws where iw: "iw = (imps, ws)" by force
    obtain e s2 where i: "fetch_imports (\<lambda>f. fetch_file d env False f False) f imps s1 = (e, s2)" by force
    have k1: "keeps env s1 (e, s2)"
      using fetch_imports_keeps[of env "\<lambda>f. fetch_file d env False f False" s1 f imps] fetch_file_keeps i by simp
    have k2: "keeps env s2 (fetch_imports (\<lambda>f. fetch_file d env False f True) f ws s2)"
      by (intro fetch_imports_keeps fetch_file_keeps)
    show ?thesis using r Inr iw i k1 k2 s1
      by (cases e) (auto simp: process_body_def keeps_def split: prod.splits)
  qed
qed

lemma finish_load_once:
  "once_ok s \<Longrightarrow> finish_load False e s = (x, s') \<Longrightarrow> x = None \<and> once_ok s' \<and> waiting s' \<and> bundled_only env s' = bundled_only env s"
  by (auto simp: finish_load_def once_ok_def waiting_def bundled_only_def Let_def split: if_splits)

lemma process_file_once:
  assumes "once_ok s" and "bundled_only env s" and "l_callback s \<longrightarrow> counted s"
    and "process_file (fetch_file d env False) env False f source s = (x, s')"
  shows "x = None \<and> once_ok s' \<and> waiting s' \<and> bundled_only env s'"
proof -
  obtain e s1 where b: "process_body (fetch_file d env False) env f source s = (e, s1)" by force
  have k: "keeps env s (e, s1)" using process_body_keeps[of env s d f source] b by simp
  then have s1: "once_ok s1" "bundled_only env s1" "l_callback s1 = l_callback s" using assms(1,2) by (simp_all add: keeps_def)
  show ?thesis
  proof (cases e)
    case None
    then have "l_callback s1 \<longrightarrow> counted s1" using k assms(3) by (simp add: keeps_def)
    then show ?thesis using s1 None b assms(4) finish_load_once[OF s1(1), of None x s' env]
      by (cases "l_queued s1 = 0") (auto simp: process_file_def waiting_def counted_def)
  next
    case (Some err)
    obtain y s2 where f: "finish_load False (Some err) s1 = (y, s2)" by force
    note s2 = finish_load_once[OF s1(1) f, of env]
    then show ?thesis using s1 Some b f assms(4) finish_load_once[of s2 None x s' env]
      by (cases "l_queued s2 = 0") (auto simp: process_file_def)
  qed
qed

lemma answer_once:
  assumes "once_ok s" and "bundled_only env s" and "waiting s"
  shows "once_ok (answer d env i r s) \<and> waiting (answer d env i r s) \<and> bundled_only env (answer d env i r s)"
proof (cases "i < length (l_pending s)")
  case True
  define s1 where "s1 = take_out i s"
  have s1: "once_ok s1" "l_callback s1 = l_callback s" using assms(1) by (simp_all add: s1_def take_out_def once_ok_def)
  have b: "bundled_only env s1" using assms(2) by (auto simp: s1_def take_out_def bundled_only_def dest: in_set_takeD in_set_dropD)
  have c: "l_callback s1 \<longrightarrow> counted s1" using assms(3) True by (auto simp: s1_def take_out_def waiting_def counted_def)
  note p = process_file_once[OF s1(1) b c, of d]
  note f = finish_load_once[OF s1(1)]
  show ?thesis
  proof (cases "l_pending s ! i")
    case (Bundled g)
    then have "Bundled g \<in> set (l_pending s)" using True nth_mem by metis
    then obtain source where "Option.bind (le_common env) (\<lambda>common. common g) = Some source"
      using assms(2) by (auto simp: bundled_only_def)
    moreover obtain x s2 where "process_file (fetch_file d env False) env False g source s1 = (x, s2)" by force
    ultimately show ?thesis using Bundled True p[of g source]
      by (simp add: answer_def s1_def[symmetric] Let_def)
  next
    case (Fetching g weak)
    show ?thesis
    proof (cases "l_callback s1")
      case False
      then show ?thesis using Fetching True s1 b by (simp add: answer_def s1_def[symmetric] Let_def waiting_def)
    next
      case cb: True
      show ?thesis
      proof (cases r)
        case (Inr src)
        moreover obtain x s2 where "process_file (fetch_file d env False) env False g (Text src) s1 = (x, s2)" by force
        ultimately show ?thesis using Fetching True cb p[of g "Text src"]
          by (simp add: answer_def s1_def[symmetric] Let_def)
      next
        case (Inl err)
        have "waiting s1" if "l_queued s1 \<noteq> 0" using c cb that by (auto simp: waiting_def counted_def)
        moreover obtain x2 s2 x3 s3 where "finish_load False (Some err) s1 = (x2, s2)" "finish_load False None s1 = (x3, s3)"
          by force
        ultimately show ?thesis using Inl Fetching True cb s1 b f[of "Some err" x2 s2 env] f[of None x3 s3 env]
          by (simp add: answer_def s1_def[symmetric] Let_def)
      qed
    qed
  qed
qed (use assms in \<open>simp add: answer_def\<close>)


text \<open>A file \<open>a\<close> that imports \<open>b\<close>; whether \<open>b\<close> can be parsed is up to its text.\<close>

definition two_files :: load_env where
  "two_files =
     \<lparr>le_self = 0, le_Long = True, le_depth = 1, le_common = Some (\<lambda>f. None),
      le_parse = Some (\<lambda>f t w.
        if f = ''a'' then (Inr ([''b''], []), w)
        else if t = [] then (Inr ([], []), w)
        else (Inl (Error ''illegal token''), w)),
      le_JSON_parse = (\<lambda>t. Inl (Error ''syntax'')), le_readFileSync = (\<lambda>f. Inr ''?''), le_refused = (\<lambda>f. None)\<rparr>"

lemma two_files_paths:
  "resolve_path [] ''a'' False = ''a''" "resolve_path ''a'' ''b'' False = ''b''"
  "from_last ''google/protobuf/'' ''a'' = None" "from_last ''google/protobuf/'' ''b'' = None"
  by code_simp+

lemmas load_eval = load_def load_start_def bundled_name_def process_file_def process_body_def read_source_def parse_JSON_def
  finish_load_def answers_def answer_def take_out_def two_files_def two_files_paths


section \<open>What goes wrong\<close>

text \<open>In this build \<open>common\<close> is undefined: every load of a file throws, and its callback is not called.\<close>

lemma light_build_load_throws:
  assumes "le_common env = None" and "resolve_path [] f False \<noteq> []" and "resolve_path [] f False \<notin> set (l_files s)" and "l_calls s = []"
  shows "fst (load (Suc d) env sync (f # fs) s) = Some no_common \<and> l_calls (snd (load (Suc d) env sync (f # fs) s)) = []"
  using assms by (auto simp: load_def bundled_name_def Let_def split: option.split)

text \<open>
  A synchronous load returns although an imported file has a syntax error: \<open>finish\<close> throws the error, but \<open>process\<close> of
  the importing file catches it, and the second call of \<open>finish\<close> does nothing.
\<close>

lemma imported_error_swallowed:
  "fst (loadSync 2 two_files True [''a''] (load_start start_runtime [])) = None"
  "fst (process_file (fetch_file 1 two_files True) two_files True ''b'' (Text ''?'') (load_start start_runtime [])) =
     Some (Error ''illegal token'')"
  by (simp_all add: loadSync_def load_eval eval_nat_numeral Let_def)

text \<open>An asynchronous load reports the same error.\<close>

lemma imported_error_reported:
  "l_calls (answers 1 two_files [(0, Inr ''import''), (0, Inr ''?'')] (snd (load 1 two_files False [''a''] (load_start start_runtime [])))) =
     [Some (Error ''illegal token'')]"
  by (simp add: load_eval Let_def)

end
