(* ===== verification/NodeBuffers.thy ===== *)
theory NodeBuffers
  imports Wire
begin

text \<open>
  \<open>BufferWriter\<close> and \<open>BufferReader\<close>, the variants that are used where there is node's \<open>Buffer\<close>. What they use of it is a
  parameter, and \<open>node_laws\<close> is what its documentation says of these functions: the encoding of text is UTF-8, which leaves
  open what becomes of a surrogate that stands alone. Memory from \<open>allocUnsafe\<close> has arbitrary contents.
\<close>

section \<open>The operations\<close>

record node_buffer =
  nb_byteLength :: "js_string \<Rightarrow> nat"
  nb_utf8Write :: "js_string \<Rightarrow> byte list"        \<comment> \<open>the bytes it writes\<close>
  nb_utf8Slice :: "byte list \<Rightarrow> js_string"
  nb_from_base64 :: "js_string \<Rightarrow> byte list"
  nb_allocUnsafe :: "nat \<Rightarrow> byte list"

text \<open>
  \<open>writeStringBuffer\<close> chooses when it runs; a string does not change, so the choice is made here when it is queued.
\<close>

definition writeStringBuffer :: "node_buffer \<Rightarrow> js_string \<Rightarrow> op_fn" where
  "writeStringBuffer N val = (if length val < 40 then WriteUtf8 val else WriteBytes (nb_utf8Write N val))"

definition buffer_write_string :: "node_buffer \<Rightarrow> js_string \<Rightarrow> writer \<Rightarrow> writer" where
  "buffer_write_string N value w =
     (let len = nb_byteLength N value; w1 = write_uint32 (int len) w
      in if len \<noteq> 0 then push (writeStringBuffer N value) len w1 else w1)"

definition buffer_write_bytes :: "byte list \<Rightarrow> writer \<Rightarrow> writer" where
  "buffer_write_bytes value w =
     (let len = unat (to_uint32 (int (length value))); w1 = write_uint32 (int len) w
      in if len \<noteq> 0 then push (WriteBytes value) len w1 else w1)"

definition buffer_write_base64 :: "node_buffer \<Rightarrow> js_string \<Rightarrow> writer \<Rightarrow> writer" where
  "buffer_write_base64 N value w = buffer_write_bytes (nb_from_base64 N value) w"

definition buffer_finish :: "node_buffer \<Rightarrow> writer \<Rightarrow> byte list \<times> writer" where
  "buffer_finish N w =
     (case run_ops (w_ops w) (nb_allocUnsafe N (w_len w)) 0 of (ops', buf) \<Rightarrow> (buf, w\<lparr>w_ops := ops'\<rparr>))"

definition buffer_read_string :: "node_buffer \<Rightarrow> reader \<Rightarrow> (js_error + js_string) \<times> reader" where
  "buffer_read_string N r =
     bind_read (read_uint32 r)
       (\<lambda>len r1.
          let end = min (r_pos r1 + unat len) (r_len r1)
          in (Inr (nb_utf8Slice N (take (end - r_pos r1) (drop (r_pos r1) (r_buf r1)))), r1\<lparr>r_pos := end\<rparr>))"

section \<open>What node promises\<close>

fun whole :: "js_string \<Rightarrow> bool" where
  "whole [] = True"
| "whole (c # cs) =
     (if is_high c then is_low (js_get cs 0) \<and> whole (drop 1 cs) else \<not> is_low (Some c) \<and> whole cs)"

definition node_laws :: "node_buffer \<Rightarrow> bool" where
  "node_laws N \<longleftrightarrow>
     (\<forall>s. whole s \<longrightarrow>
        nb_byteLength N s = length (utf8_enc s) \<and> nb_utf8Write N s = utf8_enc s \<and> nb_utf8Slice N (utf8_enc s) = s) \<and>
     (\<forall>n. length (nb_allocUnsafe N n) = n)"

section \<open>Both writers write the same\<close>

text \<open>The calls of a program; those that \<open>BufferWriter\<close> inherits append a block.\<close>

datatype writer_call =
    CallString js_string
  | CallBytes "byte list"
  | CallFork
  | CallReset
  | CallLdelim
  | CallOther "writer \<Rightarrow> writer"

definition plain_call :: "writer_call \<Rightarrow> writer \<Rightarrow> writer" where
  "plain_call c = (case c of
     CallString s \<Rightarrow> write_string s | CallBytes bs \<Rightarrow> write_bytes bs | CallFork \<Rightarrow> fork | CallReset \<Rightarrow> reset
   | CallLdelim \<Rightarrow> ldelim | CallOther f \<Rightarrow> f)"

definition node_call :: "node_buffer \<Rightarrow> writer_call \<Rightarrow> writer \<Rightarrow> writer" where
  "node_call N c = (case c of
     CallString s \<Rightarrow> buffer_write_string N s | CallBytes bs \<Rightarrow> buffer_write_bytes bs | CallFork \<Rightarrow> fork | CallReset \<Rightarrow> reset
   | CallLdelim \<Rightarrow> ldelim | CallOther f \<Rightarrow> f)"

definition call_ok :: "writer_call \<Rightarrow> bool" where
  "call_ok c \<longleftrightarrow> (case c of
     CallString s \<Rightarrow> whole s \<and> utf8_length s < 2 ^ 32 | CallBytes bs \<Rightarrow> length bs < 2 ^ 32
   | CallOther f \<Rightarrow> \<exists>bs. appends f bs | _ \<Rightarrow> True)"

lemma appends_cong: "appends f bs \<Longrightarrow> (\<And>w. g w = f w) \<Longrightarrow> appends g bs"
  by (simp add: appends_def)

lemma appends_block:
  assumes "length bs < 2 ^ 32" and "length bs \<noteq> 0 \<Longrightarrow> fn_bytes fn = bs"
  shows "appends (\<lambda>w. let w1 = write_uint32 (int (length bs)) w in if length bs \<noteq> 0 then push fn (length bs) w1 else w1)
    (varint (length bs) @ bs)"
proof -
  have u: "appends (write_uint32 (int (length bs))) (varint (length bs))"
    using appends_uint32[of "int (length bs)"] assms(1) by (simp add: to_uint32_def unat_of_nat)
  show ?thesis
  proof (cases "length bs = 0")
    case False
    then have "appends (push fn (length bs) \<circ> write_uint32 (int (length bs))) (varint (length bs) @ bs)"
      using appends_comp[OF u appends_push[of "length bs" fn]] assms(2) by simp
    then show ?thesis using False by (simp add: comp_def Let_def)
  qed (use u in simp)
qed

lemma appends_buffer_string:
  assumes "node_laws N" and "whole s" and "utf8_length s < 2 ^ 32"
  shows "appends (buffer_write_string N s) (varint (length (utf8_enc s)) @ utf8_enc s)"
proof -
  have "nb_byteLength N s = length (utf8_enc s)" "fn_bytes (writeStringBuffer N s) = utf8_enc s"
    using assms(1,2) by (simp_all add: node_laws_def writeStringBuffer_def)
  then show ?thesis
    using assms(3)
    by (intro appends_cong[OF appends_block[of "utf8_enc s" "writeStringBuffer N s"]])
      (simp_all add: buffer_write_string_def utf8_length_enc Let_def)
qed

lemma appends_buffer_bytes:
  assumes "length bs < 2 ^ 32"
  shows "appends (buffer_write_bytes bs) (varint (length bs) @ bs)"
proof -
  have "unat (to_uint32 (int (length bs))) = length bs" using assms by (simp add: to_uint32_def unat_of_nat)
  then show ?thesis
    using assms by (intro appends_cong[OF appends_block[of bs "WriteBytes bs"]]) (simp_all add: buffer_write_bytes_def Let_def)
qed

definition same_bytes :: "writer \<Rightarrow> writer \<Rightarrow> bool" where
  "same_bytes w v \<longleftrightarrow> wf_writer w \<and> wf_writer v \<and> w_bytes w = w_bytes v \<and>
     list_all2 (\<lambda>a b. ops_bytes (s_ops a) = ops_bytes (s_ops b)) (w_states w) (w_states v)"

lemma same_bytes_appends: "appends f bs \<Longrightarrow> appends g bs \<Longrightarrow> same_bytes w v \<Longrightarrow> same_bytes (f w) (g v)"
  by (simp add: same_bytes_def appends_def)

lemma same_bytes_fork: "same_bytes w v \<Longrightarrow> same_bytes (fork w) (fork v)"
  using wf_fork by (auto simp: same_bytes_def fork_def State_def w_bytes_def)

lemma same_bytes_reset: "same_bytes w v \<Longrightarrow> same_bytes (reset w) (reset v)"
  using wf_reset[of w] wf_reset[of v]
  by (cases "w_states w"; cases "w_states v") (auto simp: same_bytes_def reset_def w_bytes_def)

lemma same_bytes_ldelim:
  assumes "same_bytes w v"
  shows "same_bytes (ldelim w) (ldelim v)"
proof -
  have len: "w_len w = w_len v" and b: "ops_bytes (w_ops w) = ops_bytes (w_ops v)"
    using assms wf_writer_size by (metis same_bytes_def, simp add: same_bytes_def w_bytes_def)
  have "same_bytes (write_uint32 (int (w_len w)) (reset w)) (write_uint32 (int (w_len v)) (reset v))"
    using same_bytes_appends[OF appends_uint32 appends_uint32 same_bytes_reset[OF assms]] len by simp
  moreover have "wf_writer (ldelim w)" "wf_writer (ldelim v)" using assms wf_ldelim by (simp_all add: same_bytes_def)
  ultimately show ?thesis using len b by (auto simp: same_bytes_def ldelim_def Let_def w_bytes_def ops_bytes_def)
qed

lemma same_bytes_call:
  assumes "node_laws N" and "call_ok c" and "same_bytes w v"
  shows "same_bytes (node_call N c w) (plain_call c v)"
proof (cases c)
  case (CallString s)
  then have "whole s" "utf8_length s < 2 ^ 32" using assms(2) by (simp_all add: call_ok_def)
  then show ?thesis
    using same_bytes_appends[OF appends_buffer_string appends_string assms(3)] assms(1) CallString
    by (simp add: node_call_def plain_call_def)
next
  case (CallBytes bs)
  then show ?thesis
    using same_bytes_appends[OF appends_buffer_bytes appends_bytes assms(3)] assms(2)
    by (simp add: node_call_def plain_call_def call_ok_def)
next
  case (CallOther f)
  then obtain bs where "appends f bs" using assms(2) by (auto simp: call_ok_def)
  then show ?thesis using same_bytes_appends[OF _ _ assms(3)] CallOther by (simp add: node_call_def plain_call_def)
qed (use same_bytes_fork same_bytes_reset same_bytes_ldelim assms(3) in \<open>simp_all add: node_call_def plain_call_def\<close>)

lemma same_bytes_calls:
  "node_laws N \<Longrightarrow> list_all call_ok cs \<Longrightarrow> same_bytes w v \<Longrightarrow> same_bytes (fold (node_call N) cs w) (fold plain_call cs v)"
  by (induction cs arbitrary: w v) (simp_all add: same_bytes_call)

lemma buffer_finish_bytes:
  assumes "node_laws N" and "wf_writer w"
  shows "fst (buffer_finish N w) = w_bytes w"
proof -
  have q: "wf_queue (w_ops w) (w_len w)" using assms(2) by (simp add: wf_writer_def)
  have "length (nb_allocUnsafe N (w_len w)) = length (w_bytes w)"
    using assms by (simp add: node_laws_def wf_writer_size)
  then have "snd (run_ops (w_ops w) (nb_allocUnsafe N (w_len w)) 0) = w_bytes w"
    using q by (subst run_ops_bytes) (auto simp: wf_queue_def w_bytes_def blit_split)
  then show ?thesis by (auto simp: buffer_finish_def split: prod.splits)
qed


text \<open>A node whose fresh memory is full of ones.\<close>

definition some_node :: node_buffer where
  "some_node =
     \<lparr>nb_byteLength = utf8_length, nb_utf8Write = utf8_enc, nb_utf8Slice = utf8_dec, nb_from_base64 = (\<lambda>s. []),
      nb_allocUnsafe = (\<lambda>n. replicate n 1)\<rparr>"

lemma some_node_laws: "node_laws some_node"
  by (simp add: node_laws_def some_node_def utf8_length_enc utf8_dec_enc)


section \<open>Reading\<close>

lemma buffer_read_string_block:
  assumes "node_laws N" and "whole s" and "utf8_length s < 2 ^ 32"
    and a: "ahead r (varint (length (utf8_enc s)) @ utf8_enc s @ rest)"
  shows "buffer_read_string N r = (Inr s, advance (length (varint (length (utf8_enc s))) + length (utf8_enc s)) r)"
proof -
  let ?bs = "utf8_enc s"
  let ?r = "advance (length (varint (length ?bs))) r"
  have len: "length ?bs < 2 ^ 32" using assms(3) by (simp add: utf8_length_enc)
  have "ahead ?r (?bs @ rest)" using ahead_advance[OF a] by simp
  then have "take (length ?bs) (drop (r_pos ?r) (r_buf ?r)) = ?bs" "r_pos ?r + length ?bs \<le> r_len ?r"
    by (rule ahead_take) (use ahead_len[OF \<open>ahead ?r (?bs @ rest)\<close>] in simp)
  moreover have "read_uint32 r = (Inr (word_of_nat (length ?bs)), ?r)"
    using read_uint32_varint[OF a len] by (simp add: length_varint)
  moreover have "unat (word_of_nat (length ?bs) :: u32) = length ?bs" using len by (simp add: unat_of_nat)
  moreover have "nb_utf8Slice N ?bs = s" using assms(1,2) by (simp add: node_laws_def)
  ultimately show ?thesis by (simp add: buffer_read_string_def bind_read_def Let_def min_absorb1 advance_def add.assoc)
qed

text \<open>What a \<open>BufferWriter\<close> writes of a string a \<open>BufferReader\<close> reads back, at any length that fits into a message.\<close>

theorem node_string_roundtrip:
  assumes "node_laws N" and "whole s" and "utf8_length s < 2 ^ 32"
  shows "\<exists>r. buffer_read_string N (Reader (fst (buffer_finish N (buffer_write_string N s writer_create)))) = (Inr s, r) \<and>
    r_pos r = r_len r"
proof -
  let ?b = "varint (length (utf8_enc s)) @ utf8_enc s"
  have "wf_writer (buffer_write_string N s writer_create)" "w_bytes (buffer_write_string N s writer_create) = ?b"
    using appends_buffer_string[OF assms] wf_create by (auto simp: appends_def writer_create_def Writer_def w_bytes_def ops_bytes_def)
  then have "fst (buffer_finish N (buffer_write_string N s writer_create)) = ?b" using buffer_finish_bytes[OF assms(1)] by simp
  moreover have "ahead (Reader ?b) (varint (length (utf8_enc s)) @ utf8_enc s @ [])" using ahead_Reader[of ?b] by simp
  note buffer_read_string_block[OF assms this]
  ultimately show ?thesis by (simp add: Reader_def advance_def)
qed

theorem node_string_roundtrip_witness:
  "\<exists>r. buffer_read_string some_node (Reader (fst (buffer_finish some_node (buffer_write_string some_node [0x20AC] writer_create)))) =
     (Inr [0x20AC], r) \<and> r_pos r = r_len r"
  by (rule node_string_roundtrip[OF some_node_laws]) (simp_all add: is_high_def is_low_def js_get_def)

text \<open>A string that is cut off is read as far as it goes, where \<open>Reader\<close> throws.\<close>

lemma cut_string_accepted:
  "fst (buffer_read_string N (Reader [5, 97, 98])) = Inr (nb_utf8Slice N [97, 98])"
  "fst (read_string (Reader [5, 97, 98])) = Inl (RangeError 1 5 3)"
proof -
  have r: "read_uint32 (Reader [5, 97, 98]) = (Inr 5, advance 1 (Reader [5, 97, 98]))" by code_simp
  show "fst (buffer_read_string N (Reader [5, 97, 98])) = Inr (nb_utf8Slice N [97, 98])"
    using r by (simp add: buffer_read_string_def bind_read_def Let_def advance_def Reader_def)
  show "fst (read_string (Reader [5, 97, 98])) = Inl (RangeError 1 5 3)"
    using r by (simp add: read_string_def read_bytes_def map_read_def bind_read_def Let_def advance_def Reader_def indexOutOfRange_def)
qed

end
