(* ===== verification/Utils.thy ===== *)
theory Utils
  imports Prelude
begin

text \<open>
  Helpers of \<open>util\<close>: the accessors of a oneof and \<open>merge\<close>; and \<open>isReserved\<close> and \<open>safeProp\<close>, from which
  the code generators build the access to a property, so that a name in a descriptor must not become code. \<open>accessor\<close> is
  how the language reads such an access. An object is the list of its own properties in their order, with
  \<open>None\<close> for \<open>undefined\<close> and \<open>null\<close>; the names of properties are no array indices, which would come first.
\<close>

section \<open>The accessors of a oneof\<close>

type_synonym 'v object = "(string \<times> 'v option) list"

definition getOneOf :: "string list \<Rightarrow> 'v object \<Rightarrow> string option" where
  "getOneOf fieldNames this =
     map_option fst (find (\<lambda>(k, v). k \<in> set fieldNames \<and> v \<noteq> None) (rev this))"

definition delete_prop :: "string \<Rightarrow> 'v object \<Rightarrow> 'v object" where
  "delete_prop k this = filter (\<lambda>(k', v). k' \<noteq> k) this"

definition setOneOf :: "string list \<Rightarrow> string option \<Rightarrow> 'v object \<Rightarrow> 'v object" where
  "setOneOf fieldNames name this = fold (\<lambda>f this. if Some f \<noteq> name then delete_prop f this else this) fieldNames this"

lemma setOneOf_filter:
  "setOneOf fieldNames name this = filter (\<lambda>(k, v). k \<in> set fieldNames \<longrightarrow> Some k = name) this"
proof (induction fieldNames arbitrary: this)
  case (Cons f fs)
  then show ?case by (auto simp: setOneOf_def delete_prop_def intro!: filter_cong)
qed (simp add: setOneOf_def)

lemma map_of_filter_key: "map_of (filter (\<lambda>(k, v). P k) m) k = (if P k then map_of m k else None)"
  by (induction m) auto

lemma getOneOf_Some: "getOneOf fieldNames this = Some k \<Longrightarrow> k \<in> set fieldNames \<and> (\<exists>v. (k, Some v) \<in> set this)"
  by (auto simp: getOneOf_def find_Some_iff) (metis in_set_conv_nth length_rev set_rev)

lemma getOneOf_None: "getOneOf fieldNames this = None \<longleftrightarrow> (\<forall>k v. (k, Some v) \<in> set this \<longrightarrow> k \<notin> set fieldNames)"
  by (auto simp: getOneOf_def find_None_iff) (metis option.exhaust)

text \<open>C35 Setting a oneof to one of its fields keeps this field and all properties outside the oneof and unsets the other fields; and
  the getter then names this field exactly if it has a value.\<close>

theorem oneof_set_get:
  assumes "distinct (map fst this)" and "name \<in> set fieldNames"
  shows "map_of (setOneOf fieldNames (Some name) this) k =
      (if k \<in> set fieldNames \<and> k \<noteq> name then None else map_of this k) \<and>
    getOneOf fieldNames (setOneOf fieldNames (Some name) this) =
      (case map_of this name of Some (Some v) \<Rightarrow> Some name | _ \<Rightarrow> None)"
proof -
  let ?t = "setOneOf fieldNames (Some name) this"
  have in_t: "(k, v) \<in> set ?t \<longleftrightarrow> (k, v) \<in> set this \<and> (k \<in> set fieldNames \<longrightarrow> k = name)" for k v
    by (auto simp: setOneOf_filter)
  have "map_of ?t k = (if k \<in> set fieldNames \<and> k \<noteq> name then None else map_of this k)"
    unfolding setOneOf_filter using map_of_filter_key[of "\<lambda>k. k \<in> set fieldNames \<longrightarrow> Some k = Some name" this k] by auto
  moreover have "getOneOf fieldNames ?t = (case map_of this name of Some (Some v) \<Rightarrow> Some name | _ \<Rightarrow> None)"
  proof (cases "getOneOf fieldNames ?t")
    case None
    then have "(name, Some v) \<notin> set this" for v using assms(2) in_t by (auto simp: getOneOf_None)
    then show ?thesis using None assms(1) by (auto split: option.splits dest: map_of_SomeD)
  next
    case (Some k)
    then obtain v where "k = name" "(name, Some v) \<in> set this" using getOneOf_Some in_t by metis
    then show ?thesis using Some assms(1) by simp
  qed
  ultimately show ?thesis by blast
qed

theorem oneof_set_get_witness:
  "map_of (setOneOf [''a'', ''b''] (Some ''b'') [(''a'', Some (1 :: nat)), (''c'', Some 2), (''b'', Some 3)]) ''a'' = None \<and>
   getOneOf [''a'', ''b''] (setOneOf [''a'', ''b''] (Some ''b'') [(''a'', Some (1 :: nat)), (''c'', Some 2), (''b'', Some 3)]) = Some ''b''"
  using oneof_set_get[of "[(''a'', Some (1 :: nat)), (''c'', Some 2), (''b'', Some 3)]" "''b''" "[''a'', ''b'']" "''a''"] by simp

text \<open>With nothing to set all fields are unset.\<close>

lemma oneof_unset: "getOneOf fieldNames (setOneOf fieldNames None this) = None"
  by (auto simp: getOneOf_None setOneOf_filter)

section \<open>Objects\<close>

definition set_prop :: "string \<Rightarrow> 'v option \<Rightarrow> 'v object \<Rightarrow> 'v object" where
  "set_prop k v m = (if k \<in> fst ` set m then map (\<lambda>(k', v'). (k', if k' = k then v else v')) m else m @ [(k, v)])"

text \<open>\<open>merge\<close>; \<open>undef\<close> tells which values of properties are \<open>undefined\<close>.\<close>

definition merge_objects :: "('v option \<Rightarrow> bool) \<Rightarrow> bool \<Rightarrow> 'v object \<Rightarrow> 'v object \<Rightarrow> 'v object" where
  "merge_objects undef ifNotSet dst src =
     fold (\<lambda>(k, v) dst.
        if (case map_of dst k of None \<Rightarrow> True | Some x \<Rightarrow> undef x) \<or> \<not> ifNotSet then set_prop k v dst else dst) src dst"

lemma map_of_set_prop: "map_of (set_prop k v m) k' = (if k' = k then Some v else map_of m k')"
proof (cases "k \<in> fst ` set m")
  case True
  have "map_of (map (\<lambda>(k', v'). (k', if k' = k then v else v')) m) k' = map_option (\<lambda>x. if k' = k then v else x) (map_of m k')"
    by (induction m) auto
  moreover have "map_of m k \<noteq> None" using True by (simp add: map_of_eq_None_iff)
  ultimately show ?thesis using True by (auto simp: set_prop_def option.map_id[unfolded id_def])
next
  case False
  then have "map_of m k = None" by (simp add: map_of_eq_None_iff)
  then show ?thesis using False by (cases "k' = k") (auto simp: set_prop_def map_add_def split: option.split)
qed

lemma merge_objects_map:
  "distinct (map fst src) \<Longrightarrow> map_of (merge_objects undef ifNotSet dst src) k =
    (case map_of src k of
       Some v \<Rightarrow> if (case map_of dst k of None \<Rightarrow> True | Some x \<Rightarrow> undef x) \<or> \<not> ifNotSet then Some v else map_of dst k
     | None \<Rightarrow> map_of dst k)"
proof (induction src arbitrary: dst)
  case (Cons x src)
  obtain k' v where x: "x = (k', v)" by force
  then have "map_of src k' = None" using Cons.prems by (simp add: map_of_eq_None_iff)
  then show ?case
    using Cons.IH Cons.prems x by (auto simp: merge_objects_def map_of_set_prop split: option.splits)
qed (simp add: merge_objects_def)

section \<open>Names in generated code\<close>

definition quote :: char where "quote = CHR 0x22"

definition reverse_solidus :: char where "reverse_solidus = CHR 0x5C"

definition isReserved :: "string \<Rightarrow> bool" where
  "isReserved name \<longleftrightarrow> name \<in> set
     [''do'', ''if'', ''in'', ''for'', ''let'', ''new'', ''try'', ''var'', ''case'', ''else'', ''enum'', ''eval'', ''false'',
      ''null'', ''this'', ''true'', ''void'', ''with'', ''break'', ''catch'', ''class'', ''const'', ''super'', ''throw'',
      ''while'', ''yield'', ''delete'', ''export'', ''import'', ''public'', ''return'', ''static'', ''switch'', ''typeof'',
      ''default'', ''extends'', ''finally'', ''package'', ''private'', ''continue'', ''debugger'', ''function'',
      ''arguments'', ''interface'', ''protected'', ''implements'', ''instanceof'']"

definition name_char :: "char \<Rightarrow> bool" where
  "name_char c \<longleftrightarrow> c = CHR ''$'' \<or> word_char c"

text \<open>Both replacements in one pass: backslashes are doubled first, then quotes get one.\<close>

definition escape_backslashes :: "string \<Rightarrow> string" where
  "escape_backslashes s = concat (map (\<lambda>c. if c = reverse_solidus then [reverse_solidus, reverse_solidus] else [c]) s)"

definition escape_quotes :: "string \<Rightarrow> string" where
  "escape_quotes s = concat (map (\<lambda>c. if c = quote then [reverse_solidus, quote] else [c]) s)"

definition safeProp :: "string \<Rightarrow> string" where
  "safeProp prop_name =
     (if prop_name = [] \<or> \<not> list_all name_char prop_name \<or> isReserved prop_name
      then ''['' @ [quote] @ escape_quotes (escape_backslashes prop_name) @ [quote] @ '']''
      else CHR ''.'' # prop_name)"

text \<open>Letters of names are ASCII.\<close>

definition toUpper :: "char \<Rightarrow> char" where
  "toUpper c = (let n = (of_char c :: nat) in if 97 \<le> n \<and> n \<le> 122 then char_of (n - 32) else c)"

definition toLower :: "char \<Rightarrow> char" where
  "toLower c = (let n = (of_char c :: nat) in if 65 \<le> n \<and> n \<le> 90 then char_of (n + 32) else c)"

definition ucFirst :: "string \<Rightarrow> string" where
  "ucFirst s = map toUpper (take 1 s) @ drop 1 s"

definition lcFirst :: "string \<Rightarrow> string" where
  "lcFirst s = map toLower (take 1 s) @ drop 1 s"

fun camel_rest :: "string \<Rightarrow> string" where
  "camel_rest (c # d # cs) =
     (if c = CHR ''_'' \<and> toUpper d \<noteq> d then toUpper d # camel_rest cs else c # camel_rest (d # cs))"
| "camel_rest cs = cs"

definition camelCase :: "string \<Rightarrow> string" where
  "camelCase s = take 1 s @ camel_rest (drop 1 s)"

text \<open>
  How JavaScript reads what follows an object: a dot and a name, or a string literal in brackets. The result is the
  name of the property and the rest of the code. Of the escapes of a literal only those of a quote and
  a backslash are read.
\<close>

fun literal :: "string \<Rightarrow> (string \<times> string) option" where
  "literal [] = None"
| "literal (c # cs) =
     (if c = quote then Some ([], cs)
      else if c = CHR 0x0A \<or> c = CHR 0x0D then None
      else if c = reverse_solidus then
        (case cs of
           [] \<Rightarrow> None
         | d # ds \<Rightarrow>
             if d = quote \<or> d = reverse_solidus then map_option (\<lambda>(s, rest). (d # s, rest)) (literal ds) else None)
      else map_option (\<lambda>(s, rest). (c # s, rest)) (literal cs))"

definition digit_char :: "char \<Rightarrow> bool" where
  "digit_char c \<longleftrightarrow> (let n = (of_char c :: nat) in 48 \<le> n \<and> n \<le> 57)"

definition accessor :: "string \<Rightarrow> (string \<times> string) option" where
  "accessor code =
     (if take 1 code = ''.'' then
        let name = takeWhile name_char (tl code)
        in if name = [] \<or> digit_char (hd name) then None else Some (name, dropWhile name_char (tl code))
      else if take 2 code = [CHR ''['', quote] then
        (case literal (drop 2 code) of
           Some (s, c # rest) \<Rightarrow> if c = CHR '']'' then Some (s, rest) else None
         | _ \<Rightarrow> None)
      else None)"

lemma escape_both:
  "escape_quotes (escape_backslashes s) =
     concat (map (\<lambda>c. if c = quote \<or> c = reverse_solidus then [reverse_solidus, c] else [c]) s)"
  by (induction s) (simp_all add: escape_quotes_def escape_backslashes_def quote_def reverse_solidus_def)

lemma literal_escape:
  "CHR 0x0A \<notin> set s \<Longrightarrow> CHR 0x0D \<notin> set s \<Longrightarrow>
   literal (escape_quotes (escape_backslashes s) @ quote # rest) = Some (s, rest)"
  unfolding escape_both
  by (induction s) (auto simp: quote_def reverse_solidus_def)

text \<open>C31 The accessor that the generators put into their code denotes the property of that name and nothing else, whatever quotes,
  backslashes or reserved words the name has, and the code behind it is left alone: a name is never run as code. Excepted are names with
  line breaks and names of word characters that start with a digit.\<close>

theorem safeProp_denotes:
  assumes "CHR 0x0A \<notin> set name" and "CHR 0x0D \<notin> set name" and "list_all name_char name \<longrightarrow> name = [] \<or> \<not> digit_char (hd name)"
    and "list_all name_char name \<longrightarrow> code = [] \<or> \<not> name_char (hd code)"
  shows "accessor (safeProp name @ code) = Some (name, code)"
proof (cases "name = [] \<or> \<not> list_all name_char name \<or> isReserved name")
  case True
  then show ?thesis
    using literal_escape[OF assms(1,2), of "CHR '']'' # code"] by (simp add: safeProp_def accessor_def)
next
  case False
  then have "takeWhile name_char (name @ code) = name" "dropWhile name_char (name @ code) = code"
    using assms(4) by (cases code; simp add: list_all_iff)+
  then show ?thesis using False assms(3) by (simp add: safeProp_def accessor_def)
qed

theorem safeProp_denotes_witness:
  "accessor (safeProp (quote # '']=evil();//'' @ [reverse_solidus]) @ ''=1'') = Some (quote # '']=evil();//'' @ [reverse_solidus], ''=1'')"
proof (rule safeProp_denotes)
  have "\<not> name_char quote" by code_simp
  then show "list_all name_char (quote # '']=evil();//'' @ [reverse_solidus]) \<longrightarrow>
      quote # '']=evil();//'' @ [reverse_solidus] = [] \<or> \<not> digit_char (hd (quote # '']=evil();//'' @ [reverse_solidus]))"
    and "list_all name_char (quote # '']=evil();//'' @ [reverse_solidus]) \<longrightarrow> ''=1'' = [] \<or> \<not> name_char (hd ''=1'')"
    by simp_all
qed (simp_all add: quote_def reverse_solidus_def)

text \<open>The exceptions: the code does not compile.\<close>

lemma safeProp_exceptions:
  "accessor (safeProp ''1st'') = None" "accessor (safeProp [CHR ''a'', CHR 0x0A]) = None"
  by code_simp+

end
