(* ===== verification/OneOfs.thy ===== *)
theory OneOfs
  imports Members Descriptors
begin

text \<open>
  Oneofs as reflection objects: \<open>OneOf\<close>, and the parts of \<open>Type\<close> that are about them. Beside the store of the other
  objects there are the oneofs, the table of them that each type has, and which oneof a field is part of. \<open>onAdd\<close> takes
  whatever the parent has under a name; where that is a oneof the result is \<open>outside\<close>. As in \<open>Reflect\<close>, \<open>d\<close> is
  the depth of calls.
\<close>

section \<open>Oneofs\<close>

record oneof =
  n_name :: string
  n_options :: "json option"
  n_parent :: "nat option"
  n_oneof :: "string list"
  n_fieldsArray :: "nat list"

record world =
  w_st :: store
  w_one :: "nat \<Rightarrow> oneof"
  w_table :: "nat \<Rightarrow> (string \<times> nat) list"   \<comment> \<open>\<open>oneofs\<close> of a type\<close>
  w_partOf :: "nat \<Rightarrow> nat option"

datatype member = Obj nat | One nat

type_synonym world_result = "(js_error + unit) \<times> world"

text \<open>The constructor: without an array of names, the second argument is the options. Names that are no strings are outside.\<close>

definition OneOf :: "string \<Rightarrow> json option \<Rightarrow> json option \<Rightarrow> js_error + oneof" where
  "OneOf name fieldNames options =
     (let (names, os) = (case fieldNames of Some (JArr xs) \<Rightarrow> (Some xs, options) | _ \<Rightarrow> (None, fieldNames))
      in if truthy os \<and> \<not> is_object os then Inl (TypeError ''options must be an object'')
         else
           let strings = (case names of None \<Rightarrow> [] | Some xs \<Rightarrow> map (\<lambda>x. case x of JStr s \<Rightarrow> Some s | _ \<Rightarrow> None) xs)
           in if None \<in> set strings then Inl outside
              else Inr \<lparr>n_name = name, n_options = os, n_parent = None, n_oneof = map the strings, n_fieldsArray = []\<rparr>)"

definition OneOf_fromJSON :: "string \<Rightarrow> json \<Rightarrow> js_error + oneof" where
  "OneOf_fromJSON name j = OneOf name (js_prop j ''oneof'') (js_prop j ''options'')"

definition OneOf_toJSON :: "oneof \<Rightarrow> json" where
  "OneOf_toJSON n = toObject [(''options'', n_options n), (''oneof'', Some (JArr (map JStr (n_oneof n))))]"

lemma OneOf_roundtrip:
  assumes "n_options n = None \<or> is_object (n_options n)"
  shows "OneOf_fromJSON (n_name n) (OneOf_toJSON n) = Inr (n\<lparr>n_parent := None, n_fieldsArray := []\<rparr>)"
proof -
  have p: "js_prop (OneOf_toJSON n) ''oneof'' = Some (JArr (map JStr (n_oneof n)))" "js_prop (OneOf_toJSON n) ''options'' = n_options n"
    by (simp_all add: OneOf_toJSON_def)
  have "None \<notin> set (map Some (n_oneof n))" by simp
  then show ?thesis
    using assms p by (auto simp: OneOf_fromJSON_def OneOf_def truthy_def is_object_def comp_def intro!: oneof.equality)
qed

definition on_one :: "nat \<Rightarrow> (oneof \<Rightarrow> oneof) \<Rightarrow> world \<Rightarrow> world" where
  "on_one n f w = w\<lparr>w_one := (w_one w)(n := f (w_one w n))\<rparr>"

definition on_store :: "(store \<Rightarrow> op_result) \<Rightarrow> world \<Rightarrow> world_result" where
  "on_store f w = (case f (w_st w) of (r, s) \<Rightarrow> (r, w\<lparr>w_st := s\<rparr>))"

definition then_world :: "world_result \<Rightarrow> (world \<Rightarrow> world_result) \<Rightarrow> world_result" where
  "then_world p f = (case p of (Inl e, w) \<Rightarrow> (Inl e, w) | (Inr _, w) \<Rightarrow> f w)"

fun each_world :: "(nat \<Rightarrow> world \<Rightarrow> world_result) \<Rightarrow> nat list \<Rightarrow> world \<Rightarrow> world_result" where
  "each_world f [] w = (Inr (), w)"
| "each_world f (a # as) w = then_world (f a w) (each_world f as)"

section \<open>The type\<close>

definition type_get_member :: "world \<Rightarrow> nat \<Rightarrow> string \<Rightarrow> member option" where
  "type_get_member w this name =
     (case map_of (o_fields (objs (w_st w) this)) name of
        Some a \<Rightarrow> Some (Obj a)
      | None \<Rightarrow>
          (case map_of (w_table w this) name of
             Some n \<Rightarrow> Some (One n)
           | None \<Rightarrow> map_option Obj (namespace_get (objs (w_st w) this) name)))"

text \<open>\<open>Type.add\<close> of another object: \<open>add\<close> looks for the name again, without the oneofs.\<close>

definition type_add_object :: "nat \<Rightarrow> nat \<Rightarrow> nat \<Rightarrow> world \<Rightarrow> world_result" where
  "type_add_object d this ob w =
     (if type_get_member w this (o_name (objs (w_st w) ob)) \<noteq> None then (Inl (Error ''duplicate name''), w)
      else on_store (add d this ob) w)"

definition parent_of_field :: "world \<Rightarrow> nat \<Rightarrow> nat option" where
  "parent_of_field w a = o_parent (objs (w_st w) a)"

definition addFieldsToParent :: "nat \<Rightarrow> nat \<Rightarrow> world \<Rightarrow> world_result" where
  "addFieldsToParent d n w =
     (case n_parent (w_one w n) of
        None \<Rightarrow> (Inr (), w)
      | Some p \<Rightarrow>
          each_world (\<lambda>a w. if parent_of_field w a = None then type_add_object d p a w else (Inr (), w))
            (n_fieldsArray (w_one w n)) w)"

text \<open>A field's parent is asked to remove it.\<close>

definition remove_field :: "nat \<Rightarrow> world \<Rightarrow> world_result" where
  "remove_field a w =
     (case parent_of_field w a of None \<Rightarrow> (Inr (), w) | Some p \<Rightarrow> on_store (remove p a) w)"

definition oneof_onRemove :: "nat \<Rightarrow> nat \<Rightarrow> world \<Rightarrow> world_result" where
  "oneof_onRemove n parent w =
     then_world (each_world remove_field (n_fieldsArray (w_one w n)) w)
       (\<lambda>w1. case obj_root (w_st w1) parent of
               None \<Rightarrow> (Inl hang, w1)
             | Some r \<Rightarrow> (Inr (), on_one n (\<lambda>x. x\<lparr>n_parent := None\<rparr>) w1))"

definition type_remove_oneof :: "nat \<Rightarrow> nat \<Rightarrow> world \<Rightarrow> world_result" where
  "type_remove_oneof this n w =
     (let name = n_name (w_one w n)
      in if map_of (w_table w this) name \<noteq> Some n then (Inl not_a_member, w)
         else oneof_onRemove n this
                (on_one n (\<lambda>x. x\<lparr>n_parent := None\<rparr>)
                   (w\<lparr>w_table := (w_table w)(this := assoc_del name (w_table w this))\<rparr>)))"

section \<open>Adding\<close>

text \<open>Collecting the fields that the parent has already.\<close>

fun collect_fields :: "nat \<Rightarrow> nat \<Rightarrow> string list \<Rightarrow> world \<Rightarrow> world_result" where
  "collect_fields n parent [] w = (Inr (), w)"
| "collect_fields n parent (name # names) w =
     (case type_get_member w parent name of
        None \<Rightarrow> collect_fields n parent names w
      | Some (One m) \<Rightarrow> (Inl outside, w)
      | Some (Obj a) \<Rightarrow>
          collect_fields n parent names
            (if w_partOf w a = None
             then on_one n (\<lambda>x. x\<lparr>n_fieldsArray := n_fieldsArray x @ [a]\<rparr>) (w\<lparr>w_partOf := (w_partOf w)(a := Some n)\<rparr>)
             else w))"

definition oneof_onAdd :: "nat \<Rightarrow> nat \<Rightarrow> nat \<Rightarrow> world \<Rightarrow> world_result" where
  "oneof_onAdd d n parent w =
     then_world
       (case n_parent (w_one w n) of
          None \<Rightarrow> (Inr (), w)
        | Some p \<Rightarrow> if p \<noteq> parent then type_remove_oneof p n w else (Inr (), w))
       (\<lambda>w1. let w2 = on_one n (\<lambda>x. x\<lparr>n_parent := Some parent\<rparr>) w1
             in if obj_root (w_st w2) parent = None then (Inl hang, w2)
                else then_world (collect_fields n parent (n_oneof (w_one w2 n)) w2) (addFieldsToParent d n))"

definition type_add_oneof :: "nat \<Rightarrow> nat \<Rightarrow> nat \<Rightarrow> world \<Rightarrow> world_result" where
  "type_add_oneof d this n w =
     (let name = n_name (w_one w n)
      in if type_get_member w this name \<noteq> None then (Inl (Error ''duplicate name''), w)
         else oneof_onAdd d n this (w\<lparr>w_table := (w_table w)(this := assoc_set name n (w_table w this))\<rparr>))"

definition oneof_add :: "nat \<Rightarrow> nat \<Rightarrow> nat \<Rightarrow> world \<Rightarrow> world_result" where
  "oneof_add d this a w =
     (if o_class (objs (w_st w) a) \<noteq> CField then (Inl (TypeError ''field must be a Field''), w)
      else
        then_world
          (if parent_of_field w a \<noteq> None \<and> parent_of_field w a \<noteq> n_parent (w_one w this) then remove_field a w
           else (Inr (), w))
          (\<lambda>w1. addFieldsToParent d this
             (on_one this
                (\<lambda>x. x\<lparr>n_oneof := n_oneof x @ [o_name (objs (w_st w1) a)], n_fieldsArray := n_fieldsArray x @ [a]\<rparr>)
                (w1\<lparr>w_partOf := (w_partOf w1)(a := Some this)\<rparr>))))"

text \<open>\<open>indexOf\<close> and \<open>splice\<close>: the first is taken out, if there is one.\<close>

definition oneof_remove :: "nat \<Rightarrow> nat \<Rightarrow> world \<Rightarrow> world_result" where
  "oneof_remove this a w =
     (if o_class (objs (w_st w) a) \<noteq> CField then (Inl (TypeError ''field must be a Field''), w)
      else if a \<notin> set (n_fieldsArray (w_one w this)) then (Inl not_a_member, w)
      else
        (Inr (),
         on_one this
           (\<lambda>x. x\<lparr>n_fieldsArray := remove1 a (n_fieldsArray x), n_oneof := remove1 (o_name (objs (w_st w) a)) (n_oneof x)\<rparr>)
           (w\<lparr>w_partOf := (w_partOf w)(a := None)\<rparr>)))"

section \<open>Fields and their oneof agree\<close>

definition parts_ok :: "world \<Rightarrow> bool" where
  "parts_ok w \<longleftrightarrow>
     (\<forall>n a. a \<in> set (n_fieldsArray (w_one w n)) \<longleftrightarrow> w_partOf w a = Some n) \<and>
     (\<forall>n. distinct (n_fieldsArray (w_one w n)))"

text \<open>What leaves the fields and the oneofs as they are.\<close>

definition same_parts :: "world \<Rightarrow> world \<Rightarrow> bool" where
  "same_parts w w' \<longleftrightarrow> w_partOf w' = w_partOf w \<and> (\<forall>n. n_fieldsArray (w_one w' n) = n_fieldsArray (w_one w n))"

lemma same_parts_refl [simp]: "same_parts w w"
  by (simp add: same_parts_def)

lemma same_parts_trans: "same_parts w w' \<Longrightarrow> same_parts w' w'' \<Longrightarrow> same_parts w w''"
  by (simp add: same_parts_def)

lemma same_parts_ok: "same_parts w w' \<Longrightarrow> parts_ok w' = parts_ok w"
  by (simp add: same_parts_def parts_ok_def)

lemma same_parts_step [simp]:
  "(\<And>x. n_fieldsArray (f x) = n_fieldsArray x) \<Longrightarrow> same_parts w (on_one n f w)" "same_parts w (w\<lparr>w_table := t\<rparr>)"
  "same_parts w (w\<lparr>w_st := s\<rparr>)"
  by (simp_all add: same_parts_def on_one_def)

lemma same_parts_store: "same_parts w (snd (on_store f w))"
  by (simp add: on_store_def split: prod.split)

lemma same_parts_then:
  "same_parts w (snd p) \<Longrightarrow> (\<And>w1. same_parts w1 (snd (f w1))) \<Longrightarrow> same_parts w (snd (then_world p f))"
  by (cases p; cases "fst p") (auto simp: then_world_def intro: same_parts_trans)

lemma same_parts_each: "(\<And>a w. same_parts w (snd (f a w))) \<Longrightarrow> same_parts w (snd (each_world f as w))"
  by (induction as arbitrary: w) (simp_all add: same_parts_then)

lemma same_parts_object: "same_parts w (snd (type_add_object d this a w))"
  by (simp add: type_add_object_def same_parts_store)

lemma same_parts_addFields: "same_parts w (snd (addFieldsToParent d n w))"
  unfolding addFieldsToParent_def
  by (cases "n_parent (w_one w n)") (auto intro!: same_parts_each simp: same_parts_object)

lemma same_parts_remove: "same_parts w (snd (remove_field a w))"
  by (simp add: remove_field_def same_parts_store split: option.split)

lemma same_parts_onRemove: "same_parts w (snd (oneof_onRemove n p w))"
  unfolding oneof_onRemove_def
  by (rule same_parts_then) (auto intro!: same_parts_each same_parts_remove split: option.split)

lemma same_parts_type_remove: "same_parts w (snd (type_remove_oneof p n w))"
  unfolding type_remove_oneof_def Let_def
  by (auto intro!: same_parts_trans[OF _ same_parts_onRemove] same_parts_trans[OF same_parts_step(2) same_parts_step(1)])

lemma collect_fields_ok: "parts_ok w \<Longrightarrow> parts_ok (snd (collect_fields n p names w))"
proof (induction names arbitrary: w)
  case (Cons name names)
  have "parts_ok (on_one n (\<lambda>x. x\<lparr>n_fieldsArray := n_fieldsArray x @ [a]\<rparr>) (w\<lparr>w_partOf := (w_partOf w)(a := Some n)\<rparr>))"
    if "w_partOf w a = None" for a
    using Cons.prems that by (auto simp: parts_ok_def on_one_def)
  then show ?case using Cons by (auto split: option.split member.split)
qed simp

lemma then_world_ok:
  "parts_ok (snd p) \<Longrightarrow> (\<And>w1. parts_ok w1 \<Longrightarrow> parts_ok (snd (f w1))) \<Longrightarrow> parts_ok (snd (then_world p f))"
  by (cases p; cases "fst p") (auto simp: then_world_def)

lemma oneof_onAdd_ok: "parts_ok w \<Longrightarrow> parts_ok (snd (oneof_onAdd d n p w))"
  unfolding oneof_onAdd_def Let_def
proof (rule then_world_ok)
  assume w: "parts_ok w"
  show "parts_ok (snd (case n_parent (w_one w n) of None \<Rightarrow> (Inr (), w)
      | Some q \<Rightarrow> if q \<noteq> p then type_remove_oneof q n w else (Inr (), w)))"
    using w same_parts_ok[OF same_parts_type_remove] by (simp split: option.split)
next
  fix w1 assume w1: "parts_ok w1"
  let ?w2 = "on_one n (\<lambda>x. x\<lparr>n_parent := Some p\<rparr>) w1"
  have "parts_ok ?w2" using w1 same_parts_ok[OF same_parts_step(1), of "\<lambda>x. x\<lparr>n_parent := Some p\<rparr>"] by simp
  then show "parts_ok (snd (if obj_root (w_st ?w2) p = None then (Inl hang, ?w2)
      else then_world (collect_fields n p (n_oneof (w_one ?w2 n)) ?w2) (addFieldsToParent d n)))"
    using same_parts_ok[OF same_parts_addFields] by (auto intro!: then_world_ok collect_fields_ok)
qed

lemma type_add_oneof_ok: "parts_ok w \<Longrightarrow> parts_ok (snd (type_add_oneof d this n w))"
  using same_parts_ok[OF same_parts_step(2)] by (auto simp: type_add_oneof_def Let_def intro!: oneof_onAdd_ok)

lemma oneof_add_ok:
  assumes "parts_ok w" and "w_partOf w a = None"
  shows "parts_ok (snd (oneof_add d this a w))"
proof (cases "o_class (objs (w_st w) a) = CField")
  case True
  let ?p = "if parent_of_field w a \<noteq> None \<and> parent_of_field w a \<noteq> n_parent (w_one w this) then remove_field a w else (Inr (), w)"
  have p: "same_parts w (snd ?p)" using same_parts_remove by simp
  obtain r w1 where e: "?p = (r, w1)" by force
  then have w1: "parts_ok w1" "w_partOf w1 a = None" using p assms same_parts_ok[OF p] by (simp_all add: same_parts_def)
  let ?w2 = "on_one this
      (\<lambda>x. x\<lparr>n_oneof := n_oneof x @ [o_name (objs (w_st w1) a)], n_fieldsArray := n_fieldsArray x @ [a]\<rparr>)
      (w1\<lparr>w_partOf := (w_partOf w1)(a := Some this)\<rparr>)"
  have "parts_ok ?w2" using w1 by (auto simp: parts_ok_def on_one_def)
  then have "parts_ok (snd (addFieldsToParent d this ?w2))" using same_parts_ok[OF same_parts_addFields] by simp
  then show ?thesis using True e w1 by (cases r) (simp_all add: oneof_add_def then_world_def)
qed (use assms in \<open>simp add: oneof_add_def\<close>)

lemma oneof_remove_ok: "parts_ok w \<Longrightarrow> parts_ok (snd (oneof_remove this a w))"
  by (auto simp: oneof_remove_def parts_ok_def on_one_def)

text \<open>The worlds a program reaches that adds only fields of no other oneof.\<close>

inductive oneof_reachable :: "world \<Rightarrow> bool" where
  start: "(\<And>n. n_fieldsArray (w_one w n) = []) \<Longrightarrow> w_partOf w = (\<lambda>a. None) \<Longrightarrow> oneof_reachable w"
| other: "oneof_reachable w \<Longrightarrow> oneof_reachable (w\<lparr>w_st := s\<rparr>)"
| add_object: "oneof_reachable w \<Longrightarrow> oneof_reachable (snd (type_add_object d this a w))"
| add_oneof: "oneof_reachable w \<Longrightarrow> oneof_reachable (snd (type_add_oneof d this n w))"
| remove_oneof: "oneof_reachable w \<Longrightarrow> oneof_reachable (snd (type_remove_oneof this n w))"
| add_field: "oneof_reachable w \<Longrightarrow> w_partOf w a = None \<Longrightarrow> oneof_reachable (snd (oneof_add d n a w))"
| remove_field: "oneof_reachable w \<Longrightarrow> oneof_reachable (snd (oneof_remove n a w))"

text \<open>C28 A field and its oneof agree, whatever calls fail: a oneof lists a field, and lists it once, exactly if the field is part of this
  oneof; so no field is in two oneofs. (A field that is part of a oneof must not be added to another, see below.)\<close>

theorem oneof_fields_agree:
  assumes "oneof_reachable w"
  shows "(a \<in> set (n_fieldsArray (w_one w n)) \<longleftrightarrow> w_partOf w a = Some n) \<and> distinct (n_fieldsArray (w_one w n))"
proof -
  have "parts_ok w" using assms
  proof (induction rule: oneof_reachable.induct)
    case (start w)
    then show ?case by (simp add: parts_ok_def)
  next
    case (other w s)
    then show ?case using same_parts_ok[OF same_parts_step(3)] by simp
  next
    case (add_object w d this a)
    then show ?case using same_parts_ok[OF same_parts_object] by simp
  next
    case (remove_oneof w this n)
    then show ?case using same_parts_ok[OF same_parts_type_remove] by simp
  qed (simp_all add: type_add_oneof_ok oneof_add_ok oneof_remove_ok)
  then show ?thesis by (simp add: parts_ok_def)
qed

definition loose_fields :: world where
  "loose_fields =
     \<lparr>w_st = \<lparr>objs = (\<lambda>x. ReflectionObject CField ''f'' None), free = 9\<rparr>,
      w_one = (\<lambda>n. \<lparr>n_name = ''choice'', n_options = None, n_parent = None, n_oneof = [], n_fieldsArray = []\<rparr>),
      w_table = (\<lambda>t. []), w_partOf = (\<lambda>a. None)\<rparr>"

lemma loose_fields_eval:
  "parent_of_field loose_fields a = None" "o_class (objs (w_st loose_fields) a) = CField" "w_partOf loose_fields a = None"
  "n_parent (w_one loose_fields n) = None" "n_fieldsArray (w_one loose_fields n) = []" "n_oneof (w_one loose_fields n) = []"
  "o_name (objs (w_st loose_fields) a) = ''f''"
  by (simp_all add: loose_fields_def parent_of_field_def ReflectionObject_def)

lemma oneof_add_loose:
  assumes "o_class (objs (w_st w) a) = CField" and "parent_of_field w a = None" and "n_parent (w_one w n) = None"
  shows "oneof_add d n a w =
    (Inr (), on_one n (\<lambda>x. x\<lparr>n_oneof := n_oneof x @ [o_name (objs (w_st w) a)], n_fieldsArray := n_fieldsArray x @ [a]\<rparr>)
       (w\<lparr>w_partOf := (w_partOf w)(a := Some n)\<rparr>))"
  using assms by (simp add: oneof_add_def then_world_def addFieldsToParent_def on_one_def)

theorem oneof_fields_agree_witness:
  "let w = snd (oneof_add 1 0 5 loose_fields)
   in 5 \<in> set (n_fieldsArray (w_one w 0)) \<and> w_partOf w 5 = Some 0 \<and> distinct (n_fieldsArray (w_one w 0))"
proof -
  have "oneof_reachable loose_fields" by (rule oneof_reachable.start) (simp_all add: loose_fields_def)
  then have "oneof_reachable (snd (oneof_add 1 0 5 loose_fields))" by (rule oneof_reachable.add_field) (simp add: loose_fields_eval)
  from oneof_fields_agree[OF this, of 5 0] show ?thesis
    by (simp add: oneof_add_loose loose_fields_eval on_one_def Let_def)
qed

text \<open>Adding a field to a second oneof leaves it in the first one's list as well.\<close>

lemma field_in_two_oneofs:
  "let w = snd (oneof_add 1 1 5 (snd (oneof_add 1 0 5 loose_fields)))
   in n_fieldsArray (w_one w 0) = [5] \<and> n_fieldsArray (w_one w 1) = [5] \<and> w_partOf w 5 = Some 1"
  by (simp add: oneof_add_def then_world_def addFieldsToParent_def on_one_def parent_of_field_def loose_fields_def
      ReflectionObject_def Let_def)

section \<open>Adding a oneof to a type\<close>

lemma add_new_field_parents:
  assumes "own_field (objs s a)" and "o_class (objs s p) = CType" and "o_parent (objs s a) = None"
    and "add d p a s = (Inr (), s')"
  shows "o_parent (objs s' x) = (if x = a then Some p else o_parent (objs s x)) \<and>
    own_field (objs s' x) = own_field (objs s x) \<and> o_class (objs s' x) = o_class (objs s x)"
proof (cases d)
  case (Suc k)
  have k: "own_field (y\<lparr>o_fields := t\<rparr>) = own_field y" for y :: robj and t by (simp add: own_field_def)
  have "p \<noteq> a" using assms(1,2) by (auto simp: own_field_def)
  then show ?thesis using assms Suc
    by (auto simp: Let_def type_add_def onAdd_def bind_op_def dest!: unless_hang_Inr split: if_splits sum.splits)
qed (use assms in simp)

definition owned :: "nat \<Rightarrow> world \<Rightarrow> bool" where
  "owned a w \<longleftrightarrow> parent_of_field w a = None \<longrightarrow> own_field (objs (w_st w) a)"

lemma add_missing_parents:
  assumes "o_class (objs (w_st w) p) = CType" and "\<forall>a \<in> set as. owned a w"
    and "each_world (\<lambda>a w. if parent_of_field w a = None then type_add_object d p a w else (Inr (), w)) as w = (Inr (), w')"
  shows "(\<forall>a \<in> set as. parent_of_field w' a \<noteq> None) \<and>
    (\<forall>a. parent_of_field w' a \<noteq> parent_of_field w a \<longrightarrow> a \<in> set as \<and> parent_of_field w' a = Some p) \<and>
    w_one w' = w_one w \<and> w_table w' = w_table w \<and> w_partOf w' = w_partOf w"
  using assms
proof (induction as arbitrary: w)
  case (Cons a as)
  show ?case
  proof (cases "parent_of_field w a = None")
    case False
    then obtain y where y: "parent_of_field w a = Some y" by blast
    then have rest: "each_world (\<lambda>a w. if parent_of_field w a = None then type_add_object d p a w else (Inr (), w)) as w = (Inr (), w')"
      using Cons.prems(3) by (simp add: then_world_def)
    note IH = Cons.IH[OF Cons.prems(1) _ rest]
    have "\<forall>b \<in> set as. owned b w" using Cons.prems(2) by simp
    then show ?thesis using IH False by auto (metis option.distinct(1))
  next
    case True
    obtain r w1 where st: "type_add_object d p a w = (r, w1)" by force
    have r: "r = Inr ()" and rest: "each_world (\<lambda>a w. if parent_of_field w a = None then type_add_object d p a w else (Inr (), w)) as w1 = (Inr (), w')"
      using Cons.prems(3) True st by (cases r; simp add: then_world_def)+
    then obtain s' where s': "add d p a (w_st w) = (Inr (), s')" "w1 = w\<lparr>w_st := s'\<rparr>"
      using st by (auto simp: type_add_object_def on_store_def split: if_splits prod.splits)
    have own: "own_field (objs (w_st w) a)" using Cons.prems(2) True by (simp add: owned_def)
    note par = add_new_field_parents[OF own Cons.prems(1) True[unfolded parent_of_field_def] s'(1)]
    have "\<forall>b \<in> set as. owned b w1" using Cons.prems(2) par s'(2) by (auto simp: owned_def parent_of_field_def)
    note IH = Cons.IH[OF _ this rest]
    have "o_class (objs (w_st w1) p) = CType" using par[of p] Cons.prems(1) s'(2) by simp
    note IH = IH[OF this]
    have "parent_of_field w1 x = (if x = a then Some p else parent_of_field w x)" for x
      using par[of x] s'(2) by (simp add: parent_of_field_def)
    then show ?thesis using IH True s'(2) by auto (metis option.distinct(1))+
  qed
qed simp

lemma collect_fields_frame:
  "collect_fields n p names w = (r, w') \<Longrightarrow>
   w_st w' = w_st w \<and> w_table w' = w_table w \<and> (\<forall>a. w_partOf w a \<noteq> None \<longrightarrow> w_partOf w' a = w_partOf w a) \<and>
   n_parent (w_one w' n) = n_parent (w_one w n) \<and> n_oneof (w_one w' n) = n_oneof (w_one w n)"
proof (induction names arbitrary: w)
  case (Cons name names)
  then show ?case
    by (auto simp: on_one_def split: option.splits member.splits if_splits)
qed simp

lemma type_get_member_cong:
  "w_st w' = w_st w \<Longrightarrow> w_table w' = w_table w \<Longrightarrow> type_get_member w' p name = type_get_member w p name"
  by (simp add: type_get_member_def split: option.split)

lemma collect_fields_members:
  "collect_fields n p names w = (Inr (), w') \<Longrightarrow>
   (\<forall>name \<in> set names. \<forall>a. type_get_member w p name = Some (Obj a) \<longrightarrow> w_partOf w' a \<noteq> None) \<and>
   (\<forall>a \<in> set (n_fieldsArray (w_one w' n)).
      a \<in> set (n_fieldsArray (w_one w n)) \<or> (\<exists>name. type_get_member w p name = Some (Obj a)))"
proof (induction names arbitrary: w)
  case (Cons name names)
  show ?case
  proof (cases "type_get_member w p name")
    case None
    then show ?thesis using Cons by simp
  next
    case (Some m)
    then obtain a where m: "m = Obj a" using Cons.prems by (cases m) simp_all
    let ?w1 = "if w_partOf w a = None
      then on_one n (\<lambda>x. x\<lparr>n_fieldsArray := n_fieldsArray x @ [a]\<rparr>) (w\<lparr>w_partOf := (w_partOf w)(a := Some n)\<rparr>) else w"
    have c: "collect_fields n p names ?w1 = (Inr (), w')" using Cons.prems Some m by simp
    have g: "type_get_member ?w1 p x = type_get_member w p x" for x
      by (rule type_get_member_cong) (simp_all add: on_one_def)
    have "w_partOf ?w1 a \<noteq> None" by (simp add: on_one_def)
    moreover have "w_partOf ?w1 a \<noteq> None \<Longrightarrow> w_partOf w' a = w_partOf ?w1 a" using collect_fields_frame[OF c] by blast
    ultimately have part: "w_partOf w' a \<noteq> None" by metis
    have old: "b \<in> set (n_fieldsArray (w_one w n)) \<or> b = a" if "b \<in> set (n_fieldsArray (w_one ?w1 n))" for b
      using that by (auto simp: on_one_def split: if_splits)
    note IH = Cons.IH[OF c, unfolded g]
    have "w_partOf w' b \<noteq> None" if "x \<in> set (name # names)" "type_get_member w p x = Some (Obj b)" for x b
    proof (cases "x = name")
      case True
      then show ?thesis using that(2) Some m part by simp
    next
      case False
      then show ?thesis using that conjunct1[OF IH] by simp
    qed
    moreover have "b \<in> set (n_fieldsArray (w_one w n)) \<or> (\<exists>x. type_get_member w p x = Some (Obj b))"
      if "b \<in> set (n_fieldsArray (w_one w' n))" for b
    proof -
      have "b \<in> set (n_fieldsArray (w_one ?w1 n)) \<or> (\<exists>x. type_get_member w p x = Some (Obj b))"
        using conjunct2[OF IH] that by (rule bspec)
      then show ?thesis using old[of b] Some m by blast
    qed
    ultimately show ?thesis by blast
  qed
qed simp

lemma type_get_member_parent:
  assumes "wf_store (w_st w)" and "type_get_member w p name = Some (Obj a)"
  shows "parent_of_field w a = Some p"
proof -
  have "(name, a) \<in> set (o_fields (objs (w_st w) p)) \<or> (name, a) \<in> set (nestedArray (objs (w_st w) p))"
    using assms(2)
    by (auto simp: type_get_member_def namespace_get_def nestedArray_def dest: map_of_SomeD split: option.splits)
  then show ?thesis using assms(1) by (auto simp: parent_of_field_def wf_store_def members_agree_def)
qed

text \<open>C29 A oneof that has been added to a type is complete: the type finds it under its name, every field it names and the type has belongs to
  a oneof, and every field of it is a member of a type, also those that had been added to the oneof before.\<close>

theorem type_add_oneof_complete:
  assumes "reachable (w_st w)" and "o_class (objs (w_st w) this) = CType" and "n_parent (w_one w n) = None"
    and "list_all (\<lambda>a. own_field (objs (w_st w) a)) (n_fieldsArray (w_one w n))"
    and "type_add_oneof d this n w = (Inr (), w')"
  shows "n_parent (w_one w' n) = Some this \<and> map_of (w_table w' this) (n_name (w_one w n)) = Some n \<and>
    (\<forall>name a. name \<in> set (n_oneof (w_one w n)) \<and> type_get_member w this name = Some (Obj a) \<longrightarrow> w_partOf w' a \<noteq> None) \<and>
    (\<forall>a. a \<in> set (n_fieldsArray (w_one w' n)) \<longrightarrow> parent_of_field w' a \<noteq> None)"
proof -
  let ?name = "n_name (w_one w n)"
  define w1 where "w1 = on_one n (\<lambda>x. x\<lparr>n_parent := Some this\<rparr>) (w\<lparr>w_table := (w_table w)(this := assoc_set ?name n (w_table w this))\<rparr>)"
  have w1: "w_st w1 = w_st w" "w_partOf w1 = w_partOf w" "n_oneof (w_one w1 n) = n_oneof (w_one w n)"
    "n_fieldsArray (w_one w1 n) = n_fieldsArray (w_one w n)" "n_parent (w_one w1 n) = Some this"
    "w_table w1 this = assoc_set ?name n (w_table w this)"
    by (simp_all add: w1_def on_one_def)
  have new: "type_get_member w this ?name = None" using assms(5) by (auto simp: type_add_oneof_def Let_def split: if_splits)
  then have fresh: "map_of (w_table w this) ?name = None" "?name \<notin> fst ` set (w_table w this)"
    by (auto simp: type_get_member_def map_of_eq_None_iff split: option.splits)
  then have table: "w_table w1 this = w_table w this @ [(?name, n)]" using w1(6) by (simp add: assoc_set_def)
  have get: "type_get_member w1 this x = type_get_member w this x" if "x \<noteq> ?name" for x
    using that by (simp add: type_get_member_def w1(1) table map_add_def split: option.split)
  have get_one: "type_get_member w1 this ?name = Some (One n)"
    using new fresh by (auto simp: type_get_member_def w1(1) table map_add_def split: option.splits)
  have "then_world (collect_fields n this (n_oneof (w_one w1 n)) w1) (addFieldsToParent d n) = (Inr (), w')"
    using assms(3,5) new unfolding w1_def
    by (simp add: type_add_oneof_def Let_def oneof_onAdd_def then_world_def on_one_def split: if_splits)
  then obtain w2 where c: "collect_fields n this (n_oneof (w_one w1 n)) w1 = (Inr (), w2)" and a: "addFieldsToParent d n w2 = (Inr (), w')"
    by (auto simp: then_world_def split: prod.splits sum.splits)
  note fr = collect_fields_frame[OF c] and mem = collect_fields_members[OF c]
  have wf: "wf_store (w_st w1)" using reachable_store_wf[OF assms(1)] w1(1) by simp
  have owned: "\<forall>x \<in> set (n_fieldsArray (w_one w2 n)). owned x w2"
  proof
    fix x assume x: "x \<in> set (n_fieldsArray (w_one w2 n))"
    then consider "x \<in> set (n_fieldsArray (w_one w1 n))" | name where "type_get_member w1 this name = Some (Obj x)"
      using mem by blast
    then show "owned x w2"
    proof cases
      case 1
      then have "own_field (objs (w_st w) x)" using assms(4) w1(4) by (simp add: list_all_iff)
      then show ?thesis using fr w1(1) by (simp add: owned_def)
    next
      case 2
      then have "parent_of_field w1 x = Some this" by (rule type_get_member_parent[OF wf])
      then show ?thesis using fr by (simp add: owned_def parent_of_field_def)
    qed
  qed
  have "o_class (objs (w_st w2) this) = CType" using assms(2) fr w1(1) by simp
  moreover have "n_parent (w_one w2 n) = Some this" using fr w1(5) by simp
  ultimately have add: "(\<forall>x \<in> set (n_fieldsArray (w_one w2 n)). parent_of_field w' x \<noteq> None) \<and> w_one w' = w_one w2 \<and>
      w_table w' = w_table w2 \<and> w_partOf w' = w_partOf w2"
    using add_missing_parents[OF _ owned, of this d w'] a by (simp add: addFieldsToParent_def)
  have "map_of (w_table w' this) ?name = Some n" using add fr table fresh(1) by (simp add: map_add_def)
  moreover have "w_partOf w' x \<noteq> None"
    if "name \<in> set (n_oneof (w_one w n))" "type_get_member w this name = Some (Obj x)" for name x
  proof -
    have "name \<noteq> ?name" using that(2) new by auto
    then show ?thesis using that get mem add w1(3) by metis
  qed
  ultimately show ?thesis using add fr w1(5) by auto
qed

text \<open>A type with the field \<open>x\<close>, and a oneof that names \<open>x\<close> and has been given the new field \<open>y\<close>.\<close>

definition field_obj :: "string \<Rightarrow> nat \<Rightarrow> robj" where
  "field_obj name i = (ReflectionObject CField name None)\<lparr>o_id := i\<rparr>"

definition typed_store :: store where
  "typed_store = snd (alloc (field_obj ''y'' 2) (snd (add 1 1 2 (snd (alloc (field_obj ''x'' 1)
     (snd (alloc (Type ''T'' None) start_store)))))))"

definition choice :: world where
  "choice =
     \<lparr>w_st = typed_store,
      w_one = (\<lambda>n. \<lparr>n_name = ''choice'', n_options = None, n_parent = None, n_oneof = [''x'', ''y''], n_fieldsArray = [3]\<rparr>),
      w_table = (\<lambda>t. []), w_partOf = (\<lambda>a. None)(3 := Some 0)\<rparr>"

lemma typed_store_objs:
  "objs typed_store 0 = ReflectionObject CRoot [] None"
  "objs typed_store 1 = (Type ''T'' None)\<lparr>o_fields := [(''x'', 2)]\<rparr>"
  "objs typed_store 2 = (field_obj ''x'' 1)\<lparr>o_parent := Some 1\<rparr>"
  "objs typed_store 3 = field_obj ''y'' 2"
  "free typed_store = 4"
  by (simp_all add: typed_store_def store_eval type_add_def type_get_def own_field_def field_obj_def fieldsById_def
      isReservedId_def isReservedName_def bind_op_def)

lemma typed_store_reachable: "reachable typed_store"
  unfolding typed_store_def
  by (intro reachable.add reachable.new reachable.start)
    (simp_all add: store_eval type_add_def type_get_def own_field_def field_obj_def fieldsById_def
      isReservedId_def isReservedName_def bind_op_def)

theorem type_add_oneof_complete_witness:
  "\<exists>w'. type_add_oneof 1 1 0 choice = (Inr (), w') \<and> n_fieldsArray (w_one w' 0) = [3, 2] \<and>
    n_parent (w_one w' 0) = Some 1 \<and> w_partOf w' 2 \<noteq> None \<and> parent_of_field w' 3 \<noteq> None"
proof -
  have st: "w_st choice = typed_store" "n_fieldsArray (w_one choice 0) = [3]" "n_parent (w_one choice 0) = None"
    "n_oneof (w_one choice 0) = [''x'', ''y'']"
    by (simp_all add: choice_def)
  have names: "objs typed_store (Suc 0) = (Type ''T'' None)\<lparr>o_fields := [(''x'', 2)]\<rparr>" using typed_store_objs(2) by simp
  obtain w' where w': "type_add_oneof 1 1 0 choice = (Inr (), w')" "n_fieldsArray (w_one w' 0) = [3, 2]"
    by (simp add: choice_def type_add_oneof_def type_get_member_def typed_store_objs names namespace_get_def Type_def ReflectionObject_def
        assoc_set_def oneof_onAdd_def then_world_def on_one_def obj_root_eval field_obj_def addFieldsToParent_def parent_of_field_def
        type_add_object_def on_store_def Let_def type_add_def type_get_def get_def own_field_def fieldsById_def isReservedId_def
        isReservedName_def bind_op_def onAdd_def update_def unless_hang_def)
  have own: "list_all (\<lambda>a. own_field (objs (w_st choice) a)) (n_fieldsArray (w_one choice 0))"
    by (simp add: st typed_store_objs own_field_def field_obj_def ReflectionObject_def)
  have cls: "o_class (objs (w_st choice) 1) = CType" by (simp add: st names Type_def ReflectionObject_def)
  have mem: "''x'' \<in> set (n_oneof (w_one choice 0)) \<and> type_get_member choice 1 ''x'' = Some (Obj 2)"
    by (simp add: st names type_get_member_def)
  have "reachable (w_st choice)" by (simp add: st typed_store_reachable)
  from type_add_oneof_complete[OF this cls st(3) own w'(1)] mem w' show ?thesis by auto
qed

end
