(* ===== verification/Wrappers.thy ===== *)
theory Wrappers
  imports Conversion
begin

text \<open>
  The wrapper of \<open>google.protobuf.Any\<close>, whose \<open>fromObject\<close> and \<open>toObject\<close> replace those of the type: a plain object that
  names its type becomes an \<open>Any\<close> with the encoded message, and back. \<open>a_lookup\<close> is \<open>lookup\<close> from the type \<open>Any\<close>, where it
  finds a message type. The fields of \<open>Any\<close> are \<open>type_url\<close> and \<open>value\<close>, in this order, and no other type has both;
  no field of the schema is an \<open>Any\<close>. A message is the number of its type and its slots.
\<close>

section \<open>The wrapper\<close>

record any_env =
  a_depth :: nat
  a_Long :: "long_lib option"
  a_schema :: cschema
  a_any :: nat
  a_lookup :: "string \<Rightarrow> nat option"
  a_fullName :: "nat \<Rightarrow> string"

definition type_prop :: "plain \<Rightarrow> plain" where
  "type_prop d =
     (case d of
        PObj m \<Rightarrow> (case map_of m (js_text ''@type'') of Some x \<Rightarrow> x | None \<Rightarrow> PUndefined)
      | _ \<Rightarrow> PUndefined)"

definition without_dot :: "js_string \<Rightarrow> js_string" where
  "without_dot t = (if take 1 t = js_text ''.'' then drop 1 t else t)"

definition codec_schema :: "any_env \<Rightarrow> schema" where
  "codec_schema E = schema_of (vschema_of (a_schema E))"

text \<open>Where the named type is \<open>Any\<close> itself, its \<open>fromObject\<close> is the wrapper again, which calls itself until the stack is full.\<close>

definition any_fromObject :: "any_env \<Rightarrow> plain \<Rightarrow> val option list outcome" where
  "any_fromObject E d =
     (let from_any = fromObject (a_depth E) (a_Long E) (a_schema E) (a_any E) d
      in if is_falsy (type_prop d) then from_any
         else (case type_prop d of
                 PStr t \<Rightarrow>
                   (case a_lookup E (of_text t) of
                      None \<Rightarrow> from_any
                    | Some n \<Rightarrow>
                        if n = a_any E then Thrown stack_overflow
                        else
                        (case a_schema E n of
                           None \<Rightarrow> Outside
                         | Some T \<Rightarrow>
                             bind_outcome (fromObject (a_depth E) (a_Long E) (a_schema E) n d)
                               (\<lambda>slots. bind_outcome (encode (a_depth E) (codec_schema E) (mtype_of (vtype_of T)) slots writer_create)
                                  (\<lambda>w. Done [Some (VString (js_text ''/'' @ without_dot t)), Some (VBytes (fst (finish w)))]))))
               | _ \<Rightarrow> Outside))"

text \<open>\<open>substring(lastIndexOf("/") + 1)\<close>\<close>

definition after_slash :: "js_string \<Rightarrow> js_string" where
  "after_slash url = rev (takeWhile (\<lambda>c. c \<noteq> 47) (rev url))"

text \<open>The message that is decoded, if it is; \<open>value\<close> has a default, an empty array.\<close>

definition any_unpack :: "any_env \<Rightarrow> conversion_options \<Rightarrow> nat \<times> val option list \<Rightarrow> (nat \<times> val option list) outcome" where
  "any_unpack E opts message =
     (case message of
        (k, slots) \<Rightarrow>
          if k \<noteq> a_any E \<or> \<not> o_json opts then Done (k, slots)
          else (case slots of
                  [Some (VString url), value] \<Rightarrow>
                    (case (if url = [] then None else a_lookup E (of_text (after_slash url))) of
                       None \<Rightarrow> Done (k, slots)
                     | Some n \<Rightarrow>
                         (case (a_schema E n, case value of None \<Rightarrow> Some [] | Some (VBytes bs) \<Rightarrow> Some bs | _ \<Rightarrow> None) of
                            (Some T, Some bs) \<Rightarrow>
                              (case decode (a_depth E) (a_Long E \<noteq> None) (codec_schema E) (mtype_of (vtype_of T)) None (Reader bs) of
                                 Some (Inr slots', r) \<Rightarrow> Done (n, slots')
                               | Some (Inl e, r) \<Rightarrow> Thrown e
                               | None \<Rightarrow> Outside)
                          | _ \<Rightarrow> Outside))
                | _ \<Rightarrow> Done (k, slots)))"

definition any_toObject :: "any_env \<Rightarrow> conversion_options \<Rightarrow> nat \<times> val option list \<Rightarrow> plain outcome" where
  "any_toObject E opts message =
     bind_outcome (any_unpack E opts message)
       (\<lambda>(k, slots).
          if k \<noteq> a_any E then
            bind_outcome (toObject (a_depth E) (a_Long E) opts (a_schema E) k slots)
              (\<lambda>d. case d of
                     PObj m \<Rightarrow> Done (PObj (obj_set (js_text ''@type'') (PStr (js_text (a_fullName E k))) m))
                   | _ \<Rightarrow> Outside)
          else toObject (a_depth E) (a_Long E) opts (a_schema E) k slots)"

section \<open>A message goes through Any\<close>

lemma fromObject_other_property:
  assumes "S n = Some T" and "\<forall>f \<in> set (ct_fields T). f_name f \<noteq> k"
  shows "fromObject depth L S n (PObj (obj_set (js_text k) v m)) = fromObject depth L S n (PObj m)"
proof (cases depth)
  case (Suc d)
  have "bind_outcome (get_prop (PObj (obj_set (js_text k) v m)) (f_name f)) g = bind_outcome (get_prop (PObj m) (f_name f)) g"
    if "f \<in> set (ct_fields T)" for f and g :: "plain \<Rightarrow> val option outcome"
    using assms(2) that by (auto simp: get_prop_def)
  then have "set fs \<subseteq> set (ct_fields T) \<Longrightarrow>
      each_outcome (\<lambda>f. bind_outcome (get_prop (PObj (obj_set (js_text k) v m)) (f_name f)) (g f)) fs =
      each_outcome (\<lambda>f. bind_outcome (get_prop (PObj m) (f_name f)) (g f)) fs" for fs and g :: "cfield \<Rightarrow> plain \<Rightarrow> val option outcome"
    by (induction fs) auto
  then show ?thesis using assms(1) Suc by simp
qed simp

lemma after_slash: "47 \<notin> set t \<Longrightarrow> after_slash (u @ 47 # t) = t"
proof -
  assume "47 \<notin> set t"
  then have "\<forall>c \<in> set (rev t). c \<noteq> 47" by auto
  then have "takeWhile (\<lambda>c. c \<noteq> 47) (rev t @ 47 # rev u) = rev t" by (subst takeWhile_append2) auto
  then show "after_slash (u @ 47 # t) = t" by (simp add: after_slash_def)
qed

lemma js_text_simps: "js_text (c # cs) = word_of_nat (of_char c) # js_text cs" "js_text [] = []"
  by (simp_all add: js_text_def)

text \<open>C6 A message goes through \<open>Any\<close> in JSON: its plain object, with \<open>@type\<close>, becomes an \<open>Any\<close> that holds the encoded message, and
  this \<open>Any\<close> becomes the same plain object again; for a type whose name is found with and without its leading dot.\<close>

theorem any_roundtrip:
  assumes kept: "msg_kept (a_depth E) (a_Long E) opts (a_schema E) n slots" "\<not> o_defaults opts" "o_json opts"
      "\<forall>lib. a_Long E = Some lib \<longrightarrow> long_laws lib"
    and T: "a_schema E n = Some T" "n \<noteq> a_any E" "list_all (\<lambda>f. f_name f \<noteq> ''@type'') (ct_fields T)" "\<not> ct_group T"
    and wf: "wf_msg (a_depth E) (a_Long E \<noteq> None) (codec_schema E) (mtype_of (vtype_of T)) slots"
    and name: "a_fullName E n = CHR ''.'' # name" "47 \<notin> set (js_text name)"
      "a_lookup E (CHR ''.'' # name) = Some n" "a_lookup E name = Some n"
  shows "\<exists>m any. any_toObject E opts (n, slots) = Done (PObj m) \<and> map_of m (js_text ''@type'') = Some (PStr (js_text (a_fullName E n))) \<and>
    any_fromObject E (PObj m) = Done any \<and> any_toObject E opts (a_any E, any) = Done (PObj m)"
proof -
  let ?t = "js_text (a_fullName E n)" and ?M = "mtype_of (vtype_of T)"
  obtain m where m: "toObject (a_depth E) (a_Long E) opts (a_schema E) n slots = Done (PObj m)"
    "fromObject (a_depth E) (a_Long E) (a_schema E) n (PObj m) = Done slots"
    using conversion_back[of "a_Long E" opts "a_depth E" "a_schema E" n slots] kept by (auto simp: lossless_def)
  define o1 where "o1 = obj_set (js_text ''@type'') (PStr ?t) m"
  have at_type: "map_of o1 (js_text ''@type'') = Some (PStr ?t)" by (simp add: o1_def)
  have fields_back: "fromObject (a_depth E) (a_Long E) (a_schema E) n (PObj o1) = Done slots"
    unfolding o1_def using T(3) m(2) by (subst fromObject_other_property[where T = T]) (auto simp: T(1) list_all_iff)
  have "\<not> mt_group ?M" using T(4) by (simp add: mtype_of_def vtype_of_def)
  then obtain w r where w: "encode (a_depth E) (codec_schema E) ?M slots writer_create = Done w"
    "decode (a_depth E) (a_Long E \<noteq> None) (codec_schema E) ?M None (Reader (fst (finish w))) = Some (Inr slots, r)"
    using encode_decode[OF wf] by blast
  have t: "without_dot ?t = js_text name" using name(1) by (simp add: without_dot_def js_text_simps)
  have ne: "?t \<noteq> []" "of_text ?t = CHR ''.'' # name" by (simp add: name(1) js_text_simps(1), simp add: name(1))
  let ?any = "[Some (VString (js_text ''/'' @ js_text name)), Some (VBytes (fst (finish w)))]"
  have "any_fromObject E (PObj o1) = Done ?any"
    using at_type fields_back w(1) T(1,2) name(3) t ne by (simp add: any_fromObject_def type_prop_def is_falsy_def)
  moreover have "after_slash (js_text ''/'' @ js_text name) = js_text name"
    using after_slash[OF name(2), of "[]"] by (simp add: js_text_simps)
  then have "any_unpack E opts (a_any E, ?any) = Done (n, slots)"
    using w(2) T(1) name(4) kept(3) by (simp add: any_unpack_def js_text_simps)
  moreover have "any_unpack E opts (n, slots) = Done (n, slots)" using T(2) by (simp add: any_unpack_def)
  ultimately show ?thesis using m(1) T(2) at_type by (auto simp: any_toObject_def o1_def)
qed

text \<open>The same vote as before, in an \<open>Any\<close>.\<close>

definition vote_env :: any_env where
  "vote_env =
     \<lparr>a_depth = 1, a_Long = Some hash_lib, a_schema = vote_schema, a_any = 7,
      a_lookup = (\<lambda>s. if s = ''.Vote'' \<or> s = ''Vote'' then Some 0 else None), a_fullName = (\<lambda>n. ''.Vote'')\<rparr>"

theorem any_roundtrip_witness:
  "\<exists>m any. any_toObject vote_env toJSONOptions (0, vote) = Done (PObj m) \<and>
    map_of m (js_text ''@type'') = Some (PStr (js_text ''.Vote'')) \<and>
    any_fromObject vote_env (PObj m) = Done any \<and> any_toObject vote_env toJSONOptions (7, any) = Done (PObj m)"
proof -
  have S: "vote_schema 0 = Some \<lparr>ct_name = ''Vote'', ct_fields = vote_fields, ct_group = False\<rparr>"
    by (simp add: vote_schema_def)
  have b: "types_basic ''bytes'' = Some 2" "types_basic ''uint64'' = Some 0" by code_simp+
  have serial: "scalar_ok True ''uint64'' (VLong \<lparr>low = 7, high = - 1, unsigned = True\<rparr>)"
    by (rule scalar_ok.uint64[where b = "LongBits 7 (- 1)"]) (simp_all add: long_result_def toLong_def to_uint32_def)
  have wf: "wf_msg 1 True (codec_schema vote_env) (mtype_of (vtype_of \<lparr>ct_name = ''Vote'', ct_fields = vote_fields, ct_group = False\<rparr>)) vote"
    using b serial by (simp add: mtype_of_def vtype_of_def vote_fields_def vote_def wf_fields_def wf_slot_def wf_value_def codec_type_def
        field.truncate_def vfield.truncate_def scalar_block_def varint_small long_ok_def bytes_ok_def)
  have env: "a_depth vote_env = 1" "a_Long vote_env = Some hash_lib" "a_schema vote_env = vote_schema" "a_any vote_env = 7"
    "a_fullName vote_env 0 = ''.Vote''" "a_lookup vote_env ''.Vote'' = Some 0" "a_lookup vote_env ''Vote'' = Some 0"
    by (simp_all add: vote_env_def)
  have types: "list_all (\<lambda>f. f_name f \<noteq> ''@type'') vote_fields" by (simp add: vote_fields_def)
  have slash: "47 \<notin> set (js_text ''Vote'')" by (simp add: js_text_def)
  have opts: "\<not> o_defaults toJSONOptions" "o_json toJSONOptions" by (simp_all add: toJSONOptions_def no_options_def)
  from any_roundtrip[of vote_env toJSONOptions 0 vote _ "''Vote''", unfolded env, OF vote_kept opts _ S _ _ _ _ refl slash refl refl]
    hash_lib_laws types wf
  show ?thesis by simp
qed

end
